(* ===== verification/CloudPrelude.thy ===== *)
theory CloudPrelude
  imports Main "HOL-Library.Word" "HOL-Library.List_Lexorder" "HOL-Library.Char_ord"
begin

text \<open>
  The prelude of the development: the types the components share (byte strings,
  machine integers, Go errors and gRPC status codes), the two pieces of the Go
  standard library that nearly every component uses (\<open>encoding/binary\<close> and
  byte-slice comparison) and the generic lemmas on lists and words.

  A Go \<open>[]byte\<close> and a Go \<open>string\<close> are both a list of 8-bit words; the order \<open><\<close>
  on them is the lexicographic order of \<open>HOL-Library.List_Lexorder\<close>, which is what
  \<open>bytes.Compare\<close>, \<open>strings.Compare\<close> and Pebble's default comparer use. A nil slice
  and an empty slice are both the empty list, since the code only ever takes their
  length. \<open>int64\<close> and \<open>uint64\<close> are 64-bit words, read with \<open>sint\<close> and \<open>unat\<close>.
  Object-store paths, table names and error texts are HOL strings.
\<close>

named_theorems byte_simps \<open>evaluation of byte and integer encodings\<close>
named_theorems order_simps \<open>lexicographic comparison of concatenated byte strings\<close>

type_synonym byte = "8 word"
type_synonym bytes = "byte list"
type_synonym int64 = "64 word"
type_synonym uint64 = "64 word"

section \<open>Errors\<close>

text \<open>The gRPC status codes the server uses, with their numeric values.\<close>

datatype code = OK | InvalidArgument | NotFound | FailedPrecondition | OutOfRange
  | Unimplemented | Internal | Unknown

datatype status = Status (st_code: code) (st_msg: string)

section \<open>The standard library's big-endian integers\<close>

text \<open>\<open>binary.BigEndian.PutUint16/PutUint64\<close> write the \<open>n\<close> low bytes of a number,
  most significant first; \<open>Uint16/Uint64\<close> read them back.\<close>

fun be_put :: "nat \<Rightarrow> nat \<Rightarrow> bytes" where
  "be_put 0 x = []"
| "be_put (Suc n) x = of_nat (x div 256 ^ n) # be_put n x"

definition be_get :: "bytes \<Rightarrow> nat" where
  "be_get bs = foldl (\<lambda>a b. a * 256 + unat b) 0 bs"

definition PutUint16 :: "16 word \<Rightarrow> bytes" where
  "PutUint16 v = be_put 2 (unat v)"

definition PutUint64 :: "64 word \<Rightarrow> bytes" where
  "PutUint64 v = be_put 8 (unat v)"

definition Uint16 :: "bytes \<Rightarrow> 16 word" where
  "Uint16 bs = of_nat (be_get (take 2 bs))"

definition Uint64 :: "bytes \<Rightarrow> 64 word" where
  "Uint64 bs = of_nat (be_get (take 8 bs))"

section \<open>Slices\<close>

text \<open>\<open>make([]byte, n)\<close>, \<open>copy(buf[off:], src)\<close> (which copies only what fits) and
  the slice expression \<open>xs[a:b]\<close>.\<close>

definition make_bytes :: "nat \<Rightarrow> bytes" where
  "make_bytes n = replicate n 0"

definition copy_at :: "bytes \<Rightarrow> nat \<Rightarrow> bytes \<Rightarrow> bytes" where
  "copy_at buf off src =
     take off buf @ take (length buf - off) src @ drop (off + length src) buf"

definition slice :: "'a list \<Rightarrow> nat \<Rightarrow> nat \<Rightarrow> 'a list" where
  "slice xs a b = take (b - a) (drop a xs)"

lemma length_make_bytes [simp]: "length (make_bytes n) = n"
  by (simp add: make_bytes_def)

lemma make_bytes_add: "make_bytes (m + n) = make_bytes m @ make_bytes n"
  by (simp add: make_bytes_def replicate_add)

lemma copy_at_append:
  assumes "length xs = off" "length ys = length src"
  shows "copy_at (xs @ ys @ zs) off src = xs @ src @ zs"
  using assms by (simp add: copy_at_def)

lemma list_update_mid: "length xs = i \<Longrightarrow> (xs @ y # zs)[i := v] = xs @ v # zs"
  by (simp add: list_update_append)

section \<open>Lemmas on byte strings\<close>

lemma less_append_same [simp, order_simps]: "xs @ ys < xs @ zs \<longleftrightarrow> ys < (zs :: 'a::linorder list)"
  by (induction xs) auto

lemma le_append_same [simp, order_simps]: "xs @ ys \<le> xs @ zs \<longleftrightarrow> ys \<le> (zs :: 'a::linorder list)"
  by (induction xs) auto

lemma append_le_self [simp]: "xs \<le> xs @ (ys :: 'a::linorder list)"
  by (induction xs) auto

lemma less_append_eq_length:
  fixes xs ys :: "'a::linorder list"
  assumes "length xs = length ys"
  shows "xs @ us < ys @ vs \<longleftrightarrow> xs < ys \<or> xs = ys \<and> us < vs"
  using assms by (induction xs ys rule: list_induct2) auto

lemma length_be_put [simp]: "length (be_put n x) = n"
  by (induction n) auto

lemma length_PutUint16 [simp]: "length (PutUint16 v) = 2"
  by (simp add: PutUint16_def)

lemma length_PutUint64 [simp]: "length (PutUint64 v) = 8"
  by (simp add: PutUint64_def)

lemma unat_of_nat_byte: "unat (of_nat x :: byte) = x mod 256"
  by (simp add: unat_of_nat)

lemma be_foldl:
  "foldl (\<lambda>a b. a * 256 + unat (b :: byte)) a bs = a * 256 ^ length bs + be_get bs"
proof (induction bs arbitrary: a)
  case Nil
  then show ?case by (simp add: be_get_def)
next
  case (Cons b bs)
  have "be_get (b # bs) = unat b * 256 ^ length bs + be_get bs"
    using Cons.IH [of "unat b"] by (simp add: be_get_def)
  then show ?case
    using Cons.IH [of "a * 256 + unat b"] by (simp add: algebra_simps)
qed

lemma be_get_Cons: "be_get (b # bs) = unat b * 256 ^ length bs + be_get bs"
  using be_foldl [of "unat b" bs] by (simp add: be_get_def)

lemma be_get_Nil [simp]: "be_get [] = 0"
  by (simp add: be_get_def)

lemma div_mod_split: "(x div k) mod m * k + x mod k = x mod (k * m)" for x k m :: nat
  by (metis add.commute mod_mult2_eq mult.commute)

lemma be_get_put: "be_get (be_put n x) = x mod 256 ^ n"
proof (induction n)
  case 0
  then show ?case by simp
next
  case (Suc n)
  then show ?case
    using div_mod_split [of x "256 ^ n" 256]
    by (simp add: be_get_Cons unat_of_nat_byte mult.commute)
qed

lemma be_get_less: "be_get bs < 256 ^ length bs"
proof (induction bs)
  case Nil
  then show ?case by simp
next
  case (Cons b bs)
  have "unat b \<le> 255"
    using unsigned_less [of b, where 'a = nat] by simp
  then have "unat b * 256 ^ length bs \<le> 255 * 256 ^ length bs"
    by (rule mult_le_mono1)
  with Cons show ?case unfolding be_get_Cons length_Cons power_Suc by linarith
qed

lemma be_put_shift: "n \<le> m \<Longrightarrow> be_put n (k * 256 ^ m + y) = be_put n y"
proof (induction n)
  case 0
  then show ?case by simp
next
  case (Suc n)
  then obtain d where m: "m = Suc d + n"
    by (metis add_Suc add.commute le_Suc_ex)
  have "k * 256 ^ m = (k * 256 ^ Suc d) * 256 ^ n"
    by (simp add: m power_add)
  then have "(k * 256 ^ m + y) div 256 ^ n = k * 256 ^ Suc d + y div 256 ^ n"
    by (simp only: div_mult_self3 div_mult_self4 power_not_zero) simp
  moreover have "(of_nat (k * 256 ^ Suc d + y div 256 ^ n) :: byte) = of_nat (y div 256 ^ n)"
  proof -
    have z: "(256 :: byte) = 0" by simp
    have "(of_nat (k * 256 ^ Suc d) :: byte) = of_nat k * (256 * of_nat (256 ^ d))"
      by simp
    also have "\<dots> = 0" by (simp only: z mult_zero_left mult_zero_right)
    finally show ?thesis by (simp only: of_nat_add add_0)
  qed
  ultimately show ?case
    using Suc by simp
qed

lemma be_put_get: "be_put (length bs) (be_get bs) = bs"
proof (induction bs)
  case Nil
  then show ?case by simp
next
  case (Cons b bs)
  have "be_put (length bs) (be_get (b # bs)) = bs"
    by (simp add: be_get_Cons be_put_shift Cons)
  moreover have "be_get (b # bs) div 256 ^ length bs = unat b"
    using be_get_less [of bs] by (simp add: be_get_Cons)
  ultimately show ?case by simp
qed

lemma less_div_mod:
  fixes p x y :: nat
  assumes "0 < p"
  shows "x < y \<longleftrightarrow> x div p < y div p \<or> x div p = y div p \<and> x mod p < y mod p"
proof (cases "x div p" "y div p" rule: linorder_cases)
  case less
  then show ?thesis
    by (metis div_le_mono leD linorder_le_less_linear)
next
  case equal
  have "x = x div p * p + x mod p" "y = y div p * p + y mod p"
    by simp_all
  with equal show ?thesis
    by (metis add_less_cancel_left less_irrefl)
next
  case greater
  then show ?thesis
    by (metis div_le_mono less_imp_le_nat leD less_asym)
qed

lemma be_put_inj_less:
  assumes "x < 256 ^ n" "y < 256 ^ n"
  shows "be_put n x < be_put n y \<longleftrightarrow> x < y"
  using assms
proof (induction n arbitrary: x y)
  case 0
  then show ?case by simp
next
  case (Suc n)
  let ?p = "256 ^ n :: nat"
  have hi: "x div ?p < 256" "y div ?p < 256"
    using Suc.prems by (simp_all add: less_mult_imp_div_less)
  have low: "be_put n z = be_put n (z mod ?p)" for z
    using be_put_shift [of n n "z div ?p" "z mod ?p"] by (simp only: div_mult_mod_eq)
  have "be_put n x < be_put n y \<longleftrightarrow> x mod ?p < y mod ?p"
    by (subst (1 2) low) (rule Suc.IH, simp_all)
  moreover have "(of_nat (x div ?p) :: byte) < of_nat (y div ?p) \<longleftrightarrow> x div ?p < y div ?p"
    using hi by (simp add: word_less_nat_alt unat_of_nat_byte)
  moreover have "(of_nat (x div ?p) :: byte) = of_nat (y div ?p) \<longleftrightarrow> x div ?p = y div ?p"
    using hi by (simp add: word_unat_eq_iff unat_of_nat_byte)
  ultimately show ?case
    using less_div_mod [of ?p x y] by simp
qed

lemma PutUint64_less [order_simps]: "PutUint64 a < PutUint64 b \<longleftrightarrow> a < b"
  using be_put_inj_less [of "unat a" 8 "unat b"] unsigned_less [of a, where 'a = nat]
    unsigned_less [of b, where 'a = nat]
  by (simp add: PutUint64_def word_less_nat_alt)

lemma PutUint16_less [order_simps]: "PutUint16 a < PutUint16 b \<longleftrightarrow> a < b"
  using be_put_inj_less [of "unat a" 2 "unat b"] unsigned_less [of a, where 'a = nat]
    unsigned_less [of b, where 'a = nat]
  by (simp add: PutUint16_def word_less_nat_alt)

lemma PutUint64_inj [simp]: "PutUint64 a = PutUint64 b \<longleftrightarrow> a = b"
  by (metis PutUint64_less less_irrefl linorder_less_linear)

lemma PutUint16_inj [simp]: "PutUint16 a = PutUint16 b \<longleftrightarrow> a = b"
  by (metis PutUint16_less less_irrefl linorder_less_linear)

lemma Uint64_Put [simp]: "Uint64 (PutUint64 v) = v"
  using unsigned_less [of v, where 'a = nat]
  by (simp add: Uint64_def PutUint64_def be_get_put)

lemma Uint16_Put_append [simp]: "Uint16 (PutUint16 v @ xs) = v"
  using unsigned_less [of v, where 'a = nat]
  by (simp add: Uint16_def PutUint16_def be_get_put)

lemma Put_Uint64: "length bs = 8 \<Longrightarrow> PutUint64 (Uint64 bs) = bs"
  using be_put_get [of bs] be_get_less [of bs]
  by (simp add: Uint64_def PutUint64_def unat_of_nat)

lemma Put_Uint16: "2 \<le> length bs \<Longrightarrow> PutUint16 (Uint16 bs) = take 2 bs"
  using be_put_get [of "take 2 bs"] be_get_less [of "take 2 bs"]
  by (simp add: Uint16_def PutUint16_def unat_of_nat)

text \<open>The encodings unrolled, for evaluation on concrete numbers.\<close>

lemma PutUint64_unroll [byte_simps]:
  "PutUint64 v =
     [of_nat (unat v div 256 ^ 7), of_nat (unat v div 256 ^ 6), of_nat (unat v div 256 ^ 5),
      of_nat (unat v div 256 ^ 4), of_nat (unat v div 256 ^ 3), of_nat (unat v div 256 ^ 2),
      of_nat (unat v div 256), of_nat (unat v)]"
  using be_put.simps(2) [of 7 "unat v"] be_put.simps(2) [of 6 "unat v"]
    be_put.simps(2) [of 5 "unat v"] be_put.simps(2) [of 4 "unat v"] be_put.simps(2) [of 3 "unat v"]
    be_put.simps(2) [of 2 "unat v"] be_put.simps(2) [of "Suc 0" "unat v"]
  by (simp add: PutUint64_def numeral_2_eq_2 [symmetric])

lemma PutUint16_unroll [byte_simps]:
  "PutUint16 v = [of_nat (unat v div 256), of_nat (unat v)]"
  using be_put.simps(2) [of "Suc 0" "unat v"]
  by (simp add: PutUint16_def numeral_2_eq_2 [symmetric])

section \<open>Counters\<close>

lemma word_less_Suc: "x \<noteq> - 1 \<Longrightarrow> y < x + 1 \<longleftrightarrow> y \<le> (x :: 'a::len word)"
proof -
  assume "x \<noteq> - 1"
  then have "1 + x \<noteq> 0"
    by (metis add_eq_0_iff add.inverse_inverse)
  then have "unat (x + 1) = Suc (unat x)"
    by (metis add.commute unatSuc)
  then show ?thesis
    by (simp add: word_less_nat_alt word_le_nat_alt less_Suc_eq_le)
qed

end
