(* ===== verification/Encoding.thy ===== *)
theory Encoding
  imports CloudPrelude
begin

text \<open>
  The key encoding of \<open>pkg/bigtable/encoding.go\<close>: a Bigtable cell (row key, family,
  qualifier, timestamp) is one Pebble key
  \<^verbatim>\<open>[escaped row][00][00][family_len:1][family][00][qual_len:2][qualifier][00][inverted_ts:8]\<close>.

  The definitions follow the Go code statement by statement: buffers are allocated,
  copied into and written by index; the decoder's two loops run over indices. The
  reference functions \<open>escape\<close> and \<open>parse_row\<close> are the mathematical reading of the
  row part; the lemmas first show that the buffer code computes them, then the
  round trip, the canonicity of decoded keys, the order of encoded keys and what the
  scan bounds cover.
\<close>

section \<open>Model\<close>

subsection \<open>Timestamps\<close>

definition MaxInt64 :: int64 where
  "MaxInt64 = 0x7FFFFFFFFFFFFFFF"

definition MaxUint64 :: uint64 where
  "MaxUint64 = 0xFFFFFFFFFFFFFFFF"

definition invertedTimestamp :: "int64 \<Rightarrow> uint64" where
  "invertedTimestamp timestampMicros = MaxInt64 - timestampMicros"

definition timestampFromInverted :: "uint64 \<Rightarrow> int64" where
  "timestampFromInverted v = MaxInt64 - v"

subsection \<open>Encoding\<close>

text \<open>The write loop of \<open>encodeRowPrefixEscaped\<close>: \<open>pos\<close> is the write index.\<close>

fun escape_loop :: "bytes \<Rightarrow> bytes \<Rightarrow> nat \<Rightarrow> bytes" where
  "escape_loop [] buf pos = buf"
| "escape_loop (c # cs) buf pos =
     (if c = 0 then escape_loop cs (buf[pos := 0, pos + 1 := 0xFF]) (pos + 2)
      else escape_loop cs (buf[pos := c]) (pos + 1))"

definition encodeRowPrefixEscaped :: "bytes \<Rightarrow> bytes" where
  "encodeRowPrefixEscaped rowKey =
     (let nullCount = foldl (\<lambda>n c. if c = 0 then n + 1 else n) 0 rowKey;
          escapedLen = length rowKey + nullCount;
          buf = make_bytes (escapedLen + 2);
          buf = escape_loop rowKey buf 0
      in buf[escapedLen := 0, escapedLen + 1 := 0])"

definition encodeRowPrefix :: "bytes \<Rightarrow> bytes" where
  "encodeRowPrefix rowKey =
     (if 0 \<in> set rowKey then encodeRowPrefixEscaped rowKey
      else let buf = make_bytes (length rowKey + 2);
               buf = copy_at buf 0 rowKey
           in buf[length rowKey := 0, length rowKey + 1 := 0])"

definition encodeFamilyPrefix :: "bytes \<Rightarrow> bytes \<Rightarrow> bytes" where
  "encodeFamilyPrefix rowPrefix family =
     (if length family > 255 then []
      else let buf = make_bytes (length rowPrefix + 1 + length family + 1);
               buf = copy_at buf 0 rowPrefix;
               buf = buf[length rowPrefix := of_nat (length family)];
               buf = copy_at buf (length rowPrefix + 1) family
           in buf[length rowPrefix + 1 + length family := 0])"

definition encodeColumnPrefix :: "bytes \<Rightarrow> bytes \<Rightarrow> bytes" where
  "encodeColumnPrefix familyPrefix qualifier =
     (if length qualifier > 65535 then []
      else let buf = make_bytes (length familyPrefix + 2 + length qualifier + 1);
               buf = copy_at buf 0 familyPrefix;
               buf = copy_at buf (length familyPrefix) (PutUint16 (of_nat (length qualifier)));
               buf = copy_at buf (length familyPrefix + 2) qualifier
           in buf[length familyPrefix + 2 + length qualifier := 0])"

definition EncodeCellKey :: "bytes \<Rightarrow> bytes \<Rightarrow> bytes \<Rightarrow> int64 \<Rightarrow> bytes" where
  "EncodeCellKey rowKey family qualifier timestampMicros =
     (let rp = encodeRowPrefix rowKey;
          fp = encodeFamilyPrefix rp family;
          cp = encodeColumnPrefix fp qualifier;
          buf = make_bytes (length cp + 8);
          buf = copy_at buf 0 cp
      in copy_at buf (length cp) (PutUint64 (invertedTimestamp timestampMicros)))"

subsection \<open>Decoding\<close>

text \<open>The five named results of the Go decoders; an early \<open>return\<close> returns what has
  been assigned so far, with \<open>ok\<close> false.\<close>

record decoded =
  d_rowKey :: bytes
  d_family :: bytes
  d_qualifier :: bytes
  d_ts :: int64
  d_ok :: bool

definition zero_decoded :: decoded where
  "zero_decoded = \<lparr>d_rowKey = [], d_family = [], d_qualifier = [], d_ts = 0, d_ok = False\<rparr>"

text \<open>The scan for the row terminator; the result is the pair \<open>(pos, esc)\<close> at the
  \<open>break\<close>, \<open>None\<close> for a \<open>return\<close> inside the loop.\<close>

function scan_row :: "bytes \<Rightarrow> nat \<Rightarrow> nat \<Rightarrow> (nat \<times> nat) option" where
  "scan_row key pos esc =
     (if pos \<ge> length key then None
      else if key ! pos \<noteq> 0 then scan_row key (pos + 1) esc
      else if pos + 1 \<ge> length key then None
      else if key ! (pos + 1) = 0xFF then scan_row key (pos + 2) (esc + 1)
      else if key ! (pos + 1) = 0 then Some (pos, esc)
      else None)"
  by pat_completeness auto
termination
  by (relation "measure (\<lambda>(key, pos, esc). length key - pos)") auto

text \<open>The copy loop that drops the escape bytes.\<close>

function unescape_loop :: "bytes \<Rightarrow> nat \<Rightarrow> nat \<Rightarrow> nat \<Rightarrow> bytes \<Rightarrow> bytes" where
  "unescape_loop key rowLen src dst buf =
     (if src < rowLen then
        if src + 1 < rowLen \<and> key ! src = 0 \<and> key ! (src + 1) = 0xFF
        then unescape_loop key rowLen (src + 2) (dst + 1) (buf[dst := 0])
        else unescape_loop key rowLen (src + 1) (dst + 1) (buf[dst := key ! src])
      else buf)"
  by pat_completeness auto
termination
  by (relation "measure (\<lambda>(key, rowLen, src, dst, buf). rowLen - src)") auto

definition DecodeCellKey :: "bytes \<Rightarrow> decoded" where
  "DecodeCellKey key =
     (case scan_row key 0 0 of
        None \<Rightarrow> zero_decoded
      | Some (rowLen, esc) \<Rightarrow>
          let pos = rowLen + 2;
              rowKey = (if esc > 0 then unescape_loop key rowLen 0 0 (make_bytes (rowLen - esc))
                        else slice key 0 rowLen);
              d = zero_decoded\<lparr>d_rowKey := rowKey\<rparr>
          in if pos \<ge> length key then d
             else let famLen = unat (key ! pos); pos = pos + 1
          in if pos + famLen \<ge> length key \<or> key ! (pos + famLen) \<noteq> 0 then d
             else let d = d\<lparr>d_family := slice key pos (pos + famLen)\<rparr>; pos = pos + (famLen + 1)
          in if pos + 2 > length key then d
             else let qualLen = unat (Uint16 (drop pos key)); pos = pos + 2
          in if pos + qualLen \<ge> length key \<or> key ! (pos + qualLen) \<noteq> 0 then d
             else let d = d\<lparr>d_qualifier := slice key pos (pos + qualLen)\<rparr>; pos = pos + (qualLen + 1)
          in if pos + 8 \<noteq> length key then d
             else let invTS = Uint64 (drop pos key)
          in d\<lparr>d_ts := timestampFromInverted invTS, d_ok := True\<rparr>)"

text \<open>\<open>CellDecoder\<close>: the buffers are reused between calls; the model threads them.\<close>

record cellDecoder =
  rowKeyBuf :: bytes
  qualifierBuf :: bytes

definition Decode :: "cellDecoder \<Rightarrow> bytes \<Rightarrow> decoded \<times> cellDecoder" where
  "Decode dec key =
     (case scan_row key 0 0 of
        None \<Rightarrow> (zero_decoded, dec)
      | Some (rowLen, esc) \<Rightarrow>
          let pos = rowLen + 2;
              dec = (if esc > 0
                     then dec\<lparr>rowKeyBuf := unescape_loop key rowLen 0 0 (make_bytes (rowLen - esc))\<rparr>
                     else dec);
              rowKey = (if esc > 0 then rowKeyBuf dec else slice key 0 rowLen);
              d = zero_decoded\<lparr>d_rowKey := rowKey\<rparr>
          in if pos \<ge> length key then (d, dec)
             else let famLen = unat (key ! pos); pos = pos + 1
          in if pos + famLen \<ge> length key \<or> key ! (pos + famLen) \<noteq> 0 then (d, dec)
             else let d = d\<lparr>d_family := slice key pos (pos + famLen)\<rparr>; pos = pos + (famLen + 1)
          in if pos + 2 > length key then (d, dec)
             else let qualLen = unat (Uint16 (drop pos key)); pos = pos + 2
          in if pos + qualLen \<ge> length key \<or> key ! (pos + qualLen) \<noteq> 0 then (d, dec)
             else let dec = dec\<lparr>qualifierBuf := slice key pos (pos + qualLen)\<rparr>;
                      d = d\<lparr>d_qualifier := qualifierBuf dec\<rparr>; pos = pos + (qualLen + 1)
          in if pos + 8 \<noteq> length key then (d, dec)
             else let invTS = Uint64 (drop pos key)
          in (d\<lparr>d_ts := timestampFromInverted invTS, d_ok := True\<rparr>, dec))"

subsection \<open>Range bounds\<close>

definition rowEndKey :: "bytes \<Rightarrow> bytes" where
  "rowEndKey rowPrefix =
     (copy_at (make_bytes (length rowPrefix + 1)) 0 rowPrefix)[length rowPrefix := 0xFF]"

definition familyEndKey :: "bytes \<Rightarrow> bytes" where
  "familyEndKey familyPrefix =
     (copy_at (make_bytes (length familyPrefix + 1)) 0 familyPrefix)[length familyPrefix := 0xFF]"

definition columnEndKey :: "bytes \<Rightarrow> bytes" where
  "columnEndKey columnPrefix =
     (copy_at (make_bytes (length columnPrefix + 1)) 0 columnPrefix)[length columnPrefix := 0xFF]"

definition encodeTimestampRangeBounds :: "bytes \<Rightarrow> int64 \<Rightarrow> int64 \<Rightarrow> bytes \<times> bytes" where
  "encodeTimestampRangeBounds columnPrefix startTimestampMicros endTimestampMicros =
     (let startInv = invertedTimestamp startTimestampMicros;
          endInv = invertedTimestamp endTimestampMicros;
          shiftedEnd = endInv + 1;
          shiftedEnd = (if shiftedEnd = 0 then MaxUint64 else shiftedEnd);
          startKey = copy_at (make_bytes (length columnPrefix + 8)) 0 columnPrefix;
          startKey = copy_at startKey (length columnPrefix) (PutUint64 shiftedEnd);
          endShifted = startInv + 1;
          endShifted = (if endShifted = 0 then MaxUint64 else endShifted);
          endKey = copy_at (make_bytes (length columnPrefix + 8)) 0 columnPrefix;
          endKey = copy_at endKey (length columnPrefix) (PutUint64 endShifted)
      in (startKey, endKey))"

definition rowKeyRangeBounds :: "bytes \<Rightarrow> bytes \<times> bytes" where
  "rowKeyRangeBounds rowKey =
     (let rp = encodeRowPrefix rowKey in (rp, rowEndKey rp))"

definition rowKeyFamilyBounds :: "bytes \<Rightarrow> bytes \<Rightarrow> bytes \<times> bytes" where
  "rowKeyFamilyBounds rowKey family =
     (let rp = encodeRowPrefix rowKey; fp = encodeFamilyPrefix rp family
      in (fp, familyEndKey fp))"

definition rowKeyColumnBounds :: "bytes \<Rightarrow> bytes \<Rightarrow> bytes \<Rightarrow> bytes \<times> bytes" where
  "rowKeyColumnBounds rowKey family qualifier =
     (let rp = encodeRowPrefix rowKey; fp = encodeFamilyPrefix rp family;
          cp = encodeColumnPrefix fp qualifier
      in (cp, columnEndKey cp))"

definition keyHasRowPrefix :: "bytes \<Rightarrow> bytes \<Rightarrow> bool" where
  "keyHasRowPrefix key rowKey =
     (let rp = encodeRowPrefix rowKey
      in length key \<ge> length rp \<and> slice key 0 (length rp) = rp)"

section \<open>Reference functions\<close>

fun escape :: "bytes \<Rightarrow> bytes" where
  "escape [] = []"
| "escape (c # cs) = (if c = 0 then 0 # 0xFF # escape cs else c # escape cs)"

fun parse_row :: "bytes \<Rightarrow> (bytes \<times> bytes) option" where
  "parse_row [] = None"
| "parse_row [c] = None"
| "parse_row (c # d # ds) =
     (if c \<noteq> 0 then map_option (\<lambda>(r, rest). (c # r, rest)) (parse_row (d # ds))
      else if d = 0xFF then map_option (\<lambda>(r, rest). (0 # r, rest)) (parse_row ds)
      else if d = 0 then Some ([], ds)
      else None)"

definition nulls :: "bytes \<Rightarrow> nat" where
  "nulls r = length (filter ((=) 0) r)"

text \<open>Lengths that fit the one- and two-byte length fields.\<close>

definition valid_col :: "bytes \<Rightarrow> bytes \<Rightarrow> bool" where
  "valid_col family qualifier \<longleftrightarrow> length family \<le> 255 \<and> length qualifier \<le> 65535"

section \<open>The buffer code computes the reference encoding\<close>

lemma escape_no_null: "0 \<notin> set r \<Longrightarrow> escape r = r"
  by (induction r) auto

lemma length_escape: "length (escape r) = length r + nulls r"
  by (induction r) (auto simp: nulls_def)

lemma nulls_pos: "0 < nulls r \<longleftrightarrow> 0 \<in> set r"
  by (auto simp: nulls_def filter_empty_conv)

lemma foldl_nulls: "foldl (\<lambda>n c. if c = 0 then n + 1 else n) k r = k + nulls r"
  by (induction r arbitrary: k) (auto simp: nulls_def)

lemma escape_loop_eq:
  "length ys = length (escape r) \<Longrightarrow> length xs = pos \<Longrightarrow>
   escape_loop r (xs @ ys @ zs) pos = xs @ escape r @ zs"
proof (induction r arbitrary: xs ys pos)
  case Nil
  then show ?case by simp
next
  case (Cons c cs)
  show ?case
  proof (cases "c = 0")
    case True
    with Cons.prems obtain a b ys' where ys: "ys = a # b # ys'" and l: "length ys' = length (escape cs)"
      by (auto simp: length_Suc_conv)
    have "(xs @ ys @ zs)[pos := 0, pos + 1 := 0xFF] = (xs @ [0, 0xFF]) @ ys' @ zs"
      using Cons.prems(2) by (simp add: ys list_update_append)
    then show ?thesis
      using Cons.IH [of ys' "xs @ [0, 0xFF]" "pos + 2"] Cons.prems(2) l True by simp
  next
    case False
    with Cons.prems obtain a ys' where ys: "ys = a # ys'" and l: "length ys' = length (escape cs)"
      by (auto simp: length_Suc_conv)
    have "(xs @ ys @ zs)[pos := c] = (xs @ [c]) @ ys' @ zs"
      using Cons.prems(2) by (simp add: ys list_update_append)
    then show ?thesis
      using Cons.IH [of ys' "xs @ [c]" "pos + 1"] Cons.prems(2) l False by simp
  qed
qed

lemma make_bytes_2: "make_bytes 2 = [0, 0]" and make_bytes_1: "make_bytes (Suc 0) = [0]"
  by (simp_all add: make_bytes_def numeral_2_eq_2)

lemma encodeRowPrefixEscaped_eq: "encodeRowPrefixEscaped r = escape r @ [0, 0]"
proof -
  let ?n = "length r + nulls r"
  have "escape_loop r (make_bytes (?n + 2)) 0 = escape r @ [0, 0]"
    using escape_loop_eq [of "make_bytes ?n" r "[]" 0 "make_bytes 2"]
    by (simp add: make_bytes_add length_escape make_bytes_2 del: add_2_eq_Suc')
  then show ?thesis
    by (simp add: encodeRowPrefixEscaped_def foldl_nulls Let_def list_update_append
        length_escape [symmetric])
qed

lemma copy_prefix: "copy_at (make_bytes (length xs + n)) 0 xs = xs @ make_bytes n"
  using copy_at_append [of "[]" 0 "make_bytes (length xs)" xs "make_bytes n"]
  by (simp add: make_bytes_add)

lemma encodeRowPrefix_eq: "encodeRowPrefix r = escape r @ [0, 0]"
  by (simp add: encodeRowPrefix_def encodeRowPrefixEscaped_eq escape_no_null copy_prefix
      make_bytes_2 list_update_append Let_def del: add_2_eq_Suc')

lemma encodeFamilyPrefix_eq:
  assumes "length f \<le> 255"
  shows "encodeFamilyPrefix rp f = rp @ of_nat (length f) # f @ [0]"
proof -
  have "copy_at (make_bytes (length rp + 1 + length f + 1)) 0 rp
      = rp @ 0 # make_bytes (length f) @ [0]"
    using copy_prefix [of rp "1 + length f + 1"]
    by (simp only: add.assoc make_bytes_add) (simp add: make_bytes_1)
  moreover have "copy_at (rp @ of_nat (length f) # make_bytes (length f) @ [0]) (length rp + 1) f
      = rp @ of_nat (length f) # f @ [0]"
    using copy_at_append [of "rp @ [of_nat (length f)]" "length rp + 1" "make_bytes (length f)" f "[0]"]
    by simp
  ultimately show ?thesis
    using assms by (simp add: encodeFamilyPrefix_def Let_def list_update_append)
qed

lemma encodeColumnPrefix_eq:
  assumes "length q \<le> 65535"
  shows "encodeColumnPrefix fp q = fp @ PutUint16 (of_nat (length q)) @ q @ [0]"
proof -
  let ?l = "PutUint16 (of_nat (length q))"
  have "copy_at (make_bytes (length fp + 2 + length q + 1)) 0 fp
      = fp @ make_bytes 2 @ make_bytes (length q) @ [0]"
    using copy_prefix [of fp "2 + length q + 1"]
    by (simp only: add.assoc make_bytes_add) (simp add: make_bytes_1)
  moreover have "copy_at (fp @ make_bytes 2 @ make_bytes (length q) @ [0]) (length fp) ?l
      = fp @ ?l @ make_bytes (length q) @ [0]"
    by (rule copy_at_append) simp_all
  moreover have "copy_at (fp @ ?l @ make_bytes (length q) @ [0]) (length fp + 2) q
      = fp @ ?l @ q @ [0]"
    using copy_at_append [of "fp @ ?l" "length fp + 2" "make_bytes (length q)" q "[0]"] by simp
  ultimately show ?thesis
    using assms by (simp add: encodeColumnPrefix_def Let_def list_update_append
        del: add_2_eq_Suc')
qed

lemma copy_suffix:
  "copy_at (copy_at (make_bytes (length cp + length v)) 0 cp) (length cp) v = cp @ v"
  using copy_at_append [of cp "length cp" "make_bytes (length v)" v "[]"]
  by (simp add: copy_prefix)

lemma EncodeCellKey_prefix:
  "EncodeCellKey r f q t =
     encodeColumnPrefix (encodeFamilyPrefix (encodeRowPrefix r) f) q
       @ PutUint64 (invertedTimestamp t)"
  using copy_suffix [of _ "PutUint64 (invertedTimestamp t)"]
  by (simp add: EncodeCellKey_def Let_def)

text \<open>The closed form of a cell key.\<close>

lemma EncodeCellKey_eq:
  assumes "valid_col f q"
  shows "EncodeCellKey r f q t =
     escape r @ [0, 0] @ of_nat (length f) # f @ 0 #
       PutUint16 (of_nat (length q)) @ q @ 0 # PutUint64 (invertedTimestamp t)"
  using assms
  by (simp add: EncodeCellKey_prefix encodeRowPrefix_eq encodeFamilyPrefix_eq
      encodeColumnPrefix_eq valid_col_def)

lemma rowEndKey_eq: "rowEndKey p = p @ [0xFF]"
  and familyEndKey_eq: "familyEndKey p = p @ [0xFF]"
  and columnEndKey_eq: "columnEndKey p = p @ [0xFF]"
  using copy_prefix [of p 1]
  by (simp_all add: rowEndKey_def familyEndKey_def columnEndKey_def make_bytes_1 list_update_append)

lemmas end_key_eqs = rowEndKey_eq familyEndKey_eq columnEndKey_eq

section \<open>Decoding\<close>

lemma parse_row_escape: "parse_row (escape r @ 0 # 0 # rest) = Some (r, rest)"
proof (induction r)
  case Nil
  then show ?case by simp
next
  case (Cons c cs)
  obtain d ds where e: "escape cs @ 0 # 0 # rest = d # ds"
    by (cases "escape cs") auto
  with Cons show ?case by simp
qed

lemma parse_row_sound: "parse_row k = Some (r, rest) \<Longrightarrow> k = escape r @ 0 # 0 # rest"
  by (induction k arbitrary: r rule: parse_row.induct) (auto split: if_splits)

declare scan_row.simps [simp del] unescape_loop.simps [simp del]

lemma parse_row_Cons2:
  "c \<noteq> 0 \<Longrightarrow> parse_row (c # cs) = map_option (\<lambda>(r, rest). (c # r, rest)) (parse_row cs)"
  by (cases cs) auto

lemma scan_row_parse:
  "scan_row key pos esc =
     map_option (\<lambda>(r, rest). (pos + length (escape r), esc + nulls r)) (parse_row (drop pos key))"
proof (induction key pos esc rule: scan_row.induct)
  case (1 key pos esc)
  show ?case
  proof (cases "pos \<ge> length key")
    case True
    then show ?thesis by (simp add: scan_row.simps [of key pos esc])
  next
    case False
    then have d: "drop pos key = key ! pos # drop (Suc pos) key"
      by (simp add: Cons_nth_drop_Suc)
    show ?thesis
    proof (cases "key ! pos = 0")
      case nz: False
      with False "1.IH"(1) show ?thesis
        by (auto simp: scan_row.simps [of key pos esc] d parse_row_Cons2 nulls_def
            option.map_comp o_def split: prod.split intro!: option.map_cong)
    next
      case z: True
      show ?thesis
      proof (cases "Suc pos \<ge> length key")
        case True
        with False z d show ?thesis by (simp add: scan_row.simps [of key pos esc])
      next
        case False2: False
        then have d2: "drop (Suc pos) key = key ! Suc pos # drop (Suc (Suc pos)) key"
          by (simp add: Cons_nth_drop_Suc)
        from False False2 z "1.IH"(2) show ?thesis
          by (auto simp: scan_row.simps [of key pos esc] d d2 nulls_def option.map_comp o_def
              split: prod.split intro!: option.map_cong)
      qed
    qed
  qed
qed

lemma unescape_loop_eq:
  assumes "src \<le> rowLen" "rowLen \<le> length key" "drop src (take rowLen key) = escape r"
    "length buf = dst + length r"
  shows "unescape_loop key rowLen src dst buf = take dst buf @ r"
  using assms
proof (induction r arbitrary: src dst buf)
  case Nil
  then have "src = rowLen" by simp
  with Nil show ?case by (simp add: unescape_loop.simps [of key])
next
  case (Cons c cs)
  have nth: "key ! (src + i) = escape (c # cs) ! i \<and> src + i < rowLen" if "i < length (escape (c # cs))" for i
  proof -
    have "src + i < rowLen"
      using that Cons.prems(2) arg_cong [OF Cons.prems(3), of length] by simp
    moreover have "drop src (take rowLen key) ! i = key ! (src + i)"
      using calculation Cons.prems(1,2) by simp
    ultimately show ?thesis using Cons.prems(3) by simp
  qed
  have tl: "drop (src + n) (take rowLen key) = drop n (escape (c # cs))" for n
    using arg_cong [OF Cons.prems(3), of "drop n"] by (simp add: add.commute)
  show ?case
  proof (cases "c = 0")
    case True
    then have g: "src < rowLen" "src + 1 < rowLen" "key ! src = 0" "key ! (src + 1) = 0xFF"
      using nth [of 0] nth [of 1] by auto
    have "unescape_loop key rowLen (src + 2) (dst + 1) (buf[dst := 0]) = take (dst + 1) (buf[dst := 0]) @ cs"
      by (rule Cons.IH) (use Cons.prems g tl [of 2] True in auto)
    with g True Cons.prems(4) show ?thesis
      by (simp add: unescape_loop.simps [of key rowLen src] take_Suc_conv_app_nth)
  next
    case False
    then have g: "src < rowLen" "key ! src = c"
      using nth [of 0] by auto
    have "unescape_loop key rowLen (src + 1) (dst + 1) (buf[dst := c]) = take (dst + 1) (buf[dst := c]) @ cs"
      by (rule Cons.IH) (use Cons.prems g tl [of 1] False in auto)
    with g False Cons.prems(4) show ?thesis
      by (simp add: unescape_loop.simps [of key rowLen src] take_Suc_conv_app_nth)
  qed
qed

text \<open>The part of a decoder after the row key, from index \<open>pos\<close> on; it depends only
  on the bytes from there.\<close>

definition decode_at :: "bytes \<Rightarrow> nat \<Rightarrow> decoded \<Rightarrow> decoded" where
  "decode_at key pos d =
     (if pos \<ge> length key then d
      else let famLen = unat (key ! pos); pos = pos + 1
      in if pos + famLen \<ge> length key \<or> key ! (pos + famLen) \<noteq> 0 then d
         else let d = d\<lparr>d_family := slice key pos (pos + famLen)\<rparr>; pos = pos + (famLen + 1)
      in if pos + 2 > length key then d
         else let qualLen = unat (Uint16 (drop pos key)); pos = pos + 2
      in if pos + qualLen \<ge> length key \<or> key ! (pos + qualLen) \<noteq> 0 then d
         else let d = d\<lparr>d_qualifier := slice key pos (pos + qualLen)\<rparr>; pos = pos + (qualLen + 1)
      in if pos + 8 \<noteq> length key then d
         else let invTS = Uint64 (drop pos key)
      in d\<lparr>d_ts := timestampFromInverted invTS, d_ok := True\<rparr>)"

lemma decoded_row:
  assumes "key = escape r @ 0 # 0 # rest"
  shows "(if nulls r > 0 then unescape_loop key (length (escape r)) 0 0 (make_bytes (length (escape r) - nulls r))
          else slice key 0 (length (escape r))) = r"
proof (cases "nulls r > 0")
  case True
  have "unescape_loop key (length (escape r)) 0 0 (make_bytes (length (escape r) - nulls r))
      = take 0 (make_bytes (length (escape r) - nulls r)) @ r"
    by (rule unescape_loop_eq) (simp_all add: assms length_escape)
  with True show ?thesis by simp
next
  case False
  then have "escape r = r" by (simp add: nulls_pos escape_no_null)
  with False show ?thesis by (simp add: assms slice_def)
qed

lemma fields_shift:
  "length (pre @ xs) \<le> length pre + k \<longleftrightarrow> length xs \<le> k"
  "(pre @ xs) ! (length pre + k) = xs ! k"
  "drop (length pre + k) (pre @ xs) = drop k xs"
  "slice (pre @ xs) (length pre + k) (length pre + l) = slice xs k l"
  "length (pre @ xs) < length pre + k \<longleftrightarrow> length xs < k"
  "length pre + k = length (pre @ xs) \<longleftrightarrow> k = length xs"
  by (auto simp: slice_def)

lemma decode_at_shift: "decode_at (pre @ xs) (length pre + k) d = decode_at xs k d"
  unfolding decode_at_def Let_def add.assoc fields_shift by (rule refl)

lemma DecodeCellKey_parse:
  "DecodeCellKey key =
     (case parse_row key of None \<Rightarrow> zero_decoded
      | Some (r, rest) \<Rightarrow> decode_at rest 0 (zero_decoded\<lparr>d_rowKey := r\<rparr>))"
proof (cases "parse_row key")
  case None
  then show ?thesis by (simp add: DecodeCellKey_def scan_row_parse)
next
  case (Some x)
  then obtain r rest where p: "parse_row key = Some (r, rest)" by (cases x) auto
  then have key: "key = escape r @ 0 # 0 # rest" by (rule parse_row_sound)
  have s: "scan_row key 0 0 = Some (length (escape r), nulls r)"
    by (simp add: scan_row_parse p)
  have "DecodeCellKey key = decode_at key (length (escape r) + 2) (zero_decoded\<lparr>d_rowKey := r\<rparr>)"
    unfolding DecodeCellKey_def s option.case prod.case Let_def decoded_row [OF key] decode_at_def
    by (rule refl)
  also have "\<dots> = decode_at rest 0 (zero_decoded\<lparr>d_rowKey := r\<rparr>)"
    using decode_at_shift [of "escape r @ [0, 0]" rest 0] by (simp add: key)
  finally show ?thesis by (simp add: p)
qed

text \<open>The fields after the row terminator, read as lists.\<close>

lemma decode_at_encoded:
  assumes "valid_col f q"
  shows "decode_at (of_nat (length f) # f @ 0 # PutUint16 (of_nat (length q)) @ q @ 0 # PutUint64 v) 0 d
     = d\<lparr>d_family := f, d_qualifier := q, d_ts := timestampFromInverted v, d_ok := True\<rparr>"
proof -
  let ?q = "PutUint16 (of_nat (length q)) @ q @ 0 # PutUint64 v"
  let ?k = "of_nat (length f) # f @ 0 # ?q"
  have f: "unat (of_nat (length f) :: byte) = length f"
    and q: "unat (of_nat (length q) :: 16 word) = length q"
    using assms by (simp_all add: valid_col_def unat_of_nat)
  have d: "drop (0 + 1 + (length f + 1)) ?k = ?q"
    and s: "slice ?k (0 + 1) (0 + 1 + length f) = f"
    and n: "?k ! (0 + 1 + length f) = 0"
    by (simp_all add: slice_def nth_append)
  have qs: "slice ?k (0 + 1 + (length f + 1) + 2) (0 + 1 + (length f + 1) + 2 + length q) = q"
    and qn: "?k ! (0 + 1 + (length f + 1) + 2 + length q) = 0"
    and qd: "drop (0 + 1 + (length f + 1) + 2 + (length q + 1)) ?k = PutUint64 v"
    by (simp_all add: slice_def nth_append drop_Cons')
  show ?thesis
    unfolding decode_at_def Let_def nth_Cons_0 f d s n Uint16_Put_append q qs qn qd Uint64_Put
    by simp
qed

lemma Decode_eq: "fst (Decode dec key) = DecodeCellKey key"
  by (simp add: Decode_def DecodeCellKey_def Let_def split: option.split)

section \<open>Timestamps sort newest first\<close>

lemma timestamp_inverse [simp]:
  "timestampFromInverted (invertedTimestamp t) = t"
  "invertedTimestamp (timestampFromInverted v) = v"
  by (simp_all add: timestampFromInverted_def invertedTimestamp_def)

lemma uint_inverted: "uint (invertedTimestamp t) = 2 ^ 63 - 1 - sint t"
proof -
  have e: "invertedTimestamp t = (word_of_int (2 ^ 63 - 1 - sint t) :: 64 word)"
    by (simp add: invertedTimestamp_def MaxInt64_def)
  have "take_bit 64 (2 ^ 63 - 1 - sint t) = 2 ^ 63 - 1 - sint t"
    by (rule take_bit_int_eq_self) (use sint_ge [of t] sint_lt [of t] in simp_all)
  moreover have "uint (invertedTimestamp t) = take_bit LENGTH(64) (2 ^ 63 - 1 - sint t)"
    unfolding e by (rule uint_word_of_int_eq)
  ultimately show ?thesis by simp
qed

lemma inverted_less: "invertedTimestamp a < invertedTimestamp b \<longleftrightarrow> sint b < sint a"
  by (simp add: word_less_def uint_inverted)

lemma inverted_inj [simp]: "invertedTimestamp a = invertedTimestamp b \<longleftrightarrow> a = b"
  by (simp add: invertedTimestamp_def)

section \<open>Order of encoded rows\<close>

lemma escape_inj_prefix:
  "escape r @ 0 # 0 # x = escape r' @ 0 # 0 # y \<longleftrightarrow> r = r' \<and> x = y"
  by (metis parse_row_escape option.inject prod.inject)

lemma escape_row_less:
  "r < r' \<Longrightarrow> escape r @ 0 # 0 # x < escape r' @ 0 # 0 # y"
proof (induction r arbitrary: r')
  case Nil
  then obtain c cs where "r' = c # cs" by (cases r') auto
  then show ?case by (auto simp: word_gt_0)
next
  case (Cons c cs)
  then obtain d ds where r': "r' = d # ds" by (cases r') auto
  show ?case
  proof (cases "c = d")
    case True
    with Cons r' show ?thesis by auto
  next
    case False
    with Cons.prems r' have "c < d" by simp
    then show ?thesis
      using r' by (auto simp: word_gt_0)
  qed
qed

lemma escape_row_order [order_simps]:
  "escape r @ 0 # 0 # x < escape r' @ 0 # 0 # y \<longleftrightarrow> r < r' \<or> r = r' \<and> x < y"
proof (cases r r' rule: linorder_cases)
  case less
  then show ?thesis by (simp add: escape_row_less)
next
  case equal
  then show ?thesis by simp
next
  case greater
  then have "escape r' @ 0 # 0 # y < escape r @ 0 # 0 # x" by (rule escape_row_less)
  with greater show ?thesis by (auto dest: less_asym)
qed

text \<open>A length-prefixed field: the length is compared first, then the bytes.\<close>

lemma field1_order:
  assumes "length f \<le> 255" "length f' \<le> 255"
  shows "of_nat (length f) # f @ x < (of_nat (length f') :: byte) # f' @ y \<longleftrightarrow>
    length f < length f' \<or> length f = length f' \<and> (f < f' \<or> f = f' \<and> x < y)"
proof -
  have u: "unat (of_nat (length f) :: byte) = length f" "unat (of_nat (length f') :: byte) = length f'"
    using assms by (simp_all add: unat_of_nat)
  then show ?thesis
    by (auto simp: word_less_nat_alt word_unat_eq_iff less_append_eq_length)
qed

lemma field2_order:
  assumes "length q \<le> 65535" "length q' \<le> 65535"
  shows "PutUint16 (of_nat (length q)) @ q @ x < PutUint16 (of_nat (length q')) @ q' @ y \<longleftrightarrow>
    length q < length q' \<or> length q = length q' \<and> (q < q' \<or> q = q' \<and> x < y)"
proof -
  have "unat (of_nat (length q) :: 16 word) = length q" "unat (of_nat (length q') :: 16 word) = length q'"
    using assms by (simp_all add: unat_of_nat)
  then show ?thesis
    by (auto simp: less_append_eq_length PutUint16_less word_less_nat_alt word_unat_eq_iff)
qed

text \<open>The order of two cells in the table: rows first, then family and qualifier
  (shorter names first), then the newest timestamp first.\<close>

definition name_less :: "bytes \<Rightarrow> bytes \<Rightarrow> bool" where
  "name_less a b \<longleftrightarrow> length a < length b \<or> length a = length b \<and> a < b"

fun cell_less :: "bytes \<times> bytes \<times> bytes \<times> int64 \<Rightarrow> bytes \<times> bytes \<times> bytes \<times> int64 \<Rightarrow> bool" where
  "cell_less (r, f, q, t) (r', f', q', t') \<longleftrightarrow>
     r < r' \<or> r = r' \<and> (name_less f f' \<or> f = f' \<and> (name_less q q' \<or> q = q' \<and> sint t' < sint t))"

lemma EncodeCellKey_order:
  assumes "valid_col f q" "valid_col f' q'"
  shows "EncodeCellKey r f q t < EncodeCellKey r' f' q' t' \<longleftrightarrow>
    cell_less (r, f, q, t) (r', f', q', t')"
proof -
  have v: "length f \<le> 255" "length f' \<le> 255" "length q \<le> 65535" "length q' \<le> 65535"
    using assms by (simp_all add: valid_col_def)
  show ?thesis
    unfolding EncodeCellKey_eq [OF assms(1)] EncodeCellKey_eq [OF assms(2)] append_Cons append_Nil
      escape_row_order
    unfolding field1_order [OF v(1,2)]
    unfolding Cons_less_Cons field2_order [OF v(3,4)]
    by (auto simp: PutUint64_less inverted_less name_less_def)
qed

lemma EncodeCellKey_inj:
  assumes "valid_col f q" "valid_col f' q'"
  shows "EncodeCellKey r f q t = EncodeCellKey r' f' q' t' \<longleftrightarrow>
    r = r' \<and> f = f' \<and> q = q' \<and> t = t'"
proof
  assume eq: "EncodeCellKey r f q t = EncodeCellKey r' f' q' t'"
  have "DecodeCellKey (EncodeCellKey r f q t) = DecodeCellKey (EncodeCellKey r' f' q' t')"
    by (simp add: eq)
  then show "r = r' \<and> f = f' \<and> q = q' \<and> t = t'"
    by (simp add: EncodeCellKey_eq assms DecodeCellKey_parse parse_row_escape decode_at_encoded
        zero_decoded_def)
qed simp

text \<open>What a successful decode of the fields says about the bytes.\<close>

lemma split_at_nth: "n < length xs \<Longrightarrow> xs ! n = v \<Longrightarrow> xs = take n xs @ v # drop (Suc n) xs"
  using id_take_nth_drop by fastforce

lemma decode_at_sound:
  assumes ok: "d_ok (decode_at rest 0 d)" and d: "\<not> d_ok d"
  shows "\<exists>f q v. valid_col f q \<and>
    rest = of_nat (length f) # f @ 0 # PutUint16 (of_nat (length q)) @ q @ 0 # PutUint64 v"
proof -
  from ok d obtain b xs where rest: "rest = b # xs"
    by (cases rest) (auto simp: decode_at_def)
  define n where "n = unat b"
  define ys where "ys = drop (Suc n) xs"
  define m where "m = unat (Uint16 ys)"
  define zs where "zs = drop 2 ys"
  define ws where "ws = drop (Suc m) zs"
  have g1: "n < length xs" "xs ! n = 0"
    using ok d by (auto simp: decode_at_def rest n_def Let_def split: if_splits)
  have g2: "2 \<le> length ys"
    using ok d g1 by (auto simp: decode_at_def rest n_def ys_def Let_def split: if_splits)
  have g3: "m < length zs" "zs ! m = 0"
    using ok d g1 g2
    by (auto simp: decode_at_def rest n_def ys_def m_def zs_def Let_def add.assoc split: if_splits)
  have g4: "length ws = 8"
    using ok d g1 g2 g3
    by (auto simp: decode_at_def rest n_def ys_def m_def zs_def ws_def Let_def add.assoc split: if_splits)
  have xs: "xs = take n xs @ 0 # ys"
    unfolding ys_def using g1 by (rule split_at_nth)
  have ys: "ys = PutUint16 (Uint16 ys) @ zs"
    using Put_Uint16 [OF g2] by (simp add: zs_def)
  have zs: "zs = take m zs @ 0 # ws"
    unfolding ws_def using g3 by (rule split_at_nth)
  have ws: "ws = PutUint64 (Uint64 ws)"
    using Put_Uint64 [OF g4] by simp
  have bl: "b = of_nat (length (take n xs))" and ql: "Uint16 ys = of_nat (length (take m zs))"
    using g1 g3 by (simp_all add: n_def m_def)
  have "n \<le> 255" "m \<le> 65535"
    using unsigned_less [of b, where 'a = nat] unsigned_less [of "Uint16 ys", where 'a = nat]
    by (simp_all add: n_def m_def)
  then have "valid_col (take n xs) (take m zs)"
    by (simp add: valid_col_def min_le_iff_disj)
  moreover have "rest = of_nat (length (take n xs)) # take n xs @ 0 #
      PutUint16 (of_nat (length (take m zs))) @ take m zs @ 0 # PutUint64 (Uint64 ws)"
    using rest bl xs ys zs ws ql by metis
  ultimately show ?thesis by blast
qed

section \<open>What the range bounds cover\<close>

definition in_range :: "bytes \<times> bytes \<Rightarrow> bytes \<Rightarrow> bool" where
  "in_range b k \<longleftrightarrow> fst b \<le> k \<and> k < snd b"

lemma row_prefix_le: "escape r @ 0 # 0 # x \<le> escape r' @ 0 # 0 # y \<longleftrightarrow> r < r' \<or> r = r' \<and> x \<le> y"
  by (auto simp: le_less escape_row_order escape_inj_prefix)

lemma of_nat_byte_less: "n \<le> 255 \<Longrightarrow> (of_nat n :: byte) < 0xFF \<longleftrightarrow> n < 255"
  by (simp add: word_less_nat_alt unat_of_nat)

lemma in_row_bounds:
  assumes "valid_col f q"
  shows "in_range (rowKeyRangeBounds r) (EncodeCellKey r' f q t) \<longleftrightarrow> r' = r \<and> length f < 255"
  using assms
  by (auto simp: in_range_def rowKeyRangeBounds_def Let_def EncodeCellKey_eq encodeRowPrefix_eq
      rowEndKey_eq row_prefix_le escape_row_order of_nat_byte_less valid_col_def)

lemma field1_le:
  assumes "length f \<le> 255" "length f' \<le> 255"
  shows "of_nat (length f) # f @ x \<le> (of_nat (length f') :: byte) # f' @ y \<longleftrightarrow>
    name_less f f' \<or> f = f' \<and> x \<le> y"
proof -
  have u: "unat (of_nat (length f) :: byte) = length f" "unat (of_nat (length f') :: byte) = length f'"
    using assms by (simp_all add: unat_of_nat)
  have "(of_nat (length f) # f @ x = (of_nat (length f') :: byte) # f' @ y) \<longleftrightarrow> f = f' \<and> x = y"
    using u by (metis append_eq_append_conv list.inject)
  then show ?thesis
    unfolding le_less field1_order [OF assms] by (auto simp: name_less_def)
qed

lemma field2_le:
  assumes "length q \<le> 65535" "length q' \<le> 65535"
  shows "PutUint16 (of_nat (length q)) @ q @ x \<le> PutUint16 (of_nat (length q')) @ q' @ y \<longleftrightarrow>
    name_less q q' \<or> q = q' \<and> x \<le> y"
proof -
  have u: "unat (of_nat (length q) :: 16 word) = length q" "unat (of_nat (length q') :: 16 word) = length q'"
    using assms by (simp_all add: unat_of_nat)
  have "(PutUint16 (of_nat (length q)) @ q @ x = PutUint16 (of_nat (length q')) @ q' @ y) \<longleftrightarrow> q = q' \<and> x = y"
  proof
    assume e: "PutUint16 (of_nat (length q)) @ q @ x = PutUint16 (of_nat (length q')) @ q' @ y"
    then have "(of_nat (length q) :: 16 word) = of_nat (length q')" "q @ x = q' @ y"
      by (simp_all add: append_eq_append_conv)
    with u show "q = q' \<and> x = y" by (metis append_eq_append_conv)
  qed simp
  then show ?thesis
    unfolding le_less field2_order [OF assms] by (auto simp: name_less_def)
qed

lemma name_less_irrefl [simp]: "\<not> name_less a a"
  by (simp add: name_less_def)

lemma name_less_asym: "name_less a b \<Longrightarrow> \<not> name_less b a"
  by (auto simp: name_less_def)

lemma PutUint16_high: "PutUint16 v @ x < [0xFF] \<longleftrightarrow> unat v < 65280"
proof -
  have "unat v div 256 < 256"
    using unsigned_less [of v, where 'a = nat] by (simp add: less_mult_imp_div_less)
  then have "(of_nat (unat v div 256) :: byte) < 0xFF \<longleftrightarrow> unat v div 256 < 255"
    by (simp add: word_less_nat_alt unat_of_nat)
  then show ?thesis
    by (simp add: PutUint16_def numeral_2_eq_2) linarith
qed

lemma PutUint64_high: "PutUint64 v < [0xFF] \<longleftrightarrow> unat v < 255 * 256 ^ 7"
proof -
  have lt: "unat v < 256 ^ 8"
    using unsigned_less [of v, where 'a = nat] by simp
  then have "unat v div 256 ^ 7 < 256"
    by (simp add: less_mult_imp_div_less)
  then have "(of_nat (unat v div 256 ^ 7) :: byte) < 0xFF \<longleftrightarrow> unat v div 256 ^ 7 < 255"
    by (simp add: word_less_nat_alt unat_of_nat)
  moreover have "unat v div 256 ^ 7 < 255 \<longleftrightarrow> unat v < 255 * 256 ^ 7"
    by (simp add: div_less_iff_less_mult)
  moreover have "PutUint64 v = of_nat (unat v div 256 ^ 7) # be_put 7 (unat v)"
    using be_put.simps(2) [of 7 "unat v"] by (simp add: PutUint64_def)
  ultimately show ?thesis by simp
qed

lemma in_family_bounds:
  assumes "valid_col f' q'" "length f \<le> 255"
  shows "in_range (rowKeyFamilyBounds r f) (EncodeCellKey r' f' q' t) \<longleftrightarrow>
    r' = r \<and> f' = f \<and> length q' < 65280"
proof -
  have v: "length f' \<le> 255" "length q' \<le> 65535"
    using assms by (simp_all add: valid_col_def)
  have q: "unat (of_nat (length q') :: 16 word) = length q'"
    using v by (simp add: unat_of_nat)
  show ?thesis
    unfolding in_range_def rowKeyFamilyBounds_def Let_def fst_conv snd_conv familyEndKey_eq
      encodeRowPrefix_eq encodeFamilyPrefix_eq [OF assms(2)] EncodeCellKey_eq [OF assms(1)]
      append.assoc append_Cons append_Nil row_prefix_le escape_row_order
    unfolding field1_le [OF assms(2) v(1)] field1_order [OF v(1) assms(2)]
    by (auto simp: PutUint16_high q name_less_def)
qed

lemma column_prefix_order:
  assumes "valid_col f q" "valid_col f' q'"
  shows "escape r @ 0 # 0 # of_nat (length f) # f @ 0 # PutUint16 (of_nat (length q)) @ q @ 0 # x
       < escape r' @ 0 # 0 # of_nat (length f') # f' @ 0 # PutUint16 (of_nat (length q')) @ q' @ 0 # y
    \<longleftrightarrow> r < r' \<or> r = r' \<and> (name_less f f' \<or> f = f' \<and> (name_less q q' \<or> q = q' \<and> x < y))"
proof -
  have v: "length f \<le> 255" "length f' \<le> 255" "length q \<le> 65535" "length q' \<le> 65535"
    using assms by (simp_all add: valid_col_def)
  show ?thesis
    unfolding escape_row_order field1_order [OF v(1,2)]
    unfolding Cons_less_Cons field2_order [OF v(3,4)]
    by (auto simp: name_less_def)
qed

lemma column_prefix_eq:
  assumes "valid_col f q"
  shows "encodeColumnPrefix (encodeFamilyPrefix (encodeRowPrefix r) f) q =
    escape r @ 0 # 0 # of_nat (length f) # f @ 0 # PutUint16 (of_nat (length q)) @ q @ [0]"
  using assms
  by (simp add: encodeRowPrefix_eq encodeFamilyPrefix_eq encodeColumnPrefix_eq valid_col_def)

text \<open>A range of keys that share one column prefix covers exactly the cells of that
  column whose inverted timestamp lies in the range.\<close>

lemma in_column_range:
  assumes "valid_col f' q'" "valid_col f q"
  shows "in_range
      (encodeColumnPrefix (encodeFamilyPrefix (encodeRowPrefix r) f) q @ lo,
       encodeColumnPrefix (encodeFamilyPrefix (encodeRowPrefix r) f) q @ hi)
      (EncodeCellKey r' f' q' t) \<longleftrightarrow>
    r' = r \<and> f' = f \<and> q' = q \<and>
      lo \<le> PutUint64 (invertedTimestamp t) \<and> PutUint64 (invertedTimestamp t) < hi"
  unfolding in_range_def fst_conv snd_conv column_prefix_eq [OF assms(2)]
    EncodeCellKey_eq [OF assms(1)] append.assoc append_Cons append_Nil not_less [symmetric]
    column_prefix_order [OF assms(1) assms(2)]
  by (auto dest: name_less_asym)

lemma in_column_bounds:
  assumes "valid_col f' q'" "valid_col f q"
  shows "in_range (rowKeyColumnBounds r f q) (EncodeCellKey r' f' q' t) \<longleftrightarrow>
    r' = r \<and> f' = f \<and> q' = q \<and> 2 ^ 56 - 2 ^ 63 \<le> sint t"
proof -
  have "PutUint64 (invertedTimestamp t) < [0xFF] \<longleftrightarrow> 2 ^ 56 - 2 ^ 63 \<le> sint t"
  proof -
    have "unat w < n \<longleftrightarrow> uint w < int n" for w :: "64 word" and n
      by (metis of_nat_less_iff of_nat_unat)
    then have "PutUint64 (invertedTimestamp t) < [0xFF] \<longleftrightarrow> uint (invertedTimestamp t) < int (255 * 256 ^ 7)"
      by (simp only: PutUint64_high)
    then show ?thesis
      by (simp add: uint_inverted) linarith
  qed
  then show ?thesis
    using in_column_range [OF assms, of r "[]" "[0xFF]" r' t]
    by (simp add: rowKeyColumnBounds_def Let_def columnEndKey_eq)
qed

lemma encodeTimestampRangeBounds_eq:
  "encodeTimestampRangeBounds cp s e =
     (cp @ PutUint64 (if invertedTimestamp e + 1 = 0 then MaxUint64 else invertedTimestamp e + 1),
      cp @ PutUint64 (if invertedTimestamp s + 1 = 0 then MaxUint64 else invertedTimestamp s + 1))"
  unfolding encodeTimestampRangeBounds_def Let_def
  using copy_suffix [of cp "PutUint64 _"] by (simp only: length_PutUint64)

definition MinInt64 :: int64 where
  "MinInt64 = 0x8000000000000000"

lemma inverted_wraps: "invertedTimestamp t + 1 = 0 \<longleftrightarrow> t = MinInt64"
proof -
  have "invertedTimestamp t + 1 = MinInt64 - t"
    by (simp add: invertedTimestamp_def MaxInt64_def MinInt64_def)
  then show ?thesis by auto
qed

lemma word_less_succ: "(b :: 64 word) + 1 \<noteq> 0 \<Longrightarrow> a < b + 1 \<longleftrightarrow> a \<le> b"
  using unatSuc [of b] by (simp add: word_less_nat_alt word_le_nat_alt add.commute less_Suc_eq_le)

lemma in_timestamp_bounds:
  assumes "valid_col f' q'" "valid_col f q" "s \<noteq> MinInt64" "e \<noteq> MinInt64"
  shows "in_range (encodeTimestampRangeBounds
        (encodeColumnPrefix (encodeFamilyPrefix (encodeRowPrefix r) f) q) s e)
      (EncodeCellKey r' f' q' t) \<longleftrightarrow>
    r' = r \<and> f' = f \<and> q' = q \<and> sint s \<le> sint t \<and> sint t < sint e"
proof -
  have n: "invertedTimestamp s + 1 \<noteq> 0" "invertedTimestamp e + 1 \<noteq> 0"
    using assms(3,4) by (simp_all add: inverted_wraps)
  have "PutUint64 (invertedTimestamp e + 1) \<le> PutUint64 (invertedTimestamp t) \<longleftrightarrow> sint t < sint e"
    unfolding not_less [symmetric] PutUint64_less word_less_succ [OF n(2)]
    by (simp add: inverted_less not_le)
  moreover have "PutUint64 (invertedTimestamp t) < PutUint64 (invertedTimestamp s + 1) \<longleftrightarrow> sint s \<le> sint t"
    unfolding PutUint64_less word_less_succ [OF n(1)]
    by (simp add: inverted_less not_less [symmetric])
  ultimately show ?thesis
    unfolding encodeTimestampRangeBounds_eq in_column_range [OF assms(1,2)]
    using n by auto
qed

section \<open>Properties\<close>

lemma DecodeCellKey_encoded:
  assumes "valid_col f q"
  shows "DecodeCellKey (EncodeCellKey r f q t) =
    \<lparr>d_rowKey = r, d_family = f, d_qualifier = q, d_ts = t, d_ok = True\<rparr>"
  using assms
  by (simp add: EncodeCellKey_eq DecodeCellKey_parse parse_row_escape decode_at_encoded zero_decoded_def)

lemma DecodeCellKey_ok:
  assumes "d_ok (DecodeCellKey k)"
  shows "\<exists>r f q t. valid_col f q \<and> k = EncodeCellKey r f q t"
proof -
  from assms obtain r rest where p: "parse_row k = Some (r, rest)"
    and ok: "d_ok (decode_at rest 0 (zero_decoded\<lparr>d_rowKey := r\<rparr>))"
    by (auto simp: DecodeCellKey_parse zero_decoded_def split: option.splits)
  from decode_at_sound [OF ok] obtain f q v where "valid_col f q" and
    "rest = of_nat (length f) # f @ 0 # PutUint16 (of_nat (length q)) @ q @ 0 # PutUint64 v"
    by (auto simp: zero_decoded_def)
  then have "valid_col f q \<and> k = EncodeCellKey r f q (timestampFromInverted v)"
    using parse_row_sound [OF p] by (simp add: EncodeCellKey_eq)
  then show ?thesis by blast
qed

text \<open>C9: decoding an encoded cell key gives back the row key, family, qualifier and
  timestamp, for every row key (null bytes included), every timestamp (negative ones
  included) and every family and qualifier whose length fits its length field.\<close>

theorem decode_encode:
  assumes "length f \<le> 255" "length q \<le> 65535"
  shows "DecodeCellKey (EncodeCellKey r f q t) =
    \<lparr>d_rowKey = r, d_family = f, d_qualifier = q, d_ts = t, d_ok = True\<rparr>"
  using assms by (simp add: DecodeCellKey_encoded valid_col_def)

theorem decode_encode_witness:
  "DecodeCellKey (EncodeCellKey [97, 0, 98] [99, 102] [] (-5)) =
    \<lparr>d_rowKey = [97, 0, 98], d_family = [99, 102], d_qualifier = [], d_ts = -5, d_ok = True\<rparr>"
  by (rule decode_encode) simp_all

text \<open>C27: the decoder accepts exactly the encodings. If it reports success on any byte
  string, then re-encoding the decoded cell gives that byte string again, and the decoded
  family and qualifier fit their length fields.\<close>

theorem decode_canonical:
  assumes "d_ok (DecodeCellKey k)"
  shows "EncodeCellKey (d_rowKey (DecodeCellKey k)) (d_family (DecodeCellKey k))
      (d_qualifier (DecodeCellKey k)) (d_ts (DecodeCellKey k)) = k
    \<and> length (d_family (DecodeCellKey k)) \<le> 255 \<and> length (d_qualifier (DecodeCellKey k)) \<le> 65535"
  using DecodeCellKey_ok [OF assms] by (auto simp: DecodeCellKey_encoded valid_col_def)

theorem decode_canonical_witness:
  "EncodeCellKey (d_rowKey (DecodeCellKey [97, 0, 0, 1, 102, 0, 0, 1, 113, 0, 127, 255, 255, 255, 255, 255, 255, 248]))
     [102] [113] 7 = [97, 0, 0, 1, 102, 0, 0, 1, 113, 0, 127, 255, 255, 255, 255, 255, 255, 248]"
proof -
  have k: "EncodeCellKey [97] [102] [113] 7 =
      [97, 0, 0, 1, 102, 0, 0, 1, 113, 0, 127, 255, 255, 255, 255, 255, 255, 248]"
    by (simp add: EncodeCellKey_eq valid_col_def invertedTimestamp_def MaxInt64_def byte_simps)
  then have d: "DecodeCellKey [97, 0, 0, 1, 102, 0, 0, 1, 113, 0, 127, 255, 255, 255, 255, 255, 255, 248]
      = \<lparr>d_rowKey = [97], d_family = [102], d_qualifier = [113], d_ts = 7, d_ok = True\<rparr>"
    using DecodeCellKey_encoded [of "[102]" "[113]" "[97]" 7] by (simp add: valid_col_def)
  show ?thesis
    using decode_canonical [of "[97, 0, 0, 1, 102, 0, 0, 1, 113, 0, 127, 255, 255, 255, 255, 255, 255, 248]"]
    by (simp add: d)
qed

text \<open>C8: byte order of the keys is the order the comments promise: rows in the
  lexicographic order of the raw row keys, then the column, then the newest timestamp
  first, negative timestamps included.\<close>

theorem encode_order:
  assumes "length f \<le> 255" "length q \<le> 65535" "length f' \<le> 255" "length q' \<le> 65535"
  shows "EncodeCellKey r f q t < EncodeCellKey r' f' q' t' \<longleftrightarrow>
    cell_less (r, f, q, t) (r', f', q', t')"
  using assms by (simp add: EncodeCellKey_order valid_col_def del: cell_less.simps)

theorem encode_order_witness:
  "EncodeCellKey [97] [99] [] 0 < EncodeCellKey [97, 0] [98] [] 5
   \<and> EncodeCellKey [97] [99] [] 2 < EncodeCellKey [97] [99] [] (-3)"
  using encode_order [of "[99]" "[]" "[98]" "[]" "[97]" 0 "[97, 0]" 5]
    encode_order [of "[99]" "[]" "[99]" "[]" "[97]" 2 "[97]" "-3"]
  by (simp add: name_less_def)

text \<open>C28: the reusable decoder \<open>CellDecoder.Decode\<close> returns what \<open>DecodeCellKey\<close>
  returns, on every input and whatever an earlier call left in its buffers.\<close>

theorem decoder_equiv: "fst (Decode dec key) = DecodeCellKey key"
  by (rule Decode_eq)

text \<open>The scan bounds of a row cover a cell exactly when the cell belongs to that row
  and its family name is shorter than 255 bytes.\<close>

theorem row_bounds_exact:
  assumes "length f \<le> 255" "length q \<le> 65535"
  shows "in_range (rowKeyRangeBounds r) (EncodeCellKey r' f q t) \<longleftrightarrow> r' = r \<and> length f < 255"
  using assms by (simp add: in_row_bounds valid_col_def)

theorem row_bounds_exact_witness:
  "in_range (rowKeyRangeBounds [97, 0]) (EncodeCellKey [97, 0] [99] [1] 3)
   \<and> \<not> in_range (rowKeyRangeBounds [97]) (EncodeCellKey [97, 0] [99] [1] 3)
   \<and> \<not> in_range (rowKeyRangeBounds [97]) (EncodeCellKey [97] (replicate 255 120) [1] 3)"
  using row_bounds_exact [of "[99]" "[1]" "[97, 0]" "[97, 0]" 3]
    row_bounds_exact [of "[99]" "[1]" "[97]" "[97, 0]" 3]
    row_bounds_exact [of "replicate 255 120" "[1]" "[97]" "[97]" 3]
  by simp

text \<open>C22: the bounds built for a timestamp range cover, of all cells of the table,
  exactly those of that row, family and qualifier whose timestamp lies in the half-open
  range, for every pair of bounds other than the least 64-bit value.\<close>

theorem timestamp_bounds_exact:
  assumes "length f' \<le> 255" "length q' \<le> 65535" "length f \<le> 255" "length q \<le> 65535"
    "s \<noteq> MinInt64" "e \<noteq> MinInt64"
  shows "in_range (encodeTimestampRangeBounds
        (encodeColumnPrefix (encodeFamilyPrefix (encodeRowPrefix r) f) q) s e)
      (EncodeCellKey r' f' q' t) \<longleftrightarrow>
    r' = r \<and> f' = f \<and> q' = q \<and> sint s \<le> sint t \<and> sint t < sint e"
  using assms by (simp add: in_timestamp_bounds valid_col_def)

theorem timestamp_bounds_exact_witness:
  "in_range (encodeTimestampRangeBounds
        (encodeColumnPrefix (encodeFamilyPrefix (encodeRowPrefix [97]) [102]) [113]) (-2) 5)
      (EncodeCellKey [97] [102] [113] 4)
   \<and> \<not> in_range (encodeTimestampRangeBounds
        (encodeColumnPrefix (encodeFamilyPrefix (encodeRowPrefix [97]) [102]) [113]) (-2) 5)
      (EncodeCellKey [97] [102] [113] 5)"
  using timestamp_bounds_exact [of "[102]" "[113]" "[102]" "[113]" "-2" 5 "[97]" "[97]" 4]
    timestamp_bounds_exact [of "[102]" "[113]" "[102]" "[113]" "-2" 5 "[97]" "[97]" 5]
  by (simp add: MinInt64_def)

end
