(* ===== verification/RowFilters.thy ===== *)
theory RowFilters
  imports Complex_Main Encoding
begin

text \<open>
  Row filters: \<open>pkg/bigtable/filter.go\<close>. A \<open>RowFilter\<close> message is compiled into a tree
  of evaluators; evaluating a cell may change the state of the tree (cell counters, the
  set of cells an interleave has emitted, the row a sampler has decided on), so
  \<open>evaluate\<close> returns the new tree, and \<open>reset\<close> is called at each row boundary.

  Go's \<open>regexp\<close> engine is a parameter, \<open>compile\<close>: it maps a pattern to a compile error
  or to its match function. The pseudo-random numbers of \<open>math/rand\<close> are an infinite
  stream that the evaluation consumes. Counters are Go \<open>int\<close>s bounded by the number of
  cells of a row, so they are modelled as integers.
\<close>

section \<open>Model\<close>

subsection \<open>Filter messages\<close>

text \<open>A \<open>float64\<close> with Go's comparison: a comparison with NaN is false.\<close>

datatype float64 = Fin rat | PosInf | NegInf | NaN

fun float_less :: "float64 \<Rightarrow> float64 \<Rightarrow> bool" where
  "float_less (Fin a) (Fin b) = (a < b)"
| "float_less (Fin a) PosInf = True"
| "float_less NegInf (Fin b) = True"
| "float_less NegInf PosInf = True"
| "float_less _ _ = False"

type_synonym goerr = string
type_synonym regexp = "bytes \<Rightarrow> bool"
type_synonym compiler = "bytes \<Rightarrow> goerr + regexp"
type_synonym rng = "nat \<Rightarrow> float64"

text \<open>The \<open>oneof\<close> bounds of the range messages.\<close>

datatype bound = Unset | Closed bytes | Open bytes

record columnRange =
  cr_family :: bytes
  cr_start :: bound
  cr_end :: bound

record timestampRange =
  tr_start :: int64
  tr_end :: int64

record valueRange =
  vr_start :: bound
  vr_end :: bound

text \<open>The \<open>RowFilter\<close> message: one constructor per member of its \<open>oneof\<close>, \<open>NoFilter\<close>
  when none is set. A nil message pointer is \<open>None\<close> of the option type.\<close>

datatype rowFilter =
    NoFilter
  | Chain "rowFilter list"
  | Interleave "rowFilter list"
  | Condition "rowFilter option" "rowFilter option" "rowFilter option"
  | Sink bool
  | PassAllFilter bool
  | BlockAllFilter bool
  | RowKeyRegexFilter bytes
  | RowSampleFilter float64
  | FamilyNameRegexFilter bytes
  | ColumnQualifierRegexFilter bytes
  | ColumnRangeFilter columnRange
  | TimestampRangeFilter timestampRange
  | CellsPerRowOffsetFilter "32 word"
  | CellsPerRowLimitFilter "32 word"
  | CellsPerColumnLimitFilter "32 word"
  | StripValueTransformer bool
  | ApplyLabelTransformer bytes
  | ValueRegexFilter bytes
  | ValueRangeFilter valueRange
  | ValueBitmaskFilter bytes

subsection \<open>Evaluators\<close>

record cellInfo =
  c_rowKey :: bytes
  c_family :: bytes
  c_qualifier :: bytes
  c_ts :: int64
  c_value :: bytes

type_synonym cellIdentity = "bytes \<times> bytes \<times> int64"

definition identity :: "cellInfo \<Rightarrow> cellIdentity" where
  "identity cell = (c_family cell, c_qualifier cell, c_ts cell)"

record columnRangeFilter =
  crf_family :: bytes
  startQualifier :: bytes
  endQualifier :: bytes
  crf_startInclusive :: bool
  crf_endInclusive :: bool
  rangeSet :: bool

record valueRangeFilter =
  startValue :: bytes
  endValue :: bytes
  vrf_startInclusive :: bool
  vrf_endInclusive :: bool

text \<open>One constructor per implementation of the Go interface \<open>filterEvaluator\<close>, with
  the fields of its struct; a nil \<open>seen\<close> or \<open>colCounts\<close> map is the empty one.\<close>

datatype filterEvaluator =
    chainFilter "filterEvaluator list"
  | interleaveFilter "filterEvaluator list" "cellIdentity set"
  | conditionFilter filterEvaluator "filterEvaluator option" "filterEvaluator option" bool bool
  | passAllFilter
  | blockAllFilter
  | rowKeyRegexFilter regexp
  | familyRegexFilter regexp
  | qualifierRegexFilter regexp
  | colRangeFilter columnRangeFilter
  | timestampRangeFilter int64 int64
  | cellsPerRowOffsetFilter int int
  | cellsPerRowLimitFilter int int
  | cellsPerColumnLimitFilter int "bytes \<Rightarrow> int"
  | stripValueFilter
  | applyLabelFilter bytes
  | valueRegexFilter regexp
  | valRangeFilter valueRangeFilter
  | valueBitmaskFilter bytes
  | rowSampleFilter float64 bytes bool

subsection \<open>Building the tree\<close>

definition buildColumnRangeFilter :: "columnRange \<Rightarrow> columnRangeFilter" where
  "buildColumnRangeFilter cr =
     (let f = \<lparr>crf_family = cr_family cr, startQualifier = [], endQualifier = [],
               crf_startInclusive = False, crf_endInclusive = False, rangeSet = False\<rparr>;
          f = (case cr_start cr of
                 Closed q \<Rightarrow> f\<lparr>startQualifier := q, crf_startInclusive := True, rangeSet := True\<rparr>
               | Open q \<Rightarrow> f\<lparr>startQualifier := q, rangeSet := True\<rparr>
               | Unset \<Rightarrow> f)
      in case cr_end cr of
           Closed q \<Rightarrow> f\<lparr>endQualifier := q, crf_endInclusive := True, rangeSet := True\<rparr>
         | Open q \<Rightarrow> f\<lparr>endQualifier := q, rangeSet := True\<rparr>
         | Unset \<Rightarrow> f)"

definition buildTimestampRangeFilter :: "timestampRange \<Rightarrow> filterEvaluator" where
  "buildTimestampRangeFilter tr = timestampRangeFilter (tr_start tr) (tr_end tr)"

definition buildValueRangeFilter :: "valueRange \<Rightarrow> valueRangeFilter" where
  "buildValueRangeFilter vr =
     (let f = \<lparr>startValue = [], endValue = [], vrf_startInclusive = False, vrf_endInclusive = False\<rparr>;
          f = (case vr_start vr of
                 Closed v \<Rightarrow> f\<lparr>startValue := v, vrf_startInclusive := True\<rparr>
               | Open v \<Rightarrow> f\<lparr>startValue := v\<rparr>
               | Unset \<Rightarrow> f)
      in case vr_end vr of
           Closed v \<Rightarrow> f\<lparr>endValue := v, vrf_endInclusive := True\<rparr>
         | Open v \<Rightarrow> f\<lparr>endValue := v\<rparr>
         | Unset \<Rightarrow> f)"

definition buildRegex :: "compiler \<Rightarrow> (regexp \<Rightarrow> filterEvaluator) \<Rightarrow> bytes \<Rightarrow> goerr + filterEvaluator" where
  "buildRegex compile mk pat = (case compile pat of Inl e \<Rightarrow> Inl e | Inr re \<Rightarrow> Inr (mk re))"

fun buildEvaluator :: "compiler \<Rightarrow> rowFilter \<Rightarrow> goerr + filterEvaluator"
  and buildFilters :: "compiler \<Rightarrow> rowFilter list \<Rightarrow> goerr + filterEvaluator list"
  and buildPointer :: "compiler \<Rightarrow> rowFilter option \<Rightarrow> goerr + filterEvaluator"
  and buildBranch :: "compiler \<Rightarrow> rowFilter option \<Rightarrow> goerr + filterEvaluator option" where
  "buildEvaluator c (Chain fs) =
     (case buildFilters c fs of Inl e \<Rightarrow> Inl e | Inr es \<Rightarrow> Inr (chainFilter es))"
| "buildEvaluator c (Interleave fs) =
     (case buildFilters c fs of Inl e \<Rightarrow> Inl e | Inr es \<Rightarrow> Inr (interleaveFilter es {}))"
| "buildEvaluator c (Condition p t f) =
     (case buildPointer c p of
        Inl e \<Rightarrow> Inl e
      | Inr pred \<Rightarrow>
          (case buildBranch c t of
             Inl e \<Rightarrow> Inl e
           | Inr tf \<Rightarrow>
               (case buildBranch c f of
                  Inl e \<Rightarrow> Inl e
                | Inr ff \<Rightarrow> Inr (conditionFilter pred tf ff False False))))"
| "buildEvaluator c (PassAllFilter b) = Inr passAllFilter"
| "buildEvaluator c (BlockAllFilter b) = Inr blockAllFilter"
| "buildEvaluator c (RowKeyRegexFilter p) = buildRegex c rowKeyRegexFilter p"
| "buildEvaluator c (FamilyNameRegexFilter p) = buildRegex c familyRegexFilter p"
| "buildEvaluator c (ColumnQualifierRegexFilter p) = buildRegex c qualifierRegexFilter p"
| "buildEvaluator c (ColumnRangeFilter r) = Inr (colRangeFilter (buildColumnRangeFilter r))"
| "buildEvaluator c (TimestampRangeFilter r) = Inr (buildTimestampRangeFilter r)"
| "buildEvaluator c (CellsPerRowOffsetFilter n) = Inr (cellsPerRowOffsetFilter (sint n) 0)"
| "buildEvaluator c (CellsPerRowLimitFilter n) = Inr (cellsPerRowLimitFilter (sint n) 0)"
| "buildEvaluator c (CellsPerColumnLimitFilter n) = Inr (cellsPerColumnLimitFilter (sint n) (\<lambda>_. 0))"
| "buildEvaluator c (StripValueTransformer b) = Inr stripValueFilter"
| "buildEvaluator c (ApplyLabelTransformer l) = Inr (applyLabelFilter l)"
| "buildEvaluator c (ValueRegexFilter p) = buildRegex c valueRegexFilter p"
| "buildEvaluator c (ValueRangeFilter r) = Inr (valRangeFilter (buildValueRangeFilter r))"
| "buildEvaluator c (ValueBitmaskFilter msk) = Inr (valueBitmaskFilter msk)"
| "buildEvaluator c (RowSampleFilter r) = Inr (rowSampleFilter r [] False)"
| "buildEvaluator c (Sink b) = Inr passAllFilter"
| "buildEvaluator c NoFilter = Inr passAllFilter"
| "buildFilters c [] = Inr []"
| "buildFilters c (f # fs) =
     (case buildEvaluator c f of
        Inl e \<Rightarrow> Inl e
      | Inr x \<Rightarrow> (case buildFilters c fs of Inl e \<Rightarrow> Inl e | Inr xs \<Rightarrow> Inr (x # xs)))"
| "buildPointer c None = Inr passAllFilter"
| "buildPointer c (Some f) = buildEvaluator c f"
| "buildBranch c None = Inr None"
| "buildBranch c (Some f) =
     (case buildEvaluator c f of Inl e \<Rightarrow> Inl e | Inr x \<Rightarrow> Inr (Some x))"

subsection \<open>Evaluating a cell\<close>

definition columnRangeMatch :: "columnRangeFilter \<Rightarrow> cellInfo \<Rightarrow> bool" where
  "columnRangeMatch c cell =
     (if crf_family c \<noteq> [] \<and> c_family cell \<noteq> crf_family c then False
      else if \<not> rangeSet c then True
      else if startQualifier c \<noteq> [] \<and>
              (if crf_startInclusive c then c_qualifier cell < startQualifier c
               else c_qualifier cell \<le> startQualifier c) then False
      else if endQualifier c \<noteq> [] \<and>
              (if crf_endInclusive c then c_qualifier cell > endQualifier c
               else c_qualifier cell \<ge> endQualifier c) then False
      else True)"

definition timestampRangeMatch :: "int64 \<Rightarrow> int64 \<Rightarrow> cellInfo \<Rightarrow> bool" where
  "timestampRangeMatch startMicros endMicros cell =
     (if sint startMicros > 0 \<and> sint (c_ts cell) < sint startMicros then False
      else if sint endMicros > 0 \<and> sint (c_ts cell) \<ge> sint endMicros then False
      else True)"

definition valueRangeMatch :: "valueRangeFilter \<Rightarrow> cellInfo \<Rightarrow> bool" where
  "valueRangeMatch v cell =
     (if startValue v \<noteq> [] \<and>
         (if vrf_startInclusive v then c_value cell < startValue v
          else c_value cell \<le> startValue v) then False
      else if endValue v \<noteq> [] \<and>
         (if vrf_endInclusive v then c_value cell > endValue v
          else c_value cell \<ge> endValue v) then False
      else True)"

text \<open>The two loops of the bitmask filter.\<close>

fun maskLoop :: "bytes \<Rightarrow> bytes \<Rightarrow> bool" where
  "maskLoop v [] = list_all ((=) 0) v"
| "maskLoop [] (b # bs) = False"
| "maskLoop (a # as) (b # bs) = (if and a b \<noteq> b then False else maskLoop as bs)"

definition valueBitmaskMatch :: "bytes \<Rightarrow> cellInfo \<Rightarrow> bool" where
  "valueBitmaskMatch msk cell =
     (if length (c_value cell) < length msk then False else maskLoop (c_value cell) msk)"

definition draw :: "rng \<Rightarrow> float64 \<times> rng" where
  "draw g = (g 0, \<lambda>n. g (Suc n))"

fun evaluate :: "filterEvaluator \<Rightarrow> cellInfo \<Rightarrow> rng \<Rightarrow> bool \<times> filterEvaluator \<times> rng"
  and evaluateChain :: "filterEvaluator list \<Rightarrow> cellInfo \<Rightarrow> rng \<Rightarrow> bool \<times> filterEvaluator list \<times> rng"
  and evaluateAny :: "filterEvaluator list \<Rightarrow> cellInfo \<Rightarrow> rng \<Rightarrow> bool \<times> filterEvaluator list \<times> rng"
  and evaluateBranch :: "bool \<Rightarrow> filterEvaluator option \<Rightarrow> cellInfo \<Rightarrow> rng \<Rightarrow> bool \<times> filterEvaluator option \<times> rng" where
  "evaluate (chainFilter fs) cell g =
     (case evaluateChain fs cell g of (b, fs', g') \<Rightarrow> (b, chainFilter fs', g'))"
| "evaluate (interleaveFilter fs seen) cell g =
     (case evaluateAny fs cell g of
        (False, fs', g') \<Rightarrow> (False, interleaveFilter fs' seen, g')
      | (True, fs', g') \<Rightarrow>
          if identity cell \<in> seen then (False, interleaveFilter fs' seen, g')
          else (True, interleaveFilter fs' (insert (identity cell) seen), g'))"
| "evaluate (conditionFilter p t f m e) cell g =
     (case evaluate p cell g of
        (True, p', g') \<Rightarrow>
          (case evaluateBranch True t cell g' of (b, t', g'') \<Rightarrow> (b, conditionFilter p' t' f m e, g''))
      | (False, p', g') \<Rightarrow>
          (case evaluateBranch False f cell g' of (b, f', g'') \<Rightarrow> (b, conditionFilter p' t f' m e, g'')))"
| "evaluate passAllFilter cell g = (True, passAllFilter, g)"
| "evaluate blockAllFilter cell g = (False, blockAllFilter, g)"
| "evaluate (rowKeyRegexFilter re) cell g = (re (c_rowKey cell), rowKeyRegexFilter re, g)"
| "evaluate (familyRegexFilter re) cell g = (re (c_family cell), familyRegexFilter re, g)"
| "evaluate (qualifierRegexFilter re) cell g = (re (c_qualifier cell), qualifierRegexFilter re, g)"
| "evaluate (colRangeFilter c) cell g = (columnRangeMatch c cell, colRangeFilter c, g)"
| "evaluate (timestampRangeFilter s e) cell g = (timestampRangeMatch s e cell, timestampRangeFilter s e, g)"
| "evaluate (cellsPerRowOffsetFilter off n) cell g =
     (n + 1 > off, cellsPerRowOffsetFilter off (n + 1), g)"
| "evaluate (cellsPerRowLimitFilter limit n) cell g =
     (if n \<ge> limit then (False, cellsPerRowLimitFilter limit n, g)
      else (True, cellsPerRowLimitFilter limit (n + 1), g))"
| "evaluate (cellsPerColumnLimitFilter limit counts) cell g =
     (let col = c_family cell @ [0] @ c_qualifier cell; n = counts col
      in if n \<ge> limit then (False, cellsPerColumnLimitFilter limit counts, g)
         else (True, cellsPerColumnLimitFilter limit (counts(col := n + 1)), g))"
| "evaluate stripValueFilter cell g = (True, stripValueFilter, g)"
| "evaluate (applyLabelFilter l) cell g = (True, applyLabelFilter l, g)"
| "evaluate (valueRegexFilter re) cell g = (re (c_value cell), valueRegexFilter re, g)"
| "evaluate (valRangeFilter v) cell g = (valueRangeMatch v cell, valRangeFilter v, g)"
| "evaluate (valueBitmaskFilter msk) cell g = (valueBitmaskMatch msk cell, valueBitmaskFilter msk, g)"
| "evaluate (rowSampleFilter rate seenRow sampleRow) cell g =
     (if c_rowKey cell \<noteq> seenRow then
        (case draw g of (x, g') \<Rightarrow>
           (float_less x rate, rowSampleFilter rate (c_rowKey cell) (float_less x rate), g'))
      else (sampleRow, rowSampleFilter rate seenRow sampleRow, g))"
| "evaluateChain [] cell g = (True, [], g)"
| "evaluateChain (f # fs) cell g =
     (case evaluate f cell g of
        (False, f', g') \<Rightarrow> (False, f' # fs, g')
      | (True, f', g') \<Rightarrow>
          (case evaluateChain fs cell g' of (b, fs', g'') \<Rightarrow> (b, f' # fs', g'')))"
| "evaluateAny [] cell g = (False, [], g)"
| "evaluateAny (f # fs) cell g =
     (case evaluate f cell g of
        (True, f', g') \<Rightarrow> (True, f' # fs, g')
      | (False, f', g') \<Rightarrow>
          (case evaluateAny fs cell g' of (b, fs', g'') \<Rightarrow> (b, f' # fs', g'')))"
| "evaluateBranch d None cell g = (d, None, g)"
| "evaluateBranch d (Some f) cell g =
     (case evaluate f cell g of (b, f', g') \<Rightarrow> (b, Some f', g'))"

fun reset :: "filterEvaluator \<Rightarrow> filterEvaluator" where
  "reset (chainFilter fs) = chainFilter (map reset fs)"
| "reset (interleaveFilter fs seen) = interleaveFilter (map reset fs) {}"
| "reset (conditionFilter p t f m e) =
     conditionFilter (reset p) (map_option reset t) (map_option reset f) False False"
| "reset (cellsPerRowOffsetFilter off n) = cellsPerRowOffsetFilter off 0"
| "reset (cellsPerRowLimitFilter limit n) = cellsPerRowLimitFilter limit 0"
| "reset (cellsPerColumnLimitFilter limit counts) = cellsPerColumnLimitFilter limit (\<lambda>_. 0)"
| "reset (rowSampleFilter rate seenRow sampleRow) = rowSampleFilter rate [] sampleRow"
| "reset e = e"

subsection \<open>Transformers\<close>

fun evaluatorHasStripValue :: "filterEvaluator \<Rightarrow> bool" where
  "evaluatorHasStripValue stripValueFilter = True"
| "evaluatorHasStripValue (chainFilter fs) = list_ex evaluatorHasStripValue fs"
| "evaluatorHasStripValue (interleaveFilter fs seen) = list_ex evaluatorHasStripValue fs"
| "evaluatorHasStripValue (conditionFilter p t f m e) =
     (evaluatorHasStripValue p \<or>
      (case t of None \<Rightarrow> False | Some x \<Rightarrow> evaluatorHasStripValue x) \<or>
      (case f of None \<Rightarrow> False | Some x \<Rightarrow> evaluatorHasStripValue x))"
| "evaluatorHasStripValue e = False"

fun evaluatorCollectLabels :: "filterEvaluator \<Rightarrow> bytes list" where
  "evaluatorCollectLabels (applyLabelFilter l) = [l]"
| "evaluatorCollectLabels (chainFilter fs) = concat (map evaluatorCollectLabels fs)"
| "evaluatorCollectLabels (interleaveFilter fs seen) = concat (map evaluatorCollectLabels fs)"
| "evaluatorCollectLabels (conditionFilter p t f m e) =
     evaluatorCollectLabels p @
     (case t of None \<Rightarrow> [] | Some x \<Rightarrow> evaluatorCollectLabels x) @
     (case f of None \<Rightarrow> [] | Some x \<Rightarrow> evaluatorCollectLabels x)"
| "evaluatorCollectLabels e = []"

subsection \<open>The filter engine\<close>

record rowFilterEngine =
  fe_eval :: filterEvaluator
  fe_stripValue :: bool
  fe_labels :: "bytes list"

definition newRowFilterEngine :: "compiler \<Rightarrow> rowFilter option \<Rightarrow> goerr + rowFilterEngine" where
  "newRowFilterEngine compile rf =
     (case rf of
        None \<Rightarrow> Inr \<lparr>fe_eval = passAllFilter, fe_stripValue = False, fe_labels = []\<rparr>
      | Some f \<Rightarrow>
          (case buildEvaluator compile f of
             Inl e \<Rightarrow> Inl e
           | Inr ev \<Rightarrow> Inr \<lparr>fe_eval = ev, fe_stripValue = evaluatorHasStripValue ev,
                           fe_labels = evaluatorCollectLabels ev\<rparr>))"

definition cell_of :: "decoded \<Rightarrow> bytes \<Rightarrow> cellInfo" where
  "cell_of d val = \<lparr>c_rowKey = d_rowKey d, c_family = d_family d, c_qualifier = d_qualifier d,
                    c_ts = d_ts d, c_value = val\<rparr>"

text \<open>The iteration of \<open>hasMatch\<close> over what the iterator yields.\<close>

fun matchLoop :: "filterEvaluator \<Rightarrow> cellDecoder \<Rightarrow> (bytes \<times> bytes) list \<Rightarrow> rng \<Rightarrow> bool \<times> filterEvaluator \<times> rng" where
  "matchLoop ev dec [] g = (False, ev, g)"
| "matchLoop ev dec ((k, v) # kvs) g =
     (case Decode dec k of (d, dec') \<Rightarrow>
        if \<not> d_ok d then matchLoop ev dec' kvs g
        else (case evaluate ev (cell_of d v) g of
                (True, ev', g') \<Rightarrow> (True, ev', g')
              | (False, ev', g') \<Rightarrow> matchLoop ev' dec' kvs g'))"

definition emptyDecoder :: cellDecoder where
  "emptyDecoder = \<lparr>rowKeyBuf = [], qualifierBuf = []\<rparr>"

definition hasMatch :: "rowFilterEngine \<Rightarrow> (bytes \<times> bytes) list \<Rightarrow> rng \<Rightarrow> bool \<times> rowFilterEngine \<times> rng" where
  "hasMatch e kvs g =
     (case matchLoop (reset (fe_eval e)) emptyDecoder kvs g of (b, ev, g') \<Rightarrow> (b, e\<lparr>fe_eval := ev\<rparr>, g'))"

definition matchesCell :: "rowFilterEngine \<Rightarrow> cellInfo \<Rightarrow> rng \<Rightarrow> bool \<times> rowFilterEngine \<times> rng" where
  "matchesCell e cell g =
     (case evaluate (fe_eval e) cell g of (b, ev, g') \<Rightarrow> (b, e\<lparr>fe_eval := ev\<rparr>, g'))"

definition hasStripValue :: "rowFilterEngine \<Rightarrow> bool" where
  "hasStripValue e = fe_stripValue e"

text \<open>\<open>process\<close> calls \<open>OnCell\<close> on every cell that passes, until it returns false. The
  callback's own state is threaded as \<open>'a\<close>; the result also says whether \<open>Matched\<close> was set.\<close>

type_synonym 'a onCell = "'a \<Rightarrow> cellInfo \<Rightarrow> bytes list \<Rightarrow> bool \<times> 'a"

fun processLoop :: "bool \<Rightarrow> bytes list \<Rightarrow> 'a onCell \<Rightarrow> filterEvaluator \<Rightarrow> cellDecoder \<Rightarrow>
    (bytes \<times> bytes) list \<Rightarrow> rng \<Rightarrow> bool \<Rightarrow> 'a \<Rightarrow> bool \<times> 'a \<times> filterEvaluator" where
  "processLoop strip ls onCell ev dec [] g matched a = (matched, a, ev)"
| "processLoop strip ls onCell ev dec ((k, v) # kvs) g matched a =
     (case Decode dec k of (d, dec') \<Rightarrow>
        if \<not> d_ok d then processLoop strip ls onCell ev dec' kvs g matched a
        else (case evaluate ev (cell_of d v) g of
                (False, ev', g') \<Rightarrow> processLoop strip ls onCell ev' dec' kvs g' matched a
              | (True, ev', g') \<Rightarrow>
                  (case onCell a (cell_of d (if strip then [] else v)) ls of
                     (False, a') \<Rightarrow> (True, a', ev')
                   | (True, a') \<Rightarrow> processLoop strip ls onCell ev' dec' kvs g' True a')))"

definition process :: "rowFilterEngine \<Rightarrow> (bytes \<times> bytes) list \<Rightarrow> rng \<Rightarrow> 'a onCell \<Rightarrow> 'a \<Rightarrow> bool \<times> 'a \<times> rowFilterEngine" where
  "process e kvs g onCell a =
     (case processLoop (fe_stripValue e) (fe_labels e) onCell (reset (fe_eval e)) emptyDecoder kvs g False a of
        (matched, a', ev) \<Rightarrow> (matched, a', e\<lparr>fe_eval := ev\<rparr>))"

section \<open>Reference semantics\<close>

text \<open>A run of the evaluator over the cells of one row: the cells that pass.\<close>

fun evalCells :: "filterEvaluator \<Rightarrow> cellInfo list \<Rightarrow> rng \<Rightarrow> cellInfo list \<times> filterEvaluator \<times> rng" where
  "evalCells e [] g = ([], e, g)"
| "evalCells e (c # cs) g =
     (case evaluate e c g of (b, e', g') \<Rightarrow>
        (case evalCells e' cs g' of (out, e'', g'') \<Rightarrow> (if b then c # out else out, e'', g'')))"

text \<open>Trees without counters and samplers, and the boolean meaning of a tree.\<close>

fun pure :: "filterEvaluator \<Rightarrow> bool" where
  "pure (chainFilter fs) = list_all pure fs"
| "pure (interleaveFilter fs seen) = list_all pure fs"
| "pure (conditionFilter p t f m e) = (pure p \<and> pred_option pure t \<and> pred_option pure f)"
| "pure (cellsPerRowOffsetFilter off n) = False"
| "pure (cellsPerRowLimitFilter limit n) = False"
| "pure (cellsPerColumnLimitFilter limit counts) = False"
| "pure (rowSampleFilter rate s b) = False"
| "pure e = True"

fun sem :: "filterEvaluator \<Rightarrow> cellInfo \<Rightarrow> bool" where
  "sem (chainFilter fs) c = list_all (\<lambda>f. sem f c) fs"
| "sem (interleaveFilter fs seen) c = list_ex (\<lambda>f. sem f c) fs"
| "sem (conditionFilter p t f m e) c =
     (if sem p c then (case t of None \<Rightarrow> True | Some x \<Rightarrow> sem x c)
      else (case f of None \<Rightarrow> False | Some x \<Rightarrow> sem x c))"
| "sem blockAllFilter c = False"
| "sem (rowKeyRegexFilter re) c = re (c_rowKey c)"
| "sem (familyRegexFilter re) c = re (c_family c)"
| "sem (qualifierRegexFilter re) c = re (c_qualifier c)"
| "sem (colRangeFilter r) c = columnRangeMatch r c"
| "sem (timestampRangeFilter s e) c = timestampRangeMatch s e c"
| "sem (valueRegexFilter re) c = re (c_value c)"
| "sem (valRangeFilter v) c = valueRangeMatch v c"
| "sem (valueBitmaskFilter msk) c = valueBitmaskMatch msk c"
| "sem _ c = True"

text \<open>Every interleave of the tree has emitted only cells of \<open>S\<close>.\<close>

fun seen_in :: "cellIdentity set \<Rightarrow> filterEvaluator \<Rightarrow> bool" where
  "seen_in S (chainFilter fs) = list_all (seen_in S) fs"
| "seen_in S (interleaveFilter fs seen) = (seen \<subseteq> S \<and> list_all (seen_in S) fs)"
| "seen_in S (conditionFilter p t f m e) =
     (seen_in S p \<and> pred_option (seen_in S) t \<and> pred_option (seen_in S) f)"
| "seen_in S e = True"

text \<open>The tree with all its mutable state cleared.\<close>

fun shape :: "filterEvaluator \<Rightarrow> filterEvaluator" where
  "shape (chainFilter fs) = chainFilter (map shape fs)"
| "shape (interleaveFilter fs seen) = interleaveFilter (map shape fs) {}"
| "shape (conditionFilter p t f m e) =
     conditionFilter (shape p) (map_option shape t) (map_option shape f) False False"
| "shape (cellsPerRowOffsetFilter off n) = cellsPerRowOffsetFilter off 0"
| "shape (cellsPerRowLimitFilter limit n) = cellsPerRowLimitFilter limit 0"
| "shape (cellsPerColumnLimitFilter limit counts) = cellsPerColumnLimitFilter limit (\<lambda>_. 0)"
| "shape (rowSampleFilter rate seenRow sampleRow) = rowSampleFilter rate [] False"
| "shape e = e"

fun no_sample :: "filterEvaluator \<Rightarrow> bool" where
  "no_sample (chainFilter fs) = list_all no_sample fs"
| "no_sample (interleaveFilter fs seen) = list_all no_sample fs"
| "no_sample (conditionFilter p t f m e) =
     (no_sample p \<and> pred_option no_sample t \<and> pred_option no_sample f)"
| "no_sample (rowSampleFilter rate s b) = False"
| "no_sample e = True"

text \<open>The regular expressions of a filter message.\<close>

fun patterns :: "rowFilter \<Rightarrow> bytes list" where
  "patterns (Chain fs) = concat (map patterns fs)"
| "patterns (Interleave fs) = concat (map patterns fs)"
| "patterns (Condition p t f) =
     (case p of None \<Rightarrow> [] | Some x \<Rightarrow> patterns x) @
     (case t of None \<Rightarrow> [] | Some x \<Rightarrow> patterns x) @
     (case f of None \<Rightarrow> [] | Some x \<Rightarrow> patterns x)"
| "patterns (RowKeyRegexFilter p) = [p]"
| "patterns (FamilyNameRegexFilter p) = [p]"
| "patterns (ColumnQualifierRegexFilter p) = [p]"
| "patterns (ValueRegexFilter p) = [p]"
| "patterns f = []"

section \<open>State of the tree\<close>

lemmas eval_induct = evaluate_evaluateChain_evaluateAny_evaluateBranch.induct

lemma shape_evaluate:
  "shape (fst (snd (evaluate e c g))) = shape e"
  "map shape (fst (snd (evaluateChain fs c g))) = map shape fs"
  "map shape (fst (snd (evaluateAny fs c g))) = map shape fs"
  "map_option shape (fst (snd (evaluateBranch d o1 c g))) = map_option shape o1"
  by (induction e c g and fs c g and fs c g and d o1 c g rule: eval_induct)
    (auto simp: Let_def draw_def split: prod.splits bool.splits if_splits)

lemma shape_evalCells: "shape (fst (snd (evalCells e cs g))) = shape e"
proof (induction e cs g rule: evalCells.induct)
  case (1 e g)
  then show ?case by simp
next
  case (2 e c cs g)
  then show ?case
    using shape_evaluate(1) [of e c g] by (auto split: prod.splits)
qed

lemma reset_shape: "no_sample e \<Longrightarrow> reset e = shape e"
proof (induction e)
  case (chainFilter fs)
  then show ?case by (auto simp: list_all_iff)
next
  case (interleaveFilter fs seen)
  then show ?case by (auto simp: list_all_iff)
next
  case (conditionFilter p t f m e)
  then show ?case by (cases t; cases f) auto
qed auto

lemma no_sample_shape: "no_sample (shape e) = no_sample e"
proof (induction e)
  case (conditionFilter p t f m e)
  then show ?case by (cases t; cases f) auto
qed (auto simp: list_all_iff)

lemma reset_evalCells:
  assumes "no_sample e"
  shows "reset (fst (snd (evalCells e cs g))) = reset e"
  by (metis assms no_sample_shape reset_shape shape_evalCells)

lemma seen_in_mono: "seen_in S e \<Longrightarrow> S \<subseteq> T \<Longrightarrow> seen_in T e"
proof (induction e)
  case (conditionFilter p t f m e)
  then show ?case by (cases t; cases f) auto
qed (auto simp: list_all_iff)

lemma seen_in_insert: "seen_in S e \<Longrightarrow> seen_in (insert x S) e"
  by (rule seen_in_mono) auto

lemma list_sem_cong:
  assumes "map sem fs' = map sem fs"
  shows "list_all (\<lambda>f. sem f c) fs' = list_all (\<lambda>f. sem f c) fs"
    and "list_ex (\<lambda>f. sem f c) fs' = list_ex (\<lambda>f. sem f c) fs"
proof -
  have "list_all (\<lambda>p. p c) (map sem fs') = list_all (\<lambda>p. p c) (map sem fs)"
    and "list_ex (\<lambda>p. p c) (map sem fs') = list_ex (\<lambda>p. p c) (map sem fs)"
    by (simp_all only: assms)
  then show "list_all (\<lambda>f. sem f c) fs' = list_all (\<lambda>f. sem f c) fs"
    and "list_ex (\<lambda>f. sem f c) fs' = list_ex (\<lambda>f. sem f c) fs"
    by (simp_all add: list.pred_map list_ex_iff comp_def)
qed

lemma branch_sem_cong:
  assumes "map_option sem o' = map_option sem o1"
  shows "(case o' of None \<Rightarrow> d | Some x \<Rightarrow> sem x c) = (case o1 of None \<Rightarrow> d | Some x \<Rightarrow> sem x c)"
  using assms by (cases o'; cases o1) auto

text \<open>On a cell that no interleave has emitted yet, a pure tree evaluates to its boolean
  meaning and keeps it.\<close>

lemma evaluate_pure:
  "pure e \<Longrightarrow> seen_in S e \<Longrightarrow> identity c \<notin> S \<Longrightarrow>
     \<exists>e'. evaluate e c g = (sem e c, e', g) \<and> pure e' \<and> seen_in (insert (identity c) S) e' \<and> sem e' = sem e"
  "list_all pure fs \<Longrightarrow> list_all (seen_in S) fs \<Longrightarrow> identity c \<notin> S \<Longrightarrow>
     \<exists>fs'. evaluateChain fs c g = (list_all (\<lambda>f. sem f c) fs, fs', g) \<and> list_all pure fs' \<and>
       list_all (seen_in (insert (identity c) S)) fs' \<and> map sem fs' = map sem fs"
  "list_all pure fs \<Longrightarrow> list_all (seen_in S) fs \<Longrightarrow> identity c \<notin> S \<Longrightarrow>
     \<exists>fs'. evaluateAny fs c g = (list_ex (\<lambda>f. sem f c) fs, fs', g) \<and> list_all pure fs' \<and>
       list_all (seen_in (insert (identity c) S)) fs' \<and> map sem fs' = map sem fs"
  "pred_option pure o1 \<Longrightarrow> pred_option (seen_in S) o1 \<Longrightarrow> identity c \<notin> S \<Longrightarrow>
     \<exists>o2. evaluateBranch d o1 c g = (case_option d (\<lambda>f. sem f c) o1, o2, g) \<and> pred_option pure o2 \<and>
       pred_option (seen_in (insert (identity c) S)) o2 \<and> map_option sem o2 = map_option sem o1"
proof (induction e c g and fs c g and fs c g and d o1 c g rule: eval_induct)
  case (1 fs c g)
  then obtain fs' where ev: "evaluateChain fs c g = (list_all (\<lambda>f. sem f c) fs, fs', g)"
    and p: "list_all pure fs'" "list_all (seen_in (insert (identity c) S)) fs'" "map sem fs' = map sem fs"
    by auto
  from list_sem_cong(1) [OF p(3)] have "sem (chainFilter fs') = sem (chainFilter fs)"
    by (intro ext) simp
  with ev p show ?case by (simp add: fun_eq_iff)
next
  case (2 fs seen c g)
  then obtain fs' where ev: "evaluateAny fs c g = (list_ex (\<lambda>f. sem f c) fs, fs', g)"
    and p: "list_all pure fs'" "list_all (seen_in (insert (identity c) S)) fs'" "map sem fs' = map sem fs"
    by auto
  from list_sem_cong(2) [OF p(3)]
  have s: "sem (interleaveFilter fs' x) = sem (interleaveFilter fs y)" for x y
    by (intro ext) simp
  have "identity c \<notin> seen" "seen \<subseteq> insert (identity c) S"
    using "2.prems" by auto
  with ev p s [of seen seen] s [of "insert (identity c) seen" seen] "2.prems"(2) show ?case
    by (cases "list_ex (\<lambda>f. sem f c) fs") auto
next
  case (3 p t f m e c g)
  then obtain p' where ev: "evaluate p c g = (sem p c, p', g)"
    and p: "pure p'" "seen_in (insert (identity c) S) p'" "sem p' = sem p"
    by auto
  show ?case
  proof (cases "sem p c")
    case True
    with "3.IH"(2) ev "3.prems" obtain t' where
      "evaluateBranch True t c g = (case_option True (\<lambda>f. sem f c) t, t', g)"
      "pred_option pure t'" "pred_option (seen_in (insert (identity c) S)) t'"
      and s: "map_option sem t' = map_option sem t"
      by fastforce
    moreover have "sem (conditionFilter p' t' f m e) = sem (conditionFilter p t f m e)"
      by (intro ext) (simp add: p(3) branch_sem_cong [OF s])
    ultimately show ?thesis
      using ev p True "3.prems" by (auto intro: seen_in_insert elim: option.pred_mono_strong)
  next
    case False
    with "3.IH"(3) ev "3.prems" obtain f' where
      "evaluateBranch False f c g = (case_option False (\<lambda>f. sem f c) f, f', g)"
      "pred_option pure f'" "pred_option (seen_in (insert (identity c) S)) f'"
      and s: "map_option sem f' = map_option sem f"
      by fastforce
    moreover have "sem (conditionFilter p' t f' m e) = sem (conditionFilter p t f m e)"
      by (intro ext) (simp add: p(3) branch_sem_cong [OF s])
    ultimately show ?thesis
      using ev p False "3.prems" by (auto intro: seen_in_insert elim: option.pred_mono_strong)
  qed
next
  case (21 f fs c g)
  then obtain f' where ev: "evaluate f c g = (sem f c, f', g)"
    and p: "pure f'" "seen_in (insert (identity c) S) f'" "sem f' = sem f"
    by auto
  show ?case
  proof (cases "sem f c")
    case True
    with "21.IH"(2) ev "21.prems" ev p show ?thesis
      by fastforce
  next
    case False
    with "21.prems" ev p show ?thesis
      by (auto simp: list_all_iff intro: seen_in_insert)
  qed
next
  case (23 f fs c g)
  then obtain f' where ev: "evaluate f c g = (sem f c, f', g)"
    and p: "pure f'" "seen_in (insert (identity c) S) f'" "sem f' = sem f"
    by auto
  show ?case
  proof (cases "sem f c")
    case True
    with "23.prems" ev p show ?thesis
      by (auto simp: list_all_iff intro: seen_in_insert)
  next
    case False
    with "23.IH"(2) ev "23.prems" ev p show ?thesis
      by fastforce
  qed
next
  case (25 d f c g)
  then show ?case by auto
qed auto

lemma evalCells_pure:
  assumes "pure e" "seen_in S e" "distinct (map identity cs)" "set (map identity cs) \<inter> S = {}"
  shows "fst (evalCells e cs g) = filter (sem e) cs \<and> snd (snd (evalCells e cs g)) = g"
  using assms
proof (induction cs arbitrary: e S)
  case Nil
  then show ?case by simp
next
  case (Cons c cs)
  then have "identity c \<notin> S" by auto
  with Cons.prems evaluate_pure(1) obtain e' where ev: "evaluate e c g = (sem e c, e', g)"
    and p: "pure e'" "seen_in (insert (identity c) S) e'" and s: "sem e' = sem e"
    by blast
  have "fst (evalCells e' cs g) = filter (sem e') cs \<and> snd (snd (evalCells e' cs g)) = g"
    by (rule Cons.IH [OF p]) (use Cons.prems in auto)
  with ev s show ?case by (auto split: prod.splits)
qed

lemma seen_in_reset: "seen_in {} (reset e)"
proof (induction e)
  case (conditionFilter p t f m e)
  then show ?case by (cases t; cases f) auto
qed (auto simp: list_all_iff)

lemma sem_reset: "sem (reset e) = sem e"
proof (induction e)
  case (chainFilter fs)
  then show ?case by (auto simp: fun_eq_iff list_all_iff)
next
  case (interleaveFilter fs seen)
  then show ?case by (auto simp: fun_eq_iff list_ex_iff)
next
  case (conditionFilter p t f m e)
  then show ?case by (cases t; cases f) (auto simp: fun_eq_iff)
qed auto

lemma pure_reset: "pure (reset e) = pure e"
proof (induction e)
  case (conditionFilter p t f m e)
  then show ?case by (cases t; cases f) auto
qed (auto simp: list_all_iff)

section \<open>Cell counters\<close>

lemma evalCells_limit:
  "0 \<le> n \<Longrightarrow> fst (evalCells (cellsPerRowLimitFilter limit n) cs g) = take (nat (limit - n)) cs"
proof (induction cs arbitrary: n)
  case Nil
  then show ?case by simp
next
  case (Cons c cs)
  show ?case
  proof (cases "n \<ge> limit")
    case True
    with Cons show ?thesis by (auto split: prod.splits)
  next
    case False
    then have "nat (limit - n) = Suc (nat (limit - (n + 1)))" by simp
    with False Cons.IH [of "n + 1"] Cons.prems show ?thesis by (auto split: prod.splits)
  qed
qed

lemma evalCells_offset:
  "fst (evalCells (cellsPerRowOffsetFilter off n) cs g) = drop (nat (off - n)) cs"
proof (induction cs arbitrary: n)
  case Nil
  then show ?case by simp
next
  case (Cons c cs)
  show ?case
  proof (cases "n + 1 > off")
    case True
    then have "nat (off - n) = 0" "nat (off - (n + 1)) = 0" by simp_all
    with True Cons.IH [of "n + 1"] show ?thesis by (auto split: prod.splits)
  next
    case False
    then have "nat (off - n) = Suc (nat (off - (n + 1)))" by simp
    with False Cons.IH [of "n + 1"] show ?thesis by (auto split: prod.splits)
  qed
qed

definition column_key :: "cellInfo \<Rightarrow> bytes" where
  "column_key c = c_family c @ [0] @ c_qualifier c"

lemma evaluate_column_limit:
  "evaluate (cellsPerColumnLimitFilter limit counts) c g =
     (if counts (column_key c) \<ge> limit then (False, cellsPerColumnLimitFilter limit counts, g)
      else (True, cellsPerColumnLimitFilter limit (counts(column_key c := counts (column_key c) + 1)), g))"
  by (simp add: column_key_def Let_def)

lemma evalCells_column_limit:
  "filter (\<lambda>c. column_key c = k) (fst (evalCells (cellsPerColumnLimitFilter limit counts) cs g)) =
   take (nat (limit - counts k)) (filter (\<lambda>c. column_key c = k) cs)"
proof (induction cs arbitrary: counts)
  case Nil
  then show ?case by simp
next
  case (Cons c cs)
  note [simp del] = evaluate.simps(13)
  let ?n = "counts (column_key c)"
  show ?case
  proof (cases "?n \<ge> limit")
    case True
    then have "nat (limit - counts (column_key c)) = 0" by simp
    with True Cons.IH [of counts] show ?thesis
      by (auto simp: evaluate_column_limit split: prod.splits)
  next
    case False
    define m where "m = counts(column_key c := ?n + 1)"
    have m: "m (column_key c) = ?n + 1" "column_key c \<noteq> k \<Longrightarrow> m k = counts k"
      by (simp_all add: m_def)
    have ev: "evaluate (cellsPerColumnLimitFilter limit counts) c g = (True, cellsPerColumnLimitFilter limit m, g)"
      using False by (simp add: evaluate_column_limit m_def)
    from False have "nat (limit - ?n) = Suc (nat (limit - (?n + 1)))" by simp
    with m ev Cons.IH [of m] show ?thesis
      by (cases "column_key c = k") (auto split: prod.splits)
  qed
qed

section \<open>Building\<close>

lemmas build_induct = buildEvaluator_buildFilters_buildPointer_buildBranch.induct

lemma build_fresh:
  "buildEvaluator cp f = Inr e \<Longrightarrow> reset e = e"
  "buildFilters cp fs = Inr es \<Longrightarrow> map reset es = es"
  "buildPointer cp p = Inr e \<Longrightarrow> reset e = e"
  "buildBranch cp p = Inr b \<Longrightarrow> map_option reset b = b"
  by (induction cp f and cp fs and cp p and cp p arbitrary: e and es and e and b rule: build_induct)
    (auto simp: buildRegex_def buildTimestampRangeFilter_def split: sum.splits)

lemma patterns_Condition:
  "set (patterns (Condition p t f)) = (\<Union>x \<in> set_option p \<union> set_option t \<union> set_option f. set (patterns x))"
  by (cases p; cases t; cases f) auto

lemma build_ok:
  "(\<exists>e. buildEvaluator cp f = Inr e) \<longleftrightarrow> (\<forall>p \<in> set (patterns f). \<exists>re. cp p = Inr re)"
  "(\<exists>es. buildFilters cp fs = Inr es) \<longleftrightarrow> (\<forall>f \<in> set fs. \<forall>p \<in> set (patterns f). \<exists>re. cp p = Inr re)"
  "(\<exists>e. buildPointer cp o1 = Inr e) \<longleftrightarrow> (\<forall>f \<in> set_option o1. \<forall>p \<in> set (patterns f). \<exists>re. cp p = Inr re)"
  "(\<exists>b. buildBranch cp o1 = Inr b) \<longleftrightarrow> (\<forall>f \<in> set_option o1. \<forall>p \<in> set (patterns f). \<exists>re. cp p = Inr re)"
proof (induction cp f and cp fs and cp o1 and cp o1 rule: build_induct)
  case (3 c p t f)
  show ?case
  proof (cases "buildPointer c p")
    case (Inl a)
    with "3.IH"(1) show ?thesis by (auto simp: patterns_Condition)
  next
    case P: (Inr a)
    show ?thesis
    proof (cases "buildBranch c t")
      case (Inl b)
      with P "3.IH"(2) [OF P] show ?thesis by (auto simp: patterns_Condition)
    next
      case T: (Inr b)
      with P "3.IH"(1) "3.IH"(2) [OF P] "3.IH"(3) [OF P T] show ?thesis
        by (auto simp: patterns_Condition split: sum.splits)
    qed
  qed
qed (auto simp: buildRegex_def split: sum.splits)

section \<open>The engine's loops\<close>

definition decodedCells :: "(bytes \<times> bytes) list \<Rightarrow> cellInfo list" where
  "decodedCells kvs =
     map (\<lambda>(k, v). cell_of (DecodeCellKey k) v) (filter (\<lambda>(k, v). d_ok (DecodeCellKey k)) kvs)"

lemma decodedCells_simps [simp]:
  "decodedCells [] = []"
  "decodedCells ((k, v) # kvs) =
     (if d_ok (DecodeCellKey k) then cell_of (DecodeCellKey k) v # decodedCells kvs else decodedCells kvs)"
  by (simp_all add: decodedCells_def)

lemma Decode_pair: "\<exists>dec'. Decode dec k = (DecodeCellKey k, dec')"
  by (metis Decode_eq prod.collapse)

lemma matchLoop_evalCells:
  "fst (matchLoop ev dec kvs g) \<longleftrightarrow> fst (evalCells ev (decodedCells kvs) g) \<noteq> []"
proof (induction kvs arbitrary: ev dec g)
  case Nil
  then show ?case by simp
next
  case (Cons kv kvs)
  obtain k v where kv: "kv = (k, v)" by (cases kv)
  obtain dec' where d: "Decode dec k = (DecodeCellKey k, dec')"
    using Decode_pair by blast
  show ?case
    using Cons.IH by (auto simp: kv d split: prod.splits bool.splits)
qed

definition stripped :: "bool \<Rightarrow> cellInfo \<Rightarrow> cellInfo" where
  "stripped strip c = (if strip then c\<lparr>c_value := []\<rparr> else c)"

lemma processLoop_evalCells:
  "fst (snd (processLoop strip ls (\<lambda>a c l. (True, a @ [(c, l)])) ev dec kvs g matched a)) =
     a @ map (\<lambda>c. (stripped strip c, ls)) (fst (evalCells ev (decodedCells kvs) g))"
proof (induction kvs arbitrary: ev dec g matched a)
  case Nil
  then show ?case by simp
next
  case (Cons kv kvs)
  obtain k v where kv: "kv = (k, v)" by (cases kv)
  obtain dec' where d: "Decode dec k = (DecodeCellKey k, dec')"
    using Decode_pair by blast
  show ?case
    using Cons.IH by (auto simp: kv d cell_of_def stripped_def split: prod.splits bool.splits)
qed

lemma maskLoop_iff:
  "maskLoop v msk \<longleftrightarrow> length msk \<le> length v \<and>
     (\<forall>i < length msk. and (v ! i) (msk ! i) = msk ! i) \<and> list_all ((=) 0) (drop (length msk) v)"
proof (induction v msk rule: maskLoop.induct)
  case (3 a as b bs)
  then show ?case by (auto simp: nth_Cons' less_Suc_eq_0_disj list_all_iff)
qed (auto simp: list_all_iff)

section \<open>Properties\<close>



text \<open>A row limit passes exactly the first cells of the row, a row offset drops
  exactly the first ones, and a column limit passes exactly the first cells of every
  column; a negative limit or offset counts as zero.\<close>

theorem cell_counters:
  "fst (evalCells (cellsPerRowLimitFilter n 0) cs g) = take (nat n) cs \<and>
   fst (evalCells (cellsPerRowOffsetFilter n 0) cs g) = drop (nat n) cs \<and>
   filter (\<lambda>c. column_key c = k) (fst (evalCells (cellsPerColumnLimitFilter n (\<lambda>_. 0)) cs g)) =
     take (nat n) (filter (\<lambda>c. column_key c = k) cs)"
  using evalCells_limit [of 0 n cs g] evalCells_offset [of n 0 cs g]
    evalCells_column_limit [of k n "\<lambda>_. 0" cs g] by simp

text \<open>Resetting a tree at a row boundary restores the state it was built in, whatever
  cells it has evaluated before, so no row influences the next (samplers excepted, which
  keep their last decision until they see a new row key).\<close>

theorem reset_restores:
  assumes "buildEvaluator compile f = Inr e" "no_sample e"
  shows "reset (fst (snd (evalCells e cs g))) = e"
  using reset_evalCells [OF assms(2)] build_fresh(1) [OF assms(1)] by simp

theorem reset_restores_witness:
  "reset (fst (snd (evalCells (cellsPerRowLimitFilter 2 0)
      (replicate 3 \<lparr>c_rowKey = [1], c_family = [2], c_qualifier = [3], c_ts = 4, c_value = [5]\<rparr>) (\<lambda>_. NaN)))) =
    cellsPerRowLimitFilter 2 0"
  by (rule reset_restores [of "\<lambda>p. Inl ''''" "CellsPerRowLimitFilter 2"]) simp_all

text \<open>Building the evaluator fails exactly when some regular expression of the filter
  message does not compile.\<close>

theorem build_fails_iff:
  "(\<exists>err. buildEvaluator compile f = Inl err) \<longleftrightarrow> (\<exists>p \<in> set (patterns f). \<exists>err. compile p = Inl err)"
  using build_ok(1) [of compile f] by (metis sum.exhaust Inl_Inr_False)

text \<open>With only a true branch that passes everything, a condition keeps exactly the
  cells that match its predicate, and drops the other cells of the row even when the
  predicate matches somewhere in the row.\<close>

theorem condition_per_cell:
  assumes "pure p" "distinct (map identity cs)"
  shows "fst (evalCells (conditionFilter (reset p) (Some passAllFilter) None False False) cs g) =
    filter (sem p) cs"
proof -
  have "sem (conditionFilter (reset p) (Some passAllFilter) None False False) = sem p"
    by (intro ext) (simp add: sem_reset)
  then show ?thesis
    using evalCells_pure [of "conditionFilter (reset p) (Some passAllFilter) None False False" "{}" cs g] assms
    by (simp add: pure_reset seen_in_reset)
qed

theorem condition_per_cell_witness:
  "fst (evalCells (conditionFilter (valueBitmaskFilter [1]) (Some passAllFilter) None False False)
      [\<lparr>c_rowKey = [1], c_family = [2], c_qualifier = [3], c_ts = 4, c_value = [1]\<rparr>,
       \<lparr>c_rowKey = [1], c_family = [2], c_qualifier = [4], c_ts = 4, c_value = [2]\<rparr>] (\<lambda>_. NaN)) =
    [\<lparr>c_rowKey = [1], c_family = [2], c_qualifier = [3], c_ts = 4, c_value = [1]\<rparr>]"
  using condition_per_cell [of "valueBitmaskFilter [1]"
      "[\<lparr>c_rowKey = [1], c_family = [2], c_qualifier = [3], c_ts = 4, c_value = [1]\<rparr>,
        \<lparr>c_rowKey = [1], c_family = [2], c_qualifier = [4], c_ts = 4, c_value = [2]\<rparr>]" "\<lambda>_. NaN"]
  by (simp add: identity_def valueBitmaskMatch_def)

text \<open>The bitmask filter accepts a value exactly when it is at least as long as the
  mask, has every mask bit set, and is zero beyond the mask.\<close>

theorem bitmask_exact:
  "valueBitmaskMatch msk c \<longleftrightarrow> length msk \<le> length (c_value c) \<and>
     (\<forall>i < length msk. and (c_value c ! i) (msk ! i) = msk ! i) \<and>
     list_all ((=) 0) (drop (length msk) (c_value c))"
  by (auto simp: valueBitmaskMatch_def maskLoop_iff)

theorem bitmask_exact_witness:
  "valueBitmaskMatch [1] \<lparr>c_rowKey = [1], c_family = [2], c_qualifier = [3], c_ts = 4, c_value = [3, 0]\<rparr>"
  using bitmask_exact [of "[1]" "\<lparr>c_rowKey = [1], c_family = [2], c_qualifier = [3], c_ts = 4, c_value = [3, 0]\<rparr>"]
  by simp

end
