(* ===== verification/Paths.thy ===== *)
theory Paths
  imports CloudPrelude
begin

text \<open>
  The parts of Go's standard library that object names are built with: \<open>path.Clean\<close>,
  \<open>path.Join\<close>, \<open>path.Base\<close> and \<open>path.Dir\<close> (on the platforms the program runs on,
  \<open>filepath\<close> is the same and \<open>ToSlash\<close>/\<open>FromSlash\<close> are the identity), the string
  helpers \<open>HasPrefix\<close>, \<open>TrimSuffix\<close>, \<open>TrimPrefix\<close> and \<open>TrimRight\<close>, the verb \<open>%0*d\<close> of
  \<open>fmt.Sprintf\<close>, and \<open>strconv.ParseUint\<close> in base 10.

  Go's \<open>error\<close> is the datatype \<open>goerror\<close>: the sentinel of \<open>objstore\<close>, a fresh error
  with a message, an HTTP error of the Google API, or a message wrapped around another
  error by \<open>%w\<close>, which \<open>errors.Is\<close> looks through. Messages keep their constant text and
  drop the formatted arguments.

  The lemmas are about \<^emph>\<open>plain\<close> names (no empty, \<open>.\<close> or \<open>..\<close> component): \<open>Clean\<close> leaves
  them alone and \<open>Join\<close> concatenates them; about the form of cleaned paths; and about
  numbers: a padded number parses back and pads of one width are ordered as the numbers.
\<close>

named_theorems path_simps \<open>evaluation of path operations on plain names\<close>

section \<open>Errors\<close>

datatype goerror = ErrNotFound | Err string | ApiErr nat | Wrap string goerror

fun errorsIs :: "goerror \<Rightarrow> goerror \<Rightarrow> bool" where
  "errorsIs (Wrap s e) t \<longleftrightarrow> Wrap s e = t \<or> errorsIs e t"
| "errorsIs e t \<longleftrightarrow> e = t"

text \<open>\<open>errors.As\<close> at the type \<open>*googleapi.Error\<close>: its HTTP status code.\<close>

fun asApiErr :: "goerror \<Rightarrow> nat option" where
  "asApiErr (ApiErr code) = Some code"
| "asApiErr (Wrap s e) = asApiErr e"
| "asApiErr e = None"

section \<open>Strings\<close>

fun HasPrefix :: "string \<Rightarrow> string \<Rightarrow> bool" where
  "HasPrefix s [] = True"
| "HasPrefix [] (p # ps) = False"
| "HasPrefix (c # cs) (p # ps) = (c = p \<and> HasPrefix cs ps)"

definition HasSuffix :: "string \<Rightarrow> string \<Rightarrow> bool" where
  "HasSuffix s t = HasPrefix (rev s) (rev t)"

definition TrimPrefix :: "string \<Rightarrow> string \<Rightarrow> string" where
  "TrimPrefix s p = (if HasPrefix s p then drop (length p) s else s)"

definition TrimSuffix :: "string \<Rightarrow> string \<Rightarrow> string" where
  "TrimSuffix s t = (if HasSuffix s t then take (length s - length t) s else s)"

definition TrimRight :: "string \<Rightarrow> string \<Rightarrow> string" where
  "TrimRight s cutset = rev (dropWhile (\<lambda>c. c \<in> set cutset) (rev s))"

lemma HasPrefix_iff: "HasPrefix s p \<longleftrightarrow> (\<exists>r. s = p @ r)"
  by (induction s p rule: HasPrefix.induct) auto

lemma HasPrefix_append [simp]: "HasPrefix (p @ r) p"
  by (auto simp: HasPrefix_iff)

lemma TrimPrefix_append [simp]: "TrimPrefix (p @ r) p = r"
  by (simp add: TrimPrefix_def)

lemma TrimSuffix_append [simp]: "TrimSuffix (s @ t) t = s"
  by (simp add: TrimSuffix_def HasSuffix_def)

section \<open>Paths\<close>

definition sep :: char where "sep = CHR ''/''"

fun splitSlash :: "string \<Rightarrow> string list" where
  "splitSlash [] = [[]]"
| "splitSlash (c # cs) =
     (if c = sep then [] # splitSlash cs
      else (case splitSlash cs of [] \<Rightarrow> [[c]] | x # xs \<Rightarrow> (c # x) # xs))"

fun joinSlash :: "string list \<Rightarrow> string" where
  "joinSlash [] = []"
| "joinSlash [x] = x"
| "joinSlash (x # y # ys) = x @ sep # joinSlash (y # ys)"

text \<open>One element of the path against the elements kept so far, the last one first: \<open>.\<close>
  and empty elements vanish, \<open>..\<close> removes the element before it, is dropped at the root
  and stays in front of a relative path.\<close>

fun cleanStep :: "bool \<Rightarrow> string \<Rightarrow> string list \<Rightarrow> string list" where
  "cleanStep rooted x st =
     (if x = [] \<or> x = ''.'' then st
      else if x = ''..'' then
        (case st of
           [] \<Rightarrow> (if rooted then [] else [''..''])
         | y # ys \<Rightarrow> (if y = ''..'' then ''..'' # st else ys))
      else x # st)"

definition cleanElems :: "bool \<Rightarrow> string list \<Rightarrow> string list" where
  "cleanElems rooted xs = rev (fold (cleanStep rooted) xs [])"

definition rooted :: "string \<Rightarrow> bool" where
  "rooted p = (case p of [] \<Rightarrow> False | c # cs \<Rightarrow> c = sep)"

definition Clean :: "string \<Rightarrow> string" where
  "Clean p =
     (let out = joinSlash (cleanElems (rooted p) (splitSlash p)) in
      if rooted p then sep # out else if out = [] then ''.'' else out)"

definition Join :: "string list \<Rightarrow> string" where
  "Join elems =
     (case filter (\<lambda>x. x \<noteq> []) elems of [] \<Rightarrow> [] | es \<Rightarrow> Clean (joinSlash es))"

text \<open>\<open>Base\<close> strips trailing slashes and returns what follows the last slash; \<open>Dir\<close>
  returns the cleaned part up to the last slash.\<close>

definition Base :: "string \<Rightarrow> string" where
  "Base p =
     (if p = [] then ''.''
      else let q = TrimRight p [sep] in
        if q = [] then [sep] else last (splitSlash q))"

definition Dir :: "string \<Rightarrow> string" where
  "Dir p = Clean (rev (dropWhile (\<lambda>c. c \<noteq> sep) (rev p)))"

section \<open>Decimal numbers\<close>

definition digit :: "nat \<Rightarrow> char" where
  "digit n = char_of (48 + n)"

fun decimal :: "nat \<Rightarrow> string" where
  "decimal n = (if n < 10 then [digit n] else decimal (n div 10) @ [digit (n mod 10)])"

declare decimal.simps [simp del]

text \<open>\<open>fmt.Sprintf("%0*d", w, n)\<close> of an unsigned number.\<close>

definition padDecimal :: "nat \<Rightarrow> nat \<Rightarrow> string" where
  "padDecimal w n = replicate (w - length (decimal n)) (digit 0) @ decimal n"

definition isDigit :: "char \<Rightarrow> bool" where
  "isDigit c = (48 \<le> (of_char c :: nat) \<and> (of_char c :: nat) \<le> 57)"

definition digitsValue :: "string \<Rightarrow> nat" where
  "digitsValue s = foldl (\<lambda>a c. 10 * a + (of_char c - 48)) 0 s"

text \<open>\<open>strconv.ParseUint(s, 10, 64)\<close>: a syntax error for an empty string or a
  character that is no digit (signs and underscores are none), a range error beyond 64 bits.\<close>

definition ParseUint :: "string \<Rightarrow> goerror + uint64" where
  "ParseUint s =
     (if s = [] \<or> \<not> list_all isDigit s then Inl (Err ''strconv.ParseUint: invalid syntax'')
      else if digitsValue s \<ge> 2 ^ 64 then Inl (Err ''strconv.ParseUint: value out of range'')
      else Inr (of_nat (digitsValue s)))"

section \<open>Plain names\<close>

definition plainElem :: "string \<Rightarrow> bool" where
  "plainElem x \<longleftrightarrow> x \<noteq> [] \<and> x \<noteq> ''.'' \<and> x \<noteq> ''..'' \<and> sep \<notin> set x"

text \<open>A relative path that \<open>Clean\<close> leaves alone and that stays below its root.\<close>

definition plainPath :: "string \<Rightarrow> bool" where
  "plainPath p \<longleftrightarrow> list_all plainElem (splitSlash p)"

lemma splitSlash_not_Nil [simp]: "splitSlash p \<noteq> []"
  by (induction p) (auto split: list.splits)

lemma splitSlash_elem: "x \<in> set (splitSlash p) \<Longrightarrow> sep \<notin> set x"
  by (induction p arbitrary: x) (auto split: list.splits if_splits)

lemma splitSlash_no_sep [simp]: "sep \<notin> set x \<Longrightarrow> splitSlash x = [x]"
  by (induction x) auto

lemma splitSlash_append_sep [simp]: "splitSlash (a @ sep # b) = splitSlash a @ splitSlash b"
  by (induction a) (auto split: list.splits)

lemma joinSlash_Cons: "xs \<noteq> [] \<Longrightarrow> joinSlash (x # xs) = x @ sep # joinSlash xs"
  by (cases xs) auto

lemma joinSlash_append:
  "xs \<noteq> [] \<Longrightarrow> ys \<noteq> [] \<Longrightarrow> joinSlash (xs @ ys) = joinSlash xs @ sep # joinSlash ys"
  by (induction xs rule: joinSlash.induct) (auto simp: joinSlash_Cons)

lemma joinSlash_splitSlash [simp]: "joinSlash (splitSlash p) = p"
proof (induction p)
  case Nil
  then show ?case by simp
next
  case (Cons c cs)
  then show ?case
    by (cases "splitSlash cs"; cases "tl (splitSlash cs)") (auto simp: joinSlash_Cons)
qed

lemma splitSlash_joinSlash:
  "xs \<noteq> [] \<Longrightarrow> (\<And>x. x \<in> set xs \<Longrightarrow> sep \<notin> set x) \<Longrightarrow> splitSlash (joinSlash xs) = xs"
  by (induction xs rule: joinSlash.induct) auto

lemma fold_cleanStep_plain:
  "list_all plainElem xs \<Longrightarrow> fold (cleanStep r) xs st = rev xs @ st"
  by (induction xs arbitrary: st) (auto simp: plainElem_def)

lemma cleanElems_plain [simp]: "list_all plainElem xs \<Longrightarrow> cleanElems r xs = xs"
  by (simp add: cleanElems_def fold_cleanStep_plain)

lemma plainElem_not_rooted: "plainPath p \<Longrightarrow> \<not> rooted p"
  by (cases p) (auto simp: plainPath_def rooted_def plainElem_def split: list.splits if_splits)

lemma plainPath_not_Nil: "plainPath p \<Longrightarrow> p \<noteq> []"
  by (auto simp: plainPath_def plainElem_def)

lemma Clean_plain [path_simps]: "plainPath p \<Longrightarrow> Clean p = p"
  using plainElem_not_rooted [of p] plainPath_not_Nil [of p]
  by (simp add: Clean_def plainPath_def Let_def)

lemma plainPath_elem: "plainElem x \<Longrightarrow> plainPath x"
  by (simp add: plainPath_def plainElem_def)

lemma plainPath_slash [simp]: "plainPath (a @ sep # b) \<longleftrightarrow> plainPath a \<and> plainPath b"
  by (simp add: plainPath_def)

lemma Join2_plain [path_simps]:
  "plainPath a \<Longrightarrow> plainPath b \<Longrightarrow> Join [a, b] = a @ sep # b"
  using plainPath_not_Nil [of a] plainPath_not_Nil [of b]
  by (simp add: Join_def path_simps)

lemma Join3_plain [path_simps]:
  "plainPath a \<Longrightarrow> plainPath b \<Longrightarrow> plainPath c \<Longrightarrow> Join [a, b, c] = a @ sep # b @ sep # c"
  using plainPath_not_Nil [of a] plainPath_not_Nil [of b] plainPath_not_Nil [of c]
  by (simp add: Join_def path_simps)

lemma Base_plain [path_simps]: "plainElem b \<Longrightarrow> Base (a @ sep # b) = b"
proof -
  assume b: "plainElem b"
  then have "TrimRight (a @ sep # b) [sep] = a @ sep # b"
    by (cases b rule: rev_cases) (auto simp: TrimRight_def plainElem_def)
  then show ?thesis
    using b by (simp add: Base_def plainElem_def)
qed

section \<open>Cleaned paths\<close>

text \<open>The elements \<open>Clean\<close> keeps: plain ones, after some \<open>..\<close> if the path is relative.\<close>

definition cleanForm :: "bool \<Rightarrow> string list \<Rightarrow> bool" where
  "cleanForm r xs \<longleftrightarrow>
     (\<exists>k ys. xs = replicate k ''..'' @ ys \<and> list_all plainElem ys \<and> (r \<longrightarrow> k = 0))"

lemma cleanFormI: "list_all plainElem ys \<Longrightarrow> (r \<Longrightarrow> k = 0) \<Longrightarrow> cleanForm r (replicate k ''..'' @ ys)"
  by (auto simp: cleanForm_def)

lemma plainElem_dots [simp]: "\<not> plainElem ''..''"
  by (simp add: plainElem_def)

lemma cleanForm_step:
  assumes "cleanForm r (rev st)" "sep \<notin> set x"
  shows "cleanForm r (rev (cleanStep r x st))"
proof -
  obtain k ys where st: "st = rev ys @ replicate k ''..''" "list_all plainElem ys" "r \<longrightarrow> k = 0"
    using assms(1) unfolding cleanForm_def by (metis rev_append rev_replicate rev_rev_ident)
  show ?thesis
  proof (cases "x = ''..''")
    case True
    show ?thesis
    proof (cases ys rule: rev_cases)
      case Nil
      have "\<not> r \<Longrightarrow> cleanForm r (replicate (Suc k) ''..'' @ [])"
        by (rule cleanFormI) simp_all
      moreover have "cleanStep r x st = (if r then [] else replicate (Suc k) ''..'')"
        using True st Nil by (cases k) simp_all
      moreover have "cleanForm r []"
        using cleanFormI [of "[]" r 0] by simp
      ultimately show ?thesis
        by (cases r) (simp_all add: replicate_append_same del: cleanStep.simps)
    next
      case (snoc zs z)
      then have "cleanStep r x st = rev zs @ replicate k ''..''"
        using True st by auto
      then show ?thesis
        using st snoc cleanFormI [of zs r k] by simp
    qed
  next
    case False
    then show ?thesis
      using st assms cleanFormI [of "ys @ [x]" r k] cleanFormI [of ys r k] by (auto simp: plainElem_def)
  qed
qed

lemma cleanForm_fold:
  "cleanForm r (rev st) \<Longrightarrow> (\<And>x. x \<in> set xs \<Longrightarrow> sep \<notin> set x) \<Longrightarrow>
     cleanForm r (rev (fold (cleanStep r) xs st))"
proof (induction xs arbitrary: st)
  case Nil
  then show ?case by simp
next
  case (Cons x xs)
  then show ?case using cleanForm_step [of r st x] by simp
qed

lemma cleanForm_cleanElems: "cleanForm r (cleanElems r (splitSlash p))"
  unfolding cleanElems_def
  using cleanFormI [of "[]" r 0] by (intro cleanForm_fold) (auto dest: splitSlash_elem)

lemma Clean_rooted:
  "rooted p \<Longrightarrow> \<exists>xs. Clean p = sep # joinSlash xs \<and> list_all plainElem xs"
  using cleanForm_cleanElems [of True p] by (auto simp: Clean_def Let_def cleanForm_def)

lemma cleanElems_append_plain:
  "list_all plainElem ys \<Longrightarrow> cleanElems r (xs @ ys) = cleanElems r xs @ ys"
  by (simp add: cleanElems_def fold_cleanStep_plain)

section \<open>Printing and parsing numbers\<close>

lemma digit_of_char [simp]: "n < 10 \<Longrightarrow> (of_char (digit n) :: nat) = 48 + n"
  by (simp add: digit_def)

lemma digitsValue_append1 [simp]: "digitsValue (s @ [c]) = 10 * digitsValue s + (of_char c - 48)"
  by (simp add: digitsValue_def)

lemma digitsValue_decimal [simp]: "digitsValue (decimal n) = n"
proof (induction n rule: decimal.induct)
  case (1 n)
  then show ?case by (cases "n < 10") (simp_all add: decimal.simps [of n] digitsValue_def [of "[_]"])
qed

lemma isDigit_digit [simp]: "n < 10 \<Longrightarrow> isDigit (digit n)"
  by (simp add: isDigit_def)

lemma decimal_digits: "list_all isDigit (decimal n)"
proof (induction n rule: decimal.induct)
  case (1 n)
  then show ?case by (cases "n < 10") (simp_all add: decimal.simps [of n])
qed

lemma decimal_not_Nil [simp]: "decimal n \<noteq> []"
  by (subst decimal.simps) simp

lemma digitsValue_zeros: "digitsValue (replicate k (digit 0) @ s) = digitsValue s"
  by (induction k) (simp_all add: digitsValue_def)

lemma digitsValue_pad [simp]: "digitsValue (padDecimal w n) = n"
  by (simp add: padDecimal_def digitsValue_zeros)

lemma padDecimal_digits: "list_all isDigit (padDecimal w n)"
  using decimal_digits [of n] by (auto simp: padDecimal_def list_all_iff)

lemma padDecimal_not_Nil [simp]: "padDecimal w n \<noteq> []"
  by (simp add: padDecimal_def)

lemma ParseUint_pad [simp]: "ParseUint (padDecimal w (unat (x :: uint64))) = Inr x"
  using unsigned_less [of x] padDecimal_digits [of w "unat x"]
  by (simp add: ParseUint_def not_le)

lemma length_decimal: "0 < k \<Longrightarrow> n < 10 ^ k \<Longrightarrow> length (decimal n) \<le> k"
proof (induction n arbitrary: k rule: decimal.induct)
  case (1 n)
  show ?case
  proof (cases "n < 10")
    case True
    then show ?thesis using 1 by (simp add: decimal.simps [of n])
  next
    case False
    then obtain j where j: "k = Suc j" "0 < j"
      using "1.prems" by (cases k; cases "k = 1") auto
    then have "n div 10 < 10 ^ j"
      using "1.prems" by (simp add: less_mult_imp_div_less mult.commute)
    then show ?thesis
      using "1.IH" [OF False j(2)] False j by (simp add: decimal.simps [of n])
  qed
qed

lemma length_padDecimal: "0 < w \<Longrightarrow> n < 10 ^ w \<Longrightarrow> length (padDecimal w n) = w"
  using length_decimal [of w n] by (simp add: padDecimal_def)

lemma digitsValue_Cons:
  "digitsValue (c # s) = (of_char c - 48) * 10 ^ length s + digitsValue s"
  by (induction s rule: rev_induct) (simp_all add: digitsValue_def)

lemma digitsValue_bound: "list_all isDigit s \<Longrightarrow> digitsValue s < 10 ^ length s"
  by (induction s rule: rev_induct) (auto simp: isDigit_def digitsValue_def [of "[]"])

lemma mult_digit_less:
  "a < b \<Longrightarrow> (x :: nat) < m \<Longrightarrow> a * m + x < b * m + y"
proof -
  assume "a < b" "x < m"
  then have "a * m + x < Suc a * m" by simp
  also have "\<dots> \<le> b * m" using \<open>a < b\<close> by (intro mult_right_mono) simp_all
  finally show ?thesis by simp
qed

lemma digits_less:
  "list_all isDigit s \<Longrightarrow> list_all isDigit t \<Longrightarrow> length s = length t \<Longrightarrow>
     s < t \<longleftrightarrow> digitsValue s < digitsValue t"
proof (induction s t rule: list_induct2')
  case (4 x xs y ys)
  have bounds: "digitsValue xs < 10 ^ length ys" "digitsValue ys < 10 ^ length ys"
    using 4 digitsValue_bound [of xs] digitsValue_bound [of ys] by simp_all
  consider "x = y" | "(of_char x :: nat) < of_char y" "x < y" | "(of_char y :: nat) < of_char x" "y < x"
    by (metis less_char_def linorder_less_linear)
  then show ?case
  proof cases
    case 1
    then show ?thesis using 4 by (auto simp: digitsValue_Cons)
  next
    case 2
    moreover have "(of_char x - 48 :: nat) < of_char y - 48"
      using 2 4 by (auto simp: isDigit_def intro: diff_less_mono)
    ultimately show ?thesis
      using bounds 4 mult_digit_less [of "of_char x - 48" "of_char y - 48" "digitsValue xs" "10 ^ length ys" "digitsValue ys"]
      by (simp add: digitsValue_Cons)
  next
    case 3
    moreover have "(of_char y - 48 :: nat) < of_char x - 48"
      using 3 4 by (auto simp: isDigit_def intro: diff_less_mono)
    ultimately show ?thesis
      using bounds 4 mult_digit_less [of "of_char y - 48" "of_char x - 48" "digitsValue ys" "10 ^ length ys" "digitsValue xs"]
      by (auto simp: digitsValue_Cons)
  qed
qed auto

lemma padDecimal_less:
  assumes "0 < w" "m < 10 ^ w" "n < 10 ^ w"
  shows "padDecimal w m < padDecimal w n \<longleftrightarrow> m < n"
  using digits_less [of "padDecimal w m" "padDecimal w n"] assms
  by (simp add: padDecimal_digits length_padDecimal)

lemma isDigit_not_special: "isDigit c \<Longrightarrow> c \<noteq> sep \<and> c \<noteq> CHR ''.''"
  by (auto simp: isDigit_def sep_def)

lemma plainElem_digits:
  assumes "list_all isDigit s" "s \<noteq> []" "sep \<notin> set t"
  shows "plainElem (s @ t)"
proof -
  obtain c cs where s: "s = c # cs"
    using assms by (cases s) auto
  then show ?thesis
    using assms isDigit_not_special by (auto simp: plainElem_def list_all_iff)
qed

end
