(* ===== verification/ObjStore.thy ===== *)
theory ObjStore
  imports Paths "HOL-Library.AList"
begin

text \<open>
  Object storage: the \<open>Store\<close> interface of \<open>pkg/objstore/store.go\<close> as a record of
  operations over a backend state, and its two implementations, \<open>local.Store\<close>
  (\<open>pkg/objstore/local/local.go\<close>) over a model of the \<open>os\<close> file system and
  \<open>gcs.Store\<close> (\<open>pkg/objstore/gcs/gcs.go\<close>) over a storage client that is a parameter.

  The file system keeps its files with contents and modification time, its directories
  and a clock; \<open>fs_faults\<close> schedules what the operating system does beyond the program's
  control: each system call takes the next entry, and an entry \<open>Some (e, n)\<close> makes it
  fail with error \<open>e\<close> (a failing write leaves the first \<open>n\<close> bytes behind).

  The locale \<open>object_store\<close> states what the write-ahead log and the engine rely on:
  a store is a map from plain names to byte strings, put and delete change one name,
  listing a directory returns its names in order. The locale \<open>local_root\<close> fixes the
  directory a local store is opened on; \<open>local.Store\<close> is proved to meet the contract for
  every such root, \<open>gcs.Store\<close> to meet it on every bucket that behaves as a map.
\<close>

section \<open>The interface\<close>

record objectInfo =
  oi_path :: string
  oi_size :: nat
  oi_createdAt :: int

type_synonym ('s, 'a) op = "'s \<Rightarrow> (goerror + 'a) \<times> 's"

text \<open>An \<open>io.Reader\<close>: the bytes it yields and the error it ends with, if not \<open>io.EOF\<close>.\<close>

record reader =
  rd_data :: bytes
  rd_err :: "goerror option"

record 's store =
  sPut :: "string \<Rightarrow> bytes \<Rightarrow> ('s, unit) op"
  sGet :: "string \<Rightarrow> ('s, bytes) op"
  sDelete :: "string \<Rightarrow> ('s, unit) op"
  sList :: "string \<Rightarrow> ('s, string list) op"
  sExists :: "string \<Rightarrow> ('s, bool) op"
  sAttrs :: "string \<Rightarrow> ('s, objectInfo) op"
  sPutReader :: "string \<Rightarrow> reader \<Rightarrow> int \<Rightarrow> ('s, unit) op"
  sGetReader :: "string \<Rightarrow> ('s, reader) op"
  sClose :: "('s, unit) op"

section \<open>The operating system's file system\<close>

record fileEntry =
  f_data :: bytes
  f_mtime :: int

record fs =
  fs_files :: "(string \<times> fileEntry) list"
  fs_dirs :: "string list"
  fs_clock :: int
  fs_faults :: "(goerror \<times> nat) option list"

definition errNotExist :: goerror where "errNotExist = Err ''file does not exist''"
definition errNotDir :: goerror where "errNotDir = Err ''not a directory''"
definition errIsDir :: goerror where "errIsDir = Err ''is a directory''"
definition errNotEmpty :: goerror where "errNotEmpty = Err ''directory not empty''"
definition errPermission :: goerror where "errPermission = Err ''permission denied''"

definition IsNotExist :: "goerror \<Rightarrow> bool" where "IsNotExist e = (e = errNotExist)"

text \<open>Every system call first takes the next scheduled fault.\<close>

definition nextFault :: "fs \<Rightarrow> (goerror \<times> nat) option \<times> fs" where
  "nextFault s = (case fs_faults s of [] \<Rightarrow> (None, s) | x # xs \<Rightarrow> (x, s\<lparr>fs_faults := xs\<rparr>))"

text \<open>The path and the directories above it.\<close>

definition ancestors :: "string \<Rightarrow> string list" where
  "ancestors p = map (\<lambda>k. joinSlash (take k (splitSlash p))) [1..<Suc (length (splitSlash p))]"

definition isFile :: "fs \<Rightarrow> string \<Rightarrow> bool" where
  "isFile s p = (map_of (fs_files s) p \<noteq> None)"

definition below :: "string \<Rightarrow> string \<Rightarrow> bool" where
  "below d p = HasPrefix p (if d = [sep] then d else d @ [sep])"

text \<open>Why a path does not lead to a file: a component is a file, or nothing is there.\<close>

definition lookupErr :: "fs \<Rightarrow> string \<Rightarrow> goerror" where
  "lookupErr s p = (if list_ex (isFile s) (ancestors p) then errNotDir else errNotExist)"

definition MkdirAll :: "string \<Rightarrow> (fs, unit) op" where
  "MkdirAll d s =
     (case nextFault s of
        (Some (e, _), s1) \<Rightarrow> (Inl e, s1)
      | (None, s1) \<Rightarrow>
          if list_ex (isFile s1) (ancestors d) then (Inl errNotDir, s1)
          else (Inr (), s1\<lparr>fs_dirs := List.union (ancestors d) (fs_dirs s1)\<rparr>))"

text \<open>Opening with \<open>O_CREATE|O_TRUNC\<close> leaves an empty file, which the write then fills.\<close>

definition createFile :: "string \<Rightarrow> (fs, unit) op" where
  "createFile p s =
     (case nextFault s of
        (Some (e, _), s1) \<Rightarrow> (Inl e, s1)
      | (None, s1) \<Rightarrow>
          if p \<in> set (fs_dirs s1) then (Inl errIsDir, s1)
          else if list_ex (isFile s1) (butlast (ancestors p)) then (Inl errNotDir, s1)
          else if Dir p \<notin> set (fs_dirs s1) then (Inl errNotExist, s1)
          else (Inr (), s1\<lparr>fs_files := AList.update p \<lparr>f_data = [], f_mtime = fs_clock s1\<rparr> (fs_files s1)\<rparr>))"

definition writeData :: "string \<Rightarrow> bytes \<Rightarrow> (fs, nat) op" where
  "writeData p data s =
     (case nextFault s of
        (Some (e, n), s1) \<Rightarrow>
          (Inl e, s1\<lparr>fs_files := AList.update p \<lparr>f_data = take n data, f_mtime = fs_clock s1\<rparr> (fs_files s1)\<rparr>)
      | (None, s1) \<Rightarrow>
          (Inr (length data), s1\<lparr>fs_files := AList.update p \<lparr>f_data = data, f_mtime = fs_clock s1\<rparr> (fs_files s1)\<rparr>))"

definition closeFile :: "(fs, unit) op" where
  "closeFile s = (case nextFault s of (Some (e, _), s1) \<Rightarrow> (Inl e, s1) | (None, s1) \<Rightarrow> (Inr (), s1))"

definition WriteFile :: "string \<Rightarrow> bytes \<Rightarrow> (fs, unit) op" where
  "WriteFile p data s =
     (case createFile p s of
        (Inl e, s1) \<Rightarrow> (Inl e, s1)
      | (Inr _, s1) \<Rightarrow>
          (case writeData p data s1 of
             (Inl e, s2) \<Rightarrow> (Inl e, snd (closeFile s2))
           | (Inr _, s2) \<Rightarrow> closeFile s2))"

definition ReadFile :: "string \<Rightarrow> (fs, bytes) op" where
  "ReadFile p s =
     (case nextFault s of
        (Some (e, _), s1) \<Rightarrow> (Inl e, s1)
      | (None, s1) \<Rightarrow>
          (case map_of (fs_files s1) p of
             Some f \<Rightarrow> (Inr (f_data f), s1)
           | None \<Rightarrow> (Inl (if p \<in> set (fs_dirs s1) then errIsDir else lookupErr s1 p), s1)))"

text \<open>\<open>os.Open\<close> also opens a directory, whose bytes cannot be read.\<close>

definition OpenFile :: "string \<Rightarrow> (fs, reader) op" where
  "OpenFile p s =
     (case nextFault s of
        (Some (e, _), s1) \<Rightarrow> (Inl e, s1)
      | (None, s1) \<Rightarrow>
          (case map_of (fs_files s1) p of
             Some f \<Rightarrow> (Inr \<lparr>rd_data = f_data f, rd_err = None\<rparr>, s1)
           | None \<Rightarrow>
               if p \<in> set (fs_dirs s1) then (Inr \<lparr>rd_data = [], rd_err = Some errIsDir\<rparr>, s1)
               else (Inl (lookupErr s1 p), s1)))"

definition Remove :: "string \<Rightarrow> (fs, unit) op" where
  "Remove p s =
     (case nextFault s of
        (Some (e, _), s1) \<Rightarrow> (Inl e, s1)
      | (None, s1) \<Rightarrow>
          if isFile s1 p then (Inr (), s1\<lparr>fs_files := AList.delete p (fs_files s1)\<rparr>)
          else if p \<in> set (fs_dirs s1) then
            (if list_ex (below p) (map fst (fs_files s1) @ fs_dirs s1) then (Inl errNotEmpty, s1)
             else (Inr (), s1\<lparr>fs_dirs := removeAll p (fs_dirs s1)\<rparr>))
          else (Inl (lookupErr s1 p), s1))"

text \<open>\<open>os.Stat\<close>: size and modification time (of a directory, size 0 and time 0).\<close>

definition Stat :: "string \<Rightarrow> (fs, nat \<times> int) op" where
  "Stat p s =
     (case nextFault s of
        (Some (e, _), s1) \<Rightarrow> (Inl e, s1)
      | (None, s1) \<Rightarrow>
          (case map_of (fs_files s1) p of
             Some f \<Rightarrow> (Inr (length (f_data f), f_mtime f), s1)
           | None \<Rightarrow>
               if p \<in> set (fs_dirs s1) then (Inr (0, 0), s1) else (Inl (lookupErr s1 p), s1)))"

text \<open>\<open>filepath.WalkDir\<close> hands every file at or below \<open>d\<close> to the callback. A read fault on
  the way reaches the callback, which ends the walk with the error, except that it skips
  what may not be read: then only some of the files are seen.\<close>

definition walkFiles :: "string \<Rightarrow> (fs, string list) op" where
  "walkFiles d s =
     (case nextFault s of
        (Some (e, n), s1) \<Rightarrow>
          (if e = errPermission
           then (Inr (take n (filter (\<lambda>p. p = d \<or> below d p) (map fst (fs_files s1)))), s1)
           else (Inl e, s1))
      | (None, s1) \<Rightarrow> (Inr (filter (\<lambda>p. p = d \<or> below d p) (map fst (fs_files s1))), s1))"

text \<open>\<open>filepath.Rel\<close> of a path at or below the base.\<close>

definition Rel :: "string \<Rightarrow> string \<Rightarrow> string" where
  "Rel base targ = (if Clean base = Clean targ then ''.'' else TrimPrefix (Clean targ) (Clean base @ [sep]))"

section \<open>local.Store\<close>

definition local_New :: "string \<Rightarrow> (fs, unit) op" where
  "local_New root s =
     (case MkdirAll (Clean root) s of
        (Inl e, s1) \<Rightarrow> (Inl (Wrap ''local: creating root'' e), s1)
      | (Inr _, s1) \<Rightarrow> (Inr (), s1))"

definition local_path :: "string \<Rightarrow> string \<Rightarrow> goerror + string" where
  "local_path root p =
     (let full = Join [root, p]; cleanedRoot = Clean root in
      if \<not> HasPrefix full (cleanedRoot @ [sep]) \<and> full \<noteq> cleanedRoot
      then Inl (Err ''local: path escapes root'')
      else Inr full)"

definition local_Put :: "string \<Rightarrow> string \<Rightarrow> bytes \<Rightarrow> (fs, unit) op" where
  "local_Put root p data s =
     (case local_path root p of
        Inl e \<Rightarrow> (Inl e, s)
      | Inr full \<Rightarrow>
          (case MkdirAll (Dir full) s of
             (Inl e, s1) \<Rightarrow> (Inl (Wrap ''local: mkdir'' e), s1)
           | (Inr _, s1) \<Rightarrow>
               (case WriteFile full data s1 of
                  (Inl e, s2) \<Rightarrow> (Inl (Wrap ''local: writing'' e), s2)
                | (Inr _, s2) \<Rightarrow> (Inr (), s2))))"

definition local_Get :: "string \<Rightarrow> string \<Rightarrow> (fs, bytes) op" where
  "local_Get root p s =
     (case local_path root p of
        Inl e \<Rightarrow> (Inl e, s)
      | Inr full \<Rightarrow>
          (case ReadFile full s of
             (Inl e, s1) \<Rightarrow>
               (Inl (if IsNotExist e then Wrap ''local: object not found'' ErrNotFound
                     else Wrap ''local: reading'' e), s1)
           | (Inr data, s1) \<Rightarrow> (Inr data, s1)))"

definition local_Delete :: "string \<Rightarrow> string \<Rightarrow> (fs, unit) op" where
  "local_Delete root p s =
     (case local_path root p of
        Inl e \<Rightarrow> (Inl e, s)
      | Inr full \<Rightarrow>
          (case Remove full s of
             (Inl e, s1) \<Rightarrow> (if \<not> IsNotExist e then (Inl (Wrap ''local: deleting'' e), s1) else (Inr (), s1))
           | (Inr _, s1) \<Rightarrow> (Inr (), s1)))"

definition local_List :: "string \<Rightarrow> string \<Rightarrow> (fs, string list) op" where
  "local_List root prefix s =
     (case local_path root prefix of
        Inl e \<Rightarrow> (Inl e, s)
      | Inr searchDir \<Rightarrow>
          (case Stat searchDir s of
             (Inl e, s1) \<Rightarrow> (if IsNotExist e then (Inr [], s1) else (Inl (Wrap ''local: stat'' e), s1))
           | (Inr _, s1) \<Rightarrow>
               (case walkFiles searchDir s1 of
                  (Inl e, s2) \<Rightarrow> (Inl (Wrap ''local: listing prefix'' e), s2)
                | (Inr found, s2) \<Rightarrow> (Inr (sort (map (Rel root) found)), s2))))"

definition local_Exists :: "string \<Rightarrow> string \<Rightarrow> (fs, bool) op" where
  "local_Exists root p s =
     (case local_path root p of
        Inl e \<Rightarrow> (Inl e, s)
      | Inr full \<Rightarrow>
          (case Stat full s of
             (Inr _, s1) \<Rightarrow> (Inr True, s1)
           | (Inl e, s1) \<Rightarrow>
               (if IsNotExist e then (Inr False, s1) else (Inl (Wrap ''local: checking exists'' e), s1))))"

definition local_Attrs :: "string \<Rightarrow> string \<Rightarrow> (fs, objectInfo) op" where
  "local_Attrs root p s =
     (case local_path root p of
        Inl e \<Rightarrow> (Inl e, s)
      | Inr full \<Rightarrow>
          (case Stat full s of
             (Inl e, s1) \<Rightarrow> (Inl e, s1)
           | (Inr (n, t), s1) \<Rightarrow> (Inr \<lparr>oi_path = p, oi_size = n, oi_createdAt = t\<rparr>, s1)))"

text \<open>\<open>io.CopyN(f, r, size)\<close> writes the first \<open>size\<close> bytes of the reader; when the reader
  ends early the error is its own, or \<open>io.EOF\<close>. The deferred \<open>Close\<close> assigns its error to
  a variable nobody returns.\<close>

definition local_PutReader :: "string \<Rightarrow> string \<Rightarrow> reader \<Rightarrow> int \<Rightarrow> (fs, unit) op" where
  "local_PutReader root p r sz s =
     (case local_path root p of
        Inl e \<Rightarrow> (Inl e, s)
      | Inr full \<Rightarrow>
          (case MkdirAll (Dir full) s of
             (Inl e, s1) \<Rightarrow> (Inl (Wrap ''local: mkdir'' e), s1)
           | (Inr _, s1) \<Rightarrow>
               (case createFile full s1 of
                  (Inl e, s2) \<Rightarrow> (Inl (Wrap ''local: creating'' e), s2)
                | (Inr _, s2) \<Rightarrow>
                    (let data = take (nat sz) (rd_data r) in
                     case writeData full data s2 of
                       (Inl e, s3) \<Rightarrow> (Inl (Wrap ''local: writing'' e), snd (closeFile s3))
                     | (Inr n, s3) \<Rightarrow>
                         (let s4 = snd (closeFile s3) in
                          case (if int n < sz then rd_err r else None) of
                            Some e \<Rightarrow> (Inl (Wrap ''local: writing'' e), s4)
                          | None \<Rightarrow>
                              (if int n \<noteq> sz then (Inl (Err ''local: wrote too few bytes''), s4)
                               else (Inr (), s4)))))))"

definition local_GetReader :: "string \<Rightarrow> string \<Rightarrow> (fs, reader) op" where
  "local_GetReader root p s =
     (case local_path root p of
        Inl e \<Rightarrow> (Inl e, s)
      | Inr full \<Rightarrow>
          (case OpenFile full s of
             (Inl e, s1) \<Rightarrow>
               (Inl (if IsNotExist e then Wrap ''local: object not found'' ErrNotFound
                     else Wrap ''local: opening'' e), s1)
           | (Inr f, s1) \<Rightarrow> (Inr f, s1)))"

definition local_Close :: "(fs, unit) op" where
  "local_Close s = (Inr (), s)"

definition local_store :: "string \<Rightarrow> fs store" where
  "local_store root =
     \<lparr>sPut = local_Put root, sGet = local_Get root, sDelete = local_Delete root,
      sList = local_List root, sExists = local_Exists root, sAttrs = local_Attrs root,
      sPutReader = local_PutReader root, sGetReader = local_GetReader root,
      sClose = local_Close\<rparr>"


section \<open>gcs.Store\<close>

text \<open>The operations of the Google Cloud Storage client the store calls, by bucket and
  object name: writing to an object writer, closing it (which commits the object),
  opening a reader, deleting, reading attributes, iterating over the names with a prefix
  (what each call of \<open>Next\<close> returns before \<open>iterator.Done\<close>) and closing.\<close>

record 'c gcsClient =
  gWrite :: "string \<Rightarrow> string \<Rightarrow> bytes \<Rightarrow> ('c, unit) op"
  gCommit :: "string \<Rightarrow> string \<Rightarrow> bytes \<Rightarrow> ('c, unit) op"
  gRead :: "string \<Rightarrow> string \<Rightarrow> ('c, reader) op"
  gDelete :: "string \<Rightarrow> string \<Rightarrow> ('c, unit) op"
  gAttrs :: "string \<Rightarrow> string \<Rightarrow> ('c, nat \<times> int) op"
  gObjects :: "string \<Rightarrow> string \<Rightarrow> 'c \<Rightarrow> (goerror + string) list \<times> 'c"
  gClose :: "('c, unit) op"

record gcsStore =
  g_bucket :: string
  g_prefix :: string

definition ErrObjectNotExist :: goerror where
  "ErrObjectNotExist = Err ''storage: object doesn't exist''"

definition isNotExist :: "goerror \<Rightarrow> bool" where
  "isNotExist e =
     (if errorsIs e ErrObjectNotExist then True
      else case asApiErr e of Some code \<Rightarrow> code = 404 | None \<Rightarrow> False)"

text \<open>The first argument is what \<open>storage.NewClient\<close> returned.\<close>

definition gcs_New :: "goerror + unit \<Rightarrow> string \<Rightarrow> string \<Rightarrow> goerror + gcsStore" where
  "gcs_New client bucket prefix =
     (case client of
        Inl e \<Rightarrow> Inl (Wrap ''gcs: creating client'' e)
      | Inr _ \<Rightarrow>
          Inr \<lparr>g_bucket = bucket,
               g_prefix = (if prefix \<noteq> [] then TrimRight prefix [sep] @ [sep] else prefix)\<rparr>)"

definition fullPath :: "gcsStore \<Rightarrow> string \<Rightarrow> string" where
  "fullPath g p = g_prefix g @ p"

definition unPrefix :: "gcsStore \<Rightarrow> string \<Rightarrow> string" where
  "unPrefix g p = TrimPrefix p (g_prefix g)"

definition gcs_Put :: "'c gcsClient \<Rightarrow> gcsStore \<Rightarrow> string \<Rightarrow> bytes \<Rightarrow> ('c, unit) op" where
  "gcs_Put cl g p data c =
     (case gWrite cl (g_bucket g) (fullPath g p) data c of
        (Inl e, c1) \<Rightarrow> (Inl (Wrap ''gcs: writing'' e), snd (gCommit cl (g_bucket g) (fullPath g p) [] c1))
      | (Inr _, c1) \<Rightarrow>
          (case gCommit cl (g_bucket g) (fullPath g p) data c1 of
             (Inl e, c2) \<Rightarrow> (Inl (Wrap ''gcs: closing writer'' e), c2)
           | (Inr _, c2) \<Rightarrow> (Inr (), c2)))"

definition gcs_Get :: "'c gcsClient \<Rightarrow> gcsStore \<Rightarrow> string \<Rightarrow> ('c, bytes) op" where
  "gcs_Get cl g p c =
     (case gRead cl (g_bucket g) (fullPath g p) c of
        (Inl e, c1) \<Rightarrow>
          (Inl (if isNotExist e then Wrap ''gcs: object'' ErrNotFound else Wrap ''gcs: reading'' e), c1)
      | (Inr r, c1) \<Rightarrow>
          (case rd_err r of
             Some e \<Rightarrow> (Inl (Wrap ''gcs: reading body'' e), c1)
           | None \<Rightarrow> (Inr (rd_data r), c1)))"

definition gcs_Delete :: "'c gcsClient \<Rightarrow> gcsStore \<Rightarrow> string \<Rightarrow> ('c, unit) op" where
  "gcs_Delete cl g p c =
     (case gDelete cl (g_bucket g) (fullPath g p) c of
        (Inl e, c1) \<Rightarrow> (if \<not> isNotExist e then (Inl (Wrap ''gcs: deleting'' e), c1) else (Inr (), c1))
      | (Inr _, c1) \<Rightarrow> (Inr (), c1))"

fun gcs_listLoop :: "gcsStore \<Rightarrow> (goerror + string) list \<Rightarrow> string list \<Rightarrow> goerror + string list" where
  "gcs_listLoop g [] out = Inr out"
| "gcs_listLoop g (Inl e # xs) out = Inl (Wrap ''gcs: listing prefix'' e)"
| "gcs_listLoop g (Inr n # xs) out = gcs_listLoop g xs (out @ [unPrefix g n])"

definition gcs_List :: "'c gcsClient \<Rightarrow> gcsStore \<Rightarrow> string \<Rightarrow> ('c, string list) op" where
  "gcs_List cl g prefix c =
     (case gObjects cl (g_bucket g) (fullPath g prefix) c of (xs, c1) \<Rightarrow> (gcs_listLoop g xs [], c1))"

definition gcs_Exists :: "'c gcsClient \<Rightarrow> gcsStore \<Rightarrow> string \<Rightarrow> ('c, bool) op" where
  "gcs_Exists cl g p c =
     (case gAttrs cl (g_bucket g) (fullPath g p) c of
        (Inl e, c1) \<Rightarrow> (if isNotExist e then (Inr False, c1) else (Inl (Wrap ''gcs: checking exists'' e), c1))
      | (Inr _, c1) \<Rightarrow> (Inr True, c1))"

definition gcs_Attrs :: "'c gcsClient \<Rightarrow> gcsStore \<Rightarrow> string \<Rightarrow> ('c, objectInfo) op" where
  "gcs_Attrs cl g p c =
     (case gAttrs cl (g_bucket g) (fullPath g p) c of
        (Inl e, c1) \<Rightarrow>
          (Inl (if isNotExist e then Wrap ''gcs: object'' ErrNotFound else Wrap ''gcs: attrs'' e), c1)
      | (Inr (n, t), c1) \<Rightarrow> (Inr \<lparr>oi_path = p, oi_size = n, oi_createdAt = t\<rparr>, c1))"

text \<open>\<open>io.Copy\<close> stops at the reader's error. Closing the writer then commits what was written.\<close>

definition gcs_PutReader :: "'c gcsClient \<Rightarrow> gcsStore \<Rightarrow> string \<Rightarrow> reader \<Rightarrow> int \<Rightarrow> ('c, unit) op" where
  "gcs_PutReader cl g p r sz c =
     (case gWrite cl (g_bucket g) (fullPath g p) (rd_data r) c of
        (Inl e, c1) \<Rightarrow> (Inl (Wrap ''gcs: writing'' e), snd (gCommit cl (g_bucket g) (fullPath g p) [] c1))
      | (Inr _, c1) \<Rightarrow>
          (case gCommit cl (g_bucket g) (fullPath g p) (rd_data r) c1 of
             (res, c2) \<Rightarrow>
               (case rd_err r of
                  Some e \<Rightarrow> (Inl (Wrap ''gcs: writing'' e), c2)
                | None \<Rightarrow>
                    (case res of
                       Inl e \<Rightarrow> (Inl (Wrap ''gcs: closing writer'' e), c2)
                     | Inr _ \<Rightarrow> (Inr (), c2)))))"

definition gcs_GetReader :: "'c gcsClient \<Rightarrow> gcsStore \<Rightarrow> string \<Rightarrow> ('c, reader) op" where
  "gcs_GetReader cl g p c =
     (case gRead cl (g_bucket g) (fullPath g p) c of
        (Inl e, c1) \<Rightarrow>
          (Inl (if isNotExist e then Wrap ''gcs: object'' e else Wrap ''gcs: reading'' e), c1)
      | (Inr r, c1) \<Rightarrow> (Inr r, c1))"

definition gcs_Close :: "'c gcsClient \<Rightarrow> ('c, unit) op" where
  "gcs_Close cl = gClose cl"

definition gcs_store :: "'c gcsClient \<Rightarrow> gcsStore \<Rightarrow> 'c store" where
  "gcs_store cl g =
     \<lparr>sPut = gcs_Put cl g, sGet = gcs_Get cl g, sDelete = gcs_Delete cl g,
      sList = gcs_List cl g, sExists = gcs_Exists cl g, sAttrs = gcs_Attrs cl g,
      sPutReader = gcs_PutReader cl g, sGetReader = gcs_GetReader cl g,
      sClose = gcs_Close cl\<rparr>"

section \<open>The contract\<close>

locale object_store =
  fixes st :: "'s store"
    and contents :: "'s \<Rightarrow> string \<Rightarrow> bytes option"
    and inv :: "'s \<Rightarrow> bool"
  assumes put_frame: "inv s \<Longrightarrow> plainPath p \<Longrightarrow> sPut st p d s = (r, s') \<Longrightarrow>
      inv s' \<and> (\<forall>q. q \<noteq> p \<longrightarrow> contents s' q = contents s q)"
    and put_ok: "inv s \<Longrightarrow> plainPath p \<Longrightarrow> sPut st p d s = (Inr u, s') \<Longrightarrow> contents s' p = Some d"
    and get_frame: "inv s \<Longrightarrow> plainPath p \<Longrightarrow> sGet st p s = (rg, s') \<Longrightarrow> inv s' \<and> contents s' = contents s"
    and get_ok: "inv s \<Longrightarrow> plainPath p \<Longrightarrow> sGet st p s = (Inr d, s') \<Longrightarrow> contents s p = Some d"
    and get_not_found: "inv s \<Longrightarrow> plainPath p \<Longrightarrow> sGet st p s = (Inl e, s') \<Longrightarrow>
      errorsIs e ErrNotFound \<Longrightarrow> contents s p = None"
    and delete_frame: "inv s \<Longrightarrow> plainPath p \<Longrightarrow> sDelete st p s = (r, s') \<Longrightarrow>
      inv s' \<and> (contents s' = contents s \<or> contents s' = (contents s)(p := None))"
    and delete_ok: "inv s \<Longrightarrow> plainPath p \<Longrightarrow> sDelete st p s = (Inr u, s') \<Longrightarrow> contents s' p = None"
    and list_frame: "inv s \<Longrightarrow> plainPath dir \<Longrightarrow> sList st (dir @ [sep]) s = (rl, s') \<Longrightarrow>
      inv s' \<and> contents s' = contents s"
    and list_ok: "inv s \<Longrightarrow> plainPath dir \<Longrightarrow> contents s dir = None \<Longrightarrow> sList st (dir @ [sep]) s = (Inr ps, s') \<Longrightarrow>
      set ps = {q. contents s q \<noteq> None \<and> HasPrefix q (dir @ [sep])} \<and> sorted ps \<and> distinct ps"
    and attrs_frame: "inv s \<Longrightarrow> plainPath p \<Longrightarrow> sAttrs st p s = (ra, s') \<Longrightarrow> inv s' \<and> contents s' = contents s"
begin

lemma put_contents:
  "inv s \<Longrightarrow> plainPath p \<Longrightarrow> sPut st p d s = (Inr u, s') \<Longrightarrow> contents s' = (contents s)(p \<mapsto> d)"
  using put_frame put_ok by fastforce

lemma delete_contents:
  "inv s \<Longrightarrow> plainPath p \<Longrightarrow> sDelete st p s = (Inr u, s') \<Longrightarrow> contents s' = (contents s)(p := None)"
  using delete_frame delete_ok by (metis fun_upd_triv)

lemma put_get:
  assumes "inv s" "plainPath p" "plainPath q" "sPut st p d s = (Inr u, s1)" "sGet st q s1 = (Inr x, s2)"
  shows "if q = p then x = d else contents s q = Some x"
  using assms put_contents [OF assms(1,2,4)] put_frame [OF assms(1,2,4)] get_ok [of s1 q x s2] by auto

end

section \<open>Paths of a local store\<close>

text \<open>A root directory a local store works on: cleaned, it has only plain elements, and
  at least one (so neither \<open>/\<close> nor \<open>.\<close>, nor anything that starts with \<open>..\<close>).\<close>

definition goodRoot :: "string \<Rightarrow> bool" where
  "goodRoot root \<longleftrightarrow> cleanElems (rooted root) (splitSlash root) \<noteq> [] \<and>
     list_all plainElem (cleanElems (rooted root) (splitSlash root))"

lemma rooted_append [simp]: "a \<noteq> [] \<Longrightarrow> rooted (a @ b) = rooted a"
  by (cases a) (auto simp: rooted_def)

lemma rooted_Cons [simp]: "rooted (c # cs) \<longleftrightarrow> c = sep" "\<not> rooted []"
  by (auto simp: rooted_def)

lemma cleanElems_Nil_elem [simp]: "cleanElems r (xs @ [[]]) = cleanElems r xs" "cleanElems r ([] # xs) = cleanElems r xs"
  by (simp_all add: cleanElems_def)

lemma Clean_trailing: "a \<noteq> [] \<Longrightarrow> Clean (a @ [sep]) = Clean a"
  using splitSlash_append_sep [of a "[]"] by (simp add: Clean_def)

text \<open>A cleaned path with only plain elements.\<close>

definition normalPath :: "string \<Rightarrow> bool" where
  "normalPath a \<longleftrightarrow> (plainPath a \<or> (\<exists>b. a = sep # b \<and> plainPath b))"

lemma normalPath_not_Nil: "normalPath a \<Longrightarrow> a \<noteq> []"
  by (auto simp: normalPath_def dest: plainPath_not_Nil)

lemma normalPath_not_root: "normalPath a \<Longrightarrow> a \<noteq> [sep]"
  by (auto simp: normalPath_def plainPath_def plainElem_def)

lemma normalPath_slash: "normalPath a \<Longrightarrow> plainPath q \<Longrightarrow> normalPath (a @ sep # q)"
  by (auto simp: normalPath_def)

lemma Clean_normal [path_simps]: "normalPath a \<Longrightarrow> Clean a = a"
  by (auto simp: normalPath_def path_simps) (auto simp: Clean_def plainPath_def)

lemma plainElem_sep: "plainElem x \<Longrightarrow> sep \<notin> set x"
  by (simp add: plainElem_def)

lemma plainPath_joinSlash: "xs \<noteq> [] \<Longrightarrow> list_all plainElem xs \<Longrightarrow> plainPath (joinSlash xs)"
  unfolding plainPath_def by (metis list_all_iff plainElem_sep splitSlash_joinSlash)

lemma goodRoot_elems:
  assumes "goodRoot root"
  shows "plainPath (joinSlash (cleanElems (rooted root) (splitSlash root)))"
    "joinSlash (cleanElems (rooted root) (splitSlash root)) \<noteq> []"
  using plainPath_joinSlash plainPath_not_Nil assms unfolding goodRoot_def by blast+

lemma normalPath_root: "goodRoot root \<Longrightarrow> normalPath (Clean root)"
  using goodRoot_elems [of root] by (cases "rooted root") (simp_all add: normalPath_def Clean_def Let_def)

lemma goodRoot_not_Nil: "goodRoot root \<Longrightarrow> root \<noteq> []"
  by (auto simp: goodRoot_def cleanElems_def)

lemma cleanElems_snoc_plain:
  "goodRoot root \<Longrightarrow> list_all plainElem qs \<Longrightarrow>
     joinSlash (cleanElems (rooted root) (splitSlash root @ qs)) =
       (if qs = [] then joinSlash (cleanElems (rooted root) (splitSlash root))
        else joinSlash (cleanElems (rooted root) (splitSlash root)) @ sep # joinSlash qs)"
  by (simp add: cleanElems_append_plain joinSlash_append goodRoot_def)

lemma Join_root: "goodRoot root \<Longrightarrow> plainPath p \<Longrightarrow> Join [root, p] = Clean root @ sep # p"
proof -
  assume r: "goodRoot root" and p: "plainPath p"
  let ?rs = "cleanElems (rooted root) (splitSlash root)"
  have ne: "joinSlash ?rs \<noteq> []"
    using r by (rule goodRoot_elems)
  have "Join [root, p] = Clean (root @ sep # p)"
    using goodRoot_not_Nil [OF r] plainPath_not_Nil [OF p] by (simp add: Join_def)
  also have "\<dots> = Clean root @ sep # p"
    using ne cleanElems_snoc_plain [OF r, of "splitSlash p"] p goodRoot_not_Nil [OF r]
    by (cases "rooted root") (simp_all add: Clean_def Let_def plainPath_def)
  finally show ?thesis .
qed

lemma local_path_plain [path_simps]:
  "goodRoot root \<Longrightarrow> plainPath p \<Longrightarrow> local_path root p = Inr (Clean root @ sep # p)"
  using HasPrefix_append [of "Clean root @ [sep]" p] by (simp add: local_path_def Join_root)

lemma local_path_dir [path_simps]:
  assumes "goodRoot root" "plainPath p"
  shows "local_path root (p @ [sep]) = Inr (Clean root @ sep # p)"
proof -
  have "Join [root, p @ [sep]] = Clean ((root @ sep # p) @ [sep])"
    using goodRoot_not_Nil [OF assms(1)] plainPath_not_Nil [OF assms(2)] by (simp add: Join_def)
  also have "\<dots> = Join [root, p]"
    using goodRoot_not_Nil [OF assms(1)] plainPath_not_Nil [OF assms(2)]
    by (subst Clean_trailing) (simp_all add: Join_def)
  finally show ?thesis
    using HasPrefix_append [of "Clean root @ [sep]" p] by (simp add: local_path_def Join_root assms)
qed

lemma Rel_below [path_simps]:
  "goodRoot root \<Longrightarrow> plainPath p \<Longrightarrow> Rel root (Clean root @ sep # p) = p"
  using TrimPrefix_append [of "Clean root @ [sep]" p] normalPath_root [of root]
  by (simp add: Rel_def path_simps normalPath_slash)

lemma plainPath_cases:
  assumes "plainPath p"
  obtains "plainElem p" | q e where "p = q @ sep # e" "plainPath q" "plainElem e"
proof (cases "splitSlash p" rule: rev_cases)
  case Nil
  then show ?thesis by simp
next
  case (snoc xs e)
  then have p: "p = joinSlash (xs @ [e])"
    by (metis joinSlash_splitSlash)
  show ?thesis
  proof (cases "xs = []")
    case True
    then show ?thesis using that(1) p snoc assms by (simp add: plainPath_def)
  next
    case False
    moreover have "splitSlash (joinSlash xs) = xs"
      using False snoc splitSlash_elem [of _ p] by (intro splitSlash_joinSlash) auto
    ultimately show ?thesis
      using that(2) [of "joinSlash xs" e] p snoc assms by (simp add: joinSlash_append plainPath_def)
  qed
qed

lemma Dir_slash: "sep \<notin> set e \<Longrightarrow> Dir (a @ sep # e) = Clean (a @ [sep])"
proof -
  assume e: "sep \<notin> set e"
  then have "dropWhile (\<lambda>c. c \<noteq> sep) (rev e @ sep # rev a) = sep # rev a"
    by (induction e rule: rev_induct) auto
  then show ?thesis by (simp add: Dir_def)
qed

lemma Dir_normal:
  assumes "normalPath r" "plainPath p"
  obtains a e where "r @ sep # p = a @ sep # e" "plainElem e" "Dir (r @ sep # p) = a" "normalPath a"
  using assms(2)
proof (cases rule: plainPath_cases)
  case 1
  then show ?thesis
    using that [of r p] assms normalPath_not_Nil [of r]
    by (simp add: Dir_slash plainElem_def Clean_trailing path_simps)
next
  case (2 q e)
  then show ?thesis
    using that [of "r @ sep # q" e] assms Dir_slash [of e "r @ sep # q"] Clean_trailing [of "r @ sep # q"]
    by (simp add: plainElem_def path_simps normalPath_slash)
qed

lemma ancestors_mem:
  "d \<in> set (ancestors p) \<longleftrightarrow> (\<exists>k. 1 \<le> k \<and> k \<le> length (splitSlash p) \<and> d = joinSlash (take k (splitSlash p)))"
  by (auto simp: ancestors_def image_iff less_Suc_eq_le simp del: upt_Suc)

lemma ancestors_iff:
  "d \<in> set (ancestors p) \<longleftrightarrow> d = p \<or> HasPrefix p (d @ [sep])"
proof
  assume "d \<in> set (ancestors p)"
  then obtain k where k: "1 \<le> k" "k \<le> length (splitSlash p)" "d = joinSlash (take k (splitSlash p))"
    by (auto simp: ancestors_mem)
  show "d = p \<or> HasPrefix p (d @ [sep])"
  proof (cases "k = length (splitSlash p)")
    case False
    then have "p = d @ sep # joinSlash (drop k (splitSlash p))"
      using k joinSlash_append [of "take k (splitSlash p)" "drop k (splitSlash p)"] by simp
    then show ?thesis by (metis HasPrefix_append append.assoc append_Cons append_Nil)
  qed (use k in simp)
next
  assume "d = p \<or> HasPrefix p (d @ [sep])"
  then obtain ys where s: "splitSlash p = splitSlash d @ ys"
    by (auto simp: HasPrefix_iff)
  have "1 \<le> length (splitSlash d)"
    by (simp add: Suc_le_eq)
  moreover have "length (splitSlash d) \<le> length (splitSlash p)" "d = joinSlash (take (length (splitSlash d)) (splitSlash p))"
    by (simp_all add: s)
  ultimately show "d \<in> set (ancestors p)"
    unfolding ancestors_mem by blast
qed

lemma ancestors_Dir:
  assumes "normalPath r" "plainPath p" "HasPrefix (r @ sep # p) (d @ [sep])"
  shows "d \<in> set (ancestors (Dir (r @ sep # p)))"
proof -
  obtain a e where ae: "r @ sep # p = a @ sep # e" "plainElem e" "Dir (r @ sep # p) = a"
    using Dir_normal [OF assms(1,2)] by metis
  obtain t where t: "a @ sep # e = d @ sep # t"
    using assms(3) ae(1) by (auto simp: HasPrefix_iff)
  then have "splitSlash a @ [e] = splitSlash d @ splitSlash t"
    using ae(2) splitSlash_append_sep [of a e] splitSlash_append_sep [of d t] by (simp add: plainElem_def)
  then obtain zs where "splitSlash a = splitSlash d @ zs"
    by (cases "splitSlash t" rule: rev_cases) auto
  then have "a = d \<or> a = d @ sep # joinSlash zs"
    by (metis append_Nil2 joinSlash_append joinSlash_splitSlash splitSlash_not_Nil)
  then show ?thesis
    using ae(3) by (auto simp: ancestors_iff HasPrefix_iff)
qed

section \<open>The local store keeps the contract\<close>

definition filesView :: "string \<Rightarrow> (string \<times> fileEntry) list \<Rightarrow> string \<Rightarrow> bytes option" where
  "filesView root fl p =
     (if plainPath p then map_option f_data (map_of fl (Clean root @ sep # p)) else None)"

definition local_contents :: "string \<Rightarrow> fs \<Rightarrow> string \<Rightarrow> bytes option" where
  "local_contents root s = filesView root (fs_files s)"

text \<open>Faults other than those that say a file is missing or may not be read.\<close>

definition faultOK :: "goerror \<Rightarrow> bool" where
  "faultOK e \<longleftrightarrow> e \<noteq> errNotExist \<and> e \<noteq> errPermission \<and> \<not> errorsIs e ErrNotFound"

definition faultsOK :: "(goerror \<times> nat) option list \<Rightarrow> bool" where
  "faultsOK fts \<longleftrightarrow> (\<forall>e n. Some (e, n) \<in> set fts \<longrightarrow> faultOK e)"

text \<open>A well-formed file system: no file twice, files under the root have plain names,
  their directories exist, nothing is both a file and a directory.\<close>

definition filesOK :: "string \<Rightarrow> (string \<times> fileEntry) list \<Rightarrow> string list \<Rightarrow> bool" where
  "filesOK root fl ds \<longleftrightarrow>
     distinct (map fst fl) \<and>
     (\<forall>p \<in> dom (map_of fl).
        (\<forall>q. p = Clean root @ sep # q \<longrightarrow> plainPath q) \<and>
        (\<forall>d. HasPrefix p (d @ [sep]) \<longrightarrow> d \<in> set ds) \<and> p \<notin> set ds)"

definition local_inv :: "string \<Rightarrow> fs \<Rightarrow> bool" where
  "local_inv root s \<longleftrightarrow> filesOK root (fs_files s) (fs_dirs s) \<and> faultsOK (fs_faults s)"

lemma isFile_faults [simp]: "isFile (s\<lparr>fs_faults := fts\<rparr>) = isFile s"
  by (simp add: isFile_def fun_eq_iff)

lemma filesView_update [simp]:
  "plainPath q \<Longrightarrow> filesView root (AList.update (Clean root @ sep # q) f fl) = (filesView root fl)(q \<mapsto> f_data f)"
  by (simp add: filesView_def fun_eq_iff update_conv')

lemma filesView_delete [simp]:
  "plainPath q \<Longrightarrow> filesView root (AList.delete (Clean root @ sep # q) fl) = (filesView root fl)(q := None)"
  by (simp add: filesView_def fun_eq_iff delete_conv')

lemma filesOK_update:
  assumes "filesOK root fl ds" "plainPath q" "Clean root @ sep # q \<notin> set ds"
    "\<forall>d. HasPrefix (Clean root @ sep # q) (d @ [sep]) \<longrightarrow> d \<in> set ds"
  shows "filesOK root (AList.update (Clean root @ sep # q) f fl) ds"
  using assms by (auto simp: filesOK_def distinct_update dom_update update_conv' split: if_splits)

lemma filesOK_delete: "filesOK root fl ds \<Longrightarrow> filesOK root (AList.delete p fl) ds"
  by (auto simp: filesOK_def distinct_delete delete_conv' split: if_splits)

lemma filesOK_removeDir:
  "filesOK root fl ds \<Longrightarrow> \<forall>p \<in> fst ` set fl. \<not> HasPrefix p (d @ [sep]) \<Longrightarrow> filesOK root fl (removeAll d ds)"
  by (auto simp: filesOK_def dom_map_of_conv_image_fst)

lemma filesOK_plain: "filesOK root fl ds \<Longrightarrow> Clean root @ sep # q \<in> fst ` set fl \<Longrightarrow> plainPath q"
  unfolding filesOK_def dom_map_of_conv_image_fst by blast

lemma filesOK_dirs:
  "filesOK root fl ds \<Longrightarrow> \<forall>d \<in> set as. map_of fl d = None \<Longrightarrow> filesOK root fl (List.union as ds)"
  by (fastforce simp: filesOK_def)

text \<open>The outcome of a system call: the schedule moves on, a fault shows as the error.\<close>

lemma nextFault_cases:
  assumes "faultsOK (fs_faults s)"
  obtains fts where "nextFault s = (None, s\<lparr>fs_faults := fts\<rparr>)" "faultsOK fts"
  | e n fts where "nextFault s = (Some (e, n), s\<lparr>fs_faults := fts\<rparr>)" "faultsOK fts" "faultOK e"
proof (cases "fs_faults s")
  case Nil
  then show ?thesis using that(1) [of "[]"] by (simp add: nextFault_def faultsOK_def)
next
  case (Cons x xs)
  moreover have "faultsOK xs" using assms Cons by (auto simp: faultsOK_def)
  moreover have "x = Some (e, n) \<Longrightarrow> faultOK e" for e n
    using assms Cons by (auto simp: faultsOK_def)
  ultimately show ?thesis
    using that by (cases x) (auto simp: nextFault_def)
qed

lemma MkdirAll_cases:
  assumes "local_inv root s"
  obtains e fts where "MkdirAll d s = (Inl e, s\<lparr>fs_faults := fts\<rparr>)" "faultsOK fts"
  | ds fts where "MkdirAll d s = (Inr (), s\<lparr>fs_faults := fts, fs_dirs := ds\<rparr>)" "faultsOK fts"
      "set (ancestors d) \<subseteq> set ds" "filesOK root (fs_files s) ds"
proof -
  have f: "faultsOK (fs_faults s)" and w: "filesOK root (fs_files s) (fs_dirs s)"
    using assms by (simp_all add: local_inv_def)
  show ?thesis
  proof (cases rule: nextFault_cases [OF f])
    case (1 fts)
    show ?thesis
    proof (cases "list_ex (isFile s) (ancestors d)")
      case True
      then show ?thesis using that(1) [of errNotDir fts] 1 by (simp add: MkdirAll_def isFile_def)
    next
      case False
      then have "filesOK root (fs_files s) (List.union (ancestors d) (fs_dirs s))"
        by (intro filesOK_dirs [OF w]) (auto simp: list_ex_iff isFile_def)
      moreover have "MkdirAll d s = (Inr (), s\<lparr>fs_faults := fts, fs_dirs := List.union (ancestors d) (fs_dirs s)\<rparr>)"
        using False 1 by (simp add: MkdirAll_def isFile_def)
      ultimately show ?thesis using that(2) 1(2) by auto
    qed
  next
    case (2 e n fts)
    then show ?thesis using that(1) [of e fts] by (simp add: MkdirAll_def)
  qed
qed

text \<open>What a write may leave behind: nothing new, or a part of the data.\<close>

definition written :: "string \<Rightarrow> string \<Rightarrow> bytes \<Rightarrow> fs \<Rightarrow> fs \<Rightarrow> bool \<Rightarrow> bool" where
  "written root q d s s' complete \<longleftrightarrow> local_inv root s' \<and>
     (if complete then local_contents root s' = (local_contents root s)(q \<mapsto> d)
      else local_contents root s' = local_contents root s \<or>
           (\<exists>n. local_contents root s' = (local_contents root s)(q \<mapsto> take n d)))"

lemma createFile_cases:
  assumes "local_inv root s" "plainPath q"
    "\<forall>d. HasPrefix (Clean root @ sep # q) (d @ [sep]) \<longrightarrow> d \<in> set (fs_dirs s)"
  obtains e fts where "createFile (Clean root @ sep # q) s = (Inl e, s\<lparr>fs_faults := fts\<rparr>)" "faultsOK fts"
  | fl fts where "createFile (Clean root @ sep # q) s = (Inr (), s\<lparr>fs_faults := fts, fs_files := fl\<rparr>)"
      "faultsOK fts" "filesView root fl = (filesView root (fs_files s))(q \<mapsto> [])"
      "filesOK root fl (fs_dirs s)" "Clean root @ sep # q \<notin> set (fs_dirs s)"
proof -
  have f: "faultsOK (fs_faults s)" and w: "filesOK root (fs_files s) (fs_dirs s)"
    using assms by (simp_all add: local_inv_def)
  show ?thesis
  proof (cases rule: nextFault_cases [OF f])
    case (1 fts)
    then show ?thesis
      using that(1) [of errIsDir fts] that(1) [of errNotDir fts] that(1) [of errNotExist fts]
        that(2) [where fts = fts and fl = "AList.update (Clean root @ sep # q) \<lparr>f_data = [], f_mtime = fs_clock s\<rparr> (fs_files s)"]
        filesOK_update [OF w assms(2) _ assms(3)] assms(2)
      by (cases "Clean root @ sep # q \<in> set (fs_dirs s)";
          cases "list_ex (isFile s) (butlast (ancestors (Clean root @ sep # q)))";
          cases "Dir (Clean root @ sep # q) \<in> set (fs_dirs s)") (simp_all add: createFile_def)
  next
    case (2 e n fts)
    then show ?thesis using that(1) [of e fts] by (simp add: createFile_def)
  qed
qed

lemma writeData_cases:
  assumes "local_inv root s" "plainPath q" "Clean root @ sep # q \<notin> set (fs_dirs s)"
    "\<forall>d. HasPrefix (Clean root @ sep # q) (d @ [sep]) \<longrightarrow> d \<in> set (fs_dirs s)"
  obtains e s' where "writeData (Clean root @ sep # q) d s = (Inl e, s')" "written root q d s s' False"
  | s' where "writeData (Clean root @ sep # q) d s = (Inr (length d), s')" "written root q d s s' True"
proof -
  have f: "faultsOK (fs_faults s)" and w: "filesOK root (fs_files s) (fs_dirs s)"
    using assms by (simp_all add: local_inv_def)
  note u = filesOK_update [OF w assms(2,3,4)]
  show ?thesis
  proof (cases rule: nextFault_cases [OF f])
    case (1 fts)
    then show ?thesis
      using that(2) u by (simp add: writeData_def written_def local_inv_def local_contents_def assms(2))
  next
    case (2 e n fts)
    then show ?thesis
      using that(1) u by (fastforce simp: writeData_def written_def local_inv_def local_contents_def assms(2))
  qed
qed

lemma closeFile_cases:
  assumes "local_inv root s"
  obtains e fts where "closeFile s = (Inl e, s\<lparr>fs_faults := fts\<rparr>)" "faultsOK fts"
  | fts where "closeFile s = (Inr (), s\<lparr>fs_faults := fts\<rparr>)" "faultsOK fts"
proof -
  have "faultsOK (fs_faults s)"
    using assms by (simp add: local_inv_def)
  then show ?thesis
    by (cases rule: nextFault_cases) (use that in \<open>simp_all add: closeFile_def\<close>)
qed

lemma faults_inv [simp]:
  "local_inv root (s\<lparr>fs_faults := fts\<rparr>) \<longleftrightarrow> filesOK root (fs_files s) (fs_dirs s) \<and> faultsOK fts"
  "local_contents root (s\<lparr>fs_faults := fts\<rparr>) = local_contents root s"
  by (simp_all add: local_inv_def local_contents_def)

lemma written_faults:
  "written root q d s s' b \<Longrightarrow> faultsOK fts \<Longrightarrow> written root q d s (s'\<lparr>fs_faults := fts\<rparr>) b"
  by (simp add: written_def local_inv_def)

lemma written_weaken:
  "written root q d s s' True \<Longrightarrow> written root q d s s' False"
  by (auto simp: written_def intro!: exI [of _ "length d"])

lemma WriteFile_cases:
  assumes "local_inv root s" "plainPath q"
    "\<forall>d. HasPrefix (Clean root @ sep # q) (d @ [sep]) \<longrightarrow> d \<in> set (fs_dirs s)"
  obtains e s' where "WriteFile (Clean root @ sep # q) d s = (Inl e, s')" "written root q d s s' False"
  | s' where "WriteFile (Clean root @ sep # q) d s = (Inr (), s')" "written root q d s s' True"
proof (cases rule: createFile_cases [OF assms])
  case (1 e fts)
  then show ?thesis
    using that(1) assms(1) by (simp add: WriteFile_def written_def local_inv_def local_contents_def)
next
  case (2 fl fts)
  let ?s = "s\<lparr>fs_faults := fts, fs_files := fl\<rparr>"
  have "local_inv root ?s" "Clean root @ sep # q \<notin> set (fs_dirs ?s)"
    "\<forall>d. HasPrefix (Clean root @ sep # q) (d @ [sep]) \<longrightarrow> d \<in> set (fs_dirs ?s)"
    using 2 assms by (simp_all add: local_inv_def)
  from writeData_cases [of root ?s q d, OF this(1) assms(2) this(2,3)] show ?thesis
  proof cases
    case (1 e s')
    then have "local_inv root s'" and w: "written root q d s s' False"
      using 2 by (auto simp: written_def local_contents_def, metis take_0)
    then show ?thesis
      using that(1) 1 2 by (cases rule: closeFile_cases [of root s'])
        (auto simp: WriteFile_def dest: written_faults)
  next
    case (2 s')
    then have "local_inv root s'" and w: "written root q d s s' True"
      using \<open>filesView root fl = _\<close> by (auto simp: written_def local_contents_def)
    then show ?thesis
      using that 2 \<open>createFile _ _ = _\<close> by (cases rule: closeFile_cases [of root s'])
        (auto simp: WriteFile_def dest: written_faults written_weaken)
  qed
qed

locale local_root =
  fixes root :: string
  assumes good: "goodRoot root"
begin

lemma put_cases:
  assumes "local_inv root s" "plainPath q"
  obtains e s' where "local_Put root q d s = (Inl e, s')" "written root q d s s' False"
  | s' where "local_Put root q d s = (Inr (), s')" "written root q d s s' True"
proof (cases rule: MkdirAll_cases [OF assms(1), of "Dir (Clean root @ sep # q)"])
  case (1 e fts)
  then show ?thesis
    using that(1) assms by (simp add: local_Put_def written_def local_path_plain [OF good] local_inv_def)
next
  case (2 ds fts)
  let ?s = "s\<lparr>fs_faults := fts, fs_dirs := ds\<rparr>"
  have s: "local_inv root ?s" "\<forall>d. HasPrefix (Clean root @ sep # q) (d @ [sep]) \<longrightarrow> d \<in> set (fs_dirs ?s)"
    using 2 ancestors_Dir [OF normalPath_root [OF good] assms(2)] by (auto simp: local_inv_def)
  have c: "local_contents root ?s = local_contents root s"
    by (simp add: local_contents_def)
  show ?thesis
    by (cases rule: WriteFile_cases [OF s(1) assms(2) s(2), of d])
      (use that 2 c assms in \<open>auto simp: local_Put_def local_path_plain [OF good] written_def\<close>)
qed

lemma read_cases:
  assumes "local_inv root s" "plainPath q"
  obtains d fts where "ReadFile (Clean root @ sep # q) s = (Inr d, s\<lparr>fs_faults := fts\<rparr>)" "faultsOK fts"
    "local_contents root s q = Some d"
  | e fts where "ReadFile (Clean root @ sep # q) s = (Inl e, s\<lparr>fs_faults := fts\<rparr>)" "faultsOK fts"
    "e = errNotExist \<Longrightarrow> local_contents root s q = None" "\<not> errorsIs e ErrNotFound"
proof -
  have "faultsOK (fs_faults s)" using assms by (simp add: local_inv_def)
  then show ?thesis
  proof (cases rule: nextFault_cases)
    case (1 fts)
    then show ?thesis
      using that(1) [where fts = fts] that(2) [where fts = fts] assms
      by (cases "map_of (fs_files s) (Clean root @ sep # q)")
        (auto simp: ReadFile_def local_contents_def filesView_def lookupErr_def errIsDir_def errNotDir_def errNotExist_def)
  next
    case (2 e n fts)
    then show ?thesis using that(2) [of e fts] by (simp add: ReadFile_def faultOK_def)
  qed
qed

lemma remove_cases:
  assumes "local_inv root s" "plainPath q"
  obtains s' where "Remove (Clean root @ sep # q) s = (Inr (), s')" "local_inv root s'"
    "local_contents root s' = (local_contents root s)(q := None)"
  | e s' where "Remove (Clean root @ sep # q) s = (Inl e, s')" "local_inv root s'"
    "local_contents root s' = local_contents root s" "e = errNotExist \<Longrightarrow> local_contents root s q = None"
proof -
  have f: "faultsOK (fs_faults s)" and w: "filesOK root (fs_files s) (fs_dirs s)"
    using assms by (simp_all add: local_inv_def)
  show ?thesis
  proof (cases rule: nextFault_cases [OF f])
    case (2 e n fts)
    then show ?thesis
      using that(2) [of e "s\<lparr>fs_faults := fts\<rparr>"] w by (simp add: Remove_def faultOK_def)
  next
    case (1 fts)
    show ?thesis
    proof (cases "isFile s (Clean root @ sep # q)")
      case True
      then show ?thesis
        using that(1) [of "s\<lparr>fs_faults := fts, fs_files := AList.delete (Clean root @ sep # q) (fs_files s)\<rparr>"]
          1 w assms(2) by (simp add: Remove_def local_inv_def local_contents_def filesOK_delete)
    next
      case False
      then have n: "local_contents root s q = None" "(local_contents root s)(q := None) = local_contents root s"
        by (simp_all add: isFile_def local_contents_def filesView_def fun_eq_iff)
      have "\<not> list_ex (below (Clean root @ sep # q)) (map fst (fs_files s) @ fs_dirs s) \<Longrightarrow>
          filesOK root (fs_files s) (removeAll (Clean root @ sep # q) (fs_dirs s))"
        using normalPath_not_root [OF normalPath_slash [OF normalPath_root [OF good] assms(2)]]
        by (intro filesOK_removeDir [OF w]) (auto simp: below_def list_ex_iff)
      then show ?thesis
        using that(2) [of _ "s\<lparr>fs_faults := fts\<rparr>"] w 1 False n
          that(1) [of "s\<lparr>fs_faults := fts, fs_dirs := removeAll (Clean root @ sep # q) (fs_dirs s)\<rparr>"]
        by (cases "Clean root @ sep # q \<in> set (fs_dirs s)";
            cases "list_ex (below (Clean root @ sep # q)) (map fst (fs_files s) @ fs_dirs s)")
          (auto simp: Remove_def local_inv_def local_contents_def)
    qed
  qed
qed

lemma stat_cases:
  assumes "local_inv root s"
  obtains r fts where "Stat p s = (Inr r, s\<lparr>fs_faults := fts\<rparr>)" "faultsOK fts"
  | e fts where "Stat p s = (Inl e, s\<lparr>fs_faults := fts\<rparr>)" "faultsOK fts"
    "e = errNotExist \<Longrightarrow> p \<notin> set (fs_dirs s)"
proof -
  have "faultsOK (fs_faults s)" using assms by (simp add: local_inv_def)
  then show ?thesis
  proof (cases rule: nextFault_cases)
    case (1 fts)
    then show ?thesis
      using that(1) [where fts = fts] that(2) [where fts = fts]
      by (cases "map_of (fs_files s) p"; cases "p \<in> set (fs_dirs s)") (auto simp: Stat_def)
  next
    case (2 e n fts)
    then show ?thesis using that(2) [of e fts] by (simp add: Stat_def faultOK_def)
  qed
qed

lemma files_below:
  assumes "local_inv root s" "plainPath d"
  shows "set (map (Rel root) (filter (below (Clean root @ sep # d)) (map fst (fs_files s)))) =
      {q. local_contents root s q \<noteq> None \<and> HasPrefix q (d @ [sep])}"
    "distinct (map (Rel root) (filter (below (Clean root @ sep # d)) (map fst (fs_files s))))"
proof -
  have w: "filesOK root (fs_files s) (fs_dirs s)"
    using assms by (simp add: local_inv_def)
  have nr: "Clean root @ sep # d \<noteq> [sep]"
    using normalPath_not_root [OF normalPath_slash [OF normalPath_root [OF good] assms(2)]] .
  have form: "\<exists>q. f = Clean root @ sep # q \<and> plainPath q \<and> HasPrefix q (d @ [sep]) \<and> Rel root f = q"
    if fb: "f \<in> fst ` set (fs_files s)" "below (Clean root @ sep # d) f" for f
  proof -
    obtain t where t: "f = Clean root @ sep # d @ sep # t"
      using fb nr by (auto simp: below_def HasPrefix_iff)
    then have "plainPath (d @ sep # t)"
      using filesOK_plain [OF w] fb(1) by blast
    then show ?thesis
      using t Rel_below [OF good] HasPrefix_append [of "d @ [sep]" t] by auto
  qed
  have isBelow: "below (Clean root @ sep # d) (Clean root @ sep # q)" if "HasPrefix q (d @ [sep])" for q
    using that nr by (auto simp: below_def HasPrefix_iff)
  show "set (map (Rel root) (filter (below (Clean root @ sep # d)) (map fst (fs_files s)))) =
      {q. local_contents root s q \<noteq> None \<and> HasPrefix q (d @ [sep])}" (is "?L = ?R")
  proof (intro equalityI subsetI)
    fix q assume "q \<in> ?L"
    then obtain f where f: "f \<in> fst ` set (fs_files s)" "below (Clean root @ sep # d) f" "q = Rel root f"
      by auto
    then show "q \<in> ?R"
      using form [OF f(1,2)] by (auto simp: local_contents_def filesView_def weak_map_of_SomeI)
  next
    fix q assume "q \<in> ?R"
    then have "plainPath q" "Clean root @ sep # q \<in> fst ` set (fs_files s)" "HasPrefix q (d @ [sep])"
      by (auto simp: local_contents_def filesView_def split: if_splits dest!: map_of_SomeD intro: rev_image_eqI)
    then show "q \<in> ?L"
      using isBelow [of q] Rel_below [OF good, of q]
      by (auto simp: image_iff intro!: exI [of _ "Clean root @ sep # q"])
  qed
  show "distinct (map (Rel root) (filter (below (Clean root @ sep # d)) (map fst (fs_files s))))"
  proof -
    have "inj_on (Rel root) (set (filter (below (Clean root @ sep # d)) (map fst (fs_files s))))"
    proof (rule inj_onI)
      fix f g
      assume "f \<in> set (filter (below (Clean root @ sep # d)) (map fst (fs_files s)))"
        "g \<in> set (filter (below (Clean root @ sep # d)) (map fst (fs_files s)))" "Rel root f = Rel root g"
      then show "f = g" using form [of f] form [of g] by force
    qed
    then show ?thesis using w by (simp add: distinct_map filesOK_def)
  qed
qed

lemma list_cases:
  assumes "local_inv root s" "plainPath d"
  obtains e fts where "local_List root (d @ [sep]) s = (Inl e, s\<lparr>fs_faults := fts\<rparr>)" "faultsOK fts"
  | ps fts where "local_List root (d @ [sep]) s = (Inr ps, s\<lparr>fs_faults := fts\<rparr>)" "faultsOK fts"
    "local_contents root s d = None \<Longrightarrow>
       ps = sort (map (Rel root) (filter (below (Clean root @ sep # d)) (map fst (fs_files s))))"
proof -
  let ?d = "Clean root @ sep # d"
  have w: "filesOK root (fs_files s) (fs_dirs s)"
    using assms by (simp add: local_inv_def)
  have nr: "?d \<noteq> [sep]"
    using normalPath_not_root [OF normalPath_slash [OF normalPath_root [OF good] assms(2)]] .
  have none: "filter (below ?d) (map fst (fs_files s)) = []" if "?d \<notin> set (fs_dirs s)"
    using that w nr by (auto simp: filesOK_def below_def dom_map_of_conv_image_fst filter_empty_conv)
  have notFile: "filter (\<lambda>p. p = ?d \<or> below ?d p) (map fst (fs_files s)) = filter (below ?d) (map fst (fs_files s))"
    if "local_contents root s d = None"
  proof -
    have "?d \<notin> set (map fst (fs_files s))"
      using that assms(2) by (simp add: local_contents_def filesView_def map_of_eq_None_iff)
    then show ?thesis by (intro filter_cong) (auto simp del: set_map)
  qed
  note defs = local_List_def local_path_dir [OF good assms(2)] IsNotExist_def
  show ?thesis
  proof (cases rule: stat_cases [OF assms(1), of ?d])
    case (2 e fts)
    then show ?thesis
      using none that(1) [of _ fts] that(2) [of "[]" fts] by (cases "e = errNotExist") (auto simp: defs)
  next
    case (1 r fts)
    then have "faultsOK (fs_faults (s\<lparr>fs_faults := fts\<rparr>))"
      by simp
    then show ?thesis
      by (cases rule: nextFault_cases)
        (use that notFile 1 in \<open>auto simp: defs walkFiles_def faultOK_def\<close>)
  qed
qed

end

sublocale local_root \<subseteq> object_store "local_store root" "local_contents root" "local_inv root"
proof unfold_locales
  fix s s' p q dir d e u rg rl ra and ps :: "string list" and r :: "goerror + unit"
  assume inv: "local_inv root s"
  have f: "faultsOK (fs_faults s)" and w: "filesOK root (fs_files s) (fs_dirs s)"
    using inv by (simp_all add: local_inv_def)
  assume p: "plainPath p"
  { assume "sPut (local_store root) p d s = (r, s')"
    then show "local_inv root s' \<and> (\<forall>q. q \<noteq> p \<longrightarrow> local_contents root s' q = local_contents root s q)"
      by (cases rule: put_cases [OF inv p, of d]) (auto simp: local_store_def written_def) }
  { assume "sPut (local_store root) p d s = (Inr u, s')"
    then show "local_contents root s' p = Some d"
      by (cases rule: put_cases [OF inv p, of d]) (auto simp: local_store_def written_def) }
  { assume "sGet (local_store root) p s = (rg, s')"
    then show "local_inv root s' \<and> local_contents root s' = local_contents root s"
      by (cases rule: read_cases [OF inv p]) (auto simp: local_store_def local_Get_def local_path_plain [OF good p] w) }
  { assume "sGet (local_store root) p s = (Inr d, s')"
    then show "local_contents root s p = Some d"
      by (cases rule: read_cases [OF inv p]) (auto simp: local_store_def local_Get_def local_path_plain [OF good p]) }
  { assume "sGet (local_store root) p s = (Inl e, s')" "errorsIs e ErrNotFound"
    then show "local_contents root s p = None"
      by (cases rule: read_cases [OF inv p])
        (auto simp: local_store_def local_Get_def local_path_plain [OF good p] IsNotExist_def split: if_splits) }
  { assume "sDelete (local_store root) p s = (r, s')"
    then show "local_inv root s' \<and> (local_contents root s' = local_contents root s \<or>
        local_contents root s' = (local_contents root s)(p := None))"
      by (cases rule: remove_cases [OF inv p])
        (auto simp: local_store_def local_Delete_def local_path_plain [OF good p] split: if_splits) }
  { assume "sDelete (local_store root) p s = (Inr u, s')"
    then show "local_contents root s' p = None"
      by (cases rule: remove_cases [OF inv p])
        (auto simp: local_store_def local_Delete_def local_path_plain [OF good p] IsNotExist_def split: if_splits) }
  { assume "sAttrs (local_store root) p s = (ra, s')"
    then show "local_inv root s' \<and> local_contents root s' = local_contents root s"
      by (cases rule: stat_cases [OF inv, of "Clean root @ sep # p"])
        (auto simp: local_store_def local_Attrs_def local_path_plain [OF good p] w split: prod.splits) }
next
  fix s s' dir rl and ps :: "string list"
  assume inv: "local_inv root s" and d: "plainPath dir"
  have w: "filesOK root (fs_files s) (fs_dirs s)"
    using inv by (simp add: local_inv_def)
  { assume "sList (local_store root) (dir @ [sep]) s = (rl, s')"
    then show "local_inv root s' \<and> local_contents root s' = local_contents root s"
      by (cases rule: list_cases [OF inv d]) (auto simp: local_store_def w) }
  { assume "local_contents root s dir = None" "sList (local_store root) (dir @ [sep]) s = (Inr ps, s')"
    then have "ps = sort (map (Rel root) (filter (below (Clean root @ sep # dir)) (map fst (fs_files s))))"
      by (cases rule: list_cases [OF inv d]) (auto simp: local_store_def)
    then show "set ps = {q. local_contents root s q \<noteq> None \<and> HasPrefix q (dir @ [sep])} \<and> sorted ps \<and> distinct ps"
      using files_below [OF inv d] by (simp del: set_map) }
qed

context local_root
begin

lemma local_is_store: "object_store (local_store root) (local_contents root) (local_inv root)"
  by unfold_locales

end

lemmas local_object_store = local_root.local_is_store [OF local_root.intro]

interpretation data: local_root "''/data''"
  by unfold_locales (simp add: goodRoot_def cleanElems_def sep_def plainElem_def)

section \<open>The GCS store keeps the contract\<close>

text \<open>What the documentation of the storage client says of one bucket: an object appears
  when its writer is closed, reads return the whole object, and names with a prefix are
  listed in order.\<close>

locale gcs_bucket =
  fixes cl :: "'c gcsClient" and g :: gcsStore and objects :: "'c \<Rightarrow> string \<Rightarrow> bytes option"
  assumes bucket_write: "gWrite cl (g_bucket g) n d c = (r, c') \<Longrightarrow> objects c' = objects c"
    and bucket_commit: "gCommit cl (g_bucket g) n d c = (r, c') \<Longrightarrow> \<forall>m. m \<noteq> n \<longrightarrow> objects c' m = objects c m"
    and bucket_commit_ok: "gCommit cl (g_bucket g) n d c = (Inr u, c') \<Longrightarrow> objects c' n = Some d"
    and bucket_read: "gRead cl (g_bucket g) n c = (rg, c') \<Longrightarrow> objects c' = objects c"
    and bucket_read_ok: "gRead cl (g_bucket g) n c = (Inr rd, c') \<Longrightarrow> rd_err rd = None \<Longrightarrow> objects c n = Some (rd_data rd)"
    and bucket_read_body: "gRead cl (g_bucket g) n c = (Inr rd, c') \<Longrightarrow> rd_err rd = Some e \<Longrightarrow> \<not> errorsIs e ErrNotFound"
    and bucket_read_err: "gRead cl (g_bucket g) n c = (Inl e, c') \<Longrightarrow>
        (isNotExist e \<longrightarrow> objects c n = None) \<and> \<not> errorsIs e ErrNotFound"
    and bucket_delete: "gDelete cl (g_bucket g) n c = (r, c') \<Longrightarrow> objects c' = objects c \<or> objects c' = (objects c)(n := None)"
    and bucket_delete_ok: "gDelete cl (g_bucket g) n c = (Inr u, c') \<Longrightarrow> objects c' n = None"
    and bucket_delete_missing: "gDelete cl (g_bucket g) n c = (Inl e, c') \<Longrightarrow> isNotExist e \<Longrightarrow> objects c' n = None"
    and bucket_attrs: "gAttrs cl (g_bucket g) n c = (ra, c') \<Longrightarrow> objects c' = objects c"
    and bucket_list: "gObjects cl (g_bucket g) pre c = (xs, c') \<Longrightarrow> objects c' = objects c"
    and bucket_list_ok: "gObjects cl (g_bucket g) pre c = (map Inr ns, c') \<Longrightarrow>
        set ns = {n. objects c n \<noteq> None \<and> HasPrefix n pre} \<and> sorted ns \<and> distinct ns"

definition gcs_contents :: "gcsStore \<Rightarrow> ('c \<Rightarrow> string \<Rightarrow> bytes option) \<Rightarrow> 'c \<Rightarrow> string \<Rightarrow> bytes option" where
  "gcs_contents g objects c p = objects c (fullPath g p)"

lemma gcs_listLoop_iff:
  "gcs_listLoop g xs out = Inr ps \<longleftrightarrow> (\<exists>ns. xs = map Inr ns \<and> ps = out @ map (unPrefix g) ns)"
proof (induction xs arbitrary: out)
  case (Cons x xs)
  then show ?case
    by (cases x) (auto simp: Cons_eq_map_conv)
qed auto

lemma HasPrefix_same [simp]: "HasPrefix (p @ a) (p @ b) = HasPrefix a b"
  by (auto simp: HasPrefix_iff)

lemma unPrefix_fullPath [simp]: "unPrefix g (fullPath g p) = p"
  by (simp add: unPrefix_def fullPath_def)

text \<open>Listing under a prefix of the bucket is listing the names behind it.\<close>

lemma unPrefix_sorted:
  assumes "\<forall>n \<in> set ns. HasPrefix n (g_prefix g)" "sorted ns" "distinct ns"
  shows "sorted (map (unPrefix g) ns) \<and> distinct (map (unPrefix g) ns)"
proof -
  obtain ps where ps: "ns = map (fullPath g) ps"
    using assms(1) by (metis (no_types, lifting) HasPrefix_iff ex_map_conv fullPath_def)
  have "sorted ps"
    using assms(2) unfolding ps fullPath_def by (induction ps) (auto simp: le_less)
  moreover have "distinct ps" using assms(3) by (simp add: ps distinct_map)
  moreover have "map (unPrefix g) ns = ps" by (simp add: ps o_def)
  ultimately show ?thesis by simp
qed

sublocale gcs_bucket \<subseteq> object_store "gcs_store cl g" "gcs_contents g objects" "\<lambda>_. True"
proof unfold_locales
  fix c c' p d e u rg ra and r :: "goerror + unit"
  note defs = gcs_store_def gcs_contents_def fullPath_def
  { assume "sPut (gcs_store cl g) p d c = (r, c')"
    then show "True \<and> (\<forall>q. q \<noteq> p \<longrightarrow> gcs_contents g objects c' q = gcs_contents g objects c q)"
      by (auto simp: defs gcs_Put_def snd_def split: prod.splits sum.splits dest!: bucket_write bucket_commit) }
  { assume "sPut (gcs_store cl g) p d c = (Inr u, c')"
    then show "gcs_contents g objects c' p = Some d"
      by (auto simp: defs gcs_Put_def split: prod.splits sum.splits dest!: bucket_commit_ok) }
  { assume "sGet (gcs_store cl g) p c = (rg, c')"
    then show "True \<and> gcs_contents g objects c' = gcs_contents g objects c"
      by (auto simp: defs gcs_Get_def fun_eq_iff split: prod.splits sum.splits option.splits dest!: bucket_read) }
  { assume "sGet (gcs_store cl g) p c = (Inr d, c')"
    then show "gcs_contents g objects c p = Some d"
      by (auto simp: defs gcs_Get_def split: prod.splits sum.splits option.splits dest!: bucket_read_ok) }
  { assume "sGet (gcs_store cl g) p c = (Inl e, c')" "errorsIs e ErrNotFound"
    then show "gcs_contents g objects c p = None"
      by (auto simp: defs gcs_Get_def split: prod.splits sum.splits option.splits if_splits
          dest!: bucket_read_err bucket_read_body) }
  { assume "sDelete (gcs_store cl g) p c = (r, c')"
    then show "True \<and> (gcs_contents g objects c' = gcs_contents g objects c \<or>
        gcs_contents g objects c' = (gcs_contents g objects c)(p := None))"
      by (auto simp: defs gcs_Delete_def fun_eq_iff split: prod.splits sum.splits if_splits dest!: bucket_delete) }
  { assume "sDelete (gcs_store cl g) p c = (Inr u, c')"
    then show "gcs_contents g objects c' p = None"
      by (auto simp: defs gcs_Delete_def split: prod.splits sum.splits if_splits
          dest: bucket_delete_ok bucket_delete_missing) }
  { assume "sAttrs (gcs_store cl g) p c = (ra, c')"
    then show "True \<and> gcs_contents g objects c' = gcs_contents g objects c"
      by (auto simp: defs gcs_Attrs_def fun_eq_iff split: prod.splits sum.splits dest!: bucket_attrs) }
next
  fix c c' dir rl and ps :: "string list"
  { assume "sList (gcs_store cl g) (dir @ [sep]) c = (rl, c')"
    then show "True \<and> gcs_contents g objects c' = gcs_contents g objects c"
      by (auto simp: gcs_store_def gcs_contents_def gcs_List_def fun_eq_iff split: prod.splits dest!: bucket_list) }
  { assume "sList (gcs_store cl g) (dir @ [sep]) c = (Inr ps, c')"
    then obtain ns where ns: "gObjects cl (g_bucket g) (fullPath g (dir @ [sep])) c = (map Inr ns, c')" "ps = map (unPrefix g) ns"
      by (auto simp: gcs_store_def gcs_List_def gcs_listLoop_iff split: prod.splits)
    note l = bucket_list_ok [OF ns(1)]
    have "\<forall>n \<in> set ns. HasPrefix n (g_prefix g)"
      using l by (auto simp: fullPath_def HasPrefix_iff)
    moreover have "set ps = {q. gcs_contents g objects c q \<noteq> None \<and> HasPrefix q (dir @ [sep])}"
      using l by (auto simp: ns(2) gcs_contents_def image_iff fullPath_def HasPrefix_iff unPrefix_def) (metis TrimPrefix_append)
    ultimately show "set ps = {q. gcs_contents g objects c q \<noteq> None \<and> HasPrefix q (dir @ [sep])} \<and> sorted ps \<and> distinct ps"
      using unPrefix_sorted [of ns g] l ns(2) by simp }
qed

context gcs_bucket
begin

lemma gcs_is_store: "object_store (gcs_store cl g) (gcs_contents g objects) (\<lambda>_. True)"
  by unfold_locales

end

text \<open>A bucket in memory: the client of the smallest storage service that keeps the laws.\<close>

definition memClient :: "(string \<times> bytes) list gcsClient" where
  "memClient =
     \<lparr>gWrite = (\<lambda>b n d c. (Inr (), c)),
      gCommit = (\<lambda>b n d c. (Inr (), AList.update n d c)),
      gRead = (\<lambda>b n c. (case map_of c n of Some d \<Rightarrow> Inr \<lparr>rd_data = d, rd_err = None\<rparr>
                        | None \<Rightarrow> Inl ErrObjectNotExist, c)),
      gDelete = (\<lambda>b n c. (case map_of c n of Some d \<Rightarrow> Inr () | None \<Rightarrow> Inl ErrObjectNotExist, AList.delete n c)),
      gAttrs = (\<lambda>b n c. (case map_of c n of Some d \<Rightarrow> Inr (length d, 0) | None \<Rightarrow> Inl ErrObjectNotExist, c)),
      gObjects = (\<lambda>b pre c. (map Inr (sort (filter (\<lambda>n. HasPrefix n pre) (remdups (map fst c)))), c)),
      gClose = (\<lambda>c. (Inr (), c))\<rparr>"

lemma ex_map_of: "(\<exists>y. map_of xs k = Some y) \<longleftrightarrow> k \<in> fst ` set xs"
  by (metis map_of_eq_None_iff not_Some_eq)

interpretation mem: gcs_bucket memClient g map_of
  by unfold_locales
    (auto simp: memClient_def update_conv' delete_conv' ErrObjectNotExist_def ex_map_of
      inj_eq [OF inj_mapI] split: option.splits)

section \<open>Properties\<close>

lemma rooted_Clean_elems:
  assumes "rooted p"
  obtains xs where "Clean p = sep # joinSlash xs" "list_all plainElem xs"
  using Clean_rooted [OF assms] by blast

lemma splitSlash_rooted: "list_all plainElem xs \<Longrightarrow> xs \<noteq> [] \<Longrightarrow> splitSlash (sep # joinSlash xs) = [] # xs"
  by (metis list_all_iff plainElem_sep splitSlash.simps(2) splitSlash_joinSlash)

text \<open>C23: a local store opened on an absolute directory never touches a file outside it:
  whatever path a client passes, with \<open>..\<close> elements or not, the store refuses it or
  resolves it to the root itself or to a plain path below the root.\<close>

theorem path_confined:
  assumes "rooted root" "local_path root p = Inr full"
  shows "full = Clean root \<or> (\<exists>q. full = Clean root @ sep # q \<and> plainPath q)"
proof (cases "full = Clean root")
  case False
  obtain j where j: "rooted j" "full = Clean j"
    using assms that [of root] that [of "root @ sep # p"]
    by (cases "p = []"; cases root) (auto simp: local_path_def Join_def Let_def split: if_splits)
  obtain xs where xs: "full = sep # joinSlash xs" "list_all plainElem xs"
    using rooted_Clean_elems [OF j(1)] j(2) by metis
  obtain q where q: "full = Clean root @ sep # q"
    using False assms(2) by (auto simp: local_path_def Let_def HasPrefix_iff split: if_splits)
  then have "xs \<noteq> []"
    using xs rooted_Clean_elems [OF assms(1)] by (metis append_Cons append_is_Nil_conv joinSlash.simps(1) list.distinct(1) list.inject)
  then have "[] # xs = splitSlash (Clean root) @ splitSlash q"
    using splitSlash_rooted [OF xs(2)] q xs(1) splitSlash_append_sep [of "Clean root" q] by metis
  then have "list_all plainElem (splitSlash q)"
    using xs(2) by (cases "splitSlash (Clean root)") auto
  then show ?thesis using q by (simp add: plainPath_def)
qed simp

theorem path_confined_witness:
  "local_path ''/data'' ''a/../../data/b'' = Inr ''/data/b'' \<and>
   (\<exists>q. ''/data/b'' = Clean ''/data'' @ sep # q \<and> plainPath q) \<and>
   local_path ''/data'' ''../etc/passwd'' = Inl (Err ''local: path escapes root'')"
proof -
  have e: "local_path ''/data'' ''a/../../data/b'' = Inr ''/data/b''"
    "local_path ''/data'' ''../etc/passwd'' = Inl (Err ''local: path escapes root'')" "rooted ''/data''"
    "Clean ''/data'' \<noteq> ''/data/b''"
    by (simp_all add: local_path_def Join_def Clean_def cleanElems_def sep_def)
  show ?thesis using path_confined [OF e(3,1)] e by auto
qed

text \<open>C12: writing an object through a local store refines the update of a map: after a
  successful put the store maps the name to the data and every other name to what it
  mapped to before; a failing put, too, leaves every other name alone; and the
  file system stays well formed.\<close>

theorem local_put_refines:
  assumes "goodRoot root" "local_inv root s" "plainPath p" "local_Put root p d s = (r, s')"
  shows "local_inv root s' \<and> (\<forall>q. q \<noteq> p \<longrightarrow> local_contents root s' q = local_contents root s q) \<and>
    (isl r \<or> local_contents root s' = (local_contents root s)(p \<mapsto> d))"
  using object_store.put_frame [OF local_object_store [OF assms(1)] assms(2,3), of d r s']
    object_store.put_contents [OF local_object_store [OF assms(1)] assms(2,3), of d _ s'] assms(4)
  by (cases r) (auto simp: local_store_def)

theorem local_put_refines_witness:
  "let s = \<lparr>fs_files = [], fs_dirs = ['''', ''/data''], fs_clock = 5, fs_faults = []\<rparr>;
       s' = snd (local_Put ''/data'' ''a'' [1] s)
   in local_contents ''/data'' s' = (local_contents ''/data'' s)(''a'' \<mapsto> [1])"
proof -
  let ?s = "\<lparr>fs_files = [], fs_dirs = ['''', ''/data''], fs_clock = 5, fs_faults = []\<rparr> :: fs"
  have c: "local_inv ''/data'' ?s" "plainPath ''a''"
    by (simp_all add: local_inv_def filesOK_def faultsOK_def plainPath_def plainElem_def sep_def)
  have e: "local_Put ''/data'' ''a'' [1] ?s =
      (Inr (), ?s\<lparr>fs_files := [(''/data/a'', \<lparr>f_data = [1], f_mtime = 5\<rparr>)]\<rparr>)"
    by (simp add: local_Put_def local_path_def Join_def Clean_def cleanElems_def sep_def Dir_def MkdirAll_def
        nextFault_def ancestors_def isFile_def WriteFile_def createFile_def writeData_def closeFile_def List.union_def
        upt_rec)
  show ?thesis
    using local_put_refines [OF data.good c e] e by (simp add: Let_def)
qed

text \<open>C29: listing a directory of a local store returns exactly the names of the objects
  in it and below it, each once, in lexicographic order.\<close>

theorem local_list_exact:
  assumes "goodRoot root" "local_inv root s" "plainPath dir" "local_contents root s dir = None"
    "local_List root (dir @ ''/'') s = (Inr ps, s')"
  shows "set ps = {q. local_contents root s q \<noteq> None \<and> HasPrefix q (dir @ ''/'')} \<and> sorted ps \<and> distinct ps"
  using object_store.list_ok [OF local_object_store [OF assms(1)] assms(2-4), of ps s'] assms(5)
  by (simp add: local_store_def sep_def)

theorem local_list_exact_witness:
  "local_List ''/data'' ''w/''
      \<lparr>fs_files = [(''/data/w/x'', \<lparr>f_data = [7], f_mtime = 0\<rparr>), (''/data/v'', \<lparr>f_data = [], f_mtime = 0\<rparr>)],
       fs_dirs = ['''', ''/data'', ''/data/w''], fs_clock = 0, fs_faults = []\<rparr> = (Inr [''w/x''],
      \<lparr>fs_files = [(''/data/w/x'', \<lparr>f_data = [7], f_mtime = 0\<rparr>), (''/data/v'', \<lparr>f_data = [], f_mtime = 0\<rparr>)],
       fs_dirs = ['''', ''/data'', ''/data/w''], fs_clock = 0, fs_faults = []\<rparr>) \<and>
   set [''w/x''] = {q. local_contents ''/data''
      \<lparr>fs_files = [(''/data/w/x'', \<lparr>f_data = [7], f_mtime = 0\<rparr>), (''/data/v'', \<lparr>f_data = [], f_mtime = 0\<rparr>)],
       fs_dirs = ['''', ''/data'', ''/data/w''], fs_clock = 0, fs_faults = []\<rparr> q \<noteq> None \<and> HasPrefix q ''w/''}"
proof -
  let ?s = "\<lparr>fs_files = [(''/data/w/x'', \<lparr>f_data = [7], f_mtime = 0\<rparr>), (''/data/v'', \<lparr>f_data = [], f_mtime = 0\<rparr>)],
       fs_dirs = ['''', ''/data'', ''/data/w''], fs_clock = 0, fs_faults = []\<rparr> :: fs"
  have g: "goodRoot ''/data''" by (rule data.good)
  have c: "Clean ''/data'' = ''/data''" "Clean ''/data/w/x'' = ''/data/w/x''"
    by (simp_all add: Clean_def cleanElems_def sep_def)
  have p: "plainPath ''w''" by (simp add: plainPath_def plainElem_def sep_def)
  have i: "local_inv ''/data'' ?s"
    by (auto simp: local_inv_def filesOK_def faultsOK_def c sep_def plainPath_def plainElem_def HasPrefix_iff
        append_eq_Cons_conv Cons_eq_append_conv split: if_splits)
  have n: "local_contents ''/data'' ?s ''w'' = None"
    by (simp add: local_contents_def filesView_def c sep_def)
  have l: "local_List ''/data'' (''w'' @ ''/'') ?s = (Inr [''w/x''], ?s)"
    by (simp add: local_List_def local_path_def Join_def Clean_def cleanElems_def sep_def Stat_def nextFault_def
        walkFiles_def below_def Rel_def TrimPrefix_def)
  show ?thesis
    using local_list_exact [OF g i p n l] l by simp
qed

text \<open>What is put into a GCS store under a name is what a later get of that name
  returns, and the other names keep their objects, for every client that behaves as a
  bucket of objects and for every prefix the store is scoped to.\<close>

theorem gcs_put_get:
  assumes "gcs_bucket cl g objects" "plainPath p" "plainPath q"
    "gcs_Put cl g p d c = (Inr u, c1)" "gcs_Get cl g q c1 = (Inr x, c2)"
  shows "if q = p then x = d else objects c (fullPath g q) = Some x"
proof -
  have "sPut (gcs_store cl g) p d c = (Inr u, c1)" "sGet (gcs_store cl g) q c1 = (Inr x, c2)"
    using assms(4,5) by (simp_all add: gcs_store_def)
  from object_store.put_get [OF gcs_bucket.gcs_is_store [OF assms(1)] TrueI assms(2,3) this]
  show ?thesis unfolding gcs_contents_def .
qed

theorem gcs_put_get_witness:
  "gcs_Put memClient \<lparr>g_bucket = ''b'', g_prefix = ''t/''\<rparr> ''k'' [1] [] = (Inr (), [(''t/k'', [1])]) \<and>
   gcs_Get memClient \<lparr>g_bucket = ''b'', g_prefix = ''t/''\<rparr> ''k'' [(''t/k'', [1])] = (Inr [1], [(''t/k'', [1])])"
proof -
  let ?g = "\<lparr>g_bucket = ''b'', g_prefix = ''t/''\<rparr>"
  have p: "gcs_Put memClient ?g ''k'' [1] [] = (Inr (), [(''t/k'', [1])])"
    by (simp add: gcs_Put_def memClient_def fullPath_def)
  obtain x where x: "gcs_Get memClient ?g ''k'' [(''t/k'', [1])] = (Inr x, [(''t/k'', [1])])"
    by (simp add: gcs_Get_def memClient_def fullPath_def)
  have k: "plainPath ''k''" by (simp add: plainPath_def plainElem_def sep_def)
  show ?thesis
    using gcs_put_get [OF mem.gcs_bucket_axioms k k p x] p x by simp
qed

text \<open>The local store reports a missing object differently on different paths: a get
  returns an error that wraps the \<open>ErrNotFound\<close> sentinel, the attributes call returns the
  operating system's error, which does not.\<close>

theorem attrs_not_found:
  assumes "goodRoot root" "plainPath p" "fs_faults s = []" "Clean root @ sep # p \<notin> set (fs_dirs s)"
    "\<not> list_ex (isFile s) (ancestors (Clean root @ sep # p))"
  shows "(\<exists>e. fst (local_Get root p s) = Inl e \<and> errorsIs e ErrNotFound) \<and>
    (\<exists>e. fst (local_Attrs root p s) = Inl e \<and> \<not> errorsIs e ErrNotFound)"
proof -
  have "map_of (fs_files s) (Clean root @ sep # p) = None"
    using assms(5) by (auto simp: list_ex_iff ancestors_iff isFile_def)
  then show ?thesis
    using assms by (simp add: local_Get_def local_Attrs_def ReadFile_def Stat_def nextFault_def
        local_path_plain lookupErr_def IsNotExist_def errNotExist_def)
qed

theorem attrs_not_found_witness:
  "\<exists>e. fst (local_Attrs ''/data'' ''x'' \<lparr>fs_files = [], fs_dirs = [''/data''], fs_clock = 0, fs_faults = []\<rparr>) = Inl e \<and>
     \<not> errorsIs e ErrNotFound"
proof -
  have "Clean ''/data'' = ''/data''" "plainPath ''x''"
    by (simp_all add: Clean_def cleanElems_def sep_def plainPath_def plainElem_def)
  then show ?thesis
    using attrs_not_found [OF data.good, of "''x''" "\<lparr>fs_files = [], fs_dirs = [''/data''], fs_clock = 0, fs_faults = []\<rparr>"]
    by (simp add: isFile_def list_ex_iff)
qed

end
