(* ===== verification/WalCloud.thy ===== *)
theory WalCloud
  imports ObjStore
begin

text \<open>
  The write-ahead log in object storage, \<open>pkg/walcloud/manager.go\<close>.

  A \<open>Manager\<close> is the record \<open>manager\<close>: the namespace, the batch window, the next sequence
  number, the batch being collected (\<open>m_pending\<close>, its sequence number and the channels of
  the writers that wait for it), whether a commit timer is armed, and whether the manager
  is closed. A channel is a number; \<open>m_delivered\<close> records what was sent on it. The
  goroutines \<open>flushPending\<close> starts are the list \<open>m_inflight\<close>: the object each of them will
  put and the channels it will answer. \<open>wg.Wait\<close> lets all of them finish.

  Operations take the object store and its state and return both with the result. The
  step relation \<open>walStep\<close> interleaves writers, the timer, background uploads, flushes and
  closing in any order.
\<close>

unbundle bit_operations_syntax

section \<open>State\<close>

record inflight =
  fl_seq :: uint64
  fl_data :: bytes
  fl_waiters :: "nat list"

record manager =
  m_ns :: string
  m_batchWindow :: int
  m_nextSeq :: uint64
  m_pending :: "bytes list"
  m_pendingSeq :: uint64
  m_waiters :: "nat list"
  m_commitTimer :: bool
  m_closed :: bool
  m_inflight :: "inflight list"
  m_nextChan :: nat
  m_delivered :: "(nat \<times> goerror option) list"

record walEntry =
  we_seq :: uint64
  we_path :: string

section \<open>Paths\<close>

definition walDir :: string where "walDir = ''wal''"
definition walExt :: string where "walExt = ''.wal''"
definition seqNumWidth :: nat where "seqNumWidth = 20"

definition walPath :: "string \<Rightarrow> uint64 \<Rightarrow> string" where
  "walPath ns seq = Join [ns, walDir, padDecimal seqNumWidth (unat seq) @ walExt]"

definition walPrefix :: "string \<Rightarrow> string" where
  "walPrefix ns = Join [ns, walDir] @ ''/''"

definition parseWALSeq :: "string \<Rightarrow> goerror + uint64" where
  "parseWALSeq name = ParseUint (TrimSuffix (Base name) walExt)"

section \<open>Listing and reading\<close>

fun collectEntries :: "string list \<Rightarrow> walEntry list" where
  "collectEntries [] = []"
| "collectEntries (p # ps) =
     (case parseWALSeq p of
        Inl _ \<Rightarrow> collectEntries ps
      | Inr seq \<Rightarrow> \<lparr>we_seq = seq, we_path = p\<rparr> # collectEntries ps)"

definition listWALs :: "'s store \<Rightarrow> string \<Rightarrow> ('s, walEntry list) op" where
  "listWALs st ns s =
     (case sList st (walPrefix ns) s of
        (Inl e, s1) \<Rightarrow> (Inl e, s1)
      | (Inr paths, s1) \<Rightarrow> (Inr (sort_key we_seq (collectEntries paths)), s1))"

definition ReadRecord :: "'s store \<Rightarrow> string \<Rightarrow> uint64 \<Rightarrow> ('s, bytes) op" where
  "ReadRecord st ns seq s =
     (case sGet st (walPath ns seq) s of
        (Inl e, s1) \<Rightarrow> (Inl (Wrap ''walcloud: reading'' e), s1)
      | (Inr data, s1) \<Rightarrow> (Inr data, s1))"

section \<open>Creating a manager\<close>

definition NewManager :: "'s store \<Rightarrow> string \<Rightarrow> int \<Rightarrow> ('s, manager) op" where
  "NewManager st namespace batchWindow s =
     (case listWALs st namespace s of
        (Inl e, s1) \<Rightarrow> (Inl (Wrap ''walcloud: listing WALs'' e), s1)
      | (Inr entries, s1) \<Rightarrow>
          (Inr \<lparr>m_ns = namespace, m_batchWindow = batchWindow,
                m_nextSeq = (if length entries > 0 then we_seq (last entries) + 1 else 1),
                m_pending = [], m_pendingSeq = 0, m_waiters = [], m_commitTimer = False,
                m_closed = False, m_inflight = [], m_nextChan = 0, m_delivered = []\<rparr>, s1))"

definition NextSeq :: "manager \<Rightarrow> uint64" where
  "NextSeq m = m_nextSeq m"

section \<open>Merging batches\<close>

definition batchHeaderLen :: nat where "batchHeaderLen = 12"

definition batchCount :: "bytes \<Rightarrow> 32 word" where
  "batchCount data =
     (if length data < batchHeaderLen then 0
      else ucast (data ! 8) OR push_bit 8 (ucast (data ! 9)) OR
           push_bit 16 (ucast (data ! 10)) OR push_bit 24 (ucast (data ! 11)))"

text \<open>\<open>binary.LittleEndian.PutUint32\<close>.\<close>

definition lePutUint32 :: "32 word \<Rightarrow> bytes" where
  "lePutUint32 n = [ucast n, ucast (drop_bit 8 n), ucast (drop_bit 16 n), ucast (drop_bit 24 n)]"

text \<open>\<open>data[8:12]\<close> needs twelve bytes; the one caller has checked them.\<close>

definition setBatchCount :: "bytes \<Rightarrow> 32 word \<Rightarrow> bytes" where
  "setBatchCount data n = copy_at data 8 (lePutUint32 n)"

text \<open>The size loop: the total length and whether every segment has a header.\<close>

fun mergeSize :: "bytes list \<Rightarrow> nat \<Rightarrow> bool \<Rightarrow> nat \<times> bool" where
  "mergeSize [] tot allValid = (tot, allValid)"
| "mergeSize (s # ss) tot allValid =
     (if length s < batchHeaderLen then mergeSize ss (tot + length s) False
      else mergeSize ss (tot + (length s - batchHeaderLen)) allValid)"

text \<open>The copy loop over the segments after the first.\<close>

fun mergeCopy :: "bytes list \<Rightarrow> bytes \<Rightarrow> nat \<Rightarrow> 32 word \<Rightarrow> bytes \<times> 32 word" where
  "mergeCopy [] result pos totalCount = (result, totalCount)"
| "mergeCopy (s # ss) result pos totalCount =
     mergeCopy ss (copy_at result pos (drop batchHeaderLen s))
       (pos + length (drop batchHeaderLen s)) (totalCount + batchCount s)"

definition mergeBatchSegments :: "bytes list \<Rightarrow> bytes" where
  "mergeBatchSegments segments =
     (case segments of
        [] \<Rightarrow> []
      | [s] \<Rightarrow> s
      | s # ss \<Rightarrow>
          (case mergeSize ss (length s) (length s \<ge> batchHeaderLen) of
             (tot, False) \<Rightarrow> concat segments
           | (tot, True) \<Rightarrow>
               (case mergeCopy ss (copy_at (make_bytes tot) 0 s) (length s) (batchCount s) of
                  (result, totalCount) \<Rightarrow> setBatchCount result totalCount)))"

section \<open>Writing\<close>

definition deliver :: "nat list \<Rightarrow> goerror option \<Rightarrow> manager \<Rightarrow> manager" where
  "deliver chs r m = m\<lparr>m_delivered := m_delivered m @ map (\<lambda>c. (c, r)) chs\<rparr>"

text \<open>The batching half of \<open>WriteRecord\<close>, under the mutex: the first record of a window
  takes a sequence number and arms the timer.\<close>

definition enqueue :: "bytes \<Rightarrow> manager \<Rightarrow> (uint64 \<times> nat) \<times> manager" where
  "enqueue data m =
     (let m1 = (if m_pending m = []
                then m\<lparr>m_pendingSeq := m_nextSeq m, m_nextSeq := m_nextSeq m + 1, m_commitTimer := True\<rparr>
                else m);
          ch = m_nextChan m1;
          m2 = m1\<lparr>m_pending := m_pending m1 @ [data], m_waiters := m_waiters m1 @ [ch],
                  m_nextChan := ch + 1\<rparr>
      in ((m_pendingSeq m2, ch), m2))"

text \<open>\<open>WriteRecord\<close>: the sequence number and, when batching, the channel to wait on.\<close>

definition WriteRecord :: "'s store \<Rightarrow> bytes \<Rightarrow> manager \<Rightarrow> 's \<Rightarrow>
    (goerror + uint64 \<times> nat option) \<times> manager \<times> 's" where
  "WriteRecord st data m s =
     (if m_closed m then (Inl (Err ''walcloud: manager is closed''), m, s)
      else if m_batchWindow m \<le> 0 then
        (let seq = m_nextSeq m; m1 = m\<lparr>m_nextSeq := m_nextSeq m + 1\<rparr> in
         case sPut st (walPath (m_ns m) seq) data s of
           (Inl e, s1) \<Rightarrow> (Inl (Wrap ''walcloud: writing'' e), m1, s1)
         | (Inr _, s1) \<Rightarrow> (Inr (seq, None), m1, s1))
      else (case enqueue data m of ((seq, ch), m1) \<Rightarrow> (Inr (seq, Some ch), m1, s)))"

text \<open>Taking the pending batch, as \<open>flushPending\<close> and \<open>Flush\<close> both do under the mutex.\<close>

definition takePending :: "manager \<Rightarrow> bytes list \<times> uint64 \<times> nat list \<times> manager" where
  "takePending m =
     (m_pending m, m_pendingSeq m, m_waiters m, m\<lparr>m_pending := [], m_pendingSeq := 0, m_waiters := []\<rparr>)"

text \<open>\<open>flushPending\<close>, run by the timer, hands the batch to a goroutine.\<close>

definition flushPending :: "manager \<Rightarrow> manager" where
  "flushPending m =
     (case takePending m of (segments, seq, waiters, m1) \<Rightarrow>
        if length segments = 0 then m1
        else m1\<lparr>m_inflight := m_inflight m1 @
               [\<lparr>fl_seq = seq, fl_data = mergeBatchSegments segments, fl_waiters = waiters\<rparr>]\<rparr>)"

text \<open>The goroutine: the put and the answers to the waiters.\<close>

definition upload :: "'s store \<Rightarrow> inflight \<Rightarrow> manager \<Rightarrow> 's \<Rightarrow> manager \<times> 's" where
  "upload st f m s =
     (case sPut st (walPath (m_ns m) (fl_seq f)) (fl_data f) s of
        (Inl e, s1) \<Rightarrow> (deliver (fl_waiters f) (Some (Wrap ''walcloud: writing'' e)) m, s1)
      | (Inr _, s1) \<Rightarrow> (deliver (fl_waiters f) None m, s1))"

text \<open>\<open>wg.Wait\<close>: every goroutine in flight finishes.\<close>

fun waitAll :: "'s store \<Rightarrow> inflight list \<Rightarrow> manager \<Rightarrow> 's \<Rightarrow> manager \<times> 's" where
  "waitAll st [] m s = (m, s)"
| "waitAll st (f # fs) m s = (case upload st f (m\<lparr>m_inflight := fs\<rparr>) s of (m1, s1) \<Rightarrow> waitAll st fs m1 s1)"

definition wgWait :: "'s store \<Rightarrow> manager \<Rightarrow> 's \<Rightarrow> manager \<times> 's" where
  "wgWait st m s = waitAll st (m_inflight m) m s"

definition Flush :: "'s store \<Rightarrow> manager \<Rightarrow> 's \<Rightarrow> goerror option \<times> manager \<times> 's" where
  "Flush st m s =
     (case takePending (m\<lparr>m_commitTimer := False\<rparr>) of (segments, seq, waiters, m1) \<Rightarrow>
        if length segments = 0 then (None, wgWait st m1 s)
        else (case sPut st (walPath (m_ns m) seq) (mergeBatchSegments segments) s of
                (Inl e, s1) \<Rightarrow> (Some e, wgWait st (deliver waiters (Some e) m1) s1)
              | (Inr _, s1) \<Rightarrow> (None, wgWait st (deliver waiters None m1) s1)))"

definition wal_Close :: "'s store \<Rightarrow> manager \<Rightarrow> 's \<Rightarrow> manager \<times> 's" where
  "wal_Close st m s = wgWait st (m\<lparr>m_closed := True, m_commitTimer := False\<rparr>) s"

section \<open>Garbage collection\<close>

text \<open>The loop of \<open>GC\<close>; \<open>now\<close> is the time of the call, \<open>orphanTTL\<close> a duration.\<close>

fun gcLoop :: "'s store \<Rightarrow> uint64 \<Rightarrow> int \<Rightarrow> int \<Rightarrow> walEntry list \<Rightarrow> nat \<Rightarrow> 's \<Rightarrow> (nat \<times> goerror option) \<times> 's" where
  "gcLoop st maxSeq orphanTTL now [] deleted s = ((deleted, None), s)"
| "gcLoop st maxSeq orphanTTL now (e # es) deleted s =
     (if we_seq e \<le> maxSeq then
        (case sDelete st (we_path e) s of
           (Inl err, s1) \<Rightarrow> ((deleted, Some (Wrap ''walcloud: gc deleting'' err)), s1)
         | (Inr _, s1) \<Rightarrow> gcLoop st maxSeq orphanTTL now es (deleted + 1) s1)
      else if orphanTTL \<le> 0 then gcLoop st maxSeq orphanTTL now es deleted s
      else (case sAttrs st (we_path e) s of
              (Inl _, s1) \<Rightarrow> gcLoop st maxSeq orphanTTL now es deleted s1
            | (Inr info, s1) \<Rightarrow>
                if now - oi_createdAt info > orphanTTL then
                  (case sDelete st (we_path e) s1 of
                     (Inl err, s2) \<Rightarrow> ((deleted, Some (Wrap ''walcloud: gc deleting orphan'' err)), s2)
                   | (Inr _, s2) \<Rightarrow> gcLoop st maxSeq orphanTTL now es (deleted + 1) s2)
                else gcLoop st maxSeq orphanTTL now es deleted s1))"

definition GC :: "'s store \<Rightarrow> string \<Rightarrow> uint64 \<Rightarrow> int \<Rightarrow> int \<Rightarrow> 's \<Rightarrow> (nat \<times> goerror option) \<times> 's" where
  "GC st ns maxSeq orphanTTL now s =
     (case listWALs st ns s of
        (Inl e, s1) \<Rightarrow> ((0, Some e), s1)
      | (Inr entries, s1) \<Rightarrow> gcLoop st maxSeq orphanTTL now entries 0 s1)"

section \<open>Names\<close>

lemma wal_consts [simp]:
  "plainPath walDir" "plainElem walDir" "sep \<notin> set walExt"
  by (simp_all add: walDir_def walExt_def plainPath_def plainElem_def sep_def)

lemma plainElem_wal: "plainElem (padDecimal seqNumWidth n @ walExt)"
  by (rule plainElem_digits) (simp_all add: padDecimal_digits)

lemma walPath_eq: "plainPath ns \<Longrightarrow> walPath ns seq = ns @ sep # walDir @ sep # padDecimal seqNumWidth (unat seq) @ walExt"
  by (simp add: walPath_def Join3_plain plainPath_elem [OF plainElem_wal])

lemma walPath_plain [simp]: "plainPath ns \<Longrightarrow> plainPath (walPath ns seq)"
  using plainPath_elem [OF plainElem_wal, of "unat seq"]
  by (simp add: walPath_eq append_assoc [symmetric] del: append_assoc)

lemma walPrefix_eq: "plainPath ns \<Longrightarrow> walPrefix ns = (ns @ sep # walDir) @ [sep]"
  by (simp add: walPrefix_def Join2_plain sep_def)

lemma walPath_prefix [simp]: "plainPath ns \<Longrightarrow> HasPrefix (walPath ns seq) (walPrefix ns)"
  by (simp add: walPath_eq walPrefix_eq)

lemma parse_walPath [simp]: "plainPath ns \<Longrightarrow> parseWALSeq (walPath ns seq) = Inr seq"
proof -
  assume ns: "plainPath ns"
  have "Base (walPath ns seq) = padDecimal seqNumWidth (unat seq) @ walExt"
    using Base_plain [OF plainElem_wal, of "ns @ sep # walDir" "unat seq"] ns by (simp add: walPath_eq)
  then show ?thesis by (simp add: parseWALSeq_def)
qed

lemma walPath_inj [simp]: "plainPath ns \<Longrightarrow> walPath ns a = walPath ns b \<longleftrightarrow> a = b"
  by (metis parse_walPath sum.inject(2))

section \<open>Merging\<close>

lemma mergeSize_eq:
  "mergeSize ss tot v =
     (tot + (\<Sum>s\<leftarrow>ss. if length s < batchHeaderLen then length s else length s - batchHeaderLen),
      v \<and> (\<forall>s \<in> set ss. batchHeaderLen \<le> length s))"
  by (induction ss arbitrary: tot v) (auto simp: not_less)

lemma copy_at_exact: "length buf = a + length src + b \<Longrightarrow>
    copy_at buf a src = take a buf @ src @ drop (a + length src) buf"
  by (simp add: copy_at_def)

lemma mergeCopy_eq:
  "length result = pos + (\<Sum>s\<leftarrow>ss. length s - batchHeaderLen) \<Longrightarrow>
   mergeCopy ss result pos cnt =
     (take pos result @ concat (map (drop batchHeaderLen) ss), cnt + (\<Sum>s\<leftarrow>ss. batchCount s))"
proof (induction ss arbitrary: result pos cnt)
  case Nil
  then show ?case by simp
next
  case (Cons s ss)
  let ?r = "copy_at result pos (drop batchHeaderLen s)"
  have r: "?r = take pos result @ drop batchHeaderLen s @ drop (pos + length (drop batchHeaderLen s)) result"
    using Cons.prems by (intro copy_at_exact [where b = "\<Sum>s\<leftarrow>ss. length s - batchHeaderLen"]) simp
  have "length ?r = pos + length (drop batchHeaderLen s) + (\<Sum>s\<leftarrow>ss. length s - batchHeaderLen)"
    using Cons.prems by (simp add: r)
  then show ?case
    using Cons.IH [of ?r "pos + length (drop batchHeaderLen s)"] Cons.prems
    by (simp add: r add.assoc)
qed

text \<open>The merged batch of two or more full segments: the first header with the counts
  added up, then all the bodies.\<close>

lemma merge_valid:
  assumes "\<forall>s \<in> set (s0 # s1 # ss). batchHeaderLen \<le> length s"
  shows "mergeBatchSegments (s0 # s1 # ss) =
    take 8 s0 @ lePutUint32 (\<Sum>s\<leftarrow>s0 # s1 # ss. batchCount s) @ concat (map (drop batchHeaderLen) (s0 # s1 # ss))"
proof -
  let ?ss = "s1 # ss" and ?n = "\<Sum>s\<leftarrow>s1 # ss. length s - batchHeaderLen"
  have sz: "mergeSize ?ss (length s0) (length s0 \<ge> batchHeaderLen) = (length s0 + ?n, True)"
  proof -
    have m: "map (\<lambda>s. if length s < batchHeaderLen then length s else length s - batchHeaderLen) ?ss =
        map (\<lambda>s. length s - batchHeaderLen) ?ss"
      using assms by (intro map_cong) auto
    have v: "(length s0 \<ge> batchHeaderLen \<and> (\<forall>s \<in> set ?ss. batchHeaderLen \<le> length s)) = True"
      using assms by simp
    show ?thesis by (simp only: mergeSize_eq m v)
  qed
  have c0: "copy_at (make_bytes (length s0 + ?n)) 0 s0 = s0 @ make_bytes ?n"
    by (simp add: copy_at_def make_bytes_def)
  have mc: "mergeCopy ?ss (s0 @ make_bytes ?n) (length s0) (batchCount s0) =
      (s0 @ concat (map (drop batchHeaderLen) ?ss), batchCount s0 + (\<Sum>s\<leftarrow>?ss. batchCount s))"
    by (subst mergeCopy_eq) simp_all
  let ?r = "s0 @ concat (map (drop batchHeaderLen) ?ss)"
  have "copy_at ?r 8 (lePutUint32 n) = take 8 ?r @ lePutUint32 n @ drop (8 + length (lePutUint32 n)) ?r" for n
    using assms by (intro copy_at_exact [where b = "length ?r - 12"]) (auto simp: lePutUint32_def batchHeaderLen_def)
  then show ?thesis
    using assms unfolding mergeBatchSegments_def list.case sz prod.case bool.case c0 mc
    by (simp add: setBatchCount_def lePutUint32_def batchHeaderLen_def)
qed

lemma length_lePutUint32 [simp]: "length (lePutUint32 n) = 4"
  by (simp add: lePutUint32_def)

lemma bytes_of_word32:
  fixes n :: "32 word"
  shows "(ucast (ucast n :: byte) OR push_bit 8 (ucast (ucast (drop_bit 8 n) :: byte)) OR
    push_bit 16 (ucast (ucast (drop_bit 16 n) :: byte)) OR push_bit 24 (ucast (ucast (drop_bit 24 n) :: byte))) = n" (is "?lhs = n")
proof (rule bit_word_eqI)
  fix i assume "i < LENGTH(32)"
  then consider "i < 8" | "8 \<le> i" "i < 16" | "16 \<le> i" "i < 24" | "24 \<le> i" "i < 32" by force
  then show "bit ?lhs i = bit n i"
    by cases (auto simp: bit_simps)
qed

lemma batchCount_header:
  assumes "length a = 8"
  shows "batchCount (a @ lePutUint32 n @ b) = n"
proof -
  have "(a @ lePutUint32 n @ b) ! (8 + i) = lePutUint32 n ! i" if "i < 4" for i
    using assms that by (simp add: nth_append)
  from this [of 0] this [of 1] this [of 2] this [of 3] show ?thesis
    using assms by (simp add: batchCount_def batchHeaderLen_def lePutUint32_def bytes_of_word32)
qed

section \<open>Listing, starting and collecting\<close>

text \<open>The namespace's log directory holds nothing that looks like a log object and is not
  one, and is no object itself.\<close>

definition walTidy :: "string \<Rightarrow> (string \<Rightarrow> bytes option) \<Rightarrow> bool" where
  "walTidy ns c \<longleftrightarrow> c (ns @ sep # walDir) = None \<and>
     (\<forall>p q. c p \<noteq> None \<and> HasPrefix p (walPrefix ns) \<and> parseWALSeq p = Inr q \<longrightarrow> p = walPath ns q)"

lemma walDir_neq_walPath: "plainPath ns \<Longrightarrow> walPath ns q \<noteq> ns @ sep # walDir"
  by (simp add: walPath_eq)

lemma walTidy_put [simp]: "plainPath ns \<Longrightarrow> walTidy ns c \<Longrightarrow> walTidy ns (c(walPath ns q \<mapsto> d))"
  using walDir_neq_walPath [of ns q] by (auto simp: walTidy_def)

lemma walTidy_delete [simp]: "walTidy ns c \<Longrightarrow> walTidy ns (c(p := None))"
  by (auto simp: walTidy_def)

lemma collectEntries_eq:
  "collectEntries ps = map (\<lambda>p. \<lparr>we_seq = projr (parseWALSeq p), we_path = p\<rparr>) (filter (\<lambda>p. \<not> isl (parseWALSeq p)) ps)"
  by (induction ps) (auto split: sum.splits)

text \<open>One store differs from another only in objects of a set that are gone.\<close>

definition removes :: "string set \<Rightarrow> (string \<Rightarrow> bytes option) \<Rightarrow> (string \<Rightarrow> bytes option) \<Rightarrow> bool" where
  "removes P c c' \<longleftrightarrow> (\<forall>p. c' p = c p \<or> c' p = None \<and> p \<in> P)"

lemma removes_refl [simp]: "removes P c c"
  by (simp add: removes_def)

lemma removes_trans: "removes P c c1 \<Longrightarrow> removes P c1 c2 \<Longrightarrow> removes P c c2"
  unfolding removes_def by metis

lemma removes_mono: "removes P c c' \<Longrightarrow> P \<subseteq> Q \<Longrightarrow> removes Q c c'"
  by (auto simp: removes_def)

lemma removes_delete: "p \<in> P \<Longrightarrow> c' = c \<or> c' = c(p := None) \<Longrightarrow> removes P c c'"
  by (auto simp: removes_def split: if_splits)

context object_store
begin

lemma listWALs_ok:
  assumes "inv s" "plainPath ns" "walTidy ns (contents s)" "listWALs st ns s = (Inr es, s')"
  shows "inv s'" "contents s' = contents s" "sorted (map we_seq es)" "distinct (map we_seq es)"
    "set es = {\<lparr>we_seq = q, we_path = walPath ns q\<rparr> | q. contents s (walPath ns q) \<noteq> None}"
proof -
  obtain ps where l: "sList st ((ns @ sep # walDir) @ [sep]) s = (Inr ps, s')"
    and es: "es = sort_key we_seq (collectEntries ps)"
    using assms(4) by (auto simp: listWALs_def walPrefix_eq [OF assms(2)] split: prod.splits sum.splits)
  have dir: "plainPath (ns @ sep # walDir)" "contents s (ns @ sep # walDir) = None"
    using assms by (simp_all add: walTidy_def)
  show "inv s'" "contents s' = contents s"
    using list_frame [OF assms(1) dir(1) l] by auto
  show "sorted (map we_seq es)" by (simp add: es)
  have ps: "set ps = {q. contents s q \<noteq> None \<and> HasPrefix q (walPrefix ns)}" "distinct ps"
    using list_ok [OF assms(1) dir l] by (simp_all add: walPrefix_eq [OF assms(2)])
  have path: "p = walPath ns (projr (parseWALSeq p))" if "p \<in> set ps" "\<not> isl (parseWALSeq p)" for p
    using that ps(1) assms(3) by (cases "parseWALSeq p") (auto simp: walTidy_def)
  have "inj_on (\<lambda>p. projr (parseWALSeq p)) {p \<in> set ps. \<not> isl (parseWALSeq p)}"
    using path by (intro inj_onI) (metis (mono_tags, lifting) mem_Collect_eq)
  then have "distinct (map we_seq (collectEntries ps))"
    using ps(2) by (simp add: collectEntries_eq distinct_map o_def)
  then show "distinct (map we_seq es)"
    by (simp add: es distinct_map)
  show "set es = {\<lparr>we_seq = q, we_path = walPath ns q\<rparr> | q. contents s (walPath ns q) \<noteq> None}"
  proof (intro equalityI subsetI)
    fix x assume "x \<in> set es"
    then show "x \<in> {\<lparr>we_seq = q, we_path = walPath ns q\<rparr> | q. contents s (walPath ns q) \<noteq> None}"
      using path ps(1) by (auto simp: es collectEntries_eq)
  next
    fix x assume "x \<in> {\<lparr>we_seq = q, we_path = walPath ns q\<rparr> | q. contents s (walPath ns q) \<noteq> None}"
    then obtain q where "x = \<lparr>we_seq = q, we_path = walPath ns q\<rparr>" "contents s (walPath ns q) \<noteq> None"
      by blast
    then show "x \<in> set es"
      using assms(2) ps(1) by (auto simp: es collectEntries_eq image_iff intro!: exI [of _ "walPath ns q"])
  qed
qed

lemma listWALs_frame:
  assumes "inv s" "plainPath ns" "listWALs st ns s = (r, s')"
  shows "inv s' \<and> contents s' = contents s"
  using assms list_frame [of s "ns @ sep # walDir"]
  by (auto simp: listWALs_def walPrefix_eq [OF assms(2)] split: prod.splits sum.splits)

text \<open>A new manager starts above every object of the log.\<close>

lemma NewManager_ok:
  assumes "inv s" "plainPath ns" "walTidy ns (contents s)" "NewManager st ns bw s = (Inr m, s')"
    "contents s (walPath ns (- 1)) = None"
  shows "inv s'" "contents s' = contents s" "m_ns m = ns" "m_batchWindow m = bw" "m_pending m = []" "m_waiters m = []"
    "m_inflight m = []" "m_delivered m = []" "\<not> m_closed m"
    "contents s (walPath ns q) \<noteq> None \<Longrightarrow> q < m_nextSeq m"
    "(\<forall>q. contents s (walPath ns q) = None) \<Longrightarrow> m_nextSeq m = 1"
proof -
  obtain es where l: "listWALs st ns s = (Inr es, s')"
    and m: "m = \<lparr>m_ns = ns, m_batchWindow = bw,
                m_nextSeq = (if length es > 0 then we_seq (last es) + 1 else 1),
                m_pending = [], m_pendingSeq = 0, m_waiters = [], m_commitTimer = False,
                m_closed = False, m_inflight = [], m_nextChan = 0, m_delivered = []\<rparr>"
    using assms(4) by (auto simp: NewManager_def split: prod.splits sum.splits)
  note ok = listWALs_ok [OF assms(1-3) l]
  show "inv s'" "contents s' = contents s" by (fact ok)+
  show "m_ns m = ns" "m_batchWindow m = bw" "m_pending m = []" "m_waiters m = []" "m_inflight m = []" "m_delivered m = []" "\<not> m_closed m"
    by (simp_all add: m)
  show "q < m_nextSeq m" if "contents s (walPath ns q) \<noteq> None"
  proof -
    have e: "\<lparr>we_seq = q, we_path = walPath ns q\<rparr> \<in> set es"
      using ok(5) that by blast
    then have ne: "es \<noteq> []" by auto
    have "q \<le> we_seq (last es)"
    proof -
      obtain i where "i < length es" "es ! i = \<lparr>we_seq = q, we_path = walPath ns q\<rparr>"
        using e by (auto simp: in_set_conv_nth)
      then show ?thesis
        using sorted_nth_mono [OF ok(3), of i "length es - 1"] ne by (simp add: last_conv_nth)
    qed
    moreover have "we_seq (last es) \<noteq> - 1"
      using ok(5) assms(5) last_in_set [OF ne] by force
    ultimately show ?thesis using ne word_less_Suc by (auto simp: m)
  qed
  show "m_nextSeq m = 1" if "\<forall>q. contents s (walPath ns q) = None"
    using ok(5) that by (auto simp: m)
qed

text \<open>Collection removes log objects only: those up to the bound, and orphans if there
  is a time to live. Without an error it removes all up to the bound.\<close>

lemma gcLoop_frame:
  assumes "inv s" "plainPath ns" "\<forall>e \<in> set es. we_path e = walPath ns (we_seq e)"
    "gcLoop st maxSeq ttl now es k s = ((n, err), s')"
  shows "inv s' \<and> removes {we_path e | e. e \<in> set es \<and> (we_seq e \<le> maxSeq \<or> 0 < ttl)} (contents s) (contents s') \<and>
    (err = None \<longrightarrow> (\<forall>e \<in> set es. we_seq e \<le> maxSeq \<longrightarrow> contents s' (we_path e) = None))"
  using assms
proof (induction es arbitrary: s k)
  case Nil
  then show ?case by simp
next
  case (Cons e es)
  let ?P = "\<lambda>es. {we_path e | e. e \<in> set es \<and> (we_seq e \<le> maxSeq \<or> 0 < ttl)}"
  have p: "plainPath (we_path e)" using Cons.prems by simp
  have sub: "?P es \<subseteq> ?P (e # es)" by auto
  have step: "?case" if "inv s1" "removes (?P (e # es)) (contents s) (contents s1)"
      "we_seq e \<le> maxSeq \<Longrightarrow> contents s1 (we_path e) = None"
      "gcLoop st maxSeq ttl now es k1 s1 = ((n, err), s')" for s1 k1
  proof -
    have ih: "inv s'" "removes (?P es) (contents s1) (contents s')"
      "err = None \<Longrightarrow> \<forall>e \<in> set es. we_seq e \<le> maxSeq \<longrightarrow> contents s' (we_path e) = None"
      using Cons.IH [OF that(1) Cons.prems(2) _ that(4)] Cons.prems(3) by auto
    have "we_seq e \<le> maxSeq \<Longrightarrow> contents s' (we_path e) = None"
      using that(3) ih(2) unfolding removes_def by metis
    then show ?thesis
      using ih removes_trans [OF that(2) removes_mono [OF ih(2) sub]] by auto
  qed
  have stop: "?case" if "inv s'" "removes (?P (e # es)) (contents s) (contents s')" "err \<noteq> None"
    using that by auto
  show ?case
  proof (cases "we_seq e \<le> maxSeq")
    case True
    obtain r s1 where d: "sDelete st (we_path e) s = (r, s1)" by fastforce
    have f: "inv s1" "removes (?P (e # es)) (contents s) (contents s1)"
      using delete_frame [OF Cons.prems(1) p d] True removes_delete [of "we_path e" "?P (e # es)"] by auto
    show ?thesis
    proof (cases r)
      case (Inl x)
      then have "s' = s1" "err \<noteq> None" using Cons.prems(4) True d by auto
      then show ?thesis using stop f by blast
    next
      case (Inr x)
      then have "gcLoop st maxSeq ttl now es (k + 1) s1 = ((n, err), s')" "contents s1 (we_path e) = None"
        using Cons.prems(4) True d delete_ok [OF Cons.prems(1) p, of x s1] by auto
      then show ?thesis by (intro step [OF f])
    qed
  next
    case False
    show ?thesis
    proof (cases "ttl \<le> 0")
      case True
      then show ?thesis using Cons.prems(1,4) False by (intro step [of s k]) auto
    next
      case ttl: False
      obtain r s1 where a: "sAttrs st (we_path e) s = (r, s1)" by fastforce
      have f: "inv s1" "contents s1 = contents s"
        using attrs_frame [OF Cons.prems(1) p a] by auto
      obtain r2 s2 where d: "sDelete st (we_path e) s1 = (r2, s2)" by fastforce
      have g: "inv s2" "removes (?P (e # es)) (contents s) (contents s2)"
        using delete_frame [OF f(1) p d] ttl removes_delete [of "we_path e" "?P (e # es)"] f(2) by auto
      consider (keep) "gcLoop st maxSeq ttl now es k s1 = ((n, err), s')"
        | (failed) "s' = s2" "err \<noteq> None" | (gone) "gcLoop st maxSeq ttl now es (k + 1) s2 = ((n, err), s')"
        using Cons.prems(4) False ttl a d by (cases r; cases r2) (auto split: if_splits)
      then show ?thesis
      proof cases
        case keep
        then show ?thesis using f False by (intro step [of s1 k]) simp_all
      next
        case failed
        then show ?thesis using stop g by blast
      next
        case gone
        then show ?thesis using False by (intro step [OF g]) simp_all
      qed
    qed
  qed
qed

lemma GC_frame:
  assumes "inv s" "plainPath ns" "walTidy ns (contents s)" "GC st ns maxSeq ttl now s = ((n, err), s')"
  shows "inv s'" "removes {walPath ns q | q. q \<le> maxSeq \<or> 0 < ttl} (contents s) (contents s')"
    "err = None \<Longrightarrow> q \<le> maxSeq \<Longrightarrow> contents s' (walPath ns q) = None"
proof -
  have "inv s' \<and> removes {walPath ns q | q. q \<le> maxSeq \<or> 0 < ttl} (contents s) (contents s') \<and>
      (err = None \<longrightarrow> (\<forall>q \<le> maxSeq. contents s' (walPath ns q) = None))"
  proof (cases "listWALs st ns s")
    case (Pair r s1)
    show ?thesis
    proof (cases r)
      case (Inl e)
      then show ?thesis
        using Pair assms(4) listWALs_frame [OF assms(1,2) Pair] by (auto simp: GC_def)
    next
      case (Inr es)
      note ok = listWALs_ok [OF assms(1-3) Pair [unfolded Inr]]
      have w: "\<forall>e \<in> set es. we_path e = walPath ns (we_seq e)"
        using ok(5) by auto
      have g: "gcLoop st maxSeq ttl now es 0 s1 = ((n, err), s')"
        using assms(4) Pair Inr by (simp add: GC_def)
      note fr = gcLoop_frame [OF ok(1) assms(2) w g]
      have "contents s' (walPath ns q) = None" if "err = None" "q \<le> maxSeq" for q
      proof (cases "contents s (walPath ns q) = None")
        case True
        then show ?thesis using fr ok(2) unfolding removes_def by metis
      next
        case False
        then have "\<lparr>we_seq = q, we_path = walPath ns q\<rparr> \<in> set es" using ok(5) by blast
        then show ?thesis using fr that by fastforce
      qed
      moreover have "removes {walPath ns q | q. q \<le> maxSeq \<or> 0 < ttl} (contents s) (contents s')"
        using fr ok(2) w by (auto elim!: removes_mono)
      ultimately show ?thesis using fr by auto
    qed
  qed
  then show "inv s'" "removes {walPath ns q | q. q \<le> maxSeq \<or> 0 < ttl} (contents s) (contents s')"
    "err = None \<Longrightarrow> q \<le> maxSeq \<Longrightarrow> contents s' (walPath ns q) = None" by auto
qed

end

section \<open>Interleavings\<close>

text \<open>A running log: the manager, the object store, the direct writes that hold a sequence
  number and have not finished their put, and two histories kept for the statements only:
  every batched write with its channel, sequence number and record, and every direct
  write that returned without an error.\<close>

record 's walState =
  w_m :: manager
  w_s :: 's
  w_direct :: "(uint64 \<times> bytes) list"
  w_hist :: "(nat \<times> uint64 \<times> bytes) list"
  w_acked :: "(uint64 \<times> bytes) list"

text \<open>The steps: a batched write; the two halves of a direct write, which run without the
  mutex; the timer; a background upload; \<open>Flush\<close>; \<open>Close\<close>. A step that takes a sequence
  number needs one to be left (there are \<open>2 ^ 64\<close>).\<close>

inductive walStep :: "'s store \<Rightarrow> 's walState \<Rightarrow> 's walState \<Rightarrow> bool" for st where
  batched: "\<not> m_closed (w_m w) \<Longrightarrow> 0 < m_batchWindow (w_m w) \<Longrightarrow> m_nextSeq (w_m w) \<noteq> - 1 \<Longrightarrow>
     WriteRecord st d (w_m w) (w_s w) = (Inr (q, Some ch), m', s') \<Longrightarrow>
     walStep st w (w\<lparr>w_m := m', w_s := s', w_hist := w_hist w @ [(ch, q, d)]\<rparr>)"
| allocate: "\<not> m_closed (w_m w) \<Longrightarrow> m_batchWindow (w_m w) \<le> 0 \<Longrightarrow> m_nextSeq (w_m w) \<noteq> - 1 \<Longrightarrow>
     walStep st w (w\<lparr>w_m := (w_m w)\<lparr>m_nextSeq := m_nextSeq (w_m w) + 1\<rparr>,
                     w_direct := w_direct w @ [(m_nextSeq (w_m w), d)]\<rparr>)"
| direct: "w_direct w = ds1 @ (q, d) # ds2 \<Longrightarrow> sPut st (walPath (m_ns (w_m w)) q) d (w_s w) = (r, s') \<Longrightarrow>
     walStep st w (w\<lparr>w_s := s', w_direct := ds1 @ ds2,
                     w_acked := (if isl r then w_acked w else (q, d) # w_acked w)\<rparr>)"
| timer: "walStep st w (w\<lparr>w_m := flushPending (w_m w)\<rparr>)"
| goroutine: "m_inflight (w_m w) = fs1 @ f # fs2 \<Longrightarrow>
     upload st f ((w_m w)\<lparr>m_inflight := fs1 @ fs2\<rparr>) (w_s w) = (m', s') \<Longrightarrow>
     walStep st w (w\<lparr>w_m := m', w_s := s'\<rparr>)"
| flush: "Flush st (w_m w) (w_s w) = (r, m', s') \<Longrightarrow> walStep st w (w\<lparr>w_m := m', w_s := s'\<rparr>)"
| close: "wal_Close st (w_m w) (w_s w) = (m', s') \<Longrightarrow> walStep st w (w\<lparr>w_m := m', w_s := s'\<rparr>)"

inductive_cases walStepE: "walStep st w w'"

definition walStart :: "manager \<Rightarrow> 's \<Rightarrow> 's walState" where
  "walStart m s = \<lparr>w_m = m, w_s = s, w_direct = [], w_hist = [], w_acked = []\<rparr>"

definition segs :: "(nat \<times> uint64 \<times> bytes) list \<Rightarrow> uint64 \<Rightarrow> bytes list" where
  "segs H q = map (snd \<circ> snd) (filter (\<lambda>x. fst (snd x) = q) H)"

definition chans :: "(nat \<times> uint64 \<times> bytes) list \<Rightarrow> uint64 \<Rightarrow> nat list" where
  "chans H q = map fst (filter (\<lambda>x. fst (snd x) = q) H)"

lemma segs_snoc [simp]: "segs (H @ [(c, q', d)]) q = (if q' = q then segs H q @ [d] else segs H q)"
  by (simp add: segs_def)

lemma chans_snoc [simp]: "chans (H @ [(c, q', d)]) q = (if q' = q then chans H q @ [c] else chans H q)"
  by (simp add: chans_def)

lemma chans_mem: "c \<in> set (chans H q) \<longleftrightarrow> (\<exists>d. (c, q, d) \<in> set H)"
  by (force simp: chans_def)

lemma segs_mem: "(c, q, d) \<in> set H \<Longrightarrow> d \<in> set (segs H q)"
  by (force simp: segs_def)

lemma segs_fresh: "\<forall>x \<in> set H. fst (snd x) \<noteq> q \<Longrightarrow> segs H q = [] \<and> chans H q = []"
  by (auto simp: segs_def chans_def filter_empty_conv)

text \<open>The sequence numbers whose object is still to be put.\<close>

definition outstanding :: "manager \<Rightarrow> (uint64 \<times> bytes) list \<Rightarrow> uint64 list" where
  "outstanding m D = map fl_seq (m_inflight m) @ (if m_pending m = [] then [] else [m_pendingSeq m]) @ map fst D"

definition seqInv :: "manager \<Rightarrow> (uint64 \<times> bytes) list \<Rightarrow> bool" where
  "seqInv m D \<longleftrightarrow> distinct (outstanding m D) \<and> (\<forall>q \<in> set (outstanding m D). q < m_nextSeq m)"

definition histInv :: "manager \<Rightarrow> (nat \<times> uint64 \<times> bytes) list \<Rightarrow> bool" where
  "histInv m H \<longleftrightarrow> distinct (map fst H) \<and>
     (\<forall>ch q d. (ch, q, d) \<in> set H \<longrightarrow> ch < m_nextChan m \<and> q < m_nextSeq m)"

definition pendInv :: "manager \<Rightarrow> (nat \<times> uint64 \<times> bytes) list \<Rightarrow> bool" where
  "pendInv m H \<longleftrightarrow>
     (if m_pending m = [] then m_waiters m = []
      else m_pending m = segs H (m_pendingSeq m) \<and> m_waiters m = chans H (m_pendingSeq m))"

definition flightInv :: "inflight list \<Rightarrow> (nat \<times> uint64 \<times> bytes) list \<Rightarrow> bool" where
  "flightInv fs H \<longleftrightarrow> (\<forall>f \<in> set fs. fl_data f = mergeBatchSegments (segs H (fl_seq f)) \<and> fl_waiters f = chans H (fl_seq f))"

definition sentInv :: "string \<Rightarrow> (string \<Rightarrow> bytes option) \<Rightarrow> uint64 set \<Rightarrow> (nat \<times> uint64 \<times> bytes) list \<Rightarrow>
    (nat \<times> goerror option) list \<Rightarrow> bool" where
  "sentInv ns c Q H R \<longleftrightarrow> (\<forall>ch r. (ch, r) \<in> set R \<longrightarrow>
     (\<exists>q d. (ch, q, d) \<in> set H \<and> q \<notin> Q \<and> (r = None \<longrightarrow> c (walPath ns q) = Some (mergeBatchSegments (segs H q)))))"

definition ackInv :: "string \<Rightarrow> (string \<Rightarrow> bytes option) \<Rightarrow> uint64 set \<Rightarrow> uint64 \<Rightarrow> (uint64 \<times> bytes) list \<Rightarrow> bool" where
  "ackInv ns c Q n A \<longleftrightarrow> (\<forall>q d. (q, d) \<in> set A \<longrightarrow> q \<notin> Q \<and> q < n \<and> c (walPath ns q) = Some d)"

definition walInv :: "string \<Rightarrow> (string \<Rightarrow> bytes option) \<Rightarrow> manager \<Rightarrow> (uint64 \<times> bytes) list \<Rightarrow>
    (nat \<times> uint64 \<times> bytes) list \<Rightarrow> (uint64 \<times> bytes) list \<Rightarrow> bool" where
  "walInv ns c m D H A \<longleftrightarrow> m_ns m = ns \<and> seqInv m D \<and> histInv m H \<and> pendInv m H \<and> flightInv (m_inflight m) H \<and>
     sentInv ns c (set (outstanding m D)) H (m_delivered m) \<and> ackInv ns c (set (outstanding m D)) (m_nextSeq m) A"

lemmas walInv_parts = seqInv_def histInv_def pendInv_def flightInv_def sentInv_def ackInv_def

lemma walInv_start:
  "m_pending m = [] \<Longrightarrow> m_waiters m = [] \<Longrightarrow> m_inflight m = [] \<Longrightarrow> m_delivered m = [] \<Longrightarrow>
     walInv (m_ns m) c m [] [] []"
  by (simp add: walInv_def walInv_parts outstanding_def)

lemma walInv_flushPending:
  assumes "walInv ns c m D H A"
  shows "walInv ns c (flushPending m) D H A"
proof (cases "m_pending m = []")
  case True
  then show ?thesis
    using assms by (simp add: walInv_def walInv_parts flushPending_def takePending_def outstanding_def)
next
  case False
  then have o: "outstanding (flushPending m) D = outstanding m D"
    by (simp add: flushPending_def takePending_def outstanding_def)
  show ?thesis
    using assms False unfolding walInv_def seqInv_def o
    by (auto simp: flushPending_def takePending_def histInv_def pendInv_def flightInv_def)
qed

text \<open>A sequence number that was never given out.\<close>

lemma histInv_fresh: "histInv m H \<Longrightarrow> segs H (m_nextSeq m) = []" "histInv m H \<Longrightarrow> chans H (m_nextSeq m) = []"
  using segs_fresh [of H "m_nextSeq m"] by (fastforce simp: histInv_def)+

lemma sentInv_snoc:
  assumes "sentInv ns c Q H R" "q \<in> Q' \<or> q \<in> Q" "Q \<subseteq> Q'" "\<And>ch q d. (ch, q, d) \<in> set H \<Longrightarrow> q \<in> Q' \<Longrightarrow> q \<in> Q"
  shows "sentInv ns c Q' (H @ [(ch, q, d)]) R"
  unfolding sentInv_def
proof (intro allI impI)
  fix ch' r assume "(ch', r) \<in> set R"
  then obtain q' d' where *: "(ch', q', d') \<in> set H" "q' \<notin> Q"
    "r = None \<longrightarrow> c (walPath ns q') = Some (mergeBatchSegments (segs H q'))"
    using assms(1) unfolding sentInv_def by blast
  then have "q' \<notin> Q'" "q' \<noteq> q" using assms by blast+
  then show "\<exists>q'' d''. (ch', q'', d'') \<in> set (H @ [(ch, q, d)]) \<and> q'' \<notin> Q' \<and>
      (r = None \<longrightarrow> c (walPath ns q'') = Some (mergeBatchSegments (segs (H @ [(ch, q, d)]) q'')))"
    using * by (intro exI [of _ q'] exI [of _ d']) auto
qed

lemma walInv_enqueue:
  assumes "walInv ns c m D H A" "m_nextSeq m \<noteq> - 1" "enqueue d m = ((q, ch), m')"
  shows "walInv ns c m' D (H @ [(ch, q, d)]) A"
proof -
  have less: "x < m_nextSeq m \<Longrightarrow> x < m_nextSeq m + 1" "m_nextSeq m < m_nextSeq m + 1" for x
    using word_less_Suc [OF assms(2)] by (auto simp: less_imp_le)
  have I: "seqInv m D" "histInv m H" "pendInv m H" "flightInv (m_inflight m) H"
    "sentInv ns c (set (outstanding m D)) H (m_delivered m)" "ackInv ns c (set (outstanding m D)) (m_nextSeq m) A"
    using assms(1) by (simp_all add: walInv_def)
  show ?thesis
  proof (cases "m_pending m = []")
    case True
    let ?n = "m_nextSeq m"
    have m': "q = ?n" "ch = m_nextChan m" "m' = m\<lparr>m_pendingSeq := ?n, m_nextSeq := ?n + 1, m_commitTimer := True,
        m_pending := [d], m_waiters := [m_nextChan m], m_nextChan := m_nextChan m + 1\<rparr>"
      using assms True by (auto simp: enqueue_def Let_def walInv_def pendInv_def)
    have fresh: "?n \<notin> set (outstanding m D)"
      using I(1) by (auto simp: seqInv_def)
    have o: "set (outstanding m' D) = insert ?n (set (outstanding m D))" "distinct (outstanding m' D)"
      using True fresh I(1) by (auto simp: outstanding_def m' seqInv_def)
    have "seqInv m' D" using o I(1) less by (auto simp: seqInv_def m')
    moreover have "histInv m' (H @ [(ch, q, d)])" using I(2) less by (fastforce simp: histInv_def m' less_Suc_eq)
    moreover have "pendInv m' (H @ [(ch, q, d)])" using histInv_fresh [OF I(2)] by (simp add: pendInv_def m')
    moreover have "flightInv (m_inflight m') (H @ [(ch, q, d)])"
      using I(4) fresh by (auto simp: flightInv_def m' outstanding_def)
    moreover have "sentInv ns c (set (outstanding m' D)) (H @ [(ch, q, d)]) (m_delivered m')"
    proof -
      have "m_delivered m' = m_delivered m" by (simp add: m')
      then show ?thesis
        unfolding o(1) using I(2,5) m'(1)
        by (intro sentInv_snoc [where Q = "set (outstanding m D)"]) (auto simp: histInv_def)
    qed
    moreover have "ackInv ns c (set (outstanding m' D)) (m_nextSeq m') A"
      using I(6) less unfolding o(1) by (fastforce simp: ackInv_def m')
    ultimately show ?thesis using assms(1) by (simp add: walInv_def m')
  next
    case False
    have m': "q = m_pendingSeq m" "ch = m_nextChan m" "m' = m\<lparr>m_pending := m_pending m @ [d],
        m_waiters := m_waiters m @ [m_nextChan m], m_nextChan := m_nextChan m + 1\<rparr>"
      using assms False by (auto simp: enqueue_def Let_def)
    have o: "outstanding m' D = outstanding m D"
      using False by (simp add: outstanding_def m')
    have mem: "m_pendingSeq m \<in> set (outstanding m D)" "m_pendingSeq m < m_nextSeq m"
      using False I(1) by (auto simp: outstanding_def seqInv_def)
    have "seqInv m' D" using o I(1) by (simp add: seqInv_def m')
    moreover have "histInv m' (H @ [(ch, q, d)])" using I(2) mem by (fastforce simp: histInv_def m' less_Suc_eq)
    moreover have "pendInv m' (H @ [(ch, q, d)])" using I(3) False by (simp add: pendInv_def m')
    moreover have "flightInv (m_inflight m') (H @ [(ch, q, d)])"
      using I(1,4) False by (auto simp: flightInv_def m' outstanding_def seqInv_def)
    moreover have "sentInv ns c (set (outstanding m' D)) (H @ [(ch, q, d)]) (m_delivered m')"
    proof -
      have "m_delivered m' = m_delivered m" by (simp add: m')
      then show ?thesis
        unfolding o(1) using I(5) mem m'(1)
        by (intro sentInv_snoc [where Q = "set (outstanding m D)"]) auto
    qed
    moreover have "ackInv ns c (set (outstanding m' D)) (m_nextSeq m') A"
      using I(6) unfolding o by (simp add: m')
    ultimately show ?thesis using assms(1) by (simp add: walInv_def m')
  qed
qed

lemma sentInv_frame:
  "sentInv ns c Q H R \<Longrightarrow> Q' \<subseteq> Q \<Longrightarrow> (\<And>q. q \<notin> Q \<Longrightarrow> c' (walPath ns q) = c (walPath ns q)) \<Longrightarrow> sentInv ns c' Q' H R"
  unfolding sentInv_def by (metis subsetD)

lemma ackInv_frame:
  "ackInv ns c Q n A \<Longrightarrow> Q' \<subseteq> Q \<Longrightarrow> (\<And>q. q \<notin> Q \<Longrightarrow> c' (walPath ns q) = c (walPath ns q)) \<Longrightarrow> ackInv ns c' Q' n A"
  unfolding ackInv_def by (metis subsetD)

lemma walInv_flags [simp]:
  "walInv ns c (m\<lparr>m_commitTimer := b\<rparr>) D H A = walInv ns c m D H A"
  "walInv ns c (m\<lparr>m_closed := b\<rparr>) D H A = walInv ns c m D H A"
proof -
  have o: "outstanding (m\<lparr>m_commitTimer := b\<rparr>) D = outstanding m D" "outstanding (m\<lparr>m_closed := b\<rparr>) D = outstanding m D"
    by (simp_all add: outstanding_def)
  show "walInv ns c (m\<lparr>m_commitTimer := b\<rparr>) D H A = walInv ns c m D H A"
    "walInv ns c (m\<lparr>m_closed := b\<rparr>) D H A = walInv ns c m D H A"
    by (simp_all add: walInv_def seqInv_def histInv_def pendInv_def o)
qed

lemma walInv_allocate:
  assumes "walInv ns c m D H A" "m_nextSeq m \<noteq> - 1"
  shows "walInv ns c (m\<lparr>m_nextSeq := m_nextSeq m + 1\<rparr>) (D @ [(m_nextSeq m, d)]) H A"
proof -
  have less: "x < m_nextSeq m \<Longrightarrow> x < m_nextSeq m + 1" "m_nextSeq m < m_nextSeq m + 1" for x
    using word_less_Suc [OF assms(2)] by (auto simp: less_imp_le)
  let ?m = "m\<lparr>m_nextSeq := m_nextSeq m + 1\<rparr>" and ?D = "D @ [(m_nextSeq m, d)]"
  have o: "outstanding ?m ?D = outstanding m D @ [m_nextSeq m]"
    by (simp add: outstanding_def)
  have I: "seqInv m D" "histInv m H" "sentInv ns c (set (outstanding m D)) H (m_delivered m)"
    "ackInv ns c (set (outstanding m D)) (m_nextSeq m) A"
    using assms(1) by (simp_all add: walInv_def)
  have "seqInv ?m ?D" using I(1) less unfolding seqInv_def o by auto
  moreover have "histInv ?m H" using I(2) less by (fastforce simp: histInv_def)
  moreover have "sentInv ns c (set (outstanding ?m ?D)) H (m_delivered ?m)"
    using I(2,3) unfolding sentInv_def o histInv_def by fastforce
  moreover have "ackInv ns c (set (outstanding ?m ?D)) (m_nextSeq ?m) A"
    using I(4) less unfolding ackInv_def o by fastforce
  ultimately show ?thesis
    using assms(1) by (simp add: walInv_def pendInv_def flightInv_def)
qed

context object_store
begin

text \<open>An upload: the object appears under the sequence number of the flight and of no
  other, and the waiters of the flight hear of it.\<close>

lemma walInv_commit:
  assumes "walInv ns (contents s) (m\<lparr>m_inflight := fs1 @ f # fs2\<rparr>) D H A" "inv s" "plainPath ns"
    "sPut st (walPath ns (fl_seq f)) (fl_data f) s = (r, s')" "x = None \<Longrightarrow> \<not> isl r"
  shows "inv s'" "walInv ns (contents s') (deliver (fl_waiters f) x (m\<lparr>m_inflight := fs1 @ fs2\<rparr>)) D H A"
proof -
  let ?m = "m\<lparr>m_inflight := fs1 @ f # fs2\<rparr>" and ?m' = "deliver (fl_waiters f) x (m\<lparr>m_inflight := fs1 @ fs2\<rparr>)"
  have fr: "inv s'" "\<And>p. p \<noteq> walPath ns (fl_seq f) \<Longrightarrow> contents s' p = contents s p"
    using put_frame [OF assms(2) _ assms(4)] assms(3) by auto
  then show "inv s'" by simp
  have ok: "contents s' (walPath ns (fl_seq f)) = Some (fl_data f)" if "x = None"
    using put_ok [OF assms(2), of "walPath ns (fl_seq f)" "fl_data f" _ s'] assms(3,4,5) that by (cases r) auto
  have I: "seqInv ?m D" "histInv ?m H" "pendInv ?m H" "flightInv (fs1 @ f # fs2) H"
    "sentInv ns (contents s) (set (outstanding ?m D)) H (m_delivered m)"
    "ackInv ns (contents s) (set (outstanding ?m D)) (m_nextSeq m) A"
    using assms(1) by (simp_all add: walInv_def)
  have o: "set (outstanding ?m' D) \<subseteq> set (outstanding ?m D)" "distinct (outstanding ?m' D)"
    "fl_seq f \<notin> set (outstanding ?m' D)" "fl_seq f \<in> set (outstanding ?m D)"
  proof -
    obtain L R where "outstanding ?m D = L @ fl_seq f # R" "outstanding ?m' D = L @ R"
      by (simp add: outstanding_def deliver_def)
    moreover have "distinct (outstanding ?m D)" using I(1) by (simp add: seqInv_def)
    ultimately show "set (outstanding ?m' D) \<subseteq> set (outstanding ?m D)" "distinct (outstanding ?m' D)"
      "fl_seq f \<notin> set (outstanding ?m' D)" "fl_seq f \<in> set (outstanding ?m D)"
      by auto
  qed
  have same: "contents s' (walPath ns q) = contents s (walPath ns q)" if "q \<notin> set (outstanding ?m D)" for q
    using that o(4) by (intro fr(2)) (metis walPath_inj [OF assms(3)])
  have "seqInv ?m' D" using I(1) o by (auto simp: seqInv_def deliver_def)
  moreover have "histInv ?m' H" using I(2) by (simp add: histInv_def deliver_def)
  moreover have "pendInv ?m' H" using I(3) by (auto simp: pendInv_def deliver_def split: if_splits)
  moreover have "flightInv (m_inflight ?m') H" using I(4) by (auto simp: flightInv_def deliver_def)
  moreover have "ackInv ns (contents s') (set (outstanding ?m' D)) (m_nextSeq ?m') A"
    using ackInv_frame [OF I(6) o(1) same] by (simp add: deliver_def)
  moreover have old: "sentInv ns (contents s') (set (outstanding ?m' D)) H (m_delivered m)"
    using sentInv_frame [OF I(5) o(1) same] .
  have "sentInv ns (contents s') (set (outstanding ?m' D)) H (m_delivered ?m')"
    unfolding sentInv_def
  proof (intro allI impI)
    fix ch rr assume "(ch, rr) \<in> set (m_delivered ?m')"
    then consider "(ch, rr) \<in> set (m_delivered m)" | "ch \<in> set (fl_waiters f)" "rr = x"
      by (auto simp: deliver_def)
    then show "\<exists>q d. (ch, q, d) \<in> set H \<and> q \<notin> set (outstanding ?m' D) \<and>
        (rr = None \<longrightarrow> contents s' (walPath ns q) = Some (mergeBatchSegments (segs H q)))"
    proof cases
      case 1
      then show ?thesis using old unfolding sentInv_def by blast
    next
      case 2
      then obtain d where "(ch, fl_seq f, d) \<in> set H"
        using I(4) by (auto simp: flightInv_def chans_mem)
      then show ?thesis
        using 2 o(3) ok I(4) by (intro exI [of _ "fl_seq f"] exI [of _ d]) (auto simp: flightInv_def)
    qed
  qed
  moreover note this
  ultimately show "walInv ns (contents s') ?m' D H A"
    using assms(1) by (simp add: walInv_def deliver_def)
qed

lemma walInv_direct:
  assumes "walInv ns (contents s) m (ds1 @ (q, d) # ds2) H A" "inv s" "plainPath ns"
    "sPut st (walPath ns q) d s = (r, s')"
  shows "inv s'" "walInv ns (contents s') m (ds1 @ ds2) H (if isl r then A else (q, d) # A)"
proof -
  let ?D = "ds1 @ (q, d) # ds2" and ?D' = "ds1 @ ds2"
  have fr: "inv s'" "\<And>p. p \<noteq> walPath ns q \<Longrightarrow> contents s' p = contents s p"
    using put_frame [OF assms(2) _ assms(4)] assms(3) by auto
  then show "inv s'" by simp
  have ok: "contents s' (walPath ns q) = Some d" if "\<not> isl r"
    using put_ok [OF assms(2), of "walPath ns q" d _ s'] assms(3,4) that by (cases r) auto
  have I: "seqInv m ?D" "sentInv ns (contents s) (set (outstanding m ?D)) H (m_delivered m)"
    "ackInv ns (contents s) (set (outstanding m ?D)) (m_nextSeq m) A"
    using assms(1) by (simp_all add: walInv_def)
  have o: "set (outstanding m ?D') \<subseteq> set (outstanding m ?D)" "distinct (outstanding m ?D')"
    "q \<notin> set (outstanding m ?D')" "q \<in> set (outstanding m ?D)" "q < m_nextSeq m"
    using I(1) by (auto simp: outstanding_def seqInv_def)
  have same: "contents s' (walPath ns q') = contents s (walPath ns q')" if "q' \<notin> set (outstanding m ?D)" for q'
    using that o(4) by (intro fr(2)) (metis walPath_inj [OF assms(3)])
  have "seqInv m ?D'" using I(1) o by (auto simp: seqInv_def)
  moreover have "sentInv ns (contents s') (set (outstanding m ?D')) H (m_delivered m)"
    using sentInv_frame [OF I(2) o(1) same] .
  moreover have "ackInv ns (contents s') (set (outstanding m ?D')) (m_nextSeq m) A"
    using ackInv_frame [OF I(3) o(1) same] .
  then have "ackInv ns (contents s') (set (outstanding m ?D')) (m_nextSeq m) (if isl r then A else (q, d) # A)"
    using o ok by (auto simp: ackInv_def)
  ultimately show "walInv ns (contents s') m ?D' H (if isl r then A else (q, d) # A)"
    using assms(1) by (simp add: walInv_def)
qed

lemma walInv_upload:
  assumes "walInv ns (contents s) m D H A" "inv s" "plainPath ns" "m_inflight m = fs1 @ f # fs2"
    "upload st f (m\<lparr>m_inflight := fs1 @ fs2\<rparr>) s = (m', s')"
  shows "inv s'" "walInv ns (contents s') m' D H A" "m_inflight m' = fs1 @ fs2"
proof -
  have m: "m\<lparr>m_inflight := fs1 @ f # fs2\<rparr> = m" by (simp add: assms(4) [symmetric])
  have ns: "m_ns m = ns" using assms(1) by (simp add: walInv_def)
  obtain r s1 where p: "sPut st (walPath ns (fl_seq f)) (fl_data f) s = (r, s1)" by fastforce
  have "walInv ns (contents s) (m\<lparr>m_inflight := fs1 @ f # fs2\<rparr>) D H A"
    using assms(1) unfolding m .
  note c = walInv_commit [OF this assms(2,3) p]
  show "inv s'" "walInv ns (contents s') m' D H A" "m_inflight m' = fs1 @ fs2"
    using assms(5) p ns c by (cases r; auto simp: upload_def deliver_def)+
qed

lemma walInv_waitAll:
  "walInv ns (contents s) m D H A \<Longrightarrow> inv s \<Longrightarrow> plainPath ns \<Longrightarrow> m_inflight m = fs \<Longrightarrow> waitAll st fs m s = (m', s') \<Longrightarrow>
     inv s' \<and> walInv ns (contents s') m' D H A \<and> m_inflight m' = []"
proof (induction fs arbitrary: m s)
  case Nil
  then show ?case by simp
next
  case (Cons f fs)
  obtain m1 s1 where u: "upload st f (m\<lparr>m_inflight := fs\<rparr>) s = (m1, s1)" by fastforce
  have "inv s1" "walInv ns (contents s1) m1 D H A" "m_inflight m1 = fs"
    using walInv_upload [of ns s m D H A "[]" f fs] Cons.prems u by auto
  then show ?case
    using Cons.IH Cons.prems(3,5) u by auto
qed

lemma walInv_Flush:
  assumes "walInv ns (contents s) m D H A" "inv s" "plainPath ns" "Flush st m s = (r, m', s')"
  shows "inv s' \<and> walInv ns (contents s') m' D H A \<and> m_inflight m' = []"
proof -
  let ?m = "m\<lparr>m_commitTimer := False\<rparr>"
  have i: "walInv ns (contents s) (flushPending ?m) D H A"
    using assms(1) by (intro walInv_flushPending) simp
  show ?thesis
  proof (cases "m_pending m = []")
    case True
    then have "flushPending ?m = ?m\<lparr>m_pending := [], m_pendingSeq := 0, m_waiters := []\<rparr>"
      by (simp add: flushPending_def takePending_def)
    then show ?thesis
      using walInv_waitAll [OF i assms(2,3) refl] assms(4) True
      by (auto simp: Flush_def takePending_def wgWait_def)
  next
    case False
    let ?f = "\<lparr>fl_seq = m_pendingSeq m, fl_data = mergeBatchSegments (m_pending m), fl_waiters = m_waiters m\<rparr>"
    let ?m1 = "?m\<lparr>m_pending := [], m_pendingSeq := 0, m_waiters := []\<rparr>"
    have fl: "flushPending ?m = ?m1\<lparr>m_inflight := m_inflight m @ ?f # []\<rparr>"
      using False by (simp add: flushPending_def takePending_def)
    have ns: "m_ns m = ns" using assms(1) by (simp add: walInv_def)
    obtain rp s1 where p: "sPut st (walPath ns (fl_seq ?f)) (fl_data ?f) s = (rp, s1)" by fastforce
    note c = walInv_commit [OF i [unfolded fl] assms(2,3) p]
    define x where "x = (case rp of Inl e \<Rightarrow> Some e | Inr _ \<Rightarrow> None)"
    have x: "x = None \<Longrightarrow> \<not> isl rp" by (cases rp) (simp_all add: x_def)
    have m1: "?m1\<lparr>m_inflight := m_inflight m @ []\<rparr> = ?m1" by simp
    have ci: "walInv ns (contents s1) (deliver (m_waiters m) x ?m1) D H A" "inv s1"
      using c(2) [OF x] c(1) [OF x] by (simp_all add: m1)
    have "waitAll st (m_inflight m) (deliver (m_waiters m) x ?m1) s1 = (m', s')"
      using assms(4) False p ns by (cases rp) (auto simp: Flush_def takePending_def wgWait_def x_def deliver_def)
    from walInv_waitAll [OF ci assms(3) _ this]
    show ?thesis by (simp add: deliver_def)
  qed
qed

lemma walInv_step:
  assumes "walStep st w w'" "inv (w_s w)" "plainPath ns"
    "walInv ns (contents (w_s w)) (w_m w) (w_direct w) (w_hist w) (w_acked w)"
  shows "inv (w_s w') \<and> walInv ns (contents (w_s w')) (w_m w') (w_direct w') (w_hist w') (w_acked w')"
proof -
  have ns: "m_ns (w_m w) = ns" using assms(4) by (simp add: walInv_def)
  from assms(1) show ?thesis
  proof cases
    case (batched d q ch m' s')
    then have "enqueue d (w_m w) = ((q, ch), m')" "s' = w_s w"
      by (auto simp: WriteRecord_def split: prod.splits)
    then show ?thesis
      using walInv_enqueue [OF assms(4)] batched assms(2) by auto
  next
    case (allocate d)
    then show ?thesis using walInv_allocate [OF assms(4)] assms(2) by auto
  next
    case (direct ds1 q d ds2 r s')
    then show ?thesis
      using walInv_direct [OF assms(4) [unfolded direct(2)] assms(2,3), of r s'] ns by simp
  next
    case timer
    then show ?thesis using walInv_flushPending [OF assms(4)] assms(2) by auto
  next
    case (goroutine fs1 f fs2 m' s')
    then show ?thesis using walInv_upload [OF assms(4,2,3) goroutine(2,3)] by simp
  next
    case (flush r m' s')
    then show ?thesis using walInv_Flush [OF assms(4,2,3)] by auto
  next
    case (close m' s')
    let ?m = "(w_m w)\<lparr>m_closed := True, m_commitTimer := False\<rparr>"
    have "walInv ns (contents (w_s w)) ?m (w_direct w) (w_hist w) (w_acked w)"
      using assms(4) by simp
    from walInv_waitAll [OF this assms(2,3) refl] show ?thesis
      using close by (auto simp: wal_Close_def wgWait_def)
  qed
qed

end

section \<open>Every writer is answered\<close>

text \<open>A writer's channel waits with the pending batch, with an upload, or has its answer.\<close>

definition heard :: "manager \<Rightarrow> nat set" where
  "heard m = set (m_waiters m) \<union> (\<Union>f \<in> set (m_inflight m). set (fl_waiters f)) \<union> set (map fst (m_delivered m))"

definition heardInv :: "manager \<Rightarrow> (nat \<times> uint64 \<times> bytes) list \<Rightarrow> bool" where
  "heardInv m H \<longleftrightarrow> (\<forall>x \<in> set H. fst x \<in> heard m)"

lemma heard_deliver:
  "heard (deliver (fl_waiters f) x (m\<lparr>m_inflight := fs1 @ fs2\<rparr>)) = heard (m\<lparr>m_inflight := fs1 @ f # fs2\<rparr>)"
  by (auto simp: heard_def deliver_def o_def)

lemma heard_flags [simp]:
  "heard (m\<lparr>m_commitTimer := b\<rparr>) = heard m" "heard (m\<lparr>m_closed := b\<rparr>) = heard m"
  "heard (m\<lparr>m_nextSeq := n\<rparr>) = heard m"
  by (simp_all add: heard_def)

lemma heardInv_deliver:
  "heardInv (m\<lparr>m_inflight := fs1 @ f # fs2\<rparr>) H \<Longrightarrow> heardInv (deliver (fl_waiters f) x (m\<lparr>m_inflight := fs1 @ fs2\<rparr>)) H"
  by (simp add: heardInv_def heard_deliver)

lemma heardInv_flushPending: "pendInv m H \<Longrightarrow> heardInv m H \<Longrightarrow> heardInv (flushPending m) H"
  by (auto simp: heardInv_def heard_def flushPending_def takePending_def pendInv_def)

lemma heardInv_enqueue:
  assumes "heardInv m H" "enqueue d m = ((q, ch), m')"
  shows "heardInv m' (H @ [(ch, q, d)])"
proof -
  have "ch \<in> heard m'" "heard m \<subseteq> heard m'"
    using assms(2) by (auto simp: heard_def enqueue_def Let_def split: if_splits)
  then show ?thesis using assms(1) by (auto simp: heardInv_def)
qed

lemma heardInv_waitAll:
  "heardInv m H \<Longrightarrow> m_inflight m = fs \<Longrightarrow> waitAll st fs m s = (m', s') \<Longrightarrow>
     heardInv m' H \<and> m_inflight m' = [] \<and> m_pending m' = m_pending m \<and> m_waiters m' = m_waiters m"
proof (induction fs arbitrary: m s)
  case Nil
  then show ?case by simp
next
  case (Cons f fs)
  obtain m1 s1 where u: "upload st f (m\<lparr>m_inflight := fs\<rparr>) s = (m1, s1)" by fastforce
  then obtain x where m1: "m1 = deliver (fl_waiters f) x (m\<lparr>m_inflight := fs\<rparr>)"
    by (auto simp: upload_def split: prod.splits sum.splits)
  have "m\<lparr>m_inflight := [] @ f # fs\<rparr> = m" using Cons.prems(2) by simp
  then have "heardInv m1 H"
    using heardInv_deliver [where m = m and f = f and ?fs1.0 = "[]" and ?fs2.0 = fs and x = x] Cons.prems(1) by (simp add: m1)
  then show ?case
    using Cons.IH [of m1 s1] Cons.prems(3) u by (simp add: m1 deliver_def)
qed

lemma heardInv_Flush:
  assumes "pendInv m H" "heardInv m H" "Flush st m s = (r, m', s')"
  shows "heardInv m' H \<and> m_inflight m' = [] \<and> m_waiters m' = []"
proof -
  let ?m = "m\<lparr>m_commitTimer := False\<rparr>"
  have h: "heardInv (flushPending ?m) H"
    using assms(1,2) by (intro heardInv_flushPending) (auto simp: pendInv_def heardInv_def)
  let ?m1 = "?m\<lparr>m_pending := [], m_pendingSeq := 0, m_waiters := []\<rparr>"
  show ?thesis
  proof (cases "m_pending m = []")
    case True
    then have "heardInv ?m1 H" using h by (simp add: flushPending_def takePending_def)
    moreover have "waitAll st (m_inflight m) ?m1 s = (m', s')"
      using assms(3) True by (simp add: Flush_def takePending_def wgWait_def)
    ultimately show ?thesis
      using heardInv_waitAll [of ?m1 H "m_inflight m" st s m' s'] by simp
  next
    case False
    let ?f = "\<lparr>fl_seq = m_pendingSeq m, fl_data = mergeBatchSegments (m_pending m), fl_waiters = m_waiters m\<rparr>"
    have "heardInv (?m1\<lparr>m_inflight := m_inflight m @ ?f # []\<rparr>) H"
      using h False by (simp add: flushPending_def takePending_def)
    from heardInv_deliver [OF this] have "heardInv (deliver (m_waiters m) x ?m1) H" for x by simp
    moreover obtain x s1 where "waitAll st (m_inflight m) (deliver (m_waiters m) x ?m1) s1 = (m', s')"
      using assms(3) False by (auto simp: Flush_def takePending_def wgWait_def deliver_def split: prod.splits sum.splits)
    ultimately show ?thesis
      using heardInv_waitAll [of "deliver (m_waiters m) x ?m1" H "m_inflight m" st s1 m' s'] by (simp add: deliver_def)
  qed
qed

lemma heardInv_step:
  assumes "walStep st w w'" "pendInv (w_m w) (w_hist w)" "heardInv (w_m w) (w_hist w)"
  shows "heardInv (w_m w') (w_hist w')"
  using assms(1)
proof cases
  case (batched d q ch m' s')
  then have "enqueue d (w_m w) = ((q, ch), m')" by (auto simp: WriteRecord_def split: prod.splits)
  then show ?thesis using heardInv_enqueue [OF assms(3)] batched by simp
next
  case (goroutine fs1 f fs2 m' s')
  have "(w_m w)\<lparr>m_inflight := fs1 @ f # fs2\<rparr> = w_m w" using goroutine(2) by simp
  then have "heardInv (deliver (fl_waiters f) x ((w_m w)\<lparr>m_inflight := fs1 @ fs2\<rparr>)) (w_hist w)" for x
    using heardInv_deliver [where m = "w_m w" and f = f and ?fs1.0 = fs1 and ?fs2.0 = fs2] assms(3) by simp
  then show ?thesis using goroutine by (auto simp: upload_def split: prod.splits sum.splits)
next
  case (flush r m' s')
  then show ?thesis using heardInv_Flush [OF assms(2,3) flush(2)] by simp
next
  case (close m' s')
  then show ?thesis
    using heardInv_waitAll [of "(w_m w)\<lparr>m_closed := True, m_commitTimer := False\<rparr>" "w_hist w" "m_inflight (w_m w)" st "w_s w" m' s'] assms(3)
    by (simp add: wal_Close_def wgWait_def heardInv_def)
next
  case timer
  then show ?thesis using heardInv_flushPending [OF assms(2,3)] by simp
qed (use assms(3) in \<open>auto simp: heardInv_def\<close>)

text \<open>What holds in every state a started log can reach.\<close>

definition walOK :: "(string \<Rightarrow> bytes option) \<Rightarrow> string \<Rightarrow> 's walState \<Rightarrow> bool" where
  "walOK c ns w \<longleftrightarrow> walInv ns c (w_m w) (w_direct w) (w_hist w) (w_acked w) \<and> heardInv (w_m w) (w_hist w)"

context object_store
begin

lemma walReach:
  assumes "(walStep st)\<^sup>*\<^sup>* w w'" "inv (w_s w)" "plainPath ns" "walOK (contents (w_s w)) ns w"
  shows "inv (w_s w') \<and> walOK (contents (w_s w')) ns w'"
  using assms
proof (induction rule: rtranclp_induct)
  case base
  then show ?case by simp
next
  case (step y z)
  then have i: "inv (w_s y)" "walOK (contents (w_s y)) ns y" by simp_all
  then have "pendInv (w_m y) (w_hist y)" by (simp add: walOK_def walInv_def)
  then show ?case
    using walInv_step [OF step.hyps(2) i(1) step.prems(2)] heardInv_step [OF step.hyps(2)] i(2)
    by (simp add: walOK_def)
qed

lemma walStart_OK:
  assumes "inv s" "plainPath ns" "NewManager st ns bw s = (Inr m, s0)"
  shows "inv s0" "contents s0 = contents s" "walOK c ns (walStart m s0)"
proof -
  obtain es where l: "listWALs st ns s = (Inr es, s0)"
    using assms(3) by (auto simp: NewManager_def split: prod.splits sum.splits)
  show "inv s0" "contents s0 = contents s" using listWALs_frame [OF assms(1,2) l] by auto
  have "m_ns m = ns" "m_pending m = []" "m_waiters m = []" "m_inflight m = []" "m_delivered m = []"
    using assms(3) by (auto simp: NewManager_def split: prod.splits sum.splits)
  then show "walOK c ns (walStart m s0)"
    using walInv_start [of m c] by (auto simp: walOK_def walStart_def heardInv_def)
qed

end

section \<open>Properties\<close>

text \<open>The name of a log object and its sequence number determine each other: the name
  parses back to the number, and names are ordered as the numbers are, over the whole
  64-bit range.\<close>

theorem wal_name_roundtrip:
  assumes "plainPath ns"
  shows "parseWALSeq (walPath ns a) = Inr a \<and> (walPath ns a < walPath ns b \<longleftrightarrow> a < b)"
proof -
  have "unat x < 10 ^ seqNumWidth" for x :: uint64
  proof -
    have "unat x < 2 ^ 64" using unsigned_less [of x] by simp
    then show ?thesis by (rule less_trans) (simp add: seqNumWidth_def)
  qed
  then have l: "length (padDecimal seqNumWidth (unat a)) = length (padDecimal seqNumWidth (unat b))"
    and o: "padDecimal seqNumWidth (unat a) < padDecimal seqNumWidth (unat b) \<longleftrightarrow> a < b"
    by (simp_all add: length_padDecimal padDecimal_less seqNumWidth_def word_less_nat_alt)
  have "walPath ns a < walPath ns b \<longleftrightarrow> a < b"
    using assms o less_append_eq_length [OF l, of walExt walExt] by (simp add: walPath_eq)
  then show ?thesis using assms by simp
qed

lemma pad7: "padDecimal 20 7 = ''00000000000000000007''"
  by code_simp

theorem wal_name_roundtrip_witness:
  "walPath ''t'' 7 = ''t/wal/00000000000000000007.wal'' \<and> parseWALSeq ''t/wal/00000000000000000007.wal'' = Inr 7"
proof -
  have p: "plainPath ''t''" by (simp add: plainPath_def plainElem_def sep_def)
  have "walPath ''t'' 7 = ''t/wal/00000000000000000007.wal''"
    by (simp add: walPath_eq [OF p] walDir_def walExt_def seqNumWidth_def sep_def pad7)
  then show ?thesis using wal_name_roundtrip [OF p, of 7] by metis
qed

text \<open>C30: merging the batches of a window gives one batch with the header of the first, a
  count that is the sum of the counts (modulo \<open>2 ^ 32\<close>) and all the bodies in order.\<close>

theorem merge_batches:
  assumes "segments \<noteq> []" "\<forall>s \<in> set segments. batchHeaderLen \<le> length s"
  shows "batchCount (mergeBatchSegments segments) = (\<Sum>s\<leftarrow>segments. batchCount s) \<and>
    drop batchHeaderLen (mergeBatchSegments segments) = concat (map (drop batchHeaderLen) segments) \<and>
    take 8 (mergeBatchSegments segments) = take 8 (hd segments)"
proof (cases segments rule: remdups_adj.cases)
  case (3 s0 s1 ss)
  have "length (take 8 s0) = 8" using assms 3 by (simp add: batchHeaderLen_def)
  then show ?thesis
    using merge_valid [of s0 s1 ss] assms(2) batchCount_header [of "take 8 s0"]
    by (simp add: 3 batchHeaderLen_def)
qed (use assms in \<open>simp_all add: mergeBatchSegments_def\<close>)

theorem merge_batches_witness:
  "batchCount (mergeBatchSegments [replicate 8 0 @ [1, 0, 0, 0, 65], replicate 8 0 @ [2, 0, 0, 0, 66]]) = 3 \<and>
   drop batchHeaderLen (mergeBatchSegments [replicate 8 0 @ [1, 0, 0, 0, 65], replicate 8 0 @ [2, 0, 0, 0, 66]]) = [65, 66]"
  using merge_batches [of "[replicate 8 0 @ [1, 0, 0, 0, 65], replicate 8 0 @ [2, 0, 0, 0, 66]]"]
  by (simp add: batchHeaderLen_def batchCount_def nth_append)

text \<open>C3: in every interleaving of writers, timer, uploads, flushes and closing, a writer
  that is told its record is committed has it in object storage: the object of its
  sequence number exists and is the merge of exactly the records written under that
  number, its own among them; and a direct write that returned has its record as the
  whole object. No later step overwrites either.\<close>

theorem wal_ack_durable:
  assumes "object_store st contents ok" "ok s" "plainPath ns" "NewManager st ns bw s = (Inr m, s0)"
    "(walStep st)\<^sup>*\<^sup>* (walStart m s0) w"
  shows "(\<forall>ch q d. (ch, q, d) \<in> set (w_hist w) \<and> (ch, None) \<in> set (m_delivered (w_m w)) \<longrightarrow>
        d \<in> set (segs (w_hist w) q) \<and>
        contents (w_s w) (walPath ns q) = Some (mergeBatchSegments (segs (w_hist w) q))) \<and>
    (\<forall>q d. (q, d) \<in> set (w_acked w) \<longrightarrow> contents (w_s w) (walPath ns q) = Some d)"
proof -
  note start = object_store.walStart_OK [OF assms(1-4)]
  have "walInv ns (contents (w_s w)) (w_m w) (w_direct w) (w_hist w) (w_acked w)"
    using object_store.walReach [OF assms(1,5) _ assms(3)] start by (simp add: walStart_def walOK_def)
  then have H: "histInv (w_m w) (w_hist w)" and S: "sentInv ns (contents (w_s w)) (set (outstanding (w_m w) (w_direct w))) (w_hist w) (m_delivered (w_m w))"
    and A: "ackInv ns (contents (w_s w)) (set (outstanding (w_m w) (w_direct w))) (m_nextSeq (w_m w)) (w_acked w)"
    by (simp_all add: walInv_def)
  have "contents (w_s w) (walPath ns q) = Some (mergeBatchSegments (segs (w_hist w) q))"
    if c: "(ch, q, d) \<in> set (w_hist w)" "(ch, None) \<in> set (m_delivered (w_m w))" for ch q d
  proof -
    obtain q' d' where "(ch, q', d') \<in> set (w_hist w)"
      "contents (w_s w) (walPath ns q') = Some (mergeBatchSegments (segs (w_hist w) q'))"
      using S c(2) unfolding sentInv_def by blast
    moreover have "(q', d') = (q, d)"
      using eq_key_imp_eq_value [of "w_hist w" ch] H c(1) calculation(1) unfolding histInv_def by blast
    ultimately show ?thesis by simp
  qed
  then show ?thesis using A segs_mem unfolding ackInv_def by blast
qed

lemma pad1: "padDecimal 20 (Suc 0) = ''00000000000000000001''"
  by code_simp

lemma wal_path1: "walPath ''t'' 1 = ''t/wal/00000000000000000001.wal''"
proof -
  have p: "plainPath ''t''" by (simp add: plainPath_def plainElem_def sep_def)
  show ?thesis
    by (simp add: walPath_eq [OF p] walDir_def walExt_def seqNumWidth_def sep_def pad1)
qed

definition emptyFs :: fs where
  "emptyFs = \<lparr>fs_files = [], fs_dirs = ['''', ''/data''], fs_clock = 5, fs_faults = []\<rparr>"

lemma emptyFs_inv: "local_inv ''/data'' emptyFs"
  by (simp add: emptyFs_def local_inv_def filesOK_def faultsOK_def)

lemma emptyFs_manager:
  "NewManager (local_store ''/data'') ''t'' 0 emptyFs =
     (Inr \<lparr>m_ns = ''t'', m_batchWindow = 0, m_nextSeq = 1, m_pending = [], m_pendingSeq = 0, m_waiters = [],
        m_commitTimer = False, m_closed = False, m_inflight = [], m_nextChan = 0, m_delivered = []\<rparr>, emptyFs)"
  by (simp add: NewManager_def listWALs_def local_store_def local_List_def walPrefix_def walDir_def local_path_def Join_def
      Clean_def cleanElems_def sep_def Stat_def nextFault_def emptyFs_def lookupErr_def isFile_def list_ex_iff IsNotExist_def)

lemma emptyFs_put:
  "\<exists>s'. sPut (local_store ''/data'') (walPath ''t'' 1) [9] emptyFs = (Inr (), s')"
  by (simp add: wal_path1 local_store_def emptyFs_def local_Put_def local_path_def Join_def Clean_def cleanElems_def sep_def
      Dir_def MkdirAll_def nextFault_def ancestors_def isFile_def WriteFile_def createFile_def writeData_def closeFile_def
      List.union_def upt_rec)

theorem wal_ack_durable_witness:
  "\<exists>w. (walStep (local_store ''/data''))\<^sup>*\<^sup>*
        (walStart (projr (fst (NewManager (local_store ''/data'') ''t'' 0 emptyFs))) emptyFs) w \<and>
      w_acked w = [(1, [9])] \<and> local_contents ''/data'' (w_s w) (walPath ''t'' 1) = Some [9]"
proof -
  let ?st = "local_store ''/data''" and ?m = "projr (fst (NewManager (local_store ''/data'') ''t'' 0 emptyFs))"
  have m: "NewManager ?st ''t'' 0 emptyFs = (Inr ?m, emptyFs)" "\<not> m_closed ?m" "m_batchWindow ?m = 0" "m_nextSeq ?m = 1"
    "m_ns ?m = ''t''"
    by (simp_all add: emptyFs_manager)
  obtain s' where p: "sPut ?st (walPath ''t'' 1) [9] emptyFs = (Inr (), s')"
    using emptyFs_put by blast
  let ?w1 = "(walStart ?m emptyFs)\<lparr>w_m := ?m\<lparr>m_nextSeq := 2\<rparr>, w_direct := [(1, [9])]\<rparr>"
  let ?w2 = "?w1\<lparr>w_s := s', w_direct := [], w_acked := [(1, [9])]\<rparr>"
  have "walStep ?st (walStart ?m emptyFs) ?w1"
    using walStep.allocate [of "walStart ?m emptyFs" ?st "[9]"] m by (simp add: walStart_def)
  moreover have "walStep ?st ?w1 ?w2"
    using walStep.direct [of ?w1 "[]" 1 "[9]" "[]" ?st "Inr ()" s'] p m(5) by (simp add: walStart_def)
  ultimately have r: "(walStep ?st)\<^sup>*\<^sup>* (walStart ?m emptyFs) ?w2" by auto
  have ns: "plainPath ''t''" by (simp add: plainPath_def plainElem_def sep_def)
  show ?thesis
    using wal_ack_durable [OF local_object_store [OF data.good] emptyFs_inv ns m(1) r] r
    by (intro exI [of _ ?w2]) simp
qed

text \<open>C31: a manager that starts on an existing log hands out sequence numbers above
  every object of the log, so that it overwrites none; on an empty log it starts at 1.\<close>

theorem wal_seq_fresh:
  assumes "object_store st contents ok" "ok s" "plainPath ns" "walTidy ns (contents s)"
    "contents s (walPath ns (- 1)) = None" "NewManager st ns bw s = (Inr m, s')"
  shows "(\<forall>q. contents s (walPath ns q) \<noteq> None \<longrightarrow> q < NextSeq m) \<and>
    ((\<forall>q. contents s (walPath ns q) = None) \<longrightarrow> NextSeq m = 1)"
  using object_store.NewManager_ok [OF assms(1-4) assms(6,5)] by (simp add: NextSeq_def)

theorem wal_seq_fresh_witness:
  "NextSeq (projr (fst (NewManager (local_store ''/data'') ''t'' 0 emptyFs))) = 1"
proof -
  have ns: "plainPath ''t''" by (simp add: plainPath_def plainElem_def sep_def)
  have c: "local_contents ''/data'' emptyFs = (\<lambda>_. None)"
    by (simp add: local_contents_def filesView_def emptyFs_def fun_eq_iff)
  have t: "walTidy ''t'' (local_contents ''/data'' emptyFs)" by (simp add: walTidy_def c)
  have e: "local_contents ''/data'' emptyFs (walPath ''t'' (- 1)) = None" by (simp add: c)
  show ?thesis
    using wal_seq_fresh [OF local_object_store [OF data.good] emptyFs_inv ns t e emptyFs_manager] c
    by (simp add: emptyFs_manager)
qed

text \<open>A flush leaves no writer waiting: whatever was interleaved before it, when it
  returns every batched write has received an answer and no upload is in flight.\<close>

theorem wal_flush_answers:
  assumes "object_store st contents ok" "ok s" "plainPath ns" "NewManager st ns bw s = (Inr m, s0)"
    "(walStep st)\<^sup>*\<^sup>* (walStart m s0) w" "Flush st (w_m w) (w_s w) = (r, m', s')"
  shows "m_inflight m' = [] \<and> (\<forall>ch q d. (ch, q, d) \<in> set (w_hist w) \<longrightarrow> ch \<in> fst ` set (m_delivered m'))"
proof -
  note start = object_store.walStart_OK [OF assms(1-4)]
  have "walOK (contents (w_s w)) ns w"
    using object_store.walReach [OF assms(1,5) _ assms(3)] start by (simp add: walStart_def)
  then have "pendInv (w_m w) (w_hist w)" "heardInv (w_m w) (w_hist w)"
    by (simp_all add: walOK_def walInv_def)
  from heardInv_Flush [OF this assms(6)] show ?thesis
    by (auto simp: heardInv_def heard_def rev_image_eqI dest!: bspec)
qed

theorem wal_flush_answers_witness:
  "let m = (projr (fst (NewManager (local_store ''/data'') ''t'' 0 emptyFs))) in
   m_inflight (fst (snd (Flush (local_store ''/data'') m emptyFs))) = []"
proof -
  have ns: "plainPath ''t''" by (simp add: plainPath_def plainElem_def sep_def)
  let ?m = "projr (fst (NewManager (local_store ''/data'') ''t'' 0 emptyFs))"
  obtain r m' s' where f: "Flush (local_store ''/data'') (w_m (walStart ?m emptyFs)) (w_s (walStart ?m emptyFs)) = (r, m', s')"
    by (metis surj_pair)
  have "NewManager (local_store ''/data'') ''t'' 0 emptyFs = (Inr ?m, emptyFs)"
    by (simp add: emptyFs_manager)
  from wal_flush_answers [OF local_object_store [OF data.good] emptyFs_inv ns this rtranclp.rtrancl_refl f] f
  show ?thesis by (simp add: walStart_def Let_def)
qed

text \<open>The flush reports the fate of the batch it puts itself and of nothing else: with
  no pending batch it returns without an error, even if an upload it waits for fails.\<close>

theorem flush_reports:
  "fst (Flush st m s) =
     (if m_pending m = [] then None
      else case fst (sPut st (walPath (m_ns m) (m_pendingSeq m)) (mergeBatchSegments (m_pending m)) s) of
        Inl e \<Rightarrow> Some e | Inr _ \<Rightarrow> None)"
  by (auto simp: Flush_def takePending_def split: prod.splits sum.splits)



end
