(* ===== verification/PebbleDB.thy ===== *)
theory PebbleDB
  imports Paths "HOL-Library.AList"
begin

text \<open>
  The local key-value store. Pebble is third-party code, so it appears as a record of the
  operations the program calls, \<open>pebble\<close>, over an arbitrary database type, and every
  definition that uses it takes that record as an argument. The locale \<open>pebble_db\<close> states
  what the program relies on, as Pebble documents it: a database holds a map from keys to
  values (\<open>view\<close>); applying a batch performs its operations in order; iterators return
  the pairs within their bounds in key order; an indexed batch is read through; the
  representation of a batch parses back; and what was flushed is what opening a
  checkpoint gives back.

  A batch is the list of the operations that were called on it. The locale is interpreted
  on \<open>refDB\<close>, a database that keeps its pairs in a list and writes a checkpoint as
  one file; that instance serves the examples.
\<close>

section \<open>Operations\<close>

datatype batchOp = OpSet bytes bytes | OpDelete bytes | OpDeleteRange bytes bytes

type_synonym batch = "batchOp list"

type_synonym kv = "bytes \<times> bytes"

text \<open>An iterator is the list of pairs it visits from first to last; \<open>None\<close> is an absent
  bound. Directories are maps from file names to contents.\<close>

record 'db pebble =
  pOpen :: "(string \<Rightarrow> bytes option) \<Rightarrow> goerror + 'db"
  pApply :: "batch \<Rightarrow> 'db \<Rightarrow> goerror + 'db"
  pGet :: "bytes \<Rightarrow> 'db \<Rightarrow> goerror + bytes"
  pNewIter :: "bytes option \<Rightarrow> bytes option \<Rightarrow> 'db \<Rightarrow> goerror + kv list"
  pBatchIter :: "batch \<Rightarrow> bytes option \<Rightarrow> bytes option \<Rightarrow> 'db \<Rightarrow> goerror + kv list"
  pRepr :: "batch \<Rightarrow> bytes"
  pSetRepr :: "bytes \<Rightarrow> goerror + batch"
  pAsyncFlush :: "'db \<Rightarrow> goerror + 'db"
  pCheckpoint :: "'db \<Rightarrow> goerror + (string \<times> bytes) list"
  pCompact :: "'db \<Rightarrow> 'db"
  pDiskSpaceUsage :: "'db \<Rightarrow> nat"
  pSSTables :: "'db \<Rightarrow> goerror + (bytes \<times> nat) list list"
  pClose :: "'db \<Rightarrow> goerror option"

text \<open>\<open>pebble.ErrNotFound\<close>.\<close>

definition pebbleErrNotFound :: goerror where
  "pebbleErrNotFound = Err ''pebble: not found''"

section \<open>Meaning of batches and iterators\<close>

fun applyOp :: "batchOp \<Rightarrow> (bytes \<Rightarrow> bytes option) \<Rightarrow> bytes \<Rightarrow> bytes option" where
  "applyOp (OpSet k v) m = m(k \<mapsto> v)"
| "applyOp (OpDelete k) m = m(k := None)"
| "applyOp (OpDeleteRange a b) m = (\<lambda>k. if a \<le> k \<and> k < b then None else m k)"

definition applyOps :: "batch \<Rightarrow> (bytes \<Rightarrow> bytes option) \<Rightarrow> bytes \<Rightarrow> bytes option" where
  "applyOps ops m = fold applyOp ops m"

lemma applyOps_simps [simp]:
  "applyOps [] m = m"
  "applyOps (op # ops) m = applyOps ops (applyOp op m)"
  "applyOps (xs @ ys) m = applyOps ys (applyOps xs m)"
  by (simp_all add: applyOps_def)

definition inBounds :: "bytes option \<Rightarrow> bytes option \<Rightarrow> bytes \<Rightarrow> bool" where
  "inBounds lo hi k \<longleftrightarrow> (case lo of None \<Rightarrow> True | Some a \<Rightarrow> a \<le> k) \<and> (case hi of None \<Rightarrow> True | Some b \<Rightarrow> k < b)"

text \<open>The pairs of a map within bounds, in key order.\<close>

definition iterates :: "(bytes \<Rightarrow> bytes option) \<Rightarrow> bytes option \<Rightarrow> bytes option \<Rightarrow> kv list \<Rightarrow> bool" where
  "iterates m lo hi kvs \<longleftrightarrow> sorted (map fst kvs) \<and> distinct (map fst kvs) \<and>
     (\<forall>k v. (k, v) \<in> set kvs \<longleftrightarrow> m k = Some v \<and> inBounds lo hi k)"

lemma sorted_assoc_unique:
  assumes "sorted (map fst xs)" "distinct (map fst xs)" "sorted (map fst ys)" "distinct (map fst ys)"
    "set xs = set (ys :: ('a::linorder \<times> 'b) list)"
  shows "xs = ys"
proof -
  have "map fst xs = map fst ys"
    using assms by (intro sorted_distinct_set_unique) simp_all
  then show ?thesis
    using assms by (intro map_inj_on [of fst xs ys]) (auto simp: distinct_map)
qed

lemma iterates_unique: "iterates m lo hi xs \<Longrightarrow> iterates m lo hi ys \<Longrightarrow> xs = ys"
  by (intro sorted_assoc_unique) (auto simp: iterates_def)

lemma iterates_map_of: "iterates m None None kvs \<Longrightarrow> map_of kvs = m"
  by (rule ext) (metis (no_types, lifting) inBounds_def iterates_def map_of_eq_Some_iff not_None_eq option.simps(4))

section \<open>The contract\<close>

locale pebble_db =
  fixes P :: "'db pebble" and view flushed :: "'db \<Rightarrow> bytes \<Rightarrow> bytes option"
  assumes apply_view: "pApply P b db = Inr db' \<Longrightarrow> view db' = applyOps b (view db)"
    and get_found: "pGet P k db = Inr v \<Longrightarrow> view db k = Some v"
    and get_missing: "pGet P k db = Inl pebbleErrNotFound \<Longrightarrow> view db k = None"
    and iter_view: "pNewIter P lo hi db = Inr kvs \<Longrightarrow> iterates (view db) lo hi kvs"
    and batch_iter_view: "pBatchIter P b lo hi db = Inr kvs \<Longrightarrow> iterates (applyOps b (view db)) lo hi kvs"
    and repr_parse: "pSetRepr P (pRepr P b) = Inr b"
    and flush_view: "pAsyncFlush P db = Inr db' \<Longrightarrow> view db' = view db \<and> flushed db' = view db"
    and checkpoint_names: "pCheckpoint P db = Inr fls \<Longrightarrow> distinct (map fst fls) \<and> list_all (plainElem \<circ> fst) fls"
    and open_checkpoint: "pCheckpoint P db = Inr fls \<Longrightarrow> \<exists>db'. pOpen P (map_of fls) = Inr db' \<and> view db' = flushed db"
    and open_empty: "\<exists>db'. pOpen P Map.empty = Inr db' \<and> view db' = Map.empty"
    and compact_view: "view (pCompact P db) = view db"

section \<open>A reference database\<close>

text \<open>The pairs in an association list, and the pairs that have been flushed.\<close>

record refDB =
  r_view :: "kv list"
  r_flushed :: "kv list"

fun refOp :: "batchOp \<Rightarrow> kv list \<Rightarrow> kv list" where
  "refOp (OpSet k v) kvs = AList.update k v kvs"
| "refOp (OpDelete k) kvs = filter (\<lambda>x. fst x \<noteq> k) kvs"
| "refOp (OpDeleteRange a b) kvs = filter (\<lambda>x. \<not> (a \<le> fst x \<and> fst x < b)) kvs"

definition boundKV :: "bytes option \<Rightarrow> bytes option \<Rightarrow> kv list \<Rightarrow> kv list" where
  "boundKV lo hi kvs = filter (\<lambda>x. inBounds lo hi (fst x)) (sort_key fst (AList.clearjunk kvs))"

text \<open>A self-delimiting encoding: each byte of a string is preceded by a one, a zero ends it.\<close>

fun putBytes :: "bytes \<Rightarrow> bytes" where
  "putBytes [] = [0]"
| "putBytes (b # bs) = 1 # b # putBytes bs"

fun getBytes :: "bytes \<Rightarrow> (bytes \<times> bytes) option" where
  "getBytes (x # xs) =
     (if x = 0 then Some ([], xs)
      else case xs of [] \<Rightarrow> None
        | b # ys \<Rightarrow> (case getBytes ys of None \<Rightarrow> None | Some (bs, zs) \<Rightarrow> Some (b # bs, zs)))"
| "getBytes [] = None"

fun putOp :: "batchOp \<Rightarrow> bytes" where
  "putOp (OpSet k v) = 1 # putBytes k @ putBytes v"
| "putOp (OpDelete k) = 2 # putBytes k"
| "putOp (OpDeleteRange a b) = 3 # putBytes a @ putBytes b"

definition getOp :: "bytes \<Rightarrow> (batchOp \<times> bytes) option" where
  "getOp xs = (case xs of [] \<Rightarrow> None | t # ys \<Rightarrow>
     (case getBytes ys of None \<Rightarrow> None | Some (a, zs) \<Rightarrow>
        if t = 2 then Some (OpDelete a, zs)
        else (case getBytes zs of None \<Rightarrow> None | Some (b, ws) \<Rightarrow>
                Some (if t = 1 then OpSet a b else OpDeleteRange a b, ws))))"

text \<open>Reading operations to the end of the bytes; the fuel is their number.\<close>

fun getOps :: "nat \<Rightarrow> bytes \<Rightarrow> batch option" where
  "getOps n [] = Some []"
| "getOps 0 (x # xs) = None"
| "getOps (Suc n) (x # xs) =
     (case getOp (x # xs) of None \<Rightarrow> None
      | Some (op, ys) \<Rightarrow> (case getOps n ys of None \<Rightarrow> None | Some ops \<Rightarrow> Some (op # ops)))"

definition refRepr :: "batch \<Rightarrow> bytes" where
  "refRepr b = replicate 12 0 @ concat (map putOp b)"

definition refSetRepr :: "bytes \<Rightarrow> goerror + batch" where
  "refSetRepr xs = (if length xs < 12 then Inl (Err ''pebble: invalid batch'')
     else case getOps (length xs) (drop 12 xs) of
       None \<Rightarrow> Inl (Err ''pebble: corrupt batch'') | Some b \<Rightarrow> Inr b)"

definition refFile :: string where "refFile = ''MANIFEST-000001''"

definition refPebble :: "refDB pebble" where
  "refPebble =
     \<lparr>pOpen = (\<lambda>dir. case dir refFile of
          None \<Rightarrow> Inr \<lparr>r_view = [], r_flushed = []\<rparr>
        | Some xs \<Rightarrow> (case getOps (length xs) xs of
             None \<Rightarrow> Inl (Err ''pebble: corrupt table'')
           | Some ops \<Rightarrow> Inr \<lparr>r_view = fold refOp ops [], r_flushed = fold refOp ops []\<rparr>)),
      pApply = (\<lambda>b db. Inr (db\<lparr>r_view := fold refOp b (r_view db)\<rparr>)),
      pGet = (\<lambda>k db. case map_of (r_view db) k of None \<Rightarrow> Inl pebbleErrNotFound | Some v \<Rightarrow> Inr v),
      pNewIter = (\<lambda>lo hi db. Inr (boundKV lo hi (r_view db))),
      pBatchIter = (\<lambda>b lo hi db. Inr (boundKV lo hi (fold refOp b (r_view db)))),
      pRepr = refRepr,
      pSetRepr = refSetRepr,
      pAsyncFlush = (\<lambda>db. Inr (db\<lparr>r_flushed := r_view db\<rparr>)),
      pCheckpoint = (\<lambda>db. Inr [(refFile, concat (map putOp (map (\<lambda>(k, v). OpSet k v) (AList.clearjunk (r_flushed db)))))]),
      pCompact = (\<lambda>db. db),
      pDiskSpaceUsage = (\<lambda>db. length (r_flushed db)),
      pSSTables = (\<lambda>db. Inr [map (\<lambda>(k, v). (k, length v)) (r_flushed db)]),
      pClose = (\<lambda>db. None)\<rparr>"


section \<open>The reference database keeps the contract\<close>

lemma refOp_view: "map_of (refOp op kvs) = applyOp op (map_of kvs)"
proof (cases op)
  case (OpDelete k)
  have "map_of (filter (\<lambda>x. fst x \<noteq> k) kvs) j = (if j = k then None else map_of kvs j)" for j
    by (induction kvs) auto
  then show ?thesis by (simp add: OpDelete fun_eq_iff)
next
  case (OpDeleteRange a b)
  have "map_of (filter (\<lambda>x. \<not> (a \<le> fst x \<and> fst x < b)) kvs) k = (if a \<le> k \<and> k < b then None else map_of kvs k)" for k
    by (induction kvs) auto
  then show ?thesis by (simp add: OpDeleteRange fun_eq_iff)
qed (simp add: update_conv')

lemma refOps_view: "map_of (fold refOp ops kvs) = applyOps ops (map_of kvs)"
  by (induction ops arbitrary: kvs) (simp_all add: refOp_view)

lemma boundKV_iterates: "iterates (map_of kvs) lo hi (boundKV lo hi kvs)"
proof -
  let ?c = "sort_key fst (AList.clearjunk kvs)"
  have d: "distinct (map fst ?c)"
    using distinct_clearjunk [of kvs] by (simp add: distinct_map)
  have "sorted (map fst ?c)" by simp
  then have s: "sorted (map fst (boundKV lo hi kvs))" "distinct (map fst (boundKV lo hi kvs))"
    using d by (simp_all add: boundKV_def sorted_filter distinct_map_filter)
  have "(k, v) \<in> set ?c \<longleftrightarrow> map_of kvs k = Some v" for k v
    using map_of_eq_Some_iff [of "AList.clearjunk kvs" k v] distinct_clearjunk [of kvs] by (simp add: map_of_clearjunk)
  then show ?thesis using s by (auto simp: iterates_def boundKV_def)
qed

lemma boundKV_batch: "iterates (applyOps b (map_of kvs)) lo hi (boundKV lo hi (fold refOp b kvs))"
  using boundKV_iterates [of "fold refOp b kvs"] by (simp add: refOps_view)

lemma getBytes_put [simp]: "getBytes (putBytes bs @ rest) = Some (bs, rest)"
  by (induction bs) simp_all

lemma getOp_put [simp]: "getOp (putOp op @ rest) = Some (op, rest)"
  by (cases op) (simp_all add: getOp_def)

lemma putOp_not_Nil [simp]: "putOp op \<noteq> []"
  by (cases op) simp_all

lemma getOps_put: "length (concat (map putOp ops)) \<le> n \<Longrightarrow> getOps n (concat (map putOp ops)) = Some ops"
proof (induction ops arbitrary: n)
  case Nil
  then show ?case by (cases n) simp_all
next
  case (Cons op ops)
  obtain x xs where x: "putOp op = x # xs" by (cases "putOp op") simp_all
  then obtain n' where n: "n = Suc n'" using Cons.prems by (cases n) simp_all
  have "getOp (x # xs @ concat (map putOp ops)) = Some (op, concat (map putOp ops))"
    using getOp_put [of op "concat (map putOp ops)"] by (simp add: x)
  then show ?case using Cons x n by simp
qed

lemma refRepr_parse: "refSetRepr (refRepr b) = Inr b"
  by (simp add: refSetRepr_def refRepr_def getOps_put)

lemma fold_set_view:
  "map_of (fold refOp (map (\<lambda>(k, v). OpSet k v) kvs) []) = map_of (rev kvs)"
proof (induction kvs rule: rev_induct)
  case (snoc x kvs)
  then show ?case by (cases x) (simp add: update_conv')
qed simp

interpretation ref: pebble_db refPebble "map_of \<circ> r_view" "map_of \<circ> r_flushed"
proof unfold_locales
  fix db db' :: refDB and fls
  { assume "pCheckpoint refPebble db = Inr fls"
    then have f: "fls = [(refFile, concat (map putOp (map (\<lambda>(k, v). OpSet k v) (AList.clearjunk (r_flushed db)))))]"
      by (simp add: refPebble_def)
    have "map_of (rev (AList.clearjunk (r_flushed db))) = map_of (AList.clearjunk (r_flushed db))"
      using distinct_clearjunk [of "r_flushed db"] by (subst map_of_inject_set) (simp_all add: rev_map [symmetric])
    then have "map_of (rev (AList.clearjunk (r_flushed db))) = map_of (r_flushed db)"
      by (simp add: map_of_clearjunk)
    then show "\<exists>db'. pOpen refPebble (map_of fls) = Inr db' \<and> (map_of \<circ> r_view) db' = (map_of \<circ> r_flushed) db"
      using getOps_put [of "map (\<lambda>(k, v). OpSet k v) (AList.clearjunk (r_flushed db))"] fold_set_view [of "AList.clearjunk (r_flushed db)"]
      by (simp add: refPebble_def f)
    show "distinct (map fst fls) \<and> list_all (plainElem \<circ> fst) fls"
      by (simp add: f refFile_def plainElem_def sep_def) }
qed (auto simp: refPebble_def refOps_view boundKV_iterates boundKV_batch refRepr_parse pebbleErrNotFound_def split: option.splits)

end
