(* ===== verification/CloudEngine.thy ===== *)
theory CloudEngine
  imports WalCloud PebbleDB
begin

text \<open>
  The storage engine of one namespace, \<open>pkg/engine/engine.go\<close> and \<open>metrics.go\<close>.

  The record \<open>engine\<close> is the \<open>Engine\<close> struct together with the world it runs in: the
  state of the object store and of the local file system. Pebble, the object store, JSON
  and SHA-256 are arguments (\<open>P\<close>, \<open>st\<close>, \<open>J\<close>). What an operation observes of the wall clock
  and of its context is the argument \<open>env\<close>. Operations return their result and the engine.

  \<open>Sync\<close> is the composition of \<open>syncCheckpoint\<close> (everything up to taking the checkpoint) and
  \<open>syncUpload\<close> (everything after), because other operations run between the two. The
  goroutines of the asynchronous write path are the list \<open>e_async\<close>; \<open>asyncDone\<close> runs one.
\<close>

section \<open>Data\<close>

datatype consistencyLevel = ConsistencyStrong | ConsistencyEventual

record manifestFile =
  mf_name :: string
  mf_size :: nat
  mf_checksum :: string

record manifest =
  mn_version :: int
  mn_maxWALSeq :: uint64
  mn_createdAt :: int
  mn_prevVersion :: int
  mn_files :: "manifestFile list"

text \<open>Encoding of manifests and checksums. Decoding returns what it filled in besides the
  error, as \<open>json.Unmarshal\<close> does; the second decoder is at the struct of the old format.\<close>

record codec =
  jMarshal :: "manifest \<Rightarrow> goerror + bytes"
  jUnmarshal :: "bytes \<Rightarrow> manifest \<times> goerror option"
  jUnmarshalOld :: "bytes \<Rightarrow> goerror + uint64"
  jSha256Hex :: "bytes \<Rightarrow> string"

record options =
  o_dir :: string
  o_hasStore :: bool
  o_namespace :: string
  o_syncInterval :: int
  o_coldMissThreshold :: int
  o_consistency :: consistencyLevel
  o_asyncWAL :: bool
  o_orphanWALTTL :: int
  o_batchWindow :: int
  o_maxLocalBytes :: int

record metrics =
  mt_sets :: int
  mt_gets :: int
  mt_deletes :: int
  mt_getMisses :: int
  mt_getHits :: int
  mt_coldRecoveries :: int
  mt_walWriteLatencyNs :: int
  mt_applyLatencyNs :: int
  mt_syncLatencyNs :: int
  mt_walObjectsWritten :: int
  mt_walObjectsGCd :: int
  mt_orphanWALsGCd :: int
  mt_syncCalls :: int
  mt_syncFailures :: int
  mt_asyncWALFailures :: int
  mt_bytesWrittenWAL :: int

record ('s, 'db) engine =
  e_ns :: string
  e_store :: 's
  e_fs :: fs
  e_wal :: manager
  e_localDir :: string
  e_consistency :: consistencyLevel
  e_asyncWAL :: bool
  e_db :: "'db option"
  e_maxWALSeq :: uint64
  e_uploadedFiles :: "string list"
  e_orphanWALTTL :: int
  e_batchWindow :: int
  e_maxLocalBytes :: int
  e_manifestVersion :: int
  e_metrics :: metrics
  e_coldMissCount :: int
  e_recovering :: bool
  e_coldMissThresh :: int
  e_errCh :: "goerror list"
  e_healthy :: bool
  e_ready :: bool
  e_async :: "(nat \<times> uint64) list"

text \<open>The wall clock when the operation needs it, the durations it measures, and whether
  its context is cancelled before the awaited event.\<close>

record env =
  en_now :: int
  en_walNs :: int
  en_applyNs :: int
  en_syncNs :: int
  en_ctxDone :: bool

definition noMetrics :: metrics where
  "noMetrics = \<lparr>mt_sets = 0, mt_gets = 0, mt_deletes = 0, mt_getMisses = 0, mt_getHits = 0, mt_coldRecoveries = 0,
     mt_walWriteLatencyNs = 0, mt_applyLatencyNs = 0, mt_syncLatencyNs = 0, mt_walObjectsWritten = 0,
     mt_walObjectsGCd = 0, mt_orphanWALsGCd = 0, mt_syncCalls = 0, mt_syncFailures = 0, mt_asyncWALFailures = 0,
     mt_bytesWrittenWAL = 0\<rparr>"

definition meter :: "(metrics \<Rightarrow> metrics) \<Rightarrow> ('s, 'db) engine \<Rightarrow> ('s, 'db) engine" where
  "meter f e = e\<lparr>e_metrics := f (e_metrics e)\<rparr>"

text \<open>A send on the error channel, which has room for sixteen and drops the rest.\<close>

definition sendErr :: "goerror \<Rightarrow> ('s, 'db) engine \<Rightarrow> ('s, 'db) engine" where
  "sendErr err e = (if length (e_errCh e) < 16 then e\<lparr>e_errCh := e_errCh e @ [err]\<rparr> else e)"

section \<open>Paths\<close>

definition manifestPath :: "string \<Rightarrow> string" where
  "manifestPath ns = Join [ns, ''manifest'']"

definition manifestVersionPath :: "string \<Rightarrow> int \<Rightarrow> string" where
  "manifestVersionPath ns v = Join [ns, ''manifests'', padDecimal 6 (nat v) @ ''.json'']"

definition manifestVersionsPrefix :: "string \<Rightarrow> string" where
  "manifestVersionsPrefix ns = Join [ns, ''manifests''] @ ''/''"

definition dataPrefix :: "string \<Rightarrow> string" where
  "dataPrefix ns = Join [ns, ''data''] @ ''/''"

definition localWALPath :: "string \<Rightarrow> uint64 \<Rightarrow> string" where
  "localWALPath dir seq = Join [dir, ''localwal'', padDecimal 20 (unat seq) @ ''.wal'']"

section \<open>The local directory\<close>

text \<open>The files Pebble finds in its directory.\<close>

definition dirMap :: "string \<Rightarrow> fs \<Rightarrow> string \<Rightarrow> bytes option" where
  "dirMap dir s n = (if plainElem n then local_contents dir s n else None)"

text \<open>\<open>os.ReadDir\<close>, the files of a directory in name order.\<close>

definition ReadDir :: "string \<Rightarrow> (fs, string list) op" where
  "ReadDir d s =
     (case nextFault s of
        (Some (e, _), s1) \<Rightarrow> (Inl e, s1)
      | (None, s1) \<Rightarrow>
          if d \<notin> set (fs_dirs s1) then (Inl (lookupErr s1 d), s1)
          else (Inr (sort (filter plainElem (map (Rel d) (filter (below d) (map fst (fs_files s1)))))), s1))"

definition writeFileSync :: "string \<Rightarrow> bytes \<Rightarrow> (fs, unit) op" where
  "writeFileSync p data s =
     (case createFile p s of
        (Inl e, s1) \<Rightarrow> (Inl e, s1)
      | (Inr _, s1) \<Rightarrow>
          (case writeData p data s1 of
             (Inl e, s2) \<Rightarrow> (Inl e, snd (closeFile s2))
           | (Inr _, s2) \<Rightarrow>
               (case nextFault s2 of
                  (Some (e, _), s3) \<Rightarrow> (Inl e, snd (closeFile s3))
                | (None, s3) \<Rightarrow> closeFile s3)))"

section \<open>Recovery\<close>

fun replayLoop :: "'s store \<Rightarrow> 'db pebble \<Rightarrow> walEntry list \<Rightarrow> ('s, 'db) engine \<Rightarrow> goerror option \<times> ('s, 'db) engine" where
  "replayLoop st P [] e = (None, e)"
| "replayLoop st P (entry # es) e =
     (if we_seq entry \<le> e_maxWALSeq e then replayLoop st P es e
      else (case ReadRecord st (e_ns e) (we_seq entry) (e_store e) of
              (Inl err, s1) \<Rightarrow> (Some (Wrap ''reading WAL'' err), e\<lparr>e_store := s1\<rparr>)
            | (Inr data, s1) \<Rightarrow>
                (case pSetRepr P data of
                   Inl err \<Rightarrow> (Some (Wrap ''setting WAL repr'' err), e\<lparr>e_store := s1\<rparr>)
                 | Inr b \<Rightarrow>
                     (case pApply P b (the (e_db e)) of
                        Inl err \<Rightarrow> (Some (Wrap ''replaying WAL'' err), e\<lparr>e_store := s1\<rparr>)
                      | Inr db \<Rightarrow>
                          replayLoop st P es (e\<lparr>e_store := s1, e_db := Some db,
                            e_maxWALSeq := (if we_seq entry > e_maxWALSeq e then we_seq entry else e_maxWALSeq e)\<rparr>)))))"

definition replayWALs :: "'s store \<Rightarrow> 'db pebble \<Rightarrow> ('s, 'db) engine \<Rightarrow> goerror option \<times> ('s, 'db) engine" where
  "replayWALs st P e =
     (case listWALs st (e_ns e) (e_store e) of
        (Inl err, s1) \<Rightarrow> (Some err, e\<lparr>e_store := s1\<rparr>)
      | (Inr entries, s1) \<Rightarrow> replayLoop st P entries (e\<lparr>e_store := s1\<rparr>))"

fun replayLocalLoop :: "'db pebble \<Rightarrow> string \<Rightarrow> string list \<Rightarrow> ('s, 'db) engine \<Rightarrow> goerror option \<times> ('s, 'db) engine" where
  "replayLocalLoop P sub [] e = (None, e)"
| "replayLocalLoop P sub (name # names) e =
     (let localPath = Join [sub, name] in
      case ReadFile (Clean localPath) (e_fs e) of
        (Inl err, s1) \<Rightarrow> (Some (Wrap ''reading local WAL'' err), e\<lparr>e_fs := s1\<rparr>)
      | (Inr data, s1) \<Rightarrow>
          (case pSetRepr P data of
             Inl err \<Rightarrow> (Some (Wrap ''setting local WAL repr'' err), e\<lparr>e_fs := s1\<rparr>)
           | Inr b \<Rightarrow>
               (case pApply P b (the (e_db e)) of
                  Inl err \<Rightarrow> (Some (Wrap ''replaying local WAL'' err), e\<lparr>e_fs := s1\<rparr>)
                | Inr db \<Rightarrow>
                    replayLocalLoop P sub names (e\<lparr>e_fs := snd (Remove localPath s1), e_db := Some db\<rparr>))))"

definition replayLocalWALs :: "'db pebble \<Rightarrow> ('s, 'db) engine \<Rightarrow> goerror option \<times> ('s, 'db) engine" where
  "replayLocalWALs P e =
     (let sub = Join [e_localDir e, ''localwal''] in
      case ReadDir sub (e_fs e) of
        (Inl err, s1) \<Rightarrow> ((if IsNotExist err then None else Some err), e\<lparr>e_fs := s1\<rparr>)
      | (Inr names, s1) \<Rightarrow> replayLocalLoop P sub names (e\<lparr>e_fs := s1\<rparr>))"

fun downloadLoop :: "'s store \<Rightarrow> manifestFile list \<Rightarrow> ('s, 'db) engine \<Rightarrow> goerror option \<times> ('s, 'db) engine" where
  "downloadLoop st [] e = (None, e)"
| "downloadLoop st (mf # mfs) e =
     (let remotePath = Join [dataPrefix (e_ns e), mf_name mf];
          localPath = Join [e_localDir e, mf_name mf] in
      case sGet st remotePath (e_store e) of
        (Inl err, s1) \<Rightarrow> (Some (Wrap ''downloading'' err), e\<lparr>e_store := s1\<rparr>)
      | (Inr data, s1) \<Rightarrow>
          (case WriteFile localPath data (e_fs e) of
             (Inl err, f1) \<Rightarrow> (Some (Wrap ''writing local'' err), e\<lparr>e_store := s1, e_fs := f1\<rparr>)
           | (Inr _, f1) \<Rightarrow>
               downloadLoop st mfs (e\<lparr>e_store := s1, e_fs := f1,
                 e_uploadedFiles := List.insert remotePath (e_uploadedFiles e)\<rparr>)))"

text \<open>Decoding a manifest, with the fallback to the old format.\<close>

definition decodeManifest :: "codec \<Rightarrow> bytes \<Rightarrow> goerror + manifest" where
  "decodeManifest J manifestBytes =
     (case jUnmarshal J manifestBytes of
        (m, None) \<Rightarrow> Inr m
      | (m, Some err) \<Rightarrow>
          (case jUnmarshalOld J manifestBytes of
             Inl _ \<Rightarrow> Inl (Wrap ''decoding manifest'' err)
           | Inr q \<Rightarrow> Inr (m\<lparr>mn_maxWALSeq := q\<rparr>)))"

text \<open>The manifest half of \<open>recover\<close>: decode it and download the files it lists.\<close>

definition recoverManifest :: "'s store \<Rightarrow> codec \<Rightarrow> bytes \<Rightarrow> ('s, 'db) engine \<Rightarrow> goerror option \<times> ('s, 'db) engine" where
  "recoverManifest st J manifestBytes e =
     (case decodeManifest J manifestBytes of
        Inl err \<Rightarrow> (Some err, e)
      | Inr m \<Rightarrow>
          (case downloadLoop st (mn_files m) (e\<lparr>e_manifestVersion := mn_version m\<rparr>) of
             (Some err, e1) \<Rightarrow> (Some err, e1)
           | (None, e1) \<Rightarrow> (None, e1\<lparr>e_maxWALSeq := mn_maxWALSeq m\<rparr>)))"

definition recover :: "'s store \<Rightarrow> 'db pebble \<Rightarrow> codec \<Rightarrow> ('s, 'db) engine \<Rightarrow> goerror option \<times> ('s, 'db) engine" where
  "recover st P J e =
     (let (got, s1) = sGet st (manifestPath (e_ns e)) (e_store e);
          e1 = e\<lparr>e_store := s1, e_uploadedFiles := []\<rparr>
      in case (case got of Inl _ \<Rightarrow> (None, e1) | Inr manifestBytes \<Rightarrow> recoverManifest st J manifestBytes e1) of
           (Some err, e2) \<Rightarrow> (Some err, e2)
         | (None, e2) \<Rightarrow>
             (case pOpen P (dirMap (e_localDir e2) (e_fs e2)) of
                Inl err \<Rightarrow> (Some (Wrap ''opening pebble'' err), e2)
              | Inr db \<Rightarrow>
                  (let e3 = e2\<lparr>e_db := Some db\<rparr> in
                   case (if e_consistency e3 = ConsistencyStrong then replayWALs st P e3 else (None, e3)) of
                     (Some err, e4) \<Rightarrow> (Some (Wrap ''replaying WALs'' err), e4)
                   | (None, e4) \<Rightarrow>
                       (case replayLocalWALs P e4 of
                          (Some err, e5) \<Rightarrow> (Some (Wrap ''replaying local WALs'' err), e5)
                        | (None, e5) \<Rightarrow> (None, e5)))))"

definition defaultOptions :: "options \<Rightarrow> options" where
  "defaultOptions o1 =
     o1\<lparr>o_namespace := (if o_namespace o1 = [] then ''default'' else o_namespace o1),
        o_syncInterval := (if o_syncInterval o1 \<le> 0 then 30 * 10 ^ 9 else o_syncInterval o1),
        o_coldMissThreshold := (if o_coldMissThreshold o1 \<le> 0 then 3 else o_coldMissThreshold o1),
        o_orphanWALTTL := (if o_orphanWALTTL o1 \<le> 0 then 3600 * 10 ^ 9 else o_orphanWALTTL o1),
        o_batchWindow := (if o_batchWindow o1 = 0 then 200 * 10 ^ 6 else o_batchWindow o1)\<rparr>"

text \<open>\<open>engine_Open\<close> on a store and a local file system, both returned also when it fails.\<close>

definition engine_Open :: "'s store \<Rightarrow> 'db pebble \<Rightarrow> codec \<Rightarrow> options \<Rightarrow> 's \<Rightarrow> fs \<Rightarrow> (goerror + ('s, 'db) engine) \<times> 's \<times> fs" where
  "engine_Open st P J opts s f =
     (if o_dir opts = [] then (Inl (Err ''engine: Dir is required''), s, f)
      else if \<not> o_hasStore opts then (Inl (Err ''engine: objstore.Store is required''), s, f)
      else let o1 = defaultOptions opts in
        case NewManager st (o_namespace o1) (o_batchWindow o1) s of
          (Inl err, s1) \<Rightarrow> (Inl (Wrap ''engine: creating WAL manager'' err), s1, f)
        | (Inr wal, s1) \<Rightarrow>
            (case MkdirAll (Clean (o_dir o1)) f of
               (Inl err, f1) \<Rightarrow> (Inl (Wrap ''engine: creating local dir'' err), s1, f1)
             | (Inr _, f1) \<Rightarrow>
                 (case MkdirAll (Join [o_dir o1, ''localwal'']) f1 of
                    (Inl err, f2) \<Rightarrow> (Inl (Wrap ''engine: creating local WAL dir'' err), s1, f2)
                  | (Inr _, f2) \<Rightarrow>
                      (case recover st P J
                        \<lparr>e_ns = o_namespace o1, e_store = s1, e_fs = f2, e_wal = wal, e_localDir = o_dir o1,
                         e_consistency = o_consistency o1, e_asyncWAL = o_asyncWAL o1, e_db = None, e_maxWALSeq = 0,
                         e_uploadedFiles = [], e_orphanWALTTL = o_orphanWALTTL o1, e_batchWindow = o_batchWindow o1,
                         e_maxLocalBytes = o_maxLocalBytes o1, e_manifestVersion = 0, e_metrics = noMetrics,
                         e_coldMissCount = 0, e_recovering = False, e_coldMissThresh = o_coldMissThreshold o1,
                         e_errCh = [], e_healthy = False, e_ready = False, e_async = []\<rparr> of
                         (Some err, e) \<Rightarrow> (Inl (Wrap ''engine: recovery'' err), e_store e, e_fs e)
                       | (None, e) \<Rightarrow>
                           (Inr (e\<lparr>e_healthy := True, e_ready := True\<rparr>), e_store e, e_fs e)))))"


section \<open>Writing\<close>

text \<open>Waiting for a commit: the timer of the batch fires, the uploads finish, and the
  channel has its answer.\<close>

definition awaitCommit :: "'s store \<Rightarrow> nat \<Rightarrow> ('s, 'db) engine \<Rightarrow> goerror option \<times> ('s, 'db) engine" where
  "awaitCommit st ch e =
     (case wgWait st (flushPending (e_wal e)) (e_store e) of (m, s) \<Rightarrow>
        ((case map_of (m_delivered m) ch of Some r \<Rightarrow> r | None \<Rightarrow> Some (Err ''no answer'')),
         e\<lparr>e_wal := m, e_store := s\<rparr>))"

text \<open>Applying a batch locally and moving \<open>maxWALSeq\<close>, as both write paths do.\<close>

definition applyLocally :: "'db pebble \<Rightarrow> env \<Rightarrow> batch \<Rightarrow> uint64 \<Rightarrow> ('s, 'db) engine \<Rightarrow> (goerror + uint64) \<times> ('s, 'db) engine" where
  "applyLocally P env b seq e =
     (let e1 = meter (\<lambda>m. m\<lparr>mt_applyLatencyNs := mt_applyLatencyNs m + en_applyNs env\<rparr>) e in
      case pApply P b (the (e_db e1)) of
        Inl err \<Rightarrow> (Inl (Wrap ''engine: applying'' err), e1)
      | Inr db \<Rightarrow>
          (Inr seq, e1\<lparr>e_db := Some db, e_maxWALSeq := (if seq > e_maxWALSeq e1 then seq else e_maxWALSeq e1)\<rparr>))"

definition applyThenWALAsync :: "'s store \<Rightarrow> 'db pebble \<Rightarrow> env \<Rightarrow> batch \<Rightarrow> bytes \<Rightarrow> ('s, 'db) engine \<Rightarrow>
    (goerror + uint64) \<times> ('s, 'db) engine" where
  "applyThenWALAsync st P env b data e =
     (case WriteRecord st data (e_wal e) (e_store e) of
        (res, m1, s1) \<Rightarrow>
          (let e1 = meter (\<lambda>m. m\<lparr>mt_walObjectsWritten := mt_walObjectsWritten m + 1,
                                 mt_bytesWrittenWAL := mt_bytesWrittenWAL m + int (length data)\<rparr>)
                     (e\<lparr>e_wal := m1, e_store := s1\<rparr>)
           in case res of
                Inl err \<Rightarrow> (Inl (Wrap ''engine: registering WAL'' err), e1)
              | Inr (seq, done) \<Rightarrow>
                  (case writeFileSync (localWALPath (e_localDir e1) seq) data (e_fs e1) of
                     (Inl err, f1) \<Rightarrow> (Inl (Wrap ''engine: writing local WAL'' err), e1\<lparr>e_fs := f1\<rparr>)
                   | (Inr _, f1) \<Rightarrow>
                       (case applyLocally P env b seq (e1\<lparr>e_fs := f1\<rparr>) of
                          (Inl err, e2) \<Rightarrow> (Inl err, e2)
                        | (Inr q, e2) \<Rightarrow>
                            (Inr q, case done of None \<Rightarrow> e2 | Some ch \<Rightarrow> e2\<lparr>e_async := e_async e2 @ [(ch, seq)]\<rparr>)))))"

definition writeWALAndApply :: "'s store \<Rightarrow> 'db pebble \<Rightarrow> env \<Rightarrow> batch \<Rightarrow> ('s, 'db) engine \<Rightarrow>
    (goerror + uint64) \<times> ('s, 'db) engine" where
  "writeWALAndApply st P env b e =
     (let data = pRepr P b in
      if e_asyncWAL e then applyThenWALAsync st P env b data e
      else
        (case WriteRecord st data (e_wal e) (e_store e) of
           (res, m1, s1) \<Rightarrow>
             (let e1 = meter (\<lambda>m. m\<lparr>mt_walWriteLatencyNs := mt_walWriteLatencyNs m + en_walNs env\<rparr>)
                        (e\<lparr>e_wal := m1, e_store := s1\<rparr>)
              in case res of
                   Inl err \<Rightarrow> (Inl (Wrap ''engine: writing WAL'' err), e1)
                 | Inr (seq, done) \<Rightarrow>
                     (let e2 = meter (\<lambda>m. m\<lparr>mt_walObjectsWritten := mt_walObjectsWritten m + 1,
                                            mt_bytesWrittenWAL := mt_bytesWrittenWAL m + int (length data)\<rparr>) e1
                      in case done of
                           None \<Rightarrow> applyLocally P env b seq e2
                         | Some ch \<Rightarrow>
                             (if en_ctxDone env then (Inl (Err ''context canceled''), e2)
                              else (case awaitCommit st ch e2 of
                                      (Some gcsErr, e3) \<Rightarrow> (Inl (Wrap ''engine: WAL durability'' gcsErr), e3)
                                    | (None, e3) \<Rightarrow> applyLocally P env b seq e3))))))"

text \<open>The goroutine of an asynchronous write, once its channel has an answer.\<close>

definition asyncDone :: "nat \<times> uint64 \<Rightarrow> goerror option \<Rightarrow> ('s, 'db) engine \<Rightarrow> ('s, 'db) engine" where
  "asyncDone task r e =
     (let e1 = e\<lparr>e_async := remove1 task (e_async e)\<rparr> in
      case r of
        Some gcsErr \<Rightarrow>
          sendErr (Wrap ''async WAL'' gcsErr)
            (meter (\<lambda>m. m\<lparr>mt_asyncWALFailures := mt_asyncWALFailures m + 1\<rparr>) e1)
      | None \<Rightarrow> e1\<lparr>e_fs := snd (Remove (localWALPath (e_localDir e1) (snd task)) (e_fs e1))\<rparr>)"

definition engine_Apply :: "'s store \<Rightarrow> 'db pebble \<Rightarrow> env \<Rightarrow> batch \<Rightarrow> ('s, 'db) engine \<Rightarrow> goerror option \<times> ('s, 'db) engine" where
  "engine_Apply st P env b e =
     (case writeWALAndApply st P env b e of (Inl err, e1) \<Rightarrow> (Some err, e1) | (Inr _, e1) \<Rightarrow> (None, e1))"

definition engine_Set :: "'s store \<Rightarrow> 'db pebble \<Rightarrow> env \<Rightarrow> bytes \<Rightarrow> bytes \<Rightarrow> ('s, 'db) engine \<Rightarrow> goerror option \<times> ('s, 'db) engine" where
  "engine_Set st P env key val e =
     (case writeWALAndApply st P env [OpSet key val] e of
        (Inl err, e1) \<Rightarrow> (Some err, e1)
      | (Inr _, e1) \<Rightarrow> (None, meter (\<lambda>m. m\<lparr>mt_sets := mt_sets m + 1\<rparr>) e1))"

definition engine_Delete :: "'s store \<Rightarrow> 'db pebble \<Rightarrow> env \<Rightarrow> bytes \<Rightarrow> ('s, 'db) engine \<Rightarrow> goerror option \<times> ('s, 'db) engine" where
  "engine_Delete st P env key e =
     (case writeWALAndApply st P env [OpDelete key] e of
        (Inl err, e1) \<Rightarrow> (Some err, e1)
      | (Inr _, e1) \<Rightarrow> (None, meter (\<lambda>m. m\<lparr>mt_deletes := mt_deletes m + 1\<rparr>) e1))"

section \<open>Reading\<close>

text \<open>\<open>triggerColdRecovery\<close> starts a goroutine unless one runs; \<open>coldRecovery\<close> is its body.\<close>

definition triggerColdRecovery :: "('s, 'db) engine \<Rightarrow> ('s, 'db) engine" where
  "triggerColdRecovery e = (if e_recovering e then e else e\<lparr>e_recovering := True\<rparr>)"

definition coldRecovery :: "'s store \<Rightarrow> 'db pebble \<Rightarrow> codec \<Rightarrow> ('s, 'db) engine \<Rightarrow> ('s, 'db) engine" where
  "coldRecovery st P J e =
     (case recover st P J (meter (\<lambda>m. m\<lparr>mt_coldRecoveries := mt_coldRecoveries m + 1\<rparr>) e) of
        (r, e1) \<Rightarrow>
          (case r of Some err \<Rightarrow> sendErr (Wrap ''cold recovery'' err) e1 | None \<Rightarrow> e1)
            \<lparr>e_recovering := False, e_coldMissCount := 0\<rparr>)"

definition engine_Get :: "'db pebble \<Rightarrow> bytes \<Rightarrow> ('s, 'db) engine \<Rightarrow> (goerror + bytes) \<times> ('s, 'db) engine" where
  "engine_Get P key e =
     (case e_db e of
        None \<Rightarrow> (Inl pebbleErrNotFound, e)
      | Some db \<Rightarrow>
          (case pGet P key db of
             Inl err \<Rightarrow>
               (let e1 = meter (\<lambda>m. m\<lparr>mt_gets := mt_gets m + 1\<rparr>) e in
                if err \<noteq> pebbleErrNotFound then (Inl err, e1)
                else
                  (let e2 = meter (\<lambda>m. m\<lparr>mt_getMisses := mt_getMisses m + 1\<rparr>) e1 in
                   if e_coldMissThresh e2 > 0 \<and> \<not> e_recovering e2 then
                     (let n = e_coldMissCount e2 + 1; e3 = e2\<lparr>e_coldMissCount := n\<rparr> in
                      (Inl err, if n \<ge> e_coldMissThresh e3 then triggerColdRecovery e3 else e3))
                   else (Inl err, e2)))
           | Inr v \<Rightarrow>
               (Inr v, (meter (\<lambda>m. m\<lparr>mt_gets := mt_gets m + 1, mt_getHits := mt_getHits m + 1\<rparr>) e)
                         \<lparr>e_coldMissCount := 0\<rparr>)))"

definition Health :: "('s, 'db) engine \<Rightarrow> goerror option" where
  "Health e = (if \<not> e_healthy e then Some (Err ''engine: unhealthy'') else None)"

definition Ready :: "('s, 'db) engine \<Rightarrow> bool" where
  "Ready e = e_ready e"

section \<open>Syncing\<close>

definition isMutable :: "string \<Rightarrow> bool" where
  "isMutable name \<longleftrightarrow> name = ''CURRENT'' \<or> HasPrefix name ''MANIFEST-'' \<or> HasPrefix name ''OPTIONS-'' \<or>
     HasPrefix name ''marker.format-version'' \<or> HasPrefix name ''marker.manifest''"

text \<open>The first part of \<open>Sync\<close>: flush Pebble, flush the log, take the checkpoint and read its
  directory. The result holds the files of the checkpoint directory in name order.\<close>

definition syncCheckpoint :: "'s store \<Rightarrow> 'db pebble \<Rightarrow> ('s, 'db) engine \<Rightarrow>
    (goerror + (string \<times> bytes) list) \<times> ('s, 'db) engine" where
  "syncCheckpoint st P e =
     (case pAsyncFlush P (the (e_db e)) of
        Inl err \<Rightarrow> (Inl (Wrap ''engine: flush'' err), e)
      | Inr db \<Rightarrow>
          (case Flush st (e_wal e) (e_store e) of
             (r, m, s) \<Rightarrow>
               (let e1 = e\<lparr>e_db := Some db, e_wal := m, e_store := s\<rparr> in
                case r of
                  Some err \<Rightarrow> (Inl (Wrap ''engine: flushing WAL batch'' err), e1)
                | None \<Rightarrow>
                    (case pCheckpoint P db of
                       Inl err \<Rightarrow> (Inl (Wrap ''engine: checkpoint'' err), e1)
                     | Inr entries \<Rightarrow>
                         (case nextFault (e_fs e1) of
                            (Some (err, _), f1) \<Rightarrow> (Inl (Wrap ''engine: reading checkpoint dir'' err), e1\<lparr>e_fs := f1\<rparr>)
                          | (None, f1) \<Rightarrow> (Inr (sort_key fst entries), e1\<lparr>e_fs := f1\<rparr>))))))"

text \<open>The upload loop. Reading a checkpoint file is a system call that may fail.\<close>

fun uploadLoop :: "'s store \<Rightarrow> codec \<Rightarrow> string list \<Rightarrow> (string \<times> bytes) list \<Rightarrow> manifestFile list \<Rightarrow> ('s, 'db) engine \<Rightarrow>
    (goerror + manifestFile list) \<times> ('s, 'db) engine" where
  "uploadLoop st J prevFiles [] mfs e = (Inr mfs, e)"
| "uploadLoop st J prevFiles ((name, data) # entries) mfs e =
     (let remotePath = Join [dataPrefix (e_ns e), name] in
      case nextFault (e_fs e) of
        (Some (rErr, _), f1) \<Rightarrow> (Inl (Wrap ''engine: reading checkpoint file'' rErr), e\<lparr>e_fs := f1\<rparr>)
      | (None, f1) \<Rightarrow>
          (let e1 = e\<lparr>e_fs := f1\<rparr>;
               mfs1 = mfs @ [\<lparr>mf_name = name, mf_size = length data, mf_checksum = jSha256Hex J data\<rparr>] in
           if remotePath \<in> set prevFiles \<and> \<not> isMutable name then
             uploadLoop st J prevFiles entries mfs1
               (e1\<lparr>e_uploadedFiles := List.insert remotePath (e_uploadedFiles e1)\<rparr>)
           else
             (case sPut st remotePath data (e_store e1) of
                (Inl err, s1) \<Rightarrow> (Inl (Wrap ''engine: uploading'' err), e1\<lparr>e_store := s1\<rparr>)
              | (Inr _, s1) \<Rightarrow>
                  uploadLoop st J prevFiles entries mfs1
                    (e1\<lparr>e_store := s1, e_uploadedFiles := List.insert remotePath (e_uploadedFiles e1)\<rparr>))))"

text \<open>Deleting what the previous checkpoint had and this one does not; errors are logged only.\<close>

fun deleteStale :: "'s store \<Rightarrow> string list \<Rightarrow> string list \<Rightarrow> 's \<Rightarrow> 's" where
  "deleteStale st checkpointFiles [] s = s"
| "deleteStale st checkpointFiles (remotePath # ps) s =
     (if Base remotePath \<notin> set checkpointFiles
      then deleteStale st checkpointFiles ps (snd (sDelete st remotePath s))
      else deleteStale st checkpointFiles ps s)"

fun deleteAll :: "'s store \<Rightarrow> string list \<Rightarrow> 's \<Rightarrow> 's" where
  "deleteAll st [] s = s"
| "deleteAll st (p # ps) s = deleteAll st ps (snd (sDelete st p s))"

text \<open>Pruning old versioned manifests, whose errors are ignored.\<close>

definition pruneManifests :: "'s store \<Rightarrow> string \<Rightarrow> 's \<Rightarrow> 's" where
  "pruneManifests st ns s =
     (case sList st (manifestVersionsPrefix ns) s of
        (Inl _, s1) \<Rightarrow> s1
      | (Inr oldVersions, s1) \<Rightarrow>
          if length oldVersions > 10
          then deleteAll st (take (length oldVersions - 10) (sort oldVersions)) s1
          else s1)"

text \<open>The second part of \<open>Sync\<close>: it reads \<open>maxWALSeq\<close>, uploads the files, deletes stale
  ones, writes the manifest twice, prunes and collects garbage.\<close>

definition syncUpload :: "'s store \<Rightarrow> codec \<Rightarrow> env \<Rightarrow> (string \<times> bytes) list \<Rightarrow> ('s, 'db) engine \<Rightarrow> goerror option \<times> ('s, 'db) engine" where
  "syncUpload st J env entries e =
     (let currentSeq = e_maxWALSeq e; prevFiles = e_uploadedFiles e in
      case uploadLoop st J prevFiles entries [] (e\<lparr>e_uploadedFiles := []\<rparr>) of
        (Inl err, e1) \<Rightarrow> (Some err, e1)
      | (Inr manifestFiles, e1) \<Rightarrow>
          (let e2 = e1\<lparr>e_store := deleteStale st (map fst entries) prevFiles (e_store e1)\<rparr>;
               mf = \<lparr>mn_version = e_manifestVersion e2 + 1, mn_maxWALSeq = currentSeq, mn_createdAt = en_now env,
                     mn_prevVersion = e_manifestVersion e2, mn_files = manifestFiles\<rparr>
           in case jMarshal J mf of
                Inl err \<Rightarrow> (Some (Wrap ''engine: encoding manifest'' err), e2)
              | Inr manifestBytes \<Rightarrow>
                  (case sPut st (manifestVersionPath (e_ns e2) (mn_version mf)) manifestBytes (e_store e2) of
                     (Inl err, s3) \<Rightarrow> (Some (Wrap ''engine: writing versioned manifest'' err), e2\<lparr>e_store := s3\<rparr>)
                   | (Inr _, s3) \<Rightarrow>
                       (case sPut st (manifestPath (e_ns e2)) manifestBytes s3 of
                          (Inl err, s4) \<Rightarrow> (Some (Wrap ''engine: writing manifest'' err), e2\<lparr>e_store := s4\<rparr>)
                        | (Inr _, s4) \<Rightarrow>
                            (let s5 = pruneManifests st (e_ns e2) s4;
                                 e3 = e2\<lparr>e_store := s5, e_manifestVersion := mn_version mf\<rparr>
                             in case GC st (e_ns e3) currentSeq (e_orphanWALTTL e3) (en_now env) s5 of
                                  ((deleted, Some err), s6) \<Rightarrow>
                                    (Some (Wrap ''engine: WAL GC'' err),
                                     meter (\<lambda>m. m\<lparr>mt_syncFailures := mt_syncFailures m + 1\<rparr>) (e3\<lparr>e_store := s6\<rparr>))
                                | ((deleted, None), s6) \<Rightarrow>
                                    (None, meter (\<lambda>m. m\<lparr>mt_walObjectsGCd := mt_walObjectsGCd m + int deleted\<rparr>)
                                             (e3\<lparr>e_store := s6\<rparr>)))))))"

definition Sync :: "'s store \<Rightarrow> 'db pebble \<Rightarrow> codec \<Rightarrow> env \<Rightarrow> ('s, 'db) engine \<Rightarrow> goerror option \<times> ('s, 'db) engine" where
  "Sync st P J env e =
     (let (r, e1) = (case syncCheckpoint st P e of
                       (Inl err, e1) \<Rightarrow> (Some err, e1)
                     | (Inr entries, e1) \<Rightarrow> syncUpload st J env entries e1)
      in (r, meter (\<lambda>m. m\<lparr>mt_syncLatencyNs := mt_syncLatencyNs m + en_syncNs env, mt_syncCalls := mt_syncCalls m + 1,
                          mt_syncFailures := (if r = None then mt_syncFailures m else mt_syncFailures m + 1)\<rparr>) e1))"

definition checkEviction :: "'s store \<Rightarrow> 'db pebble \<Rightarrow> codec \<Rightarrow> env \<Rightarrow> ('s, 'db) engine \<Rightarrow> ('s, 'db) engine" where
  "checkEviction st P J env e =
     (if e_maxLocalBytes e \<le> 0 then e
      else if int (pDiskSpaceUsage P (the (e_db e))) \<le> e_maxLocalBytes e then e
      else snd (Sync st P J env (e\<lparr>e_db := Some (pCompact P (the (e_db e)))\<rparr>)))"

text \<open>One tick of \<open>syncLoop\<close> and one of \<open>walReplayLoop\<close>.\<close>

definition syncTick :: "'s store \<Rightarrow> 'db pebble \<Rightarrow> codec \<Rightarrow> env \<Rightarrow> env \<Rightarrow> ('s, 'db) engine \<Rightarrow> ('s, 'db) engine" where
  "syncTick st P J env env' e =
     (let e2 = (case Sync st P J env e of
                  (Some err, e1) \<Rightarrow> sendErr (Wrap ''sync'' err) (e1\<lparr>e_healthy := False\<rparr>)
                | (None, e1) \<Rightarrow> e1\<lparr>e_healthy := True\<rparr>)
      in checkEviction st P J env' e2)"

definition walReplayTick :: "'s store \<Rightarrow> 'db pebble \<Rightarrow> ('s, 'db) engine \<Rightarrow> ('s, 'db) engine" where
  "walReplayTick st P e =
     (case replayWALs st P e of
        (Some err, e1) \<Rightarrow> sendErr (Wrap ''wal replay'' err) e1
      | (None, e1) \<Rightarrow> e1)"

text \<open>Cancelling the context ends the goroutines that still wait; those that have finished
  ran before.\<close>

definition engine_Close :: "'s store \<Rightarrow> 'db pebble \<Rightarrow> codec \<Rightarrow> env \<Rightarrow> ('s, 'db) engine \<Rightarrow> goerror option \<times> ('s, 'db) engine" where
  "engine_Close st P J env e =
     (case Sync st P J env (e\<lparr>e_async := []\<rparr>) of
        (r, e1) \<Rightarrow>
          (case wal_Close st (e_wal e1) (e_store e1) of
             (m, s) \<Rightarrow>
               (let e2 = e1\<lparr>e_wal := m, e_store := s\<rparr> in
                case r of
                  Some err \<Rightarrow> (Some (Wrap ''engine: final sync'' err), e2)
                | None \<Rightarrow> (pClose P (the (e_db e2)), e2))))"

section \<open>Metrics\<close>

record metricsSnapshot =
  ms_counters :: metrics
  ms_avgWALWriteLatency :: int
  ms_avgApplyLatency :: int
  ms_avgSyncLatency :: int

text \<open>Go's integer division truncates; the divisors are positive and the sums are not negative.\<close>

definition Snapshot :: "metrics \<Rightarrow> metricsSnapshot" where
  "Snapshot m =
     \<lparr>ms_counters = m,
      ms_avgWALWriteLatency = (if mt_walObjectsWritten m > 0 then mt_walWriteLatencyNs m div mt_walObjectsWritten m else 0),
      ms_avgApplyLatency = (if mt_sets m + mt_deletes m > 0 then mt_applyLatencyNs m div (mt_sets m + mt_deletes m) else 0),
      ms_avgSyncLatency = (if mt_syncCalls m > 0 then mt_syncLatencyNs m div mt_syncCalls m else 0)\<rparr>"

text \<open>The instruments \<open>RegisterOpenTelemetry\<close> registers, each with the counter it reports. The
  meter is an argument: registering an instrument changes it or returns an error.\<close>

definition instruments :: "(string \<times> string \<times> (metrics \<Rightarrow> int)) list" where
  "instruments =
     [(''cloudpebble.engine.sets'', ''Total number of Set operations.'', mt_sets),
      (''cloudpebble.engine.gets'', ''Total number of Get operations.'', mt_gets),
      (''cloudpebble.engine.get_hits'', ''Total number of cache hits.'', mt_getHits),
      (''cloudpebble.engine.get_misses'', ''Total number of cache misses.'', mt_getMisses),
      (''cloudpebble.engine.deletes'', ''Total number of Delete operations.'', mt_deletes),
      (''cloudpebble.engine.cold_recoveries'', ''Total number of cold recovery triggers.'', mt_coldRecoveries),
      (''cloudpebble.engine.wal_objects_written'', ''Total number of WAL objects written to object storage.'', mt_walObjectsWritten),
      (''cloudpebble.engine.wal_objects_gc'', ''Total number of WAL objects garbage collected.'', mt_walObjectsGCd),
      (''cloudpebble.engine.orphan_wals_gc'', ''Total number of orphan WALs garbage collected.'', mt_orphanWALsGCd),
      (''cloudpebble.engine.sync_calls'', ''Total number of Sync calls.'', mt_syncCalls),
      (''cloudpebble.engine.sync_failures'', ''Total number of Sync failures.'', mt_syncFailures),
      (''cloudpebble.engine.async_wal_failures'', ''Total number of async WAL durability failures.'', mt_asyncWALFailures),
      (''cloudpebble.engine.bytes_written_wal'', ''Total bytes written to WAL objects.'', mt_bytesWrittenWAL)]"

fun registerLoop :: "(string \<Rightarrow> string \<Rightarrow> (metrics \<Rightarrow> int) \<Rightarrow> 'm \<Rightarrow> goerror option \<times> 'm) \<Rightarrow>
    (string \<times> string \<times> (metrics \<Rightarrow> int)) list \<Rightarrow> 'm \<Rightarrow> goerror option \<times> 'm" where
  "registerLoop observable [] m = (None, m)"
| "registerLoop observable ((name, description, load) # insts) m =
     (case observable name description load m of
        (Some err, m1) \<Rightarrow> (Some err, m1)
      | (None, m1) \<Rightarrow> registerLoop observable insts m1)"

definition RegisterOpenTelemetry :: "(string \<Rightarrow> string \<Rightarrow> (metrics \<Rightarrow> int) \<Rightarrow> 'm \<Rightarrow> goerror option \<times> 'm) \<Rightarrow> 'm \<Rightarrow> goerror option \<times> 'm" where
  "RegisterOpenTelemetry observable m = registerLoop observable instruments m"

end
