(* ===== verification/CloudRecovery.thy ===== *)
theory CloudRecovery
  imports CloudEngine
begin

text \<open>
  Durability and crash recovery of the engine.

  \<open>durable\<close> says what the objects of a namespace mean: the checkpoint the manifest names,
  with the log objects above its \<open>MaxWALSeq\<close> applied in sequence order. The locale
  \<open>cloud_engine\<close> puts the object store, Pebble and the manifest codec together; its lemmas
  show that recovery on an empty directory computes \<open>durable\<close>, that an acknowledged write
  is applied to it, and that a successful \<open>Sync\<close> keeps it.
\<close>

section \<open>What the objects of a namespace mean\<close>

definition dataPath :: "string \<Rightarrow> string \<Rightarrow> string" where
  "dataPath ns name = Join [dataPrefix ns, name]"

definition checkpointFiles :: "(string \<Rightarrow> bytes option) \<Rightarrow> string \<Rightarrow> manifestFile list \<Rightarrow> string \<Rightarrow> bytes option" where
  "checkpointFiles c ns mfs n = (if n \<in> mf_name ` set mfs then c (dataPath ns n) else None)"

fun replaySeqs :: "'db pebble \<Rightarrow> (string \<Rightarrow> bytes option) \<Rightarrow> string \<Rightarrow> uint64 list \<Rightarrow> (bytes \<Rightarrow> bytes option) \<Rightarrow>
    (bytes \<Rightarrow> bytes option) option" where
  "replaySeqs P c ns [] m = Some m"
| "replaySeqs P c ns (q # qs) m =
     (case c (walPath ns q) of
        None \<Rightarrow> None
      | Some data \<Rightarrow> (case pSetRepr P data of Inl _ \<Rightarrow> None | Inr b \<Rightarrow> replaySeqs P c ns qs (applyOps b m)))"

definition walSeqs :: "(string \<Rightarrow> bytes option) \<Rightarrow> string \<Rightarrow> uint64 list" where
  "walSeqs c ns = sorted_list_of_set {q. c (walPath ns q) \<noteq> None}"

definition durableBase :: "'db pebble \<Rightarrow> ('db \<Rightarrow> bytes \<Rightarrow> bytes option) \<Rightarrow> codec \<Rightarrow> (string \<Rightarrow> bytes option) \<Rightarrow> string \<Rightarrow>
    (uint64 \<times> (bytes \<Rightarrow> bytes option)) option" where
  "durableBase P view J c ns =
     (case c (manifestPath ns) of
        None \<Rightarrow> Some (0, Map.empty)
      | Some bs \<Rightarrow>
          (case decodeManifest J bs of
             Inl _ \<Rightarrow> None
           | Inr m \<Rightarrow>
               (case pOpen P (checkpointFiles c ns (mn_files m)) of
                  Inl _ \<Rightarrow> None
                | Inr db \<Rightarrow> Some (mn_maxWALSeq m, view db))))"

definition durable :: "'db pebble \<Rightarrow> ('db \<Rightarrow> bytes \<Rightarrow> bytes option) \<Rightarrow> codec \<Rightarrow> (string \<Rightarrow> bytes option) \<Rightarrow> string \<Rightarrow>
    (bytes \<Rightarrow> bytes option) option" where
  "durable P view J c ns =
     (case durableBase P view J c ns of
        None \<Rightarrow> None
      | Some (q0, m) \<Rightarrow> replaySeqs P c ns (filter (\<lambda>q. q0 < q) (walSeqs c ns)) m)"

section \<open>Paths\<close>

lemma Join_trailing: "plainPath a \<Longrightarrow> plainPath b \<Longrightarrow> Join [a @ [sep], b] = a @ sep # b"
proof -
  assume ab: "plainPath a" "plainPath b"
  have "plainPath (a @ sep # b)" using ab by simp
  then have "list_all plainElem (splitSlash a @ splitSlash b)" "a \<noteq> []" "b \<noteq> []" "\<not> rooted a"
    using ab plainPath_not_Nil plainElem_not_rooted by (auto simp: plainPath_def)
  moreover have "splitSlash (a @ sep # sep # b) = splitSlash a @ [] # splitSlash b"
    using splitSlash_append_sep [of a "sep # b"] by simp
  ultimately show ?thesis
    using Clean_plain [of "a @ sep # b"] ab by (simp add: Join_def Clean_def cleanElems_def)
qed

lemma engine_dirs [simp]:
  "plainPath ''manifest''" "plainPath ''manifests''" "plainPath ''data''" "plainPath ''localwal''"
  by (simp_all add: plainPath_def plainElem_def sep_def)

lemma dataPrefix_eq: "plainPath ns \<Longrightarrow> dataPrefix ns = (ns @ sep # ''data'') @ [sep]"
  by (simp add: dataPrefix_def Join2_plain sep_def)

lemma dataPath_eq: "plainPath ns \<Longrightarrow> plainElem n \<Longrightarrow> dataPath ns n = ns @ sep # ''data'' @ sep # n"
  using Join_trailing [of "ns @ sep # ''data''" n] by (simp add: dataPath_def dataPrefix_eq plainPath_elem)

lemma manifestPath_eq: "plainPath ns \<Longrightarrow> manifestPath ns = ns @ sep # ''manifest''"
  by (simp add: manifestPath_def Join2_plain)

lemma manifestVersionsPrefix_eq: "plainPath ns \<Longrightarrow> manifestVersionsPrefix ns = (ns @ sep # ''manifests'') @ [sep]"
  by (simp add: manifestVersionsPrefix_def Join2_plain sep_def)

lemma sep_data: "sep \<notin> set ''data''" "sep \<notin> set ''manifest''" "sep \<notin> set ''manifests''" "sep \<notin> set walDir"
  by (simp_all add: sep_def walDir_def)

lemma plainElem_json: "plainElem (padDecimal 6 n @ ''.json'')"
  by (rule plainElem_digits) (simp_all add: padDecimal_digits sep_def)

lemma manifestVersionPath_eq:
  "plainPath ns \<Longrightarrow> manifestVersionPath ns v = ns @ sep # ''manifests'' @ sep # padDecimal 6 (nat v) @ ''.json''"
  using plainPath_elem [OF plainElem_json] by (simp add: manifestVersionPath_def Join3_plain)

lemma engine_paths_plain [simp]:
  "plainPath ns \<Longrightarrow> plainElem n \<Longrightarrow> plainPath (dataPath ns n)"
  "plainPath ns \<Longrightarrow> plainPath (manifestPath ns)"
  "plainPath ns \<Longrightarrow> plainPath (manifestVersionPath ns v)"
proof -
  assume ns: "plainPath ns"
  have d: "plainPath (''data'' @ sep # x) = plainPath x" "plainPath (''manifests'' @ sep # x) = plainPath x" for x
    using plainPath_slash [of "''data''" x] plainPath_slash [of "''manifests''" x] by simp_all
  show "plainElem n \<Longrightarrow> plainPath (dataPath ns n)"
    using ns by (simp only: dataPath_eq plainPath_slash d plainPath_elem engine_dirs simp_thms)
  show "plainPath (manifestPath ns)" using ns by (simp add: manifestPath_eq)
  show "plainPath (manifestVersionPath ns v)"
    using ns plainElem_json by (simp only: manifestVersionPath_eq plainPath_slash d plainPath_elem engine_dirs simp_thms)
qed

text \<open>Objects of different kinds have different names.\<close>

lemma engine_paths_distinct [simp]:
  assumes "plainPath ns"
  shows "walPath ns q \<noteq> manifestPath ns" "walPath ns q \<noteq> manifestVersionPath ns v"
    "manifestVersionPath ns v \<noteq> manifestPath ns"
    "plainElem n \<Longrightarrow> dataPath ns n \<noteq> walPath ns q"
    "plainElem n \<Longrightarrow> dataPath ns n \<noteq> manifestPath ns"
    "plainElem n \<Longrightarrow> dataPath ns n \<noteq> manifestVersionPath ns v"
    "plainElem n \<Longrightarrow> plainElem n' \<Longrightarrow> dataPath ns n = dataPath ns n' \<longleftrightarrow> n = n'"
  using assms
  by (auto simp: dataPath_eq walPath_eq manifestPath_eq manifestVersionPath_eq walDir_def sep_def)

lemma walPrefix_not:
  assumes "plainPath ns"
  shows "\<not> HasPrefix (manifestPath ns) (walPrefix ns)" "\<not> HasPrefix (manifestVersionPath ns v) (walPrefix ns)"
    "plainElem n \<Longrightarrow> \<not> HasPrefix (dataPath ns n) (walPrefix ns)"
  using assms by (auto simp: HasPrefix_iff walPrefix_eq dataPath_eq manifestPath_eq manifestVersionPath_eq walDir_def sep_def)

lemma walDir_not:
  assumes "plainPath ns"
  shows "manifestPath ns \<noteq> ns @ sep # walDir" "manifestVersionPath ns v \<noteq> ns @ sep # walDir"
    "plainElem n \<Longrightarrow> dataPath ns n \<noteq> ns @ sep # walDir"
  using assms by (auto simp: dataPath_eq manifestPath_eq manifestVersionPath_eq walDir_def sep_def)

lemma Base_dataPath: "plainPath ns \<Longrightarrow> plainElem n \<Longrightarrow> Base (dataPath ns n) = n"
  using Base_plain [of n "ns @ sep # ''data''"] by (simp add: dataPath_eq)

lemma manifests_prefix:
  assumes "plainPath ns" "HasPrefix p (manifestVersionsPrefix ns)"
  shows "p \<noteq> manifestPath ns" "p \<noteq> walPath ns q" "p \<noteq> ns @ sep # walDir" "plainElem n \<Longrightarrow> p \<noteq> dataPath ns n"
  using assms by (auto simp: HasPrefix_iff manifestVersionsPrefix_eq dataPath_eq walPath_eq manifestPath_eq walDir_def sep_def)

section \<open>The engine on its parts\<close>

locale cloud_engine = object_store st contents ok + pebble_db P view flushed
  for st :: "'s store" and contents ok and P :: "'db pebble" and view flushed +
  fixes J :: codec
  assumes json: "jMarshal J m = Inr bs \<Longrightarrow> jUnmarshal J bs = (m, None)"
begin

lemma ReadRecord_ok:
  assumes "ok s" "plainPath ns" "ReadRecord st ns q s = (Inr data, s')"
  shows "ok s' \<and> contents s' = contents s \<and> contents s (walPath ns q) = Some data"
  using assms get_frame [of s "walPath ns q"] get_ok [of s "walPath ns q"]
  by (auto simp: ReadRecord_def split: prod.splits sum.splits)

text \<open>The loop of \<open>replayWALs\<close> applies, in order, the log objects above \<open>maxWALSeq\<close>.\<close>

lemma replayLoop_ok:
  assumes "ok (e_store e)" "plainPath (e_ns e)" "e_db e = Some db" "sorted (map we_seq es)" "distinct (map we_seq es)"
    "replayLoop st P es e = (None, e')"
  shows "\<exists>s' db' q'. e' = e\<lparr>e_store := s', e_db := Some db', e_maxWALSeq := q'\<rparr> \<and> ok s' \<and> contents s' = contents (e_store e) \<and>
    replaySeqs P (contents (e_store e)) (e_ns e) (filter (\<lambda>q. e_maxWALSeq e < q) (map we_seq es)) (view db) = Some (view db') \<and>
    (\<forall>x \<in> set es. we_seq x \<le> q') \<and> e_maxWALSeq e \<le> q' \<and> (q' = e_maxWALSeq e \<or> q' \<in> we_seq ` set es)"
  using assms
proof (induction es arbitrary: e db)
  case Nil
  then show ?case by (intro exI [of _ "e_store e"] exI [of _ db] exI [of _ "e_maxWALSeq e"]) simp
next
  case (Cons x es)
  show ?case
  proof (cases "we_seq x \<le> e_maxWALSeq e")
    case True
    then have "replayLoop st P es e = (None, e')" "sorted (map we_seq es)" "distinct (map we_seq es)"
      using Cons.prems(4-6) by simp_all
    from Cons.IH [OF Cons.prems(1-3) this(2,3,1)] obtain s' db' q' where ih:
      "e' = e\<lparr>e_store := s', e_db := Some db', e_maxWALSeq := q'\<rparr>" "ok s'" "contents s' = contents (e_store e)"
      "replaySeqs P (contents (e_store e)) (e_ns e) (filter (\<lambda>q. e_maxWALSeq e < q) (map we_seq es)) (view db) = Some (view db')"
      "\<forall>y \<in> set es. we_seq y \<le> q'" "e_maxWALSeq e \<le> q'" "q' = e_maxWALSeq e \<or> q' \<in> we_seq ` set es"
      by blast
    moreover have "filter (\<lambda>q. e_maxWALSeq e < q) (map we_seq (x # es)) = filter (\<lambda>q. e_maxWALSeq e < q) (map we_seq es)"
      using True by (simp add: not_less)
    moreover have "we_seq x \<le> q'" using True ih(6) by simp
    ultimately show ?thesis
      by (intro exI [of _ s'] exI [of _ db'] exI [of _ q']) (simp only: list.set ball_simps image_insert insert_iff simp_thms, blast)
  next
    case False
    obtain data s1 where r: "ReadRecord st (e_ns e) (we_seq x) (e_store e) = (Inr data, s1)"
      using Cons.prems(6) False by (auto split: prod.splits sum.splits)
    obtain b where b: "pSetRepr P data = Inr b"
      using Cons.prems(6) False r by (auto split: sum.splits)
    obtain db1 where a: "pApply P b db = Inr db1"
      using Cons.prems(3,6) False r b by (auto split: sum.splits)
    let ?e = "e\<lparr>e_store := s1, e_db := Some db1, e_maxWALSeq := we_seq x\<rparr>"
    have s1: "ok s1" "contents s1 = contents (e_store e)" "contents (e_store e) (walPath (e_ns e) (we_seq x)) = Some data"
      using ReadRecord_ok [OF Cons.prems(1,2) r] by auto
    have "replayLoop st P es ?e = (None, e')"
      using Cons.prems(3,6) False r b a by (simp add: not_le)
    with Cons.IH [of ?e db1] s1 Cons.prems(2,4,5) obtain s' db' q' where ih:
      "e' = ?e\<lparr>e_store := s', e_db := Some db', e_maxWALSeq := q'\<rparr>" "ok s'" "contents s' = contents (e_store e)"
      "replaySeqs P (contents (e_store e)) (e_ns e) (filter (\<lambda>q. we_seq x < q) (map we_seq es)) (view db1) = Some (view db')"
      "\<forall>y \<in> set es. we_seq y \<le> q'" "we_seq x \<le> q'" "q' = we_seq x \<or> q' \<in> we_seq ` set es"
      by auto
    have "filter (\<lambda>q. we_seq x < q) (map we_seq es) = map we_seq es" "filter (\<lambda>q. e_maxWALSeq e < q) (map we_seq es) = map we_seq es"
      using Cons.prems(4,5) False by (auto simp: filter_id_conv less_le)
    then show ?thesis
      using ih s1 b False apply_view [OF a]
      by (intro exI [of _ s'] exI [of _ db'] exI [of _ q']) auto
  qed
qed

end

section \<open>Recovery\<close>

text \<open>A local directory that exists and is well formed.\<close>

definition dirReady :: "string \<Rightarrow> fs \<Rightarrow> bool" where
  "dirReady dir f \<longleftrightarrow> goodRoot dir \<and> local_inv dir f \<and>
     (\<forall>q d. plainElem q \<and> HasPrefix (Clean dir @ sep # q) (d @ [sep]) \<longrightarrow> d \<in> set (fs_dirs f))"

lemma fs_dirs_WriteFile: "WriteFile p d s = (r, s') \<Longrightarrow> fs_dirs s' = fs_dirs s"
  by (auto simp: WriteFile_def createFile_def writeData_def closeFile_def nextFault_def
      split: prod.splits sum.splits option.splits if_splits list.splits)

lemma WriteFile_ready:
  assumes "dirReady dir f" "plainElem n" "WriteFile (Join [dir, n]) d f = (Inr u, f')"
  shows "dirReady dir f'" "local_contents dir f' = (local_contents dir f)(n \<mapsto> d)"
proof -
  have p: "Join [dir, n] = Clean dir @ sep # n"
    using assms Join_root [OF _ plainPath_elem] by (simp add: dirReady_def)
  have w: "written dir n d f f' True"
    using WriteFile_cases [of dir f n d] assms plainPath_elem [OF assms(2)] unfolding p dirReady_def
    by (metis Inl_Inr_False prod.inject)
  then show "local_contents dir f' = (local_contents dir f)(n \<mapsto> d)"
    by (simp add: written_def)
  show "dirReady dir f'"
    using assms(1) w fs_dirs_WriteFile [OF assms(3)] by (simp add: dirReady_def written_def)
qed

lemma dirMap_eq: "(\<And>n. c n \<noteq> None \<Longrightarrow> plainElem n) \<Longrightarrow> local_contents dir f = c \<Longrightarrow> dirMap dir f = c"
  by (rule ext) (metis dirMap_def)

text \<open>No file lies below the local log directory: nothing to replay from it.\<close>

lemma ReadDir_empty:
  assumes "dirReady dir f" "\<forall>x. local_contents dir f (''localwal'' @ sep # x) = None"
    "ReadDir (Join [dir, ''localwal'']) f = (Inr names, f')"
  shows "names = []"
proof -
  let ?d = "Clean dir @ sep # ''localwal''"
  have d: "Join [dir, ''localwal''] = ?d"
    using assms Join_root by (simp add: dirReady_def)
  have "\<not> below ?d p" if "p \<in> set (map fst (fs_files f))" for p
  proof
    assume "below ?d p"
    then obtain x where x: "p = Clean dir @ sep # ''localwal'' @ sep # x"
      using normalPath_not_root [OF normalPath_slash [OF normalPath_root, of dir "''localwal''"]] assms(1)
      by (auto simp: below_def HasPrefix_iff dirReady_def)
    have "p \<in> dom (map_of (fs_files f))" using that by (simp add: dom_map_of_conv_image_fst)
    then have "plainPath (''localwal'' @ sep # x)" "\<exists>y. map_of (fs_files f) p = Some y"
      using assms(1) x unfolding dirReady_def local_inv_def filesOK_def by blast+
    then have "local_contents dir f (''localwal'' @ sep # x) \<noteq> None"
      using x by (simp add: local_contents_def filesView_def)
    then show False using spec [OF assms(2), of x] by simp
  qed
  then have "filter (below ?d) (map fst (fs_files f)) = []"
    by (simp add: filter_empty_conv)
  moreover have "fs_files f1 = fs_files f" if "nextFault f = (None, f1)" for f1
    using that by (auto simp: nextFault_def split: list.splits option.splits)
  ultimately show ?thesis
    using assms(3) unfolding d by (auto simp: ReadDir_def split: prod.splits option.splits if_splits)
qed

context cloud_engine
begin

lemma downloadLoop_ok:
  assumes "ok (e_store e)" "plainPath (e_ns e)" "dirReady (e_localDir e) (e_fs e)"
    "\<forall>mf \<in> set mfs. plainElem (mf_name mf)" "downloadLoop st mfs e = (None, e')"
  shows "\<exists>s' f' U. e' = e\<lparr>e_store := s', e_fs := f', e_uploadedFiles := U\<rparr> \<and> ok s' \<and> contents s' = contents (e_store e) \<and>
    dirReady (e_localDir e) f' \<and>
    (\<forall>n \<in> mf_name ` set mfs. local_contents (e_localDir e) f' n = contents (e_store e) (dataPath (e_ns e) n)) \<and>
    (\<forall>n. n \<notin> mf_name ` set mfs \<longrightarrow> local_contents (e_localDir e) f' n = local_contents (e_localDir e) (e_fs e) n) \<and>
    (\<forall>n \<in> mf_name ` set mfs. contents (e_store e) (dataPath (e_ns e) n) \<noteq> None) \<and>
    set U = set (e_uploadedFiles e) \<union> dataPath (e_ns e) ` mf_name ` set mfs"
  using assms
proof (induction mfs arbitrary: e)
  case Nil
  then show ?case
    by (intro exI [of _ "e_store e"] exI [of _ "e_fs e"] exI [of _ "e_uploadedFiles e"]) simp
next
  case (Cons mf mfs)
  let ?p = "dataPath (e_ns e) (mf_name mf)"
  obtain data s1 where g: "sGet st ?p (e_store e) = (Inr data, s1)"
    using Cons.prems(5) by (auto simp: dataPath_def Let_def split: prod.splits sum.splits)
  then obtain f1 where w: "WriteFile (Join [e_localDir e, mf_name mf]) data (e_fs e) = (Inr (), f1)"
    using Cons.prems(5) by (auto simp: dataPath_def Let_def split: prod.splits sum.splits)
  let ?e = "e\<lparr>e_store := s1, e_fs := f1, e_uploadedFiles := List.insert ?p (e_uploadedFiles e)\<rparr>"
  have p: "plainPath ?p" "plainElem (mf_name mf)" using Cons.prems(2,4) by simp_all
  have s1: "ok s1" "contents s1 = contents (e_store e)" "contents (e_store e) ?p = Some data"
    using get_frame [OF Cons.prems(1) p(1) g] get_ok [OF Cons.prems(1) p(1) g] by auto
  note f1 = WriteFile_ready [OF Cons.prems(3) p(2) w]
  have "downloadLoop st mfs ?e = (None, e')"
    using Cons.prems(5) g w by (simp add: dataPath_def Let_def)
  then obtain s' f' U where ih:
    "e' = ?e\<lparr>e_store := s', e_fs := f', e_uploadedFiles := U\<rparr>" "ok s'" "contents s' = contents (e_store e)"
    "dirReady (e_localDir e) f'"
    "\<forall>n \<in> mf_name ` set mfs. local_contents (e_localDir e) f' n = contents (e_store e) (dataPath (e_ns e) n)"
    "\<forall>n. n \<notin> mf_name ` set mfs \<longrightarrow> local_contents (e_localDir e) f' n = local_contents (e_localDir e) f1 n"
    "\<forall>n \<in> mf_name ` set mfs. contents (e_store e) (dataPath (e_ns e) n) \<noteq> None"
    "set U = insert ?p (set (e_uploadedFiles e) \<union> dataPath (e_ns e) ` mf_name ` set mfs)"
    using Cons.IH [of ?e] s1(1,2) f1(1) Cons.prems(2,4) by simp (elim exE conjE, simp)
  have "local_contents (e_localDir e) f' (mf_name mf) = Some data"
    using bspec [OF ih(5), of "mf_name mf"] ih(6) s1(3) f1(2) by (cases "mf_name mf \<in> mf_name ` set mfs") simp_all
  then show ?case
    using ih s1(3) f1(2) by (intro exI [of _ s'] exI [of _ f'] exI [of _ U]) simp
qed

end

context cloud_engine
begin

lemma listWALs_seqs:
  assumes "ok s" "plainPath ns" "walTidy ns (contents s)" "listWALs st ns s = (Inr es, s')"
  shows "map we_seq es = walSeqs (contents s) ns"
proof -
  note l = listWALs_ok [OF assms]
  have "we_seq ` set es = {q. contents s (walPath ns q) \<noteq> None}"
    unfolding l(5) by force
  then show ?thesis
    using l(3,4) unfolding walSeqs_def by (intro sorted_distinct_set_unique) simp_all
qed

lemma walSeqs_set: "set (walSeqs c ns) = {q. c (walPath ns q) \<noteq> None}"
  by (simp add: walSeqs_def)

lemma replayWALs_ok:
  assumes "ok (e_store e)" "plainPath (e_ns e)" "walTidy (e_ns e) (contents (e_store e))" "e_db e = Some db"
    "replayWALs st P e = (None, e')"
  shows "\<exists>s' db' q'. e' = e\<lparr>e_store := s', e_db := Some db', e_maxWALSeq := q'\<rparr> \<and> ok s' \<and> contents s' = contents (e_store e) \<and>
    replaySeqs P (contents (e_store e)) (e_ns e) (filter (\<lambda>q. e_maxWALSeq e < q) (walSeqs (contents (e_store e)) (e_ns e))) (view db) =
      Some (view db') \<and>
    (\<forall>q. contents (e_store e) (walPath (e_ns e) q) \<noteq> None \<longrightarrow> q \<le> q') \<and> e_maxWALSeq e \<le> q' \<and>
    (q' = e_maxWALSeq e \<or> contents (e_store e) (walPath (e_ns e) q') \<noteq> None)"
proof -
  obtain es s1 where l: "listWALs st (e_ns e) (e_store e) = (Inr es, s1)"
    and r: "replayLoop st P es (e\<lparr>e_store := s1\<rparr>) = (None, e')"
    using assms(5) by (auto simp: replayWALs_def split: prod.splits sum.splits)
  note lk = listWALs_ok [OF assms(1-3) l] and ls = listWALs_seqs [OF assms(1-3) l]
  have q: "we_seq ` set es = {q. contents (e_store e) (walPath (e_ns e) q) \<noteq> None}"
    using walSeqs_set [of "contents (e_store e)" "e_ns e"] by (simp flip: ls)
  have "\<exists>s' db' q'. e' = e\<lparr>e_store := s', e_db := Some db', e_maxWALSeq := q'\<rparr> \<and> ok s' \<and> contents s' = contents (e_store e) \<and>
      replaySeqs P (contents (e_store e)) (e_ns e) (filter (\<lambda>q. e_maxWALSeq e < q) (walSeqs (contents (e_store e)) (e_ns e))) (view db) =
        Some (view db') \<and>
      (\<forall>x \<in> set es. we_seq x \<le> q') \<and> e_maxWALSeq e \<le> q' \<and> (q' = e_maxWALSeq e \<or> q' \<in> we_seq ` set es)"
    using replayLoop_ok [OF _ _ _ lk(3,4) r, of db] lk(1,2) assms(2,4) by (simp add: ls)
  moreover have "(\<forall>x \<in> set es. we_seq x \<le> q') = (\<forall>q. contents (e_store e) (walPath (e_ns e) q) \<noteq> None \<longrightarrow> q \<le> q')" for q'
  proof -
    have "(\<forall>x \<in> set es. we_seq x \<le> q') = (\<forall>q \<in> we_seq ` set es. q \<le> q')" by simp
    then show ?thesis unfolding q by simp
  qed
  ultimately show ?thesis using q by simp
qed

lemma replayLocalWALs_fresh:
  assumes "dirReady (e_localDir e) (e_fs e)" "\<forall>x. local_contents (e_localDir e) (e_fs e) (''localwal'' @ sep # x) = None"
    "replayLocalWALs P e = (None, e')"
  shows "\<exists>f'. e' = e\<lparr>e_fs := f'\<rparr>"
proof (cases "ReadDir (Join [e_localDir e, ''localwal'']) (e_fs e)")
  case (Pair r f1)
  show ?thesis
  proof (cases r)
    case (Inl err)
    then show ?thesis using Pair assms(3) by (auto simp: replayLocalWALs_def Let_def)
  next
    case (Inr names)
    then have "names = []" using ReadDir_empty [OF assms(1,2)] Pair by blast
    then show ?thesis using Pair Inr assms(3) by (auto simp: replayLocalWALs_def Let_def)
  qed
qed

end

text \<open>The manifest names plain files only, and reading it fails only when there is none.\<close>

definition manifestTidy :: "codec \<Rightarrow> (string \<Rightarrow> bytes option) \<Rightarrow> string \<Rightarrow> bool" where
  "manifestTidy J c ns \<longleftrightarrow>
     (\<forall>bs m. c (manifestPath ns) = Some bs \<and> decodeManifest J bs = Inr m \<longrightarrow> (\<forall>mf \<in> set (mn_files m). plainElem (mf_name mf)))"

definition manifestReadable :: "'s store \<Rightarrow> string \<Rightarrow> 's \<Rightarrow> bool" where
  "manifestReadable st ns s \<longleftrightarrow>
     (case fst (sGet st (manifestPath ns) s) of Inl err \<Rightarrow> errorsIs err ErrNotFound | Inr _ \<Rightarrow> True)"

text \<open>The sequence number the checkpoint covers.\<close>

definition baseSeq :: "codec \<Rightarrow> (string \<Rightarrow> bytes option) \<Rightarrow> string \<Rightarrow> uint64" where
  "baseSeq J c ns =
     (case c (manifestPath ns) of
        None \<Rightarrow> 0
      | Some bs \<Rightarrow> (case decodeManifest J bs of Inl _ \<Rightarrow> 0 | Inr m \<Rightarrow> mn_maxWALSeq m))"

context cloud_engine
begin

text \<open>The state before Pebble is opened: the files of the checkpoint are in place.\<close>

lemma recover_files:
  assumes "ok (e_store e)" "plainPath (e_ns e)" "dirReady (e_localDir e) (e_fs e)"
    "local_contents (e_localDir e) (e_fs e) = Map.empty" "e_maxWALSeq e = 0"
    "manifestTidy J (contents (e_store e)) (e_ns e)" "manifestReadable st (e_ns e) (e_store e)"
    "sGet st (manifestPath (e_ns e)) (e_store e) = (got, s1)"
    "(case got of Inl _ \<Rightarrow> (None, e\<lparr>e_store := s1, e_uploadedFiles := []\<rparr>)
      | Inr bs \<Rightarrow> recoverManifest st J bs (e\<lparr>e_store := s1, e_uploadedFiles := []\<rparr>)) = (None, e2)"
    "pOpen P (dirMap (e_localDir e2) (e_fs e2)) = Inr db"
  shows "\<exists>s' f' U v. e2 = e\<lparr>e_store := s', e_fs := f', e_uploadedFiles := U, e_manifestVersion := v,
        e_maxWALSeq := baseSeq J (contents (e_store e)) (e_ns e)\<rparr> \<and>
      ok s' \<and> contents s' = contents (e_store e) \<and> dirReady (e_localDir e) f' \<and>
      (\<forall>x. local_contents (e_localDir e) f' (''localwal'' @ sep # x) = None) \<and>
      durableBase P view J (contents (e_store e)) (e_ns e) = Some (baseSeq J (contents (e_store e)) (e_ns e), view db) \<and>
      set U \<subseteq> dataPath (e_ns e) ` {n. plainElem n}"
proof -
  let ?c = "contents (e_store e)" and ?ns = "e_ns e" and ?dir = "e_localDir e"
  have mp: "plainPath (manifestPath ?ns)" using assms(2) by simp
  have s1: "ok s1" "contents s1 = ?c" using get_frame [OF assms(1) mp assms(8)] by auto
  show ?thesis
  proof (cases got)
    case (Inl err)
    have e2: "e2 = e\<lparr>e_store := s1, e_uploadedFiles := []\<rparr>" using assms(9) Inl by simp
    have c: "?c (manifestPath ?ns) = None"
      using get_not_found [OF assms(1) mp] assms(7,8) Inl by (simp add: manifestReadable_def)
    have "dirMap ?dir (e_fs e) = Map.empty" by (rule dirMap_eq) (simp_all add: assms(4))
    then have "view db = Map.empty"
      using open_empty assms(10) e2 by auto
    then show ?thesis
      using e2 s1 assms(3,4,5) c
      by (intro exI [of _ s1] exI [of _ "e_fs e"] exI [of _ "[]"] exI [of _ "e_manifestVersion e"])
        (simp add: durableBase_def baseSeq_def)
  next
    case (Inr bs)
    let ?e = "e\<lparr>e_store := s1, e_uploadedFiles := []\<rparr>"
    have c: "?c (manifestPath ?ns) = Some bs"
      using get_ok [OF assms(1) mp] assms(8) Inr by simp
    obtain m where m: "decodeManifest J bs = Inr m"
      using assms(9) Inr by (cases "decodeManifest J bs") (simp_all add: recoverManifest_def)
    obtain e1 where d: "downloadLoop st (mn_files m) (?e\<lparr>e_manifestVersion := mn_version m\<rparr>) = (None, e1)"
      and e2: "e2 = e1\<lparr>e_maxWALSeq := mn_maxWALSeq m\<rparr>"
      using assms(9) Inr m by (auto simp: recoverManifest_def split: prod.splits option.splits)
    have names: "\<forall>mf \<in> set (mn_files m). plainElem (mf_name mf)"
      using assms(6) c m by (auto simp: manifestTidy_def)
    from downloadLoop_ok [OF _ _ _ names d] s1 assms(2-4) obtain s' f' U where dl:
      "e1 = e\<lparr>e_manifestVersion := mn_version m, e_store := s', e_fs := f', e_uploadedFiles := U\<rparr>" "ok s'"
      "contents s' = ?c" "dirReady ?dir f'"
      "\<forall>n \<in> mf_name ` set (mn_files m). local_contents ?dir f' n = ?c (dataPath ?ns n)"
      "\<forall>n. n \<notin> mf_name ` set (mn_files m) \<longrightarrow> local_contents ?dir f' n = None"
      "set U = dataPath ?ns ` mf_name ` set (mn_files m)"
      by simp (elim exE conjE, simp)
    have "local_contents ?dir f' = checkpointFiles ?c ?ns (mn_files m)"
      using dl(5,6) by (auto simp: checkpointFiles_def fun_eq_iff)
    moreover have "plainElem n" if "checkpointFiles ?c ?ns (mn_files m) n \<noteq> None" for n
      using that names by (auto simp: checkpointFiles_def split: if_splits)
    ultimately have "dirMap ?dir f' = checkpointFiles ?c ?ns (mn_files m)"
      by (intro dirMap_eq)
    then have base: "durableBase P view J ?c ?ns = Some (mn_maxWALSeq m, view db)"
      using assms(10) e2 dl(1) c m by (simp add: durableBase_def)
    have "''localwal'' @ sep # x \<notin> mf_name ` set (mn_files m)" for x
      using names plainElem_sep [of "''localwal'' @ sep # x"] by auto
    then have "\<forall>x. local_contents ?dir f' (''localwal'' @ sep # x) = None"
      using dl(6) by simp
    moreover have "e2 = e\<lparr>e_store := s', e_fs := f', e_uploadedFiles := U, e_manifestVersion := mn_version m,
        e_maxWALSeq := baseSeq J ?c ?ns\<rparr>"
      using e2 dl(1) c m by (cases e) (simp add: baseSeq_def)
    moreover have "set U \<subseteq> dataPath ?ns ` {n. plainElem n}"
      using dl(7) names by auto
    moreover have "baseSeq J ?c ?ns = mn_maxWALSeq m"
      using c m by (simp add: baseSeq_def)
    ultimately show ?thesis
      using base dl(2-4)
      by (intro exI [of _ s'] exI [of _ f'] exI [of _ U] exI [of _ "mn_version m"]) simp
  qed
qed

text \<open>Recovery on an empty directory computes the durable state.\<close>

lemma recover_ok:
  assumes "ok (e_store e)" "plainPath (e_ns e)" "walTidy (e_ns e) (contents (e_store e))" "dirReady (e_localDir e) (e_fs e)"
    "local_contents (e_localDir e) (e_fs e) = Map.empty" "e_maxWALSeq e = 0" "e_consistency e = ConsistencyStrong"
    "manifestTidy J (contents (e_store e)) (e_ns e)" "manifestReadable st (e_ns e) (e_store e)"
    "recover st P J e = (None, e')"
  shows "\<exists>s' f' U v db' q'. e' = e\<lparr>e_store := s', e_fs := f', e_uploadedFiles := U, e_manifestVersion := v,
        e_db := Some db', e_maxWALSeq := q'\<rparr> \<and>
      ok s' \<and> contents s' = contents (e_store e) \<and>
      durable P view J (contents (e_store e)) (e_ns e) = Some (view db') \<and>
      (\<forall>q. contents (e_store e) (walPath (e_ns e) q) \<noteq> None \<longrightarrow> q \<le> q') \<and>
      (q' = baseSeq J (contents (e_store e)) (e_ns e) \<or> contents (e_store e) (walPath (e_ns e) q') \<noteq> None) \<and>
      baseSeq J (contents (e_store e)) (e_ns e) \<le> q' \<and>
      set U \<subseteq> dataPath (e_ns e) ` {n. plainElem n}"
proof -
  let ?c = "contents (e_store e)" and ?ns = "e_ns e"
  obtain got s1 where g: "sGet st (manifestPath ?ns) (e_store e) = (got, s1)"
    by (cases "sGet st (manifestPath ?ns) (e_store e)")
  let ?start = "e\<lparr>e_store := s1, e_uploadedFiles := []\<rparr>"
  obtain r e2 where m0: "(case got of Inl _ \<Rightarrow> (None, ?start) | Inr bs \<Rightarrow> recoverManifest st J bs ?start) = (r, e2)"
    by fastforce
  have "r = None"
    using assms(10) g m0 by (cases r) (simp_all add: recover_def Let_def)
  then have m: "(case got of Inl _ \<Rightarrow> (None, e\<lparr>e_store := s1, e_uploadedFiles := []\<rparr>)
      | Inr bs \<Rightarrow> recoverManifest st J bs (e\<lparr>e_store := s1, e_uploadedFiles := []\<rparr>)) = (None, e2)"
    using m0 by simp
  obtain db where o: "pOpen P (dirMap (e_localDir e2) (e_fs e2)) = Inr db"
    using assms(10) g m by (cases "pOpen P (dirMap (e_localDir e2) (e_fs e2))") (simp_all add: recover_def Let_def)
  obtain s2 f2 U v where r2: "e2 = e\<lparr>e_store := s2, e_fs := f2, e_uploadedFiles := U, e_manifestVersion := v, e_maxWALSeq := baseSeq J ?c ?ns\<rparr>"
    "ok s2" "contents s2 = ?c" "dirReady (e_localDir e) f2" "\<forall>x. local_contents (e_localDir e) f2 (''localwal'' @ sep # x) = None"
    "durableBase P view J ?c ?ns = Some (baseSeq J ?c ?ns, view db)" "set U \<subseteq> dataPath ?ns ` {n. plainElem n}"
    using recover_files [OF assms(1,2,4-6,8,9) g m o] by (elim exE conjE)
  let ?e3 = "e2\<lparr>e_db := Some db\<rparr>"
  obtain e4 where w: "replayWALs st P ?e3 = (None, e4)" and l: "replayLocalWALs P e4 = (None, e')"
    using assms(7,10) g m o r2(1) by (auto simp: recover_def Let_def split: prod.splits option.splits)
  obtain s4 db4 q4 where r4: "e4 = ?e3\<lparr>e_store := s4, e_db := Some db4, e_maxWALSeq := q4\<rparr>" "ok s4" "contents s4 = ?c"
    "replaySeqs P ?c ?ns (filter (\<lambda>q. baseSeq J ?c ?ns < q) (walSeqs ?c ?ns)) (view db) = Some (view db4)"
    "\<forall>q. ?c (walPath ?ns q) \<noteq> None \<longrightarrow> q \<le> q4" "baseSeq J ?c ?ns \<le> q4"
    "q4 = baseSeq J ?c ?ns \<or> ?c (walPath ?ns q4) \<noteq> None"
    using replayWALs_ok [OF _ _ _ _ w, of db] r2(1-3) assms(2,3) by simp (elim exE conjE, simp)
  obtain f' where e': "e' = e4\<lparr>e_fs := f'\<rparr>"
    using replayLocalWALs_fresh [OF _ _ l] r4(1) r2(1,4,5) by auto
  have "durable P view J ?c ?ns = Some (view db4)"
    using r2(6) r4(4) by (simp add: durable_def)
  moreover have "e' = e\<lparr>e_store := s4, e_fs := f', e_uploadedFiles := U, e_manifestVersion := v, e_db := Some db4, e_maxWALSeq := q4\<rparr>"
    using e' r4(1) r2(1) by (cases e) simp
  ultimately show ?thesis using r4 r2(7) by blast
qed

end

end
