(* ===== verification/CloudDurability.thy ===== *)
theory CloudDurability
  imports CloudRecovery
begin

text \<open>
  What acknowledged writes and successful syncs do to the durable state. \<open>engineInv\<close> is the
  state of an engine between operations in its synchronous write mode: what is durable is
  what Pebble shows, and the log has nothing above \<open>maxWALSeq\<close>. \<open>engine_Open\<close> on an empty
  directory establishes it when the log's next sequence number is above the checkpoint,
  writes and syncs keep it; the properties of the engine follow.
\<close>

section \<open>The invariant\<close>

definition nsTidy :: "codec \<Rightarrow> (string \<Rightarrow> bytes option) \<Rightarrow> string \<Rightarrow> bool" where
  "nsTidy J c ns \<longleftrightarrow> plainPath ns \<and> walTidy ns c \<and> manifestTidy J c ns \<and> c (ns @ sep # ''manifests'') = None \<and>
     (\<forall>p. c p \<noteq> None \<and> HasPrefix p (manifestVersionsPrefix ns) \<longrightarrow> plainPath p)"

definition walIdle :: "manager \<Rightarrow> bool" where
  "walIdle m \<longleftrightarrow> m_pending m = [] \<and> m_waiters m = [] \<and> m_inflight m = [] \<and> (\<forall>x \<in> set (m_delivered m). fst x < m_nextChan m)"

definition engineInv :: "'db pebble \<Rightarrow> ('db \<Rightarrow> bytes \<Rightarrow> bytes option) \<Rightarrow> codec \<Rightarrow> ('s \<Rightarrow> string \<Rightarrow> bytes option) \<Rightarrow> ('s \<Rightarrow> bool) \<Rightarrow>
    ('s, 'db) engine \<Rightarrow> bool" where
  "engineInv P view J contents ok e \<longleftrightarrow>
     (let c = contents (e_store e); ns = e_ns e in
      ok (e_store e) \<and> nsTidy J c ns \<and> \<not> e_asyncWAL e \<and>
      walIdle (e_wal e) \<and> m_ns (e_wal e) = ns \<and>
      (\<exists>db. e_db e = Some db \<and> durable P view J c ns = Some (view db)) \<and>
      (\<forall>q. c (walPath ns q) \<noteq> None \<longrightarrow> q \<le> e_maxWALSeq e) \<and>
      baseSeq J c ns \<le> e_maxWALSeq e \<and> e_maxWALSeq e < m_nextSeq (e_wal e) \<and>
      set (e_uploadedFiles e) \<subseteq> dataPath ns ` {n. plainElem n})"

lemma engineInvD:
  assumes "engineInv P view J contents ok e"
  shows "ok (e_store e)" "nsTidy J (contents (e_store e)) (e_ns e)" "plainPath (e_ns e)" "\<not> e_asyncWAL e"
    "walIdle (e_wal e)" "m_ns (e_wal e) = e_ns e"
    "e_db e = Some (the (e_db e))" "durable P view J (contents (e_store e)) (e_ns e) = Some (view (the (e_db e)))"
    "contents (e_store e) (walPath (e_ns e) q) \<noteq> None \<Longrightarrow> q \<le> e_maxWALSeq e"
    "baseSeq J (contents (e_store e)) (e_ns e) \<le> e_maxWALSeq e" "e_maxWALSeq e < m_nextSeq (e_wal e)"
    "set (e_uploadedFiles e) \<subseteq> dataPath (e_ns e) ` {n. plainElem n}"
  using assms by (auto simp: engineInv_def Let_def nsTidy_def)

lemma nsTidyD:
  assumes "nsTidy J c ns"
  shows "plainPath ns" "walTidy ns c" "manifestTidy J c ns" "c (ns @ sep # ''manifests'') = None"
    "c p \<noteq> None \<Longrightarrow> HasPrefix p (manifestVersionsPrefix ns) \<Longrightarrow> plainPath p"
  using assms by (auto simp: nsTidy_def)

lemmas engine_paths_sym [simp] = engine_paths_distinct(1-6) [THEN not_sym]

section \<open>Adding a log object to the durable state\<close>

lemma replaySeqs_append:
  "replaySeqs P c ns (xs @ ys) m = (case replaySeqs P c ns xs m of None \<Rightarrow> None | Some m' \<Rightarrow> replaySeqs P c ns ys m')"
  by (induction xs arbitrary: m) (auto split: option.splits sum.splits)

lemma replaySeqs_cong:
  "(\<And>q. q \<in> set qs \<Longrightarrow> c' (walPath ns q) = c (walPath ns q)) \<Longrightarrow> replaySeqs P c' ns qs m = replaySeqs P c ns qs m"
  by (induction qs arbitrary: m) (auto split: option.splits sum.splits)

lemma sorted_list_of_set_max:
  assumes "finite A" "\<forall>x \<in> A. x < (q::'a::linorder)"
  shows "sorted_list_of_set (insert q A) = sorted_list_of_set A @ [q]"
proof (rule sorted_distinct_set_unique)
  show "sorted (sorted_list_of_set A @ [q])" "distinct (sorted_list_of_set A @ [q])"
    using assms by (auto simp: sorted_append intro: less_imp_le)
  show "set (sorted_list_of_set (insert q A)) = set (sorted_list_of_set A @ [q])"
    using assms(1) by (simp del: sorted_list_of_set_insert_remove)
qed (simp_all del: sorted_list_of_set_insert_remove)

lemma walSeqs_put:
  assumes "plainPath ns" "\<And>x. c (walPath ns x) \<noteq> None \<Longrightarrow> x < q"
  shows "walSeqs (c(walPath ns q \<mapsto> data)) ns = walSeqs c ns @ [q]"
proof -
  have "{x. (c(walPath ns q \<mapsto> data)) (walPath ns x) \<noteq> None} = insert q {x. c (walPath ns x) \<noteq> None}"
    using assms(1) by auto
  then show ?thesis
    using assms(2) sorted_list_of_set_max [of "{x. c (walPath ns x) \<noteq> None}" q] by (simp add: walSeqs_def)
qed

lemma durableBase_cong:
  assumes "c' (manifestPath ns) = c (manifestPath ns)" "manifestTidy J c ns"
    "\<And>n. plainElem n \<Longrightarrow> c' (dataPath ns n) = c (dataPath ns n)"
  shows "durableBase P view J c' ns = durableBase P view J c ns"
proof (cases "c (manifestPath ns)")
  case (Some bs)
  show ?thesis
  proof (cases "decodeManifest J bs")
    case (Inr m)
    then have "checkpointFiles c' ns (mn_files m) = checkpointFiles c ns (mn_files m)"
      using assms(2,3) Some by (auto simp: checkpointFiles_def manifestTidy_def fun_eq_iff)
    then show ?thesis using assms(1) Some Inr by (simp add: durableBase_def)
  qed (use assms(1) Some in \<open>simp add: durableBase_def\<close>)
qed (use assms(1) in \<open>simp add: durableBase_def\<close>)

lemma durableBase_seq: "durableBase P view J c ns = Some (q0, m) \<Longrightarrow> q0 = baseSeq J c ns"
  by (auto simp: durableBase_def baseSeq_def split: option.splits sum.splits)

lemma durable_put:
  assumes "nsTidy J c ns" "durable P view J c ns = Some m" "\<And>x. c (walPath ns x) \<noteq> None \<Longrightarrow> x < q" "baseSeq J c ns < q"
    "pSetRepr P data = Inr b"
  shows "durable P view J (c(walPath ns q \<mapsto> data)) ns = Some (applyOps b m)"
proof -
  let ?c = "c(walPath ns q \<mapsto> data)"
  have ns: "plainPath ns" and mt: "manifestTidy J c ns" using assms(1) by (simp_all add: nsTidyD)
  have base: "durableBase P view J ?c ns = durableBase P view J c ns"
    using ns mt by (intro durableBase_cong) auto
  obtain q0 m0 where m0: "durableBase P view J c ns = Some (q0, m0)"
    "replaySeqs P c ns (filter (\<lambda>q. q0 < q) (walSeqs c ns)) m0 = Some m"
    using assms(2) by (auto simp: durable_def split: option.splits)
  have q0: "q0 = baseSeq J c ns" using m0(1) by (rule durableBase_seq)
  have "?c (walPath ns x) = c (walPath ns x)" if "x \<in> set (filter (\<lambda>q. q0 < q) (walSeqs c ns))" for x
  proof -
    have "x < q" using that assms(3) [of x] by (simp add: walSeqs_def)
    then have "walPath ns x \<noteq> walPath ns q" using ns by auto
    then show ?thesis by simp
  qed
  then have "replaySeqs P ?c ns (filter (\<lambda>q. q0 < q) (walSeqs c ns)) m0 = Some m"
    using m0(2) replaySeqs_cong by metis
  then show ?thesis
    using m0(1) base assms(4,5) q0 walSeqs_put [OF ns assms(3)] by (simp add: durable_def replaySeqs_append)
qed

lemma nsTidy_wal [simp]:
  assumes "nsTidy J c ns"
  shows "nsTidy J (c(walPath ns q \<mapsto> data)) ns"
proof -
  have ns: "plainPath ns" using assms by (rule nsTidyD)
  then have "walPath ns q \<noteq> ns @ sep # ''manifests''" "\<not> HasPrefix (walPath ns q) (manifestVersionsPrefix ns)"
    by (auto simp: walPath_eq manifestVersionsPrefix_eq HasPrefix_iff walDir_def sep_def)
  then show ?thesis using assms ns by (auto simp: nsTidy_def manifestTidy_def)
qed

section \<open>Writes\<close>

text \<open>A write in synchronous mode, on an idle log, with or without batching: it puts one
  object under the next sequence number and then applies the batch.\<close>

lemma upload_single:
  "upload st \<lparr>fl_seq = q, fl_data = d, fl_waiters = [ch]\<rparr> m s =
     (case sPut st (walPath (m_ns m) q) d s of
        (Inl e, s1) \<Rightarrow> (deliver [ch] (Some (Wrap ''walcloud: writing'' e)) m, s1)
      | (Inr _, s1) \<Rightarrow> (deliver [ch] None m, s1))"
  by (auto simp: upload_def split: prod.splits sum.splits)

lemma map_of_fresh: "\<forall>x \<in> set xs. fst x \<noteq> k \<Longrightarrow> map_of (xs @ [(k, v)]) k = Some v"
  by (induction xs) (auto simp: map_add_def)

lemma write_ok:
  assumes "\<not> e_asyncWAL e" "walIdle (e_wal e)" "e_db e = Some db" "writeWALAndApply st P env b e = (Inr seq, e')"
  shows "\<exists>s' m' db' mt. seq = m_nextSeq (e_wal e) \<and>
    e' = e\<lparr>e_store := s', e_wal := m', e_db := Some db', e_metrics := mt,
           e_maxWALSeq := (if seq > e_maxWALSeq e then seq else e_maxWALSeq e)\<rparr> \<and>
    sPut st (walPath (m_ns (e_wal e)) seq) (pRepr P b) (e_store e) = (Inr (), s') \<and> pApply P b db = Inr db' \<and>
    walIdle m' \<and> m_ns m' = m_ns (e_wal e) \<and> m_nextSeq m' = m_nextSeq (e_wal e) + 1"
proof (cases "m_batchWindow (e_wal e) \<le> 0")
  case True
  obtain s' where p: "sPut st (walPath (m_ns (e_wal e)) (m_nextSeq (e_wal e))) (pRepr P b) (e_store e) = (Inr (), s')"
    and c: "\<not> m_closed (e_wal e)"
    using assms(1,4) True by (auto simp: writeWALAndApply_def WriteRecord_def Let_def split: prod.splits sum.splits if_splits)
  obtain db' where a: "pApply P b db = Inr db'"
    using assms(1,3,4) True p c
    by (cases "pApply P b db") (simp_all add: writeWALAndApply_def WriteRecord_def Let_def applyLocally_def meter_def)
  show ?thesis
    using assms True p c a
    by (cases e) (auto simp: writeWALAndApply_def WriteRecord_def Let_def applyLocally_def meter_def walIdle_def)
next
  case False
  let ?m = "e_wal e" and ?q = "m_nextSeq (e_wal e)" and ?ch = "m_nextChan (e_wal e)" and ?d = "pRepr P b"
  have i: "m_pending ?m = []" "m_waiters ?m = []" "m_inflight ?m = []" "\<forall>x \<in> set (m_delivered ?m). fst x < ?ch"
    using assms(2) by (simp_all add: walIdle_def)
  have c: "\<not> m_closed ?m" "\<not> en_ctxDone env"
    using assms(1,4) False by (auto simp: writeWALAndApply_def WriteRecord_def Let_def enqueue_def split: if_splits prod.splits)
  have f: "\<forall>x \<in> set (m_delivered ?m). fst x \<noteq> ?ch" using i(4) by auto
  obtain s' where p: "sPut st (walPath (m_ns ?m) ?q) ?d (e_store e) = (Inr (), s')"
    using assms(1,4) False c i map_of_fresh [OF f]
    by (auto simp: writeWALAndApply_def WriteRecord_def Let_def enqueue_def awaitCommit_def flushPending_def takePending_def
        wgWait_def upload_single mergeBatchSegments_def meter_def deliver_def split: prod.splits sum.splits)
  obtain db' where a: "pApply P b db = Inr db'"
    using assms(1,3,4) False c i p map_of_fresh [OF f]
    by (cases "pApply P b db") (simp_all add: writeWALAndApply_def WriteRecord_def Let_def enqueue_def awaitCommit_def flushPending_def takePending_def
        wgWait_def upload_single mergeBatchSegments_def meter_def deliver_def applyLocally_def)
  show ?thesis
    using assms(1,3,4) False c i p a map_of_fresh [OF f]
    by (cases e) (auto simp: writeWALAndApply_def WriteRecord_def Let_def enqueue_def awaitCommit_def flushPending_def takePending_def
        wgWait_def upload_single mergeBatchSegments_def meter_def deliver_def applyLocally_def walIdle_def less_Suc_eq)
qed

context cloud_engine
begin

lemma write_keeps:
  assumes "engineInv P view J contents ok e" "m_nextSeq (e_wal e) \<noteq> - 1" "writeWALAndApply st P env b e = (Inr seq, e')"
  shows "engineInv P view J contents ok e'" "view (the (e_db e')) = applyOps b (view (the (e_db e)))" "seq = m_nextSeq (e_wal e)"
    "m_nextSeq (e_wal e') = m_nextSeq (e_wal e) + 1" "e_ns e' = e_ns e"
    "contents (e_store e') = (contents (e_store e))(walPath (e_ns e) seq \<mapsto> pRepr P b)" "e_consistency e' = e_consistency e"
proof -
  let ?c = "contents (e_store e)" and ?ns = "e_ns e"
  note I = engineInvD [OF assms(1)]
  obtain s' m' db' mt where w: "seq = m_nextSeq (e_wal e)"
    "e' = e\<lparr>e_store := s', e_wal := m', e_db := Some db', e_metrics := mt,
           e_maxWALSeq := (if seq > e_maxWALSeq e then seq else e_maxWALSeq e)\<rparr>"
    "sPut st (walPath ?ns seq) (pRepr P b) (e_store e) = (Inr (), s')" "pApply P b (the (e_db e)) = Inr db'"
    "walIdle m'" "m_ns m' = ?ns" "m_nextSeq m' = seq + 1"
    using write_ok [OF I(4,5,7) assms(3)] I(6) by auto
  have p: "plainPath (walPath ?ns seq)" using I(3) by simp
  have c': "contents s' = ?c(walPath ?ns seq \<mapsto> pRepr P b)" "ok s'"
    using put_contents [OF I(1) p w(3)] put_frame [OF I(1) p w(3)] by auto
  have less: "x < seq" if "?c (walPath ?ns x) \<noteq> None" for x
    using I(9) [OF that] I(11) w(1) by simp
  have base: "baseSeq J ?c ?ns < seq" "baseSeq J (contents s') ?ns = baseSeq J ?c ?ns"
    using I(10,11) w(1) c'(1) I(3) by (auto simp: baseSeq_def)
  have v: "view db' = applyOps b (view (the (e_db e)))"
    using apply_view [OF w(4)] .
  have d: "durable P view J (contents s') ?ns = Some (view db')"
    using durable_put [OF I(2,8) less base(1) repr_parse] c'(1) v by simp
  have s: "seq < seq + 1" using assms(2) w(1) word_less_Suc [of seq seq] by simp
  have "q \<le> seq" if "contents s' (walPath ?ns q) \<noteq> None" for q
    using that less [of q] c'(1) I(3) by (cases "q = seq") auto
  then show "engineInv P view J contents ok e'"
    using w I(2,4,11,12) c' d base s nsTidy_wal [OF I(2), of seq "pRepr P b"]
    by (simp add: engineInv_def Let_def)
  show "view (the (e_db e')) = applyOps b (view (the (e_db e)))" "seq = m_nextSeq (e_wal e)"
    "m_nextSeq (e_wal e') = m_nextSeq (e_wal e) + 1" "e_ns e' = e_ns e" "e_consistency e' = e_consistency e"
    "contents (e_store e') = ?c(walPath ?ns seq \<mapsto> pRepr P b)"
    using w v c' by simp_all
qed

end

section \<open>Syncs\<close>

text \<open>Files whose name says they never change hold in the store what the checkpoint has.\<close>

definition tablesStored :: "(string \<Rightarrow> bytes option) \<Rightarrow> string \<Rightarrow> string list \<Rightarrow> (string \<times> bytes) list \<Rightarrow> bool" where
  "tablesStored c ns uploaded entries \<longleftrightarrow>
     (\<forall>(n, d) \<in> set entries. dataPath ns n \<in> set uploaded \<and> \<not> isMutable n \<longrightarrow> c (dataPath ns n) = Some d)"

context cloud_engine
begin

lemma uploadLoop_ok:
  assumes "ok (e_store e)" "plainPath (e_ns e)" "\<forall>x \<in> set entries. plainElem (fst x)" "distinct (map fst entries)"
    "tablesStored (contents (e_store e)) (e_ns e) prev entries" "uploadLoop st J prev entries mfs e = (Inr mfs', e')"
  shows "\<exists>s' f' U. e' = e\<lparr>e_store := s', e_fs := f', e_uploadedFiles := U\<rparr> \<and> ok s' \<and>
    (\<forall>(n, d) \<in> set entries. contents s' (dataPath (e_ns e) n) = Some d) \<and>
    (\<forall>p. p \<notin> dataPath (e_ns e) ` fst ` set entries \<longrightarrow> contents s' p = contents (e_store e) p) \<and>
    map mf_name mfs' = map mf_name mfs @ map fst entries \<and>
    set U = set (e_uploadedFiles e) \<union> dataPath (e_ns e) ` fst ` set entries"
  using assms
proof (induction entries arbitrary: e mfs)
  case Nil
  then show ?case
    by (intro exI [of _ "e_store e"] exI [of _ "e_fs e"] exI [of _ "e_uploadedFiles e"]) auto
next
  case (Cons x entries)
  obtain n d where x: "x = (n, d)" by (cases x)
  let ?p = "dataPath (e_ns e) n"
  let ?mfs = "mfs @ [\<lparr>mf_name = n, mf_size = length d, mf_checksum = jSha256Hex J d\<rparr>]"
  have p: "plainPath ?p" using Cons.prems(2,3) x by simp
  have "fst (nextFault (e_fs e)) = None"
    using Cons.prems(6) by (auto simp: x Let_def split: prod.splits option.splits)
  then obtain f1 where f: "nextFault (e_fs e) = (None, f1)" by (cases "nextFault (e_fs e)") simp
  have "\<exists>s1. ok s1 \<and> contents s1 ?p = Some d \<and> (\<forall>q. q \<noteq> ?p \<longrightarrow> contents s1 q = contents (e_store e) q) \<and>
      uploadLoop st J prev entries ?mfs (e\<lparr>e_fs := f1, e_store := s1, e_uploadedFiles := List.insert ?p (e_uploadedFiles e)\<rparr>) = (Inr mfs', e')"
  proof (cases "?p \<in> set prev \<and> \<not> isMutable n")
    case True
    then have "contents (e_store e) ?p = Some d" using Cons.prems(5) x by (simp add: tablesStored_def)
    moreover have "e\<lparr>e_fs := f1, e_store := e_store e, e_uploadedFiles := List.insert ?p (e_uploadedFiles e)\<rparr> =
        e\<lparr>e_fs := f1, e_uploadedFiles := List.insert ?p (e_uploadedFiles e)\<rparr>" by (cases e) simp
    ultimately show ?thesis
      using True Cons.prems(1,6) f by (intro exI [of _ "e_store e"]) (simp add: x Let_def flip: dataPath_def)
  next
    case False
    obtain s1 where s: "sPut st ?p d (e_store e) = (Inr (), s1)"
      using Cons.prems(6) False f by (auto simp: x Let_def split: prod.splits sum.splits simp flip: dataPath_def)
    have "uploadLoop st J prev entries ?mfs (e\<lparr>e_fs := f1, e_store := s1, e_uploadedFiles := List.insert ?p (e_uploadedFiles e)\<rparr>) = (Inr mfs', e')"
      using Cons.prems(6) False f s by (simp add: x Let_def flip: dataPath_def split: if_splits)
    then show ?thesis
      using put_frame [OF Cons.prems(1) p s] put_ok [OF Cons.prems(1) p s] by (intro exI [of _ s1]) simp
  qed
  then obtain s1 where s1: "ok s1" "contents s1 ?p = Some d" "\<And>q. q \<noteq> ?p \<Longrightarrow> contents s1 q = contents (e_store e) q"
      "uploadLoop st J prev entries ?mfs (e\<lparr>e_fs := f1, e_store := s1, e_uploadedFiles := List.insert ?p (e_uploadedFiles e)\<rparr>) = (Inr mfs', e')"
    by blast
  have fresh: "?p \<notin> dataPath (e_ns e) ` fst ` set entries"
    using Cons.prems(2-4) x by (auto simp: image_iff)
  have "tablesStored (contents s1) (e_ns e) prev entries"
  proof -
    have "contents s1 (dataPath (e_ns e) a) = contents (e_store e) (dataPath (e_ns e) a)" if "(a, b) \<in> set entries" for a b
      using that fresh by (intro s1(3)) (metis fst_conv image_eqI)
    then show ?thesis using Cons.prems(5) unfolding tablesStored_def by fastforce
  qed
  with Cons.IH [OF _ _ _ _ _ s1(4)] s1(1) Cons.prems(2-4) obtain s' f' U where ih:
    "e' = e\<lparr>e_store := s', e_fs := f', e_uploadedFiles := U\<rparr>" "ok s'"
    "\<forall>(n, d) \<in> set entries. contents s' (dataPath (e_ns e) n) = Some d"
    "\<forall>p. p \<notin> dataPath (e_ns e) ` fst ` set entries \<longrightarrow> contents s' p = contents s1 p"
    "map mf_name mfs' = map mf_name ?mfs @ map fst entries"
    "set U = insert ?p (set (e_uploadedFiles e)) \<union> dataPath (e_ns e) ` fst ` set entries"
    by (cases e) auto
  show ?case
    using ih s1(2,3) fresh by (intro exI [of _ s'] exI [of _ f'] exI [of _ U]) (auto simp: x)
qed

lemma deleteStale_ok:
  assumes "ok s" "\<forall>p \<in> set ps. plainPath p"
  shows "ok (deleteStale st names ps s)"
    "removes {p \<in> set ps. Base p \<notin> set names} (contents s) (contents (deleteStale st names ps s))"
proof -
  have "ok (deleteStale st names ps s) \<and>
    removes {p \<in> set ps. Base p \<notin> set names} (contents s) (contents (deleteStale st names ps s))"
    using assms
  proof (induction ps arbitrary: s)
    case (Cons p ps)
    have sub: "{q \<in> set ps. Base q \<notin> set names} \<subseteq> {q \<in> set (p # ps). Base q \<notin> set names}" by auto
    show ?case
    proof (cases "Base p \<in> set names")
      case True
      then show ?thesis using Cons removes_mono [OF _ sub] by auto
    next
      case False
      obtain r s1 where d: "sDelete st p s = (r, s1)" by fastforce
      have "ok s1" "contents s1 = contents s \<or> contents s1 = (contents s)(p := None)"
        using delete_frame [OF Cons.prems(1) _ d] Cons.prems(2) by auto
      then show ?thesis
        using False d Cons.IH [of s1] Cons.prems(2) removes_mono [OF _ sub]
          removes_trans [OF removes_delete [of p "{q \<in> set (p # ps). Base q \<notin> set names}" "contents s1" "contents s"]]
        by auto
    qed
  qed simp
  then show "ok (deleteStale st names ps s)"
    "removes {p \<in> set ps. Base p \<notin> set names} (contents s) (contents (deleteStale st names ps s))" by auto
qed

lemma deleteAll_ok:
  assumes "ok s" "\<forall>p \<in> set ps. plainPath p"
  shows "ok (deleteAll st ps s) \<and> removes (set ps) (contents s) (contents (deleteAll st ps s))"
  using assms
proof (induction ps arbitrary: s)
  case (Cons p ps)
  obtain r s1 where d: "sDelete st p s = (r, s1)" by fastforce
  have "ok s1" "contents s1 = contents s \<or> contents s1 = (contents s)(p := None)"
    using delete_frame [OF Cons.prems(1) _ d] Cons.prems(2) by auto
  then show ?case
    using d Cons.IH [of s1] Cons.prems(2) removes_mono [of "set ps" _ _ "set (p # ps)"]
      removes_trans [OF removes_delete [of p "set (p # ps)" "contents s1" "contents s"]]
    by auto
qed simp

lemma pruneManifests_ok:
  assumes "ok s" "nsTidy J (contents s) ns"
  shows "ok (pruneManifests st ns s) \<and>
    removes {p. HasPrefix p (manifestVersionsPrefix ns)} (contents s) (contents (pruneManifests st ns s))"
proof -
  have ns: "plainPath (ns @ sep # ''manifests'')" "plainPath ns" using nsTidyD(1) [OF assms(2)] by simp_all
  obtain r s1 where l: "sList st ((ns @ sep # ''manifests'') @ [sep]) s = (r, s1)" by fastforce
  have s1: "ok s1" "contents s1 = contents s" using list_frame [OF assms(1) ns(1) l] by auto
  show ?thesis
  proof (cases r)
    case (Inl e)
    then show ?thesis using l s1 by (simp add: pruneManifests_def manifestVersionsPrefix_eq [OF ns(2)])
  next
    case (Inr ps)
    then have ps: "set ps = {q. contents s q \<noteq> None \<and> HasPrefix q (manifestVersionsPrefix ns)}"
      using list_ok [OF assms(1) ns(1) nsTidyD(4) [OF assms(2)]] l by (simp add: manifestVersionsPrefix_eq [OF ns(2)])
    let ?old = "take (length ps - 10) (sort ps)"
    have sub: "set ?old \<subseteq> set ps" using set_take_subset [of _ "sort ps"] by simp
    then have "\<forall>p \<in> set ?old. plainPath p"
      using ps nsTidyD(5) [OF assms(2)] by blast
    then have "ok (deleteAll st ?old s1) \<and> removes (set ?old) (contents s) (contents (deleteAll st ?old s1))"
      using deleteAll_ok [OF s1(1)] s1(2) by metis
    moreover have "set ?old \<subseteq> {p. HasPrefix p (manifestVersionsPrefix ns)}" using sub ps by auto
    moreover have "sList st (manifestVersionsPrefix ns) s = (Inr ps, s1)"
      using l Inr by (simp add: manifestVersionsPrefix_eq [OF ns(2)])
    ultimately show ?thesis
      using s1 by (auto simp: pruneManifests_def elim: removes_mono)
  qed
qed

end

lemma removes_keep: "removes X c c' \<Longrightarrow> p \<notin> X \<Longrightarrow> c' p = c p"
  by (auto simp: removes_def)

text \<open>The tidiness of a namespace after objects of it are removed, or its files are put.\<close>

lemma nsTidy_removes: "nsTidy J c ns \<Longrightarrow> removes X c c' \<Longrightarrow> nsTidy J c' ns"
proof -
  assume t: "nsTidy J c ns" and r: "removes X c c'"
  have some: "c' p = Some y \<Longrightarrow> c p = Some y" and none: "c p = None \<Longrightarrow> c' p = None" for p y
    using r unfolding removes_def by (metis option.distinct(1))+
  have "walTidy ns c'" using t none some unfolding nsTidy_def walTidy_def by blast
  moreover have "manifestTidy J c' ns" using t some unfolding nsTidy_def manifestTidy_def by blast
  ultimately show ?thesis using t none some unfolding nsTidy_def by blast
qed

lemma nsTidy_data:
  assumes "nsTidy J c ns" "\<forall>p. p \<notin> dataPath ns ` {n. plainElem n} \<longrightarrow> c' p = c p"
  shows "nsTidy J c' ns"
proof -
  have ns: "plainPath ns" using assms(1) by (rule nsTidyD)
  have keep: "c' p = c p" if "\<And>n. plainElem n \<Longrightarrow> dataPath ns n \<noteq> p" for p
  proof -
    have "p \<notin> dataPath ns ` {n. plainElem n}" using that by auto
    then show ?thesis using assms(2) by simp
  qed
  have m: "c' (manifestPath ns) = c (manifestPath ns)"
    using engine_paths_distinct(5) [OF ns] by (intro keep)
  have d: "c' (ns @ sep # walDir) = c (ns @ sep # walDir)"
    using walDir_not(3) [OF ns] by (intro keep)
  have w: "c' p = c p" if "HasPrefix p (walPrefix ns)" for p
    using that walPrefix_not(3) [OF ns] by (intro keep) auto
  have v: "c' p = c p" if "HasPrefix p (manifestVersionsPrefix ns)" for p
    using manifests_prefix(4) [OF ns that] by (intro keep) auto
  have x: "c' (ns @ sep # ''manifests'') = c (ns @ sep # ''manifests'')"
    using ns by (intro keep) (simp add: dataPath_eq sep_def)
  have "walTidy ns c'" unfolding walTidy_def
  proof (intro conjI allI impI)
    show "c' (ns @ sep # walDir) = None" using nsTidyD(2) [OF assms(1)] d by (simp add: walTidy_def)
    fix p q assume p: "c' p \<noteq> None \<and> HasPrefix p (walPrefix ns) \<and> parseWALSeq p = Inr q"
    then have "c p \<noteq> None" using w [of p] by auto
    then show "p = walPath ns q" using nsTidyD(2) [OF assms(1)] p by (simp add: walTidy_def)
  qed
  moreover have "manifestTidy J c' ns" using nsTidyD(3) [OF assms(1)] m unfolding manifestTidy_def by simp
  moreover have "plainPath p" if "c' p \<noteq> None" "HasPrefix p (manifestVersionsPrefix ns)" for p
    using nsTidyD(5) [OF assms(1)] v that by metis
  ultimately show ?thesis
    using nsTidyD(4) [OF assms(1)] ns x unfolding nsTidy_def by simp
qed

lemma nsTidy_manifest:
  assumes "nsTidy J c ns" "\<forall>m. decodeManifest J bs = Inr m \<longrightarrow> (\<forall>mf \<in> set (mn_files m). plainElem (mf_name mf))"
  shows "nsTidy J (c(manifestVersionPath ns v \<mapsto> bs, manifestPath ns \<mapsto> bs)) ns" (is "nsTidy J ?c ns")
proof -
  have ns: "plainPath ns" using assms(1) by (rule nsTidyD)
  have n: "manifestVersionPath ns v \<noteq> ns @ sep # ''manifests''" "manifestPath ns \<noteq> ns @ sep # ''manifests''"
    using ns by (auto simp: manifestVersionPath_eq manifestPath_eq)
  have "walTidy ns ?c"
    using nsTidyD(2) [OF assms(1)] walPrefix_not [OF ns] walDir_not [OF ns] unfolding walTidy_def
    by (metis (no_types, lifting) fun_upd_apply)
  then show ?thesis
    using assms ns n by (auto simp: nsTidy_def manifestTidy_def)
qed

lemma map_of_sort_key: "distinct (map fst xs) \<Longrightarrow> map_of (sort_key fst xs) = map_of xs"
  by (subst map_of_inject_set) (simp_all add: distinct_map)

context cloud_engine
begin

lemma Flush_idle: "walIdle m \<Longrightarrow> Flush st m s = (None, m\<lparr>m_commitTimer := False, m_pendingSeq := 0\<rparr>, s)"
  by (cases m) (simp add: walIdle_def Flush_def takePending_def wgWait_def)

lemma syncCheckpoint_ok:
  assumes "e_db e = Some db" "walIdle (e_wal e)" "syncCheckpoint st P e = (Inr entries, e1)"
  shows "\<exists>db1 fls f1. e1 = e\<lparr>e_db := Some db1, e_wal := (e_wal e)\<lparr>m_commitTimer := False, m_pendingSeq := 0\<rparr>, e_fs := f1\<rparr> \<and>
    view db1 = view db \<and> pAsyncFlush P db = Inr db1 \<and> pCheckpoint P db1 = Inr fls \<and> entries = sort_key fst fls \<and>
    (\<exists>db2. pOpen P (map_of entries) = Inr db2 \<and> view db2 = view db) \<and>
    distinct (map fst entries) \<and> (\<forall>x \<in> set entries. plainElem (fst x))"
proof -
  obtain db1 where f: "pAsyncFlush P db = Inr db1"
    using assms(1,3) by (auto simp: syncCheckpoint_def split: sum.splits)
  obtain fls f1 where c: "pCheckpoint P db1 = Inr fls" and e: "entries = sort_key fst fls"
      "e1 = e\<lparr>e_db := Some db1, e_wal := (e_wal e)\<lparr>m_commitTimer := False, m_pendingSeq := 0\<rparr>, e_fs := f1\<rparr>"
    using assms f Flush_idle [OF assms(2), of "e_store e"]
    by (cases e) (auto simp: syncCheckpoint_def Let_def split: sum.splits prod.splits option.splits)
  have n: "distinct (map fst fls)" "list_all (plainElem \<circ> fst) fls" using checkpoint_names [OF c] by auto
  have "\<exists>db2. pOpen P (map_of entries) = Inr db2 \<and> view db2 = view db"
    using open_checkpoint [OF c] flush_view [OF f] map_of_sort_key [OF n(1)] e(1) by simp
  moreover have "distinct (map fst entries)" "\<forall>x \<in> set entries. plainElem (fst x)"
    using n e(1) by (auto simp: distinct_map list_all_iff)
  ultimately show ?thesis using c e f flush_view [OF f] by blast
qed

text \<open>The objects after the uploads of a sync: the checkpoint, the manifest that names it,
  nothing in the log up to the sequence number it covers.\<close>

lemma syncUpload_ok:
  assumes "ok (e_store e)" "nsTidy J (contents (e_store e)) (e_ns e)"
    "set (e_uploadedFiles e) \<subseteq> dataPath (e_ns e) ` {n. plainElem n}"
    "distinct (map fst entries)" "\<forall>x \<in> set entries. plainElem (fst x)"
    "tablesStored (contents (e_store e)) (e_ns e) (e_uploadedFiles e) entries"
    "syncUpload st J env entries e = (None, e')"
  shows "\<exists>s' f' U v mt m bs. e' = e\<lparr>e_store := s', e_fs := f', e_uploadedFiles := U, e_manifestVersion := v, e_metrics := mt\<rparr> \<and>
    ok s' \<and> nsTidy J (contents s') (e_ns e) \<and> set U \<subseteq> dataPath (e_ns e) ` {n. plainElem n} \<and>
    contents s' (manifestPath (e_ns e)) = Some bs \<and> decodeManifest J bs = Inr m \<and> mn_maxWALSeq m = e_maxWALSeq e \<and>
    checkpointFiles (contents s') (e_ns e) (mn_files m) = map_of entries \<and>
    (\<forall>q \<le> e_maxWALSeq e. contents s' (walPath (e_ns e) q) = None) \<and>
    (\<forall>q. contents s' (walPath (e_ns e) q) \<noteq> None \<longrightarrow> contents (e_store e) (walPath (e_ns e) q) \<noteq> None)"
proof -
  let ?c = "contents (e_store e)" and ?ns = "e_ns e" and ?prev = "e_uploadedFiles e"
  have ns: "plainPath ?ns" using nsTidyD(1) [OF assms(2)] .
  obtain mfs e1 where u: "uploadLoop st J ?prev entries [] (e\<lparr>e_uploadedFiles := []\<rparr>) = (Inr mfs, e1)"
    using assms(7) by (auto simp: syncUpload_def Let_def split: prod.splits sum.splits)
  from uploadLoop_ok [OF _ _ assms(5,4) _ u] assms(1,6) ns obtain s1 f1 U where r1:
    "e1 = e\<lparr>e_store := s1, e_fs := f1, e_uploadedFiles := U\<rparr>" "ok s1"
    "\<forall>(n, d) \<in> set entries. contents s1 (dataPath ?ns n) = Some d"
    "\<forall>p. p \<notin> dataPath ?ns ` fst ` set entries \<longrightarrow> contents s1 p = ?c p"
    "map mf_name mfs = map fst entries" "set U = dataPath ?ns ` fst ` set entries"
    by simp (elim exE conjE, simp)
  let ?s2 = "deleteStale st (map fst entries) ?prev s1"
  have prevPlain: "\<forall>p \<in> set ?prev. plainPath p" using assms(3) ns by auto
  note r2 = deleteStale_ok [OF r1(2) prevPlain, of "map fst entries"]
  have tidy1: "nsTidy J (contents s1) ?ns"
    using nsTidy_data [OF assms(2)] r1(4) assms(5) by (metis (mono_tags, lifting) image_iff mem_Collect_eq)
  have tidy2: "nsTidy J (contents ?s2) ?ns" using nsTidy_removes [OF tidy1 r2(2)] .
  let ?mf = "\<lparr>mn_version = e_manifestVersion e + 1, mn_maxWALSeq = e_maxWALSeq e, mn_createdAt = en_now env,
      mn_prevVersion = e_manifestVersion e, mn_files = mfs\<rparr>"
  obtain bs where j: "jMarshal J ?mf = Inr bs"
    using assms(7) u r1(1) by (cases "jMarshal J ?mf") (simp_all add: syncUpload_def Let_def)
  have dec: "decodeManifest J bs = Inr ?mf" using json [OF j] by (simp add: decodeManifest_def)
  let ?vp = "manifestVersionPath ?ns (e_manifestVersion e + 1)"
  obtain s3 where p3: "sPut st ?vp bs ?s2 = (Inr (), s3)"
    using assms(7) u r1(1) j by (auto simp: syncUpload_def Let_def split: prod.splits sum.splits)
  obtain s4 where p4: "sPut st (manifestPath ?ns) bs s3 = (Inr (), s4)"
    using assms(7) u r1(1) j p3 by (auto simp: syncUpload_def Let_def split: prod.splits sum.splits)
  have vp: "plainPath ?vp" "plainPath (manifestPath ?ns)" using ns by simp_all
  have ok3: "ok s3" "contents s3 = (contents ?s2)(?vp \<mapsto> bs)"
    using put_frame [OF r2(1) vp(1) p3] put_contents [OF r2(1) vp(1) p3] by auto
  have ok4: "ok s4" "contents s4 = (contents ?s2)(?vp \<mapsto> bs, manifestPath ?ns \<mapsto> bs)"
    using put_frame [OF ok3(1) vp(2) p4] put_contents [OF ok3(1) vp(2) p4] ok3(2) by auto
  have names: "\<forall>mf \<in> set mfs. plainElem (mf_name mf)"
    using r1(5) assms(5) by (metis (no_types, lifting) image_iff list.set_map)
  have tidy4: "nsTidy J (contents s4) ?ns"
    unfolding ok4(2) using dec names by (intro nsTidy_manifest [OF tidy2]) simp
  let ?s5 = "pruneManifests st ?ns s4"
  note r5 = pruneManifests_ok [OF ok4(1) tidy4]
  have tidy5: "nsTidy J (contents ?s5) ?ns" using nsTidy_removes [OF tidy4] r5 by blast
  obtain n s6 where g: "GC st ?ns (e_maxWALSeq e) (e_orphanWALTTL e) (en_now env) ?s5 = ((n, None), s6)"
    and e': "e' = meter (\<lambda>m. m\<lparr>mt_walObjectsGCd := mt_walObjectsGCd m + int n\<rparr>)
      (e\<lparr>e_fs := f1, e_uploadedFiles := U, e_manifestVersion := e_manifestVersion e + 1, e_store := s6\<rparr>)"
    using assms(7) u r1(1) j p3 p4 by (auto simp: syncUpload_def Let_def split: prod.splits option.splits)
  have ok5: "ok ?s5" using r5 by blast
  note r6 = GC_frame [OF ok5 ns nsTidyD(2) [OF tidy5] g]
  have tidy6: "nsTidy J (contents s6) ?ns" using nsTidy_removes [OF tidy5 r6(2)] .
  \<comment> \<open>what the later steps leave alone\<close>
  have keep: "contents s6 p = contents s4 p" if "\<not> HasPrefix p (manifestVersionsPrefix ?ns)" "\<forall>q. p \<noteq> walPath ?ns q" for p
  proof -
    have "contents s6 p = contents ?s5 p" using that(2) by (intro removes_keep [OF r6(2)]) blast
    also have "\<dots> = contents s4 p" using that(1) r5 by (intro removes_keep) auto
    finally show ?thesis .
  qed
  have less: "contents s6 p \<noteq> None \<Longrightarrow> contents s4 p \<noteq> None" for p
    using r5 r6(2) unfolding removes_def by metis
  have man: "contents s6 (manifestPath ?ns) = Some bs"
    using keep [of "manifestPath ?ns"] manifests_prefix(1) [OF ns] ns ok4(2) by auto
  have files: "contents s6 (dataPath ?ns a) = map_of entries a" if a: "a \<in> fst ` set entries" for a
  proof -
    have pa: "plainElem a" using a assms(5) by auto
    obtain d where d: "(a, d) \<in> set entries" using a by auto
    have "contents s6 (dataPath ?ns a) = contents s4 (dataPath ?ns a)"
      using keep [of "dataPath ?ns a"] manifests_prefix(4) [OF ns _ pa] pa ns by auto
    also have "\<dots> = contents ?s2 (dataPath ?ns a)" using ok4(2) pa ns by simp
    also have "\<dots> = contents s1 (dataPath ?ns a)"
      using Base_dataPath [OF ns pa] a by (intro removes_keep [OF r2(2)]) simp
    also have "\<dots> = Some d" using r1(3) d by auto
    also have "\<dots> = map_of entries a" using d assms(4) by simp
    finally show ?thesis .
  qed
  have "fst ` set entries = mf_name ` set mfs" using r1(5) by (metis list.set_map)
  then have cp: "checkpointFiles (contents s6) ?ns mfs = map_of entries"
    using files by (auto simp: checkpointFiles_def fun_eq_iff map_of_eq_None_iff [THEN iffD2])
  have wal: "contents s6 (walPath ?ns q) \<noteq> None \<Longrightarrow> ?c (walPath ?ns q) \<noteq> None" for q
  proof -
    assume "contents s6 (walPath ?ns q) \<noteq> None"
    then have "contents ?s2 (walPath ?ns q) \<noteq> None" using less [of "walPath ?ns q"] ok4(2) ns by simp
    then have "contents s1 (walPath ?ns q) \<noteq> None" using r2(2) unfolding removes_def by metis
    moreover have "walPath ?ns q \<notin> dataPath ?ns ` fst ` set entries" using ns assms(5) by auto
    ultimately show "?c (walPath ?ns q) \<noteq> None" using r1(4) by simp
  qed
  have "set U \<subseteq> dataPath ?ns ` {n. plainElem n}" using r1(6) assms(5) by auto
  moreover have "e' = e\<lparr>e_store := s6, e_fs := f1, e_uploadedFiles := U, e_manifestVersion := e_manifestVersion e + 1,
      e_metrics := e_metrics e'\<rparr>"
    unfolding e' by (cases e) (simp add: meter_def)
  ultimately show ?thesis
    using r6(1,3) tidy6 man dec cp wal
    by (intro exI [of _ s6] exI [of _ f1] exI [of _ U] exI [of _ "e_manifestVersion e + 1"] exI [of _ "e_metrics e'"]
        exI [of _ ?mf] exI [of _ bs]) simp
qed

end

text \<open>The tables a checkpoint shares with the files uploaded before are in the store.\<close>

definition syncReady :: "'db pebble \<Rightarrow> ('s \<Rightarrow> string \<Rightarrow> bytes option) \<Rightarrow> ('s, 'db) engine \<Rightarrow> bool" where
  "syncReady P contents e \<longleftrightarrow>
     (\<forall>db1 fls. pAsyncFlush P (the (e_db e)) = Inr db1 \<and> pCheckpoint P db1 = Inr fls \<longrightarrow>
        tablesStored (contents (e_store e)) (e_ns e) (e_uploadedFiles e) fls)"

context cloud_engine
begin

text \<open>A sync makes what Pebble shows the durable state, whether or not it was so before: it is
  enough that the log holds nothing above \<open>maxWALSeq\<close>.\<close>

lemma Sync_installs:
  assumes "ok (e_store e)" "nsTidy J (contents (e_store e)) (e_ns e)" "\<not> e_asyncWAL e" "walIdle (e_wal e)" "m_ns (e_wal e) = e_ns e"
    "e_db e = Some (the (e_db e))" "\<And>q. contents (e_store e) (walPath (e_ns e) q) \<noteq> None \<Longrightarrow> q \<le> e_maxWALSeq e"
    "e_maxWALSeq e < m_nextSeq (e_wal e)" "set (e_uploadedFiles e) \<subseteq> dataPath (e_ns e) ` {n. plainElem n}"
    "syncReady P contents e" "Sync st P J env e = (None, e')"
  shows "engineInv P view J contents ok e'" "view (the (e_db e')) = view (the (e_db e))"
    "contents (e_store e') (walPath (e_ns e) q) = None" "baseSeq J (contents (e_store e')) (e_ns e) = e_maxWALSeq e"
    "e_ns e' = e_ns e" "e_maxWALSeq e' = e_maxWALSeq e" "m_nextSeq (e_wal e') = m_nextSeq (e_wal e)"
    "e_consistency e' = e_consistency e"
proof -
  let ?c = "contents (e_store e)" and ?ns = "e_ns e"
  obtain entries e1 where c: "syncCheckpoint st P e = (Inr entries, e1)"
    using assms(11) by (cases "syncCheckpoint st P e", cases "fst (syncCheckpoint st P e)") (auto simp: Sync_def)
  obtain db1 fls f1 where c1: "e1 = e\<lparr>e_db := Some db1, e_wal := (e_wal e)\<lparr>m_commitTimer := False, m_pendingSeq := 0\<rparr>, e_fs := f1\<rparr>"
      "view db1 = view (the (e_db e))" "\<exists>db2. pOpen P (map_of entries) = Inr db2 \<and> view db2 = view (the (e_db e))"
      "distinct (map fst entries)" "\<forall>x \<in> set entries. plainElem (fst x)"
      and ts: "tablesStored ?c ?ns (e_uploadedFiles e) entries"
  proof -
    obtain db1 fls f1 where x: "e1 = e\<lparr>e_db := Some db1, e_wal := (e_wal e)\<lparr>m_commitTimer := False, m_pendingSeq := 0\<rparr>, e_fs := f1\<rparr>"
      "view db1 = view (the (e_db e))" "pCheckpoint P db1 = Inr fls" "entries = sort_key fst fls"
      "pAsyncFlush P (the (e_db e)) = Inr db1"
      "\<exists>db2. pOpen P (map_of entries) = Inr db2 \<and> view db2 = view (the (e_db e))"
      "distinct (map fst entries)" "\<forall>x \<in> set entries. plainElem (fst x)"
      using syncCheckpoint_ok [OF assms(6,4) c] by blast
    then have "tablesStored ?c ?ns (e_uploadedFiles e) entries"
      using assms(10) by (simp add: syncReady_def tablesStored_def)
    then show ?thesis using that x by blast
  qed
  obtain e2 where u: "syncUpload st J env entries e1 = (None, e2)"
    and e': "e' = meter (\<lambda>m. m\<lparr>mt_syncLatencyNs := mt_syncLatencyNs m + en_syncNs env, mt_syncCalls := mt_syncCalls m + 1,
        mt_syncFailures := mt_syncFailures m\<rparr>) e2"
    using assms(11) c by (cases "syncUpload st J env entries e1") (auto simp: Sync_def)
  have "e_store e1 = e_store e" "e_ns e1 = ?ns" "e_uploadedFiles e1 = e_uploadedFiles e" "e_maxWALSeq e1 = e_maxWALSeq e"
    using c1(1) by simp_all
  with syncUpload_ok [OF _ _ _ c1(4,5) _ u] assms(1,2,9) ts obtain s' f' U v mt m bs where r:
    "e2 = e1\<lparr>e_store := s', e_fs := f', e_uploadedFiles := U, e_manifestVersion := v, e_metrics := mt\<rparr>"
    "ok s'" "nsTidy J (contents s') ?ns" "set U \<subseteq> dataPath ?ns ` {n. plainElem n}"
    "contents s' (manifestPath ?ns) = Some bs" "decodeManifest J bs = Inr m" "mn_maxWALSeq m = e_maxWALSeq e"
    "checkpointFiles (contents s') ?ns (mn_files m) = map_of entries"
    "\<forall>q \<le> e_maxWALSeq e. contents s' (walPath ?ns q) = None"
    "\<forall>q. contents s' (walPath ?ns q) \<noteq> None \<longrightarrow> ?c (walPath ?ns q) \<noteq> None"
    by simp (elim exE conjE, simp)
  have none: "contents s' (walPath ?ns q) = None" for q
    using r(9,10) assms(7) by blast
  then have "walSeqs (contents s') ?ns = []" by (simp add: walSeqs_def)
  moreover have "durableBase P view J (contents s') ?ns = Some (e_maxWALSeq e, view (the (e_db e)))"
    using r(5-8) c1(3) by (auto simp: durableBase_def)
  ultimately have d: "durable P view J (contents s') ?ns = Some (view db1)"
    using c1(2) by (simp add: durable_def)
  have base: "baseSeq J (contents s') ?ns = e_maxWALSeq e" using r(5-7) by (simp add: baseSeq_def)
  show "engineInv P view J contents ok e'"
    using r(1-4) d base none assms(3,4,5,8) e' c1(1) by (simp add: engineInv_def Let_def meter_def walIdle_def)
  show "view (the (e_db e')) = view (the (e_db e))" "contents (e_store e') (walPath (e_ns e) q) = None"
    "baseSeq J (contents (e_store e')) (e_ns e) = e_maxWALSeq e" "e_ns e' = e_ns e" "e_maxWALSeq e' = e_maxWALSeq e"
    "m_nextSeq (e_wal e') = m_nextSeq (e_wal e)" "e_consistency e' = e_consistency e"
    using none base c1(1,2) r(1) e' by (simp_all add: meter_def)
qed

lemma Sync_keeps:
  assumes "engineInv P view J contents ok e" "syncReady P contents e" "Sync st P J env e = (None, e')"
  shows "engineInv P view J contents ok e'" "view (the (e_db e')) = view (the (e_db e))"
    "contents (e_store e') (walPath (e_ns e) q) = None" "baseSeq J (contents (e_store e')) (e_ns e) = e_maxWALSeq e"
    "e_ns e' = e_ns e" "e_maxWALSeq e' = e_maxWALSeq e" "m_nextSeq (e_wal e') = m_nextSeq (e_wal e)"
    "e_consistency e' = e_consistency e"
  using Sync_installs [OF engineInvD(1,2,4,5,6,7) [OF assms(1)] engineInvD(9) [OF assms(1)] engineInvD(11,12) [OF assms(1)] assms(2,3)] by simp_all

end

section \<open>Opening\<close>

lemma prefix_elem:
  assumes "plainElem q" "HasPrefix (r @ sep # q) (d @ [sep])"
  shows "HasPrefix (r @ sep # x) (d @ [sep])"
proof -
  obtain t where t: "r @ sep # q = d @ sep # t" using assms(2) by (auto simp: HasPrefix_iff)
  then consider us where "r = d @ us" "us @ sep # q = sep # t" | us where "r @ us = d" "sep # q = us @ sep # t"
    by (metis append_eq_append_conv2)
  then show ?thesis
  proof cases
    case 1
    then show ?thesis by (cases us) (auto simp: HasPrefix_iff)
  next
    case 2
    then have "us = []" using plainElem_sep [OF assms(1)] by (cases us) auto
    then show ?thesis using 2 by (auto simp: HasPrefix_iff)
  qed
qed

text \<open>The two directories \<open>engine_Open\<close> makes leave a ready directory with the same files.\<close>

lemma MkdirAll_ready:
  assumes "goodRoot dir" "local_inv dir f" "MkdirAll (Clean dir) f = (Inr u, f1)"
    "MkdirAll (Join [dir, ''localwal'']) f1 = (Inr u', f2)"
  shows "dirReady dir f2" "local_contents dir f2 = local_contents dir f"
proof -
  have j: "Join [dir, ''localwal''] = Clean dir @ sep # ''localwal''" using Join_root [OF assms(1)] by simp
  have f1: "local_inv dir f1 \<and> local_contents dir f1 = local_contents dir f"
    by (cases rule: MkdirAll_cases [OF assms(2), of "Clean dir"]) (use assms(3) in \<open>auto simp: local_inv_def local_contents_def\<close>)
  show "dirReady dir f2"
  proof (cases rule: MkdirAll_cases [OF conjunct1 [OF f1], of "Clean dir @ sep # ''localwal''"])
    case (2 ds fts)
    have "d \<in> set ds" if "plainElem q" "HasPrefix (Clean dir @ sep # q) (d @ [sep])" for q d
      using prefix_elem [OF that, of "''localwal''"] 2(3) ancestors_iff by blast
    then show ?thesis using 2 assms(1,4) f1 unfolding j dirReady_def by (auto simp: local_inv_def)
  qed (use assms(4) j in simp)
  show "local_contents dir f2 = local_contents dir f"
    by (cases rule: MkdirAll_cases [OF conjunct1 [OF f1], of "Clean dir @ sep # ''localwal''"])
      (use assms(4) f1 in \<open>auto simp: j local_contents_def\<close>)
qed

text \<open>An empty local directory, a namespace in order, and a manifest that can be read.\<close>

definition openReady :: "'s store \<Rightarrow> codec \<Rightarrow> ('s \<Rightarrow> string \<Rightarrow> bytes option) \<Rightarrow> ('s \<Rightarrow> bool) \<Rightarrow> options \<Rightarrow> 's \<Rightarrow> fs \<Rightarrow> bool" where
  "openReady st J contents ok opts s f \<longleftrightarrow>
     (let ns = o_namespace (defaultOptions opts) in
      ok s \<and> nsTidy J (contents s) ns \<and> contents s (walPath ns (- 1)) = None \<and>
      goodRoot (o_dir opts) \<and> local_inv (o_dir opts) f \<and> local_contents (o_dir opts) f = Map.empty \<and>
      o_consistency opts = ConsistencyStrong \<and>
      manifestReadable st ns (snd (NewManager st ns (o_batchWindow (defaultOptions opts)) s)))"

context cloud_engine
begin

lemma Open_ok:
  assumes "openReady st J contents ok opts s f" "engine_Open st P J opts s f = (Inr e, s', f')"
  shows "e_ns e = o_namespace (defaultOptions opts)" "contents (e_store e) = contents s" "ok (e_store e)" "s' = e_store e"
    "\<exists>db. e_db e = Some db \<and> durable P view J (contents s) (e_ns e) = Some (view db)"
    "contents s (walPath (e_ns e) q) \<noteq> None \<Longrightarrow> q < m_nextSeq (e_wal e)"
    "(\<forall>q. contents s (walPath (e_ns e) q) = None) \<Longrightarrow> m_nextSeq (e_wal e) = 1"
    "walIdle (e_wal e)" "m_ns (e_wal e) = e_ns e" "e_asyncWAL e = o_asyncWAL opts" "e_consistency e = ConsistencyStrong"
    "\<not> o_asyncWAL opts \<Longrightarrow> baseSeq J (contents s) (e_ns e) < m_nextSeq (e_wal e) \<Longrightarrow> engineInv P view J contents ok e"
proof -
  let ?o = "defaultOptions opts" and ?ns = "o_namespace (defaultOptions opts)"
  have d: "o_dir ?o = o_dir opts" "o_consistency ?o = o_consistency opts" "o_asyncWAL ?o = o_asyncWAL opts"
    by (simp_all add: defaultOptions_def)
  have R: "ok s" "nsTidy J (contents s) ?ns" "contents s (walPath ?ns (- 1)) = None" "goodRoot (o_dir opts)"
    "local_inv (o_dir opts) f" "local_contents (o_dir opts) f = Map.empty" "o_consistency opts = ConsistencyStrong"
    "manifestReadable st ?ns (snd (NewManager st ?ns (o_batchWindow ?o) s))"
    using assms(1) by (simp_all add: openReady_def Let_def)
  obtain m s1 where n: "NewManager st ?ns (o_batchWindow ?o) s = (Inr m, s1)"
    using assms(2) by (auto simp: engine_Open_def Let_def split: prod.splits sum.splits if_splits)
  obtain f1 where f1: "MkdirAll (Clean (o_dir opts)) f = (Inr (), f1)"
    using assms(2) n by (auto simp: engine_Open_def Let_def d split: prod.splits sum.splits if_splits)
  obtain f2 where f2: "MkdirAll (Join [o_dir opts, ''localwal'']) f1 = (Inr (), f2)"
    using assms(2) n f1 by (auto simp: engine_Open_def Let_def d split: prod.splits sum.splits if_splits)
  define e0 :: "('s, 'db) engine" where
    "e0 = \<lparr>e_ns = ?ns, e_store = s1, e_fs = f2, e_wal = m, e_localDir = o_dir opts,
       e_consistency = o_consistency opts, e_asyncWAL = o_asyncWAL opts, e_db = None, e_maxWALSeq = 0,
       e_uploadedFiles = [], e_orphanWALTTL = o_orphanWALTTL ?o, e_batchWindow = o_batchWindow ?o,
       e_maxLocalBytes = o_maxLocalBytes ?o, e_manifestVersion = 0, e_metrics = noMetrics,
       e_coldMissCount = 0, e_recovering = False, e_coldMissThresh = o_coldMissThreshold ?o,
       e_errCh = [], e_healthy = False, e_ready = False, e_async = []\<rparr>"
  obtain er where r: "recover st P J e0 = (None, er)" and e: "e = er\<lparr>e_healthy := True, e_ready := True\<rparr>" and s': "s' = e_store er"
    using assms(2) n f1 f2
    by (auto simp: engine_Open_def Let_def d e0_def split: prod.splits option.splits if_splits)
  note tidy = nsTidyD [OF R(2)]
  note M = NewManager_ok [OF R(1) tidy(1,2) n R(3)]
  note dir = MkdirAll_ready [OF R(4,5) f1 f2]
  obtain s2 f3 U v db q0 where rec: "er = e0\<lparr>e_store := s2, e_fs := f3, e_uploadedFiles := U, e_manifestVersion := v,
        e_db := Some db, e_maxWALSeq := q0\<rparr>" "ok s2" "contents s2 = contents s"
      "durable P view J (contents s) ?ns = Some (view db)"
      "\<forall>q. contents s (walPath ?ns q) \<noteq> None \<longrightarrow> q \<le> q0"
      "q0 = baseSeq J (contents s) ?ns \<or> contents s (walPath ?ns q0) \<noteq> None" "baseSeq J (contents s) ?ns \<le> q0"
      "set U \<subseteq> dataPath ?ns ` {n. plainElem n}"
  proof -
    have e0: "e_store e0 = s1" "e_ns e0 = ?ns" "e_fs e0 = f2" "e_localDir e0 = o_dir opts" "e_maxWALSeq e0 = 0"
      "e_consistency e0 = ConsistencyStrong" by (simp_all add: e0_def R(7))
    have "manifestReadable st ?ns s1" using R(8) n by simp
    from recover_ok [of e0 er, unfolded e0, OF M(1) tidy(1) _ dir(1) _ _ _ _ this r] show ?thesis
      using that M(2) tidy(2,3) dir(2) R(6) by simp (elim exE conjE, blast)
  qed
  have fields: "e_ns e = ?ns" "e_store e = s2" "e_wal e = m" "e_db e = Some db" "e_maxWALSeq e = q0" "e_asyncWAL e = o_asyncWAL opts"
    "e_uploadedFiles e = U" "e_consistency e = ConsistencyStrong"
    using e rec(1) by (simp_all add: e0_def R(7))
  show "e_ns e = ?ns" "contents (e_store e) = contents s" "ok (e_store e)" "s' = e_store e"
    "\<exists>db. e_db e = Some db \<and> durable P view J (contents s) (e_ns e) = Some (view db)"
    "e_asyncWAL e = o_asyncWAL opts" "e_consistency e = ConsistencyStrong"
    using fields rec(2-4) s' e by simp_all
  show idle: "walIdle (e_wal e)" and mns: "m_ns (e_wal e) = e_ns e"
    using M fields by (simp_all add: walIdle_def)
  show next1: "contents s (walPath (e_ns e) q) \<noteq> None \<Longrightarrow> q < m_nextSeq (e_wal e)" for q
    using M(10) fields by simp
  show "(\<forall>q. contents s (walPath (e_ns e) q) = None) \<Longrightarrow> m_nextSeq (e_wal e) = 1"
    using M(11) fields by simp
  show "engineInv P view J contents ok e" if "\<not> o_asyncWAL opts" "baseSeq J (contents s) (e_ns e) < m_nextSeq (e_wal e)"
    using that fields rec(2-8) R(2) idle mns next1 [of q0] by (auto simp: engineInv_def Let_def)
qed

end

section \<open>Histories\<close>

text \<open>The operations of an engine that succeeded, in order: the batches that were
  acknowledged, with reads and syncs between them.\<close>

inductive acked :: "'s store \<Rightarrow> 'db pebble \<Rightarrow> codec \<Rightarrow> ('s \<Rightarrow> string \<Rightarrow> bytes option) \<Rightarrow> ('s, 'db) engine \<Rightarrow> batch list \<Rightarrow>
    ('s, 'db) engine \<Rightarrow> bool" for st P J contents e where
  a_start: "acked st P J contents e [] e"
| a_apply: "acked st P J contents e bs e1 \<Longrightarrow> m_nextSeq (e_wal e1) \<noteq> - 1 \<Longrightarrow> engine_Apply st P env b e1 = (None, e2) \<Longrightarrow>
    acked st P J contents e (bs @ [b]) e2"
| a_set: "acked st P J contents e bs e1 \<Longrightarrow> m_nextSeq (e_wal e1) \<noteq> - 1 \<Longrightarrow> engine_Set st P env k v e1 = (None, e2) \<Longrightarrow>
    acked st P J contents e (bs @ [[OpSet k v]]) e2"
| a_delete: "acked st P J contents e bs e1 \<Longrightarrow> m_nextSeq (e_wal e1) \<noteq> - 1 \<Longrightarrow> engine_Delete st P env k e1 = (None, e2) \<Longrightarrow>
    acked st P J contents e (bs @ [[OpDelete k]]) e2"
| a_get: "acked st P J contents e bs e1 \<Longrightarrow> engine_Get P k e1 = (r, e2) \<Longrightarrow> acked st P J contents e bs e2"
| a_sync: "acked st P J contents e bs e1 \<Longrightarrow> syncReady P contents e1 \<Longrightarrow> Sync st P J env e1 = (None, e2) \<Longrightarrow>
    acked st P J contents e bs e2"

lemma engineInv_meter:
  "engineInv P view J contents ok (meter f e) = engineInv P view J contents ok e"
  "engineInv P view J contents ok (e\<lparr>e_coldMissCount := n\<rparr>) = engineInv P view J contents ok e"
  "engineInv P view J contents ok (e\<lparr>e_recovering := b\<rparr>) = engineInv P view J contents ok e"
  "engineInv P view J contents ok (e\<lparr>e_metrics := mt\<rparr>) = engineInv P view J contents ok e"
  by (simp_all add: engineInv_def meter_def)

text \<open>Reading changes counters only.\<close>

lemma Get_frame:
  "engine_Get P k e = (r, e') \<Longrightarrow> \<exists>mt n b. e' = e\<lparr>e_metrics := mt, e_coldMissCount := n, e_recovering := b\<rparr>"
  by (cases e) (auto simp: engine_Get_def meter_def triggerColdRecovery_def Let_def split: option.splits sum.splits if_splits)

lemma write_ops:
  "engine_Apply st P env b e = (None, e') \<Longrightarrow> \<exists>seq. writeWALAndApply st P env b e = (Inr seq, e')"
  "engine_Set st P env k v e = (None, e') \<Longrightarrow>
     \<exists>seq e1 f. writeWALAndApply st P env [OpSet k v] e = (Inr seq, e1) \<and> e' = meter f e1"
  "engine_Delete st P env k e = (None, e') \<Longrightarrow>
     \<exists>seq e1 f. writeWALAndApply st P env [OpDelete k] e = (Inr seq, e1) \<and> e' = meter f e1"
  by (auto simp: engine_Apply_def engine_Set_def engine_Delete_def split: prod.splits sum.splits)

lemma meter_fields [simp]:
  "e_store (meter f e) = e_store e" "e_db (meter f e) = e_db e" "e_ns (meter f e) = e_ns e" "e_wal (meter f e) = e_wal e"
  "e_consistency (meter f e) = e_consistency e"
  by (simp_all add: meter_def)

context cloud_engine
begin

lemma acked_keeps:
  assumes "acked st P J contents e bs e'" "engineInv P view J contents ok e"
  shows "engineInv P view J contents ok e' \<and> e_ns e' = e_ns e \<and>
    view (the (e_db e')) = applyOps (concat bs) (view (the (e_db e)))"
  using assms
proof (induction rule: acked.induct)
  case a_start
  then show ?case by simp
next
  case (a_apply bs e1 env b e2)
  obtain seq where w: "writeWALAndApply st P env b e1 = (Inr seq, e2)" using write_ops(1) [OF a_apply.hyps(3)] by blast
  have i: "engineInv P view J contents ok e1" using a_apply by simp
  show ?case using write_keeps [OF i a_apply.hyps(2) w] a_apply by simp
next
  case (a_set bs e1 env k v e2)
  obtain seq e3 f where w: "writeWALAndApply st P env [OpSet k v] e1 = (Inr seq, e3)" "e2 = meter f e3"
    using write_ops(2) [OF a_set.hyps(3)] by blast
  have i: "engineInv P view J contents ok e1" using a_set by simp
  show ?case using write_keeps [OF i a_set.hyps(2) w(1)] a_set by (simp add: w(2) engineInv_meter)
next
  case (a_delete bs e1 env k e2)
  obtain seq e3 f where w: "writeWALAndApply st P env [OpDelete k] e1 = (Inr seq, e3)" "e2 = meter f e3"
    using write_ops(3) [OF a_delete.hyps(3)] by blast
  have i: "engineInv P view J contents ok e1" using a_delete by simp
  show ?case using write_keeps [OF i a_delete.hyps(2) w(1)] a_delete by (simp add: w(2) engineInv_meter)
next
  case (a_get bs e1 k r e2)
  then obtain mt n b where "e2 = e1\<lparr>e_metrics := mt, e_coldMissCount := n, e_recovering := b\<rparr>" using Get_frame by blast
  then show ?case using a_get by (simp add: engineInv_meter)
next
  case (a_sync bs e1 env e2)
  have i: "engineInv P view J contents ok e1" using a_sync by simp
  show ?case using Sync_keeps [OF i a_sync.hyps(2,3)] a_sync by simp
qed

text \<open>Opening the namespace again, somewhere else, on an empty directory.\<close>

lemma crash_recovers:
  assumes "engineInv P view J contents ok e" "acked st P J contents e bs e1"
    "openReady st J contents ok opts (e_store e1) f" "o_namespace (defaultOptions opts) = e_ns e"
    "engine_Open st P J opts (e_store e1) f = (Inr e2, s2, f2)"
  shows "view (the (e_db e2)) = applyOps (concat bs) (view (the (e_db e)))"
proof -
  have k: "engineInv P view J contents ok e1" "e_ns e1 = e_ns e" "view (the (e_db e1)) = applyOps (concat bs) (view (the (e_db e)))"
    using acked_keeps [OF assms(2,1)] by auto
  obtain db where "e_db e2 = Some db" "durable P view J (contents (e_store e1)) (e_ns e2) = Some (view db)"
    using Open_ok(5) [OF assms(3,5)] by blast
  then show ?thesis
    using engineInvD(8) [OF k(1)] Open_ok(1) [OF assms(3,5)] assms(4) k(2,3) by simp
qed

text \<open>A restart after the log was collected: the log starts at 1 again, below what the
  manifest covers, and what is written there is skipped by the next recovery.\<close>

lemma restart_hides:
  assumes "openReady st J contents ok opts s f" "\<not> o_asyncWAL opts" "engine_Open st P J opts s f = (Inr e, s1, f1)"
    "\<forall>q. contents s (walPath (e_ns e) q) = None" "1 \<le> baseSeq J (contents s) (e_ns e)"
    "engine_Apply st P env b e = (None, e')"
  shows "view (the (e_db e')) = applyOps b (view (the (e_db e)))"
    "durable P view J (contents (e_store e')) (e_ns e) = durable P view J (contents s) (e_ns e)"
proof -
  note O = Open_ok [OF assms(1,3)]
  have q: "m_nextSeq (e_wal e) = 1" using O(7) assms(4) by simp
  obtain db where db: "e_db e = Some db" using O(5) by blast
  obtain seq where "writeWALAndApply st P env b e = (Inr seq, e')" using write_ops(1) [OF assms(6)] by blast
  from write_ok [OF _ O(8) db this] obtain s' m' db' mt where w:
    "e' = e\<lparr>e_store := s', e_wal := m', e_db := Some db', e_metrics := mt, e_maxWALSeq := (if 1 > e_maxWALSeq e then 1 else e_maxWALSeq e)\<rparr>"
    "sPut st (walPath (e_ns e) 1) (pRepr P b) (e_store e) = (Inr (), s')" "pApply P b db = Inr db'"
    using O(9,10) assms(2) q by auto
  have tidy: "nsTidy J (contents s) (e_ns e)" using assms(1) O(1) by (simp add: openReady_def Let_def)
  note ns = nsTidyD(1) [OF tidy]
  have p: "plainPath (walPath (e_ns e) 1)" using ns by simp
  have c: "contents s' = (contents s)(walPath (e_ns e) 1 \<mapsto> pRepr P b)"
    using put_contents [OF O(3) p w(2)] O(2) by simp
  show "view (the (e_db e')) = applyOps b (view (the (e_db e)))"
    using w(1) db apply_view [OF w(3)] by simp
  have base: "durableBase P view J (contents s') (e_ns e) = durableBase P view J (contents s) (e_ns e)"
    using ns c nsTidyD(3) [OF tidy] by (intro durableBase_cong) auto
  have old: "walSeqs (contents s) (e_ns e) = []" using assms(4) by (simp add: walSeqs_def)
  have new: "walSeqs (contents s') (e_ns e) = [1]"
    unfolding c using walSeqs_put [OF ns, of "contents s" 1 "pRepr P b"] old assms(4) by simp
  have "q0 = baseSeq J (contents s) (e_ns e)" if "durableBase P view J (contents s) (e_ns e) = Some (q0, m)" for q0 m
    using durableBase_seq [OF that] .
  then show "durable P view J (contents (e_store e')) (e_ns e) = durable P view J (contents s) (e_ns e)"
    using base old new assms(5) w(1) by (auto simp: durable_def split: option.splits)
qed

text \<open>A write that runs between the checkpoint and the uploads of a sync: the manifest
  claims to cover it, its log object is collected, and the checkpoint does not have it.\<close>

lemma sync_race:
  assumes "engineInv P view J contents ok e" "syncCheckpoint st P e = (Inr entries, e1)"
    "m_nextSeq (e_wal e) \<noteq> - 1" "engine_Apply st P env b e1 = (None, e2)"
    "tablesStored (contents (e_store e2)) (e_ns e) (e_uploadedFiles e) entries"
    "syncUpload st J env' entries e2 = (None, e3)"
  shows "view (the (e_db e3)) = applyOps b (view (the (e_db e)))"
    "durable P view J (contents (e_store e3)) (e_ns e) = Some (view (the (e_db e)))"
proof -
  note I = engineInvD [OF assms(1)]
  obtain db1 f1 where c1: "e1 = e\<lparr>e_db := Some db1, e_wal := (e_wal e)\<lparr>m_commitTimer := False, m_pendingSeq := 0\<rparr>, e_fs := f1\<rparr>"
    "view db1 = view (the (e_db e))" "\<exists>db2. pOpen P (map_of entries) = Inr db2 \<and> view db2 = view (the (e_db e))"
    "distinct (map fst entries)" "\<forall>x \<in> set entries. plainElem (fst x)"
    using syncCheckpoint_ok [OF I(7,5) assms(2)] by blast
  have I1: "engineInv P view J contents ok e1"
    using assms(1) c1(1,2) by (auto simp: engineInv_def Let_def walIdle_def)
  obtain seq where w: "writeWALAndApply st P env b e1 = (Inr seq, e2)" using write_ops(1) [OF assms(4)] by blast
  have q1: "m_nextSeq (e_wal e1) \<noteq> - 1" using assms(3) c1(1) by simp
  note W = write_keeps [OF I1 q1 w]
  note I2 = engineInvD [OF W(1)]
  have u: "e_uploadedFiles e2 = e_uploadedFiles e"
    using write_ok [OF engineInvD(4,5,7) [OF I1] w] I1 c1(1) by auto
  have ns: "e_ns e2 = e_ns e" using W(5) c1(1) by simp
  obtain s' f' U v mt m bs where r:
    "e3 = e2\<lparr>e_store := s', e_fs := f', e_uploadedFiles := U, e_manifestVersion := v, e_metrics := mt\<rparr>"
    "contents s' (manifestPath (e_ns e2)) = Some bs" "decodeManifest J bs = Inr m" "mn_maxWALSeq m = e_maxWALSeq e2"
    "checkpointFiles (contents s') (e_ns e2) (mn_files m) = map_of entries"
    "\<forall>q \<le> e_maxWALSeq e2. contents s' (walPath (e_ns e2) q) = None"
    "\<forall>q. contents s' (walPath (e_ns e2) q) \<noteq> None \<longrightarrow> contents (e_store e2) (walPath (e_ns e2) q) \<noteq> None"
    using syncUpload_ok [OF I2(1,2,12) c1(4,5) _ assms(6)] assms(5) u ns by (simp only:) blast
  have "contents s' (walPath (e_ns e2) q) = None" for q using r(6,7) I2(9) by blast
  then have "walSeqs (contents s') (e_ns e) = []" using ns by (simp add: walSeqs_def)
  moreover have "durableBase P view J (contents s') (e_ns e) = Some (e_maxWALSeq e2, view (the (e_db e)))"
    using r(2-5) c1(3) ns by (auto simp: durableBase_def)
  ultimately show "durable P view J (contents (e_store e3)) (e_ns e) = Some (view (the (e_db e)))"
    using r(1) by (simp add: durable_def)
  show "view (the (e_db e3)) = applyOps b (view (the (e_db e)))"
    using r(1) W(2) c1(1,2) by simp
qed

end

end
