(* ===== verification/EngineProperties.thy ===== *)
theory EngineProperties
  imports CloudDurability
begin

text \<open>
  The properties of the engine, stated over every object store, database and manifest codec
  that keep their contracts, and an example deployment on which the contracts hold: a bucket
  in memory behind the GCS store, the reference database, and a byte encoding of manifests.
\<close>

section \<open>A concrete codec\<close>

definition putInt :: "int \<Rightarrow> bytes" where
  "putInt i = putBytes (replicate (nat \<bar>i\<bar>) (if i < 0 then 1 else 0))"

definition intOf :: "bytes \<Rightarrow> int" where
  "intOf bs = (case bs of [] \<Rightarrow> 0 | b # _ \<Rightarrow> if b = 1 then - int (length bs) else int (length bs))"

definition strBytes :: "string \<Rightarrow> bytes" where
  "strBytes s = map (\<lambda>c. of_nat (of_char c)) s"

definition bytesStr :: "bytes \<Rightarrow> string" where
  "bytesStr bs = map (\<lambda>b. char_of (unat b)) bs"

definition putFile :: "manifestFile \<Rightarrow> bytes" where
  "putFile mf = putBytes (strBytes (mf_name mf)) @ putBytes (replicate (mf_size mf) 0) @ putBytes (strBytes (mf_checksum mf))"

fun getFiles :: "nat \<Rightarrow> bytes \<Rightarrow> manifestFile list option" where
  "getFiles n [] = Some []"
| "getFiles 0 (x # xs) = None"
| "getFiles (Suc n) (x # xs) =
     (case getBytes (x # xs) of None \<Rightarrow> None | Some (a, ys) \<Rightarrow>
       (case getBytes ys of None \<Rightarrow> None | Some (b, zs) \<Rightarrow>
         (case getBytes zs of None \<Rightarrow> None | Some (c, ws) \<Rightarrow>
           (case getFiles n ws of None \<Rightarrow> None
            | Some fs \<Rightarrow> Some (\<lparr>mf_name = bytesStr a, mf_size = length b, mf_checksum = bytesStr c\<rparr> # fs)))))"

definition refMarshal :: "manifest \<Rightarrow> bytes" where
  "refMarshal m = putInt (mn_version m) @ putBytes (PutUint64 (mn_maxWALSeq m)) @ putInt (mn_createdAt m) @
     putInt (mn_prevVersion m) @ concat (map putFile (mn_files m))"

definition noManifest :: manifest where
  "noManifest = \<lparr>mn_version = 0, mn_maxWALSeq = 0, mn_createdAt = 0, mn_prevVersion = 0, mn_files = []\<rparr>"

definition refUnmarshal :: "bytes \<Rightarrow> manifest \<times> goerror option" where
  "refUnmarshal xs =
     (case getBytes xs of None \<Rightarrow> (noManifest, Some (Err ''unexpected end of JSON input'')) | Some (a, x1) \<Rightarrow>
       (case getBytes x1 of None \<Rightarrow> (noManifest, Some (Err ''unexpected end of JSON input'')) | Some (b, x2) \<Rightarrow>
         (case getBytes x2 of None \<Rightarrow> (noManifest, Some (Err ''unexpected end of JSON input'')) | Some (c, x3) \<Rightarrow>
           (case getBytes x3 of None \<Rightarrow> (noManifest, Some (Err ''unexpected end of JSON input'')) | Some (d, x4) \<Rightarrow>
             (case getFiles (length x4) x4 of None \<Rightarrow> (noManifest, Some (Err ''unexpected end of JSON input''))
              | Some fs \<Rightarrow> (\<lparr>mn_version = intOf a, mn_maxWALSeq = Uint64 b, mn_createdAt = intOf c, mn_prevVersion = intOf d, mn_files = fs\<rparr>, None))))))"

definition refCodec :: codec where
  "refCodec = \<lparr>jMarshal = (\<lambda>m. Inr (refMarshal m)), jUnmarshal = refUnmarshal,
     jUnmarshalOld = (\<lambda>bs. Inl (Err ''unexpected end of JSON input'')), jSha256Hex = (\<lambda>bs. [])\<rparr>"

lemma intOf_put: "getBytes (putInt i @ r) = Some (replicate (nat \<bar>i\<bar>) (if i < 0 then 1 else 0), r)"
  "intOf (replicate (nat \<bar>i\<bar>) (if i < 0 then 1 else 0)) = i"
proof -
  show "intOf (replicate (nat \<bar>i\<bar>) (if i < 0 then 1 else 0)) = i"
    by (cases "nat \<bar>i\<bar>") (auto simp: intOf_def)
qed (simp add: putInt_def)

lemma bytesStr_strBytes [simp]: "bytesStr (strBytes s) = s"
proof (induction s)
  case (Cons c s)
  have "(of_char c :: nat) < 256" by simp
  then have "char_of (unat (of_nat (of_char c) :: byte)) = c" by (simp add: unat_of_nat_byte)
  then show ?case using Cons by (simp add: bytesStr_def strBytes_def)
qed (simp add: bytesStr_def strBytes_def)

lemma putBytes_Cons: "\<exists>x xs. putBytes bs @ r = x # xs"
  by (cases bs) auto

lemma getFiles_put: "length (concat (map putFile mfs)) \<le> n \<Longrightarrow> getFiles n (concat (map putFile mfs)) = Some mfs"
proof (induction mfs arbitrary: n)
  case Nil
  then show ?case by (cases n) simp_all
next
  case (Cons mf mfs)
  let ?r = "putBytes (replicate (mf_size mf) 0) @ putBytes (strBytes (mf_checksum mf)) @ concat (map putFile mfs)"
  obtain x xs where x: "putBytes (strBytes (mf_name mf)) @ ?r = x # xs" using putBytes_Cons by blast
  have c: "concat (map putFile (mf # mfs)) = x # xs" using x by (simp add: putFile_def)
  then have "length (x # xs) \<le> n" using Cons.prems by (simp only:)
  then obtain n' where n: "n = Suc n'" by (cases n) simp_all
  have "putFile mf \<noteq> []" using putBytes_Cons [of "strBytes (mf_name mf)" "[]"] by (auto simp: putFile_def)
  then have "length (concat (map putFile mfs)) \<le> n'" using Cons.prems unfolding n by (cases "putFile mf") simp_all
  then have "getFiles n' (concat (map putFile mfs)) = Some mfs" by (rule Cons.IH)
  moreover have "getBytes (x # xs) = Some (strBytes (mf_name mf), ?r)" by (simp flip: x)
  ultimately show ?case unfolding c n by simp
qed

lemma refUnmarshal_marshal: "refUnmarshal (refMarshal m) = (m, None)"
  by (simp add: refUnmarshal_def refMarshal_def intOf_put getFiles_put)

definition exOpts :: options where
  "exOpts = \<lparr>o_dir = ''/cache'', o_hasStore = True, o_namespace = ''t'', o_syncInterval = 0, o_coldMissThreshold = 0,
     o_consistency = ConsistencyStrong, o_asyncWAL = False, o_orphanWALTTL = 0, o_batchWindow = -1, o_maxLocalBytes = 0\<rparr>"
definition exBucket where "exBucket = \<lparr>g_bucket = ''b'', g_prefix = ''''\<rparr>"
definition "exStore = gcs_store memClient exBucket"
definition exFs :: fs where
  "exFs = \<lparr>fs_files = [], fs_dirs = [''''], fs_clock = 5, fs_faults = []\<rparr>"
definition exEnv :: env where "exEnv = \<lparr>en_now = 0, en_walNs = 0, en_applyNs = 0, en_syncNs = 0, en_ctxDone = False\<rparr>"

lemma listLoop_map: "gcs_listLoop g (map Inr xs) out = Inr (out @ map (unPrefix g) xs)"
  by (induction xs arbitrary: out) simp_all

lemma mem_ops [simp]:
  "sPut exStore p d c = (Inr (), AList.update p d c)"
  "sGet exStore p c = (case map_of c p of Some d \<Rightarrow> Inr d | None \<Rightarrow> Inl (Wrap ''gcs: object'' ErrNotFound), c)"
  "sList exStore p c = (Inr (sort (filter (\<lambda>n. HasPrefix n p) (remdups (map fst c)))), c)"
  "sDelete exStore p c = (Inr (), AList.delete p c)"
  "sAttrs exStore p c = (case map_of c p of Some d \<Rightarrow> Inr \<lparr>oi_path = p, oi_size = length d, oi_createdAt = 0\<rparr> | None \<Rightarrow> Inl (Wrap ''gcs: object'' ErrNotFound), c)"
  by (auto simp: map_idI exStore_def exBucket_def gcs_store_def gcs_Put_def gcs_Get_def gcs_List_def gcs_Delete_def gcs_Attrs_def memClient_def
      fullPath_def unPrefix_def listLoop_map TrimPrefix_def isNotExist_def ErrObjectNotExist_def split: option.splits)

lemma cache_paths:
  "Clean ''/cache'' = ''/cache''" "Join [''/cache'', ''localwal''] = ''/cache/localwal''"
  "Join [''t'', ''wal''] = ''t/wal''" "Join [''t'', ''manifest''] = ''t/manifest''"
  "Join [''t'', ''data''] = ''t/data''" "Join [''t/data/'', ''MANIFEST-000001''] = ''t/data/MANIFEST-000001''"
  "walPath ''t'' 1 = ''t/wal/00000000000000000001.wal''"
  by (simp_all add: Join_def Clean_def cleanElems_def sep_def wal_path1)

definition exFs1 :: fs where
  "exFs1 = \<lparr>fs_files = [], fs_dirs = [''/cache/localwal'', ''/cache'', ''''], fs_clock = 5, fs_faults = []\<rparr>"

definition exMgr :: "uint64 \<Rightarrow> manager" where
  "exMgr q = \<lparr>m_ns = ''t'', m_batchWindow = - 1, m_nextSeq = q, m_pending = [], m_pendingSeq = 0, m_waiters = [],
        m_commitTimer = False, m_closed = False, m_inflight = [], m_nextChan = 0, m_delivered = []\<rparr>"

definition exEng :: "(string \<times> bytes) list \<Rightarrow> fs \<Rightarrow> uint64 \<Rightarrow> refDB \<Rightarrow> uint64 \<Rightarrow> string list \<Rightarrow> int \<Rightarrow> ((string \<times> bytes) list, refDB) engine" where
  "exEng s f q db w U v = \<lparr>e_ns = ''t'', e_store = s, e_fs = f, e_wal = exMgr q, e_localDir = ''/cache'',
     e_consistency = ConsistencyStrong, e_asyncWAL = False, e_db = Some db, e_maxWALSeq = w,
     e_uploadedFiles = U, e_orphanWALTTL = 3600 * 10 ^ 9, e_batchWindow = - 1,
     e_maxLocalBytes = 0, e_manifestVersion = v, e_metrics = noMetrics,
     e_coldMissCount = 0, e_recovering = False, e_coldMissThresh = 3,
     e_errCh = [], e_healthy = True, e_ready = True, e_async = []\<rparr>"

lemma fs_mk:
  "\<exists>f. MkdirAll ''/cache'' exFs = (Inr (), f) \<and> MkdirAll ''/cache/localwal'' f = (Inr (), exFs1)"
  by (simp add: exFs_def exFs1_def MkdirAll_def nextFault_def ancestors_def isFile_def List.union_def upt_rec sep_def)

lemma open_empty:
  "engine_Open exStore refPebble refCodec exOpts [] exFs = (Inr (exEng [] exFs1 1 \<lparr>r_view = [], r_flushed = []\<rparr> 0 [] 0), [], exFs1)"
  using fs_mk
  by (auto simp: engine_Open_def exOpts_def defaultOptions_def NewManager_def listWALs_def cache_paths walPrefix_def walDir_def
     recover_def Let_def manifestPath_def dirMap_def local_contents_def filesView_def exFs1_def refPebble_def replayWALs_def replayLocalWALs_def
      ReadDir_def nextFault_def exEng_def exMgr_def)

interpretation ex: cloud_engine exStore "gcs_contents exBucket map_of" "\<lambda>_. True" refPebble "map_of \<circ> r_view" "map_of \<circ> r_flushed" refCodec
  unfolding exStore_def
  by unfold_locales (simp add: refCodec_def refUnmarshal_marshal)

abbreviation "exContents \<equiv> gcs_contents exBucket map_of"
abbreviation "exView \<equiv> map_of \<circ> r_view"

lemma exContents: "exContents c = map_of c"
  by (simp add: gcs_contents_def exBucket_def fullPath_def fun_eq_iff)

lemma plain_t [simp]: "plainPath ''t''"
  by (simp add: plainPath_def plainElem_def sep_def)

lemma cache_root: "goodRoot ''/cache''" "local_inv ''/cache'' exFs" "local_contents ''/cache'' exFs = Map.empty"
  by (simp_all add: goodRoot_def cleanElems_def rooted_def sep_def plainElem_def local_inv_def filesOK_def faultsOK_def exFs_def
      local_contents_def filesView_def fun_eq_iff)

lemma opts0_ns: "o_namespace (defaultOptions exOpts) = ''t''" "o_dir exOpts = ''/cache''" "o_consistency exOpts = ConsistencyStrong"
  "\<not> o_asyncWAL exOpts"
  by (simp_all add: exOpts_def defaultOptions_def)

lemma nsTidyI:
  assumes "\<And>p. c p \<noteq> None \<Longrightarrow> p = walPath ''t'' 1 \<or> p = ''t/manifest'' \<or> p = ''t/data/MANIFEST-000001''"
    "manifestTidy J c ''t''"
  shows "nsTidy J c ''t''"
proof -
  have w: "walPrefix ''t'' = ''t/wal/''" "manifestVersionsPrefix ''t'' = ''t/manifests/''" "''t'' @ sep # walDir = ''t/wal''"
    by (simp_all add: walPrefix_def manifestVersionsPrefix_def cache_paths walDir_def Join_def Clean_def cleanElems_def sep_def)
  have p1: "parseWALSeq (walPath ''t'' 1) = Inr 1" by simp
  have "c ''t/wal'' = None" "c (''t'' @ sep # ''manifests'') = None"
    using assms(1) [of "''t/wal''"] assms(1) [of "''t'' @ sep # ''manifests''"]
    by (cases "c ''t/wal''"; cases "c (''t'' @ sep # ''manifests'')"; simp add: wal_path1 sep_def)+
  moreover have "p = walPath ''t'' q" if "c p \<noteq> None" "HasPrefix p ''t/wal/''" "parseWALSeq p = Inr q" for p q
    using assms(1) [OF that(1)] that(2,3) p1 by auto
  moreover have "plainPath p" if "c p \<noteq> None" "HasPrefix p ''t/manifests/''" for p
    using assms(1) [OF that(1)] that(2) by (auto simp: wal_path1)
  ultimately show ?thesis
    unfolding nsTidy_def walTidy_def w using assms(2) by auto
qed

lemma walPath_max: "walPath ''t'' (- 1) \<noteq> walPath ''t'' 1" "walPath ''t'' q \<noteq> ''t/manifest''" "walPath ''t'' q \<noteq> ''t/data/MANIFEST-000001''"
proof -
  show "walPath ''t'' (- 1) \<noteq> walPath ''t'' 1" by (simp only: walPath_inj [OF plain_t]) simp
qed (simp_all add: walPath_eq walDir_def sep_def)

lemma ready0:
  assumes "\<And>p. map_of c p \<noteq> None \<Longrightarrow> p = walPath ''t'' 1 \<or> p = ''t/manifest'' \<or> p = ''t/data/MANIFEST-000001''"
    "manifestTidy refCodec (map_of c) ''t''"
  shows "openReady exStore refCodec exContents (\<lambda>_. True) exOpts c exFs"
proof -
  have "map_of c (walPath ''t'' (- 1)) = None" using assms(1) [of "walPath ''t'' (- 1)"] walPath_max by (metis option.distinct(1))
  then show ?thesis
    using nsTidyI [OF assms] cache_root by (simp add: openReady_def Let_def opts0_ns exContents manifestReadable_def split: option.splits)
qed

definition exEngine where "exEngine = exEng [] exFs1 1 \<lparr>r_view = [], r_flushed = []\<rparr> 0 [] 0"

lemma ready_empty: "openReady exStore refCodec exContents (\<lambda>_. True) exOpts [] exFs"
  by (rule ready0) (simp_all add: manifestTidy_def)

lemma inv_e0: "engineInv refPebble exView refCodec exContents (\<lambda>_. True) exEngine"
  using ex.Open_ok(12) [OF ready_empty open_empty] opts0_ns by (simp add: baseSeq_def exContents exEng_def exMgr_def exEngine_def)

lemma apply_e0: "fst (engine_Apply exStore refPebble exEnv [OpSet [1] [2]] exEngine) = None"
  "e_store (snd (engine_Apply exStore refPebble exEnv [OpSet [1] [2]] exEngine)) = [(walPath ''t'' 1, refRepr [OpSet [1] [2]])]"
  by (simp_all add: engine_Apply_def writeWALAndApply_def exEngine_def exEng_def exMgr_def Let_def WriteRecord_def applyLocally_def meter_def refPebble_def)

text \<open>The bucket in memory never fails, and neither does a sync on it.\<close>

lemma mem_upload:
  "fs_faults (e_fs e) = [] \<Longrightarrow> \<exists>mfs' e'. uploadLoop exStore J prev entries mfs e = (Inr mfs', e') \<and> e_ns e' = e_ns e"
proof (induction entries arbitrary: mfs e)
  case (Cons x entries)
  obtain n d where x: "x = (n, d)" by (cases x)
  have f: "nextFault (e_fs e) = (None, e_fs e)" using Cons.prems by (cases "e_fs e") (simp add: nextFault_def)
  have e: "e\<lparr>e_fs := e_fs e\<rparr> = e" by (cases e) simp
  show ?case
    using Cons.prems
    by (cases "Join [dataPrefix (e_ns e), n] \<in> set prev \<and> \<not> isMutable n")
      (use Cons.IH [of "e\<lparr>e_uploadedFiles := List.insert (Join [dataPrefix (e_ns e), n]) (e_uploadedFiles e)\<rparr>"]
        Cons.IH [of "e\<lparr>e_store := AList.update (Join [dataPrefix (e_ns e), n]) d (e_store e), e_uploadedFiles := List.insert (Join [dataPrefix (e_ns e), n]) (e_uploadedFiles e)\<rparr>"]
        in \<open>auto simp: x f e Let_def\<close>)
qed simp

lemma mem_gcLoop: "snd (fst (gcLoop exStore q ttl now es k c)) = None"
  by (induction es arbitrary: k c) (auto simp: Let_def split: option.splits)

lemma mem_syncUpload: "fs_faults (e_fs e) = [] \<Longrightarrow> \<exists>e'. syncUpload exStore refCodec env entries e = (None, e')"
proof -
  assume f: "fs_faults (e_fs e) = []"
  obtain mfs e1 where u: "uploadLoop exStore refCodec (e_uploadedFiles e) entries [] (e\<lparr>e_uploadedFiles := []\<rparr>) = (Inr mfs, e1)"
    using mem_upload [of "e\<lparr>e_uploadedFiles := []\<rparr>" refCodec "e_uploadedFiles e" entries "[]"] f by auto
  have gc0: "snd (fst (GC exStore ns q ttl now c)) = None" for ns q ttl now c
    by (auto simp: GC_def listWALs_def mem_gcLoop)
  have gc: "GC exStore ns q ttl now c = ((n, Some err), c') \<Longrightarrow> False" for ns q ttl now c n err c'
    using gc0 [of ns q ttl now c] by simp
  have j: "jMarshal refCodec m = Inr (refMarshal m)" for m by (simp add: refCodec_def)
  have "fst (syncUpload exStore refCodec env entries e) = None"
    by (simp add: syncUpload_def u j Let_def split: prod.split option.split) (use gc in blast)
  then show ?thesis by (cases "syncUpload exStore refCodec env entries e") simp
qed

lemma mem_checkpoint:
  assumes "walIdle (e_wal e)" "fs_faults (e_fs e) = []"
  shows "\<exists>entries e'. syncCheckpoint exStore refPebble e = (Inr entries, e') \<and> e_fs e' = e_fs e"
proof -
  have f: "nextFault (e_fs e) = (None, e_fs e)" using assms(2) by (cases "e_fs e") (simp add: nextFault_def)
  show ?thesis
    using ex.Flush_idle [OF assms(1), of "e_store e"] by (auto simp: syncCheckpoint_def refPebble_def Let_def f)
qed

lemma mem_sync:
  assumes "fs_faults (e_fs e) = []" "walIdle (e_wal e)"
  shows "\<exists>e'. Sync exStore refPebble refCodec env e = (None, e')"
proof -
  obtain entries e1 where c: "syncCheckpoint exStore refPebble e = (Inr entries, e1)" "e_fs e1 = e_fs e"
    using mem_checkpoint [OF assms(2,1)] by blast
  obtain e2 where "syncUpload exStore refCodec env entries e1 = (None, e2)"
    using mem_syncUpload [of e1] assms(1) c(2) by auto
  then show ?thesis using c by (simp add: Sync_def)
qed

lemma mem_apply:
  assumes "walIdle (e_wal e)" "\<not> e_asyncWAL e" "\<not> m_closed (e_wal e)" "m_batchWindow (e_wal e) \<le> 0"
  shows "\<exists>e'. engine_Apply exStore refPebble exEnv b e = (None, e') \<and> e_fs e' = e_fs e"
  using assms by (auto simp: engine_Apply_def writeWALAndApply_def Let_def WriteRecord_def applyLocally_def meter_def refPebble_def)

lemma ref_tables: "tablesStored c ns U [(refFile, d)]"
  by (simp add: tablesStored_def refFile_def isMutable_def)

lemma ref_syncReady: "syncReady refPebble exContents e"
  by (simp add: syncReady_def refPebble_def ref_tables)

abbreviation "exEngine1 \<equiv> snd (engine_Apply exStore refPebble exEnv [OpSet [1] [2]] exEngine)"

lemma e1_step: "engine_Apply exStore refPebble exEnv [OpSet [1] [2]] exEngine = (None, exEngine1)"
  by (rule prod_eqI) (simp_all add: apply_e0)

lemma e1_fs: "e_fs exEngine1 = exFs1"
  by (simp add: engine_Apply_def writeWALAndApply_def exEngine_def exEng_def exMgr_def Let_def WriteRecord_def applyLocally_def meter_def refPebble_def)

lemma e0_fields: "m_nextSeq (e_wal exEngine) \<noteq> - 1" "m_nextSeq (e_wal exEngine) = 1" "e_ns exEngine = ''t''"
  "the (e_db exEngine) = \<lparr>r_view = [], r_flushed = []\<rparr>" "e_fs exEngine = exFs1" "e_maxWALSeq exEngine = 0"
  by (simp_all add: exEngine_def exEng_def exMgr_def)

lemma open_one:
  "\<exists>e s f. engine_Open exStore refPebble refCodec exOpts [(walPath ''t'' 1, refRepr [OpSet [1] [2]])] exFs = (Inr e, s, f)"
proof -
  have p: "HasPrefix (walPath ''t'' 1) ''t/wal/''" "walPath ''t'' 1 \<noteq> ''t/manifest''" "parseWALSeq (walPath ''t'' 1) = Inr 1"
  proof -
    show "HasPrefix (walPath ''t'' 1) ''t/wal/''"
      using walPath_prefix [of "''t''" 1] by (simp add: walPrefix_def cache_paths walDir_def)
    show "parseWALSeq (walPath ''t'' 1) = Inr 1" using parse_walPath [OF plain_t] .
  qed (simp add: walPath_max)
  show ?thesis
    using fs_mk p refRepr_parse [of "[OpSet [1] [2]]"]
    by (auto simp: engine_Open_def exOpts_def defaultOptions_def NewManager_def listWALs_def cache_paths(1-6) walPrefix_def walDir_def
      recover_def Let_def manifestPath_def dirMap_def local_contents_def filesView_def exFs1_def refPebble_def replayWALs_def replayLocalWALs_def
      ReadDir_def nextFault_def ReadRecord_def)
qed

text \<open>A bucket after a sync: a checkpoint with one pair, its manifest, no log.\<close>

definition table1 :: bytes where "table1 = putOp (OpSet [1] [2])"

definition manifest1 :: manifest where
  "manifest1 = \<lparr>mn_version = 1, mn_maxWALSeq = 1, mn_createdAt = 0, mn_prevVersion = 0,
     mn_files = [\<lparr>mf_name = ''MANIFEST-000001'', mf_size = length table1, mf_checksum = []\<rparr>]\<rparr>"

definition bucket1 :: "(string \<times> bytes) list" where
  "bucket1 = [(''t/data/MANIFEST-000001'', table1), (''t/manifest'', refMarshal manifest1)]"

lemma bucket1_manifest: "map_of bucket1 (manifestPath ''t'') = Some (refMarshal manifest1)"
  "decodeManifest refCodec (refMarshal manifest1) = Inr manifest1"
  by (simp_all add: bucket1_def manifestPath_def cache_paths decodeManifest_def refCodec_def refUnmarshal_marshal)

lemma ready1: "openReady exStore refCodec exContents (\<lambda>_. True) exOpts bucket1 exFs"
proof (rule ready0)
  show "manifestTidy refCodec (map_of bucket1) ''t''"
    by (simp add: manifestTidy_def bucket1_manifest) (simp add: manifest1_def plainElem_def sep_def)
qed (auto simp: bucket1_def split: if_splits)

lemma download1:
  "WriteFile ''/cache/MANIFEST-000001'' d exFs1 = (Inr (), exFs1\<lparr>fs_files := [(''/cache/MANIFEST-000001'', \<lparr>f_data = d, f_mtime = 5\<rparr>)]\<rparr>)"
  by (simp add: WriteFile_def createFile_def writeData_def closeFile_def nextFault_def exFs1_def sep_def ancestors_def isFile_def
      Dir_def Clean_def cleanElems_def upt_rec)

lemma open_one_table:
  "\<exists>e s f. engine_Open exStore refPebble refCodec exOpts bucket1 exFs = (Inr e, s, f) \<and> e_ns e = ''t'' \<and>
    \<not> m_closed (e_wal e) \<and> m_batchWindow (e_wal e) \<le> 0"
proof -
  let ?f = "exFs1\<lparr>fs_files := [(''/cache/MANIFEST-000001'', \<lparr>f_data = table1, f_mtime = 5\<rparr>)]\<rparr>"
  have list: "listWALs exStore ''t'' bucket1 = (Inr [], bucket1)"
    by (simp add: listWALs_def walPrefix_def walDir_def cache_paths bucket1_def)
  have get: "sGet exStore (manifestPath ''t'') bucket1 = (Inr (refMarshal manifest1), bucket1)"
    "sGet exStore ''t/data/MANIFEST-000001'' bucket1 = (Inr table1, bucket1)"
    by (simp_all add: bucket1_manifest) (simp add: bucket1_def)
  have paths: "Join [dataPrefix ''t'', ''MANIFEST-000001''] = ''t/data/MANIFEST-000001''"
    "Join [''/cache'', ''MANIFEST-000001''] = ''/cache/MANIFEST-000001''"
    by (simp_all add: dataPrefix_def cache_paths Join_def Clean_def cleanElems_def sep_def)
  have files: "mn_files manifest1 = [\<lparr>mf_name = ''MANIFEST-000001'', mf_size = length table1, mf_checksum = []\<rparr>]"
    by (simp add: manifest1_def)
  have "dirMap ''/cache'' ?f refFile = Some table1"
    by (simp add: dirMap_def local_contents_def filesView_def refFile_def plainPath_def plainElem_def sep_def cache_paths)
  then have open': "\<exists>db. pOpen refPebble (dirMap ''/cache'' ?f) = Inr db"
    using getOps_put [of "[OpSet [1] [2]]" "length table1"] by (simp add: refPebble_def table1_def del: putOp.simps getOps.simps)
  have dir: "ReadDir ''/cache/localwal'' ?f = (Inr [], ?f)"
    by (simp add: ReadDir_def nextFault_def exFs1_def below_def)
  show ?thesis
    using fs_mk open' dir
    by (auto simp: engine_Open_def exOpts_def defaultOptions_def NewManager_def list cache_paths(1,2) recover_def Let_def get
        recoverManifest_def bucket1_manifest files paths download1 replayWALs_def replayLocalWALs_def simp del: mem_ops(2))
qed

section \<open>Properties\<close>

text \<open>A batch that \<open>Apply\<close> acknowledged in synchronous mode, batching or not, is applied
  to what reads see and to what a recovery from object storage would see, and the engine is
  again in a state where the two agree.\<close>

theorem write_ack_durable:
  assumes "cloud_engine st contents ok P view flushed J" "engineInv P view J contents ok e" "m_nextSeq (e_wal e) \<noteq> - 1"
    "engine_Apply st P env b e = (None, e')"
  shows "engineInv P view J contents ok e' \<and>
    view (the (e_db e')) = applyOps b (view (the (e_db e))) \<and>
    durable P view J (contents (e_store e')) (e_ns e) = Some (applyOps b (view (the (e_db e))))"
proof -
  obtain seq where w: "writeWALAndApply st P env b e = (Inr seq, e')" using write_ops(1) [OF assms(4)] by blast
  note k = cloud_engine.write_keeps [OF assms(1-3) w]
  show ?thesis using k(1,2,5) engineInvD(8) [OF k(1)] by simp
qed

theorem write_ack_durable_witness:
  "\<exists>e'. engine_Apply exStore refPebble exEnv [OpSet [1] [2]] exEngine = (None, e') \<and>
    durable refPebble exView refCodec (exContents (e_store e')) ''t'' = Some [[1] \<mapsto> [2]]"
proof -
  let ?e = "snd (engine_Apply exStore refPebble exEnv [OpSet [1] [2]] exEngine)"
  have a: "engine_Apply exStore refPebble exEnv [OpSet [1] [2]] exEngine = (None, ?e)"
    by (rule prod_eqI) (simp_all add: apply_e0)
  have q: "m_nextSeq (e_wal exEngine) \<noteq> - 1" "e_ns exEngine = ''t''" "the (e_db exEngine) = \<lparr>r_view = [], r_flushed = []\<rparr>"
    by (simp_all add: exEngine_def exEng_def exMgr_def)
  show ?thesis
    using write_ack_durable [OF ex.cloud_engine_axioms inv_e0 q(1) a] a q by (intro exI [of _ ?e]) simp
qed





text \<open>C14: opening an engine on an empty directory shows the durable state: the checkpoint of
  the manifest with the log objects above its sequence number applied in order. It changes
  no object, and it starts the log above every object of it.\<close>

theorem open_recovers:
  assumes "cloud_engine st contents ok P view flushed J" "openReady st J contents ok opts s f"
    "engine_Open st P J opts s f = (Inr e, s1, f1)"
  shows "durable P view J (contents s) (e_ns e) = Some (view (the (e_db e))) \<and> contents (e_store e) = contents s \<and>
    (\<forall>q. contents s (walPath (e_ns e) q) \<noteq> None \<longrightarrow> q < NextSeq (e_wal e))"
proof -
  note o = cloud_engine.Open_ok [OF assms]
  show ?thesis using o(2,5,6) by (auto simp: NextSeq_def)
qed

theorem open_recovers_witness:
  "\<exists>e s f. engine_Open exStore refPebble refCodec exOpts bucket1 exFs = (Inr e, s, f) \<and>
    durable refPebble exView refCodec (exContents bucket1) ''t'' = Some (exView (the (e_db e)))"
proof -
  obtain e s f where o: "engine_Open exStore refPebble refCodec exOpts bucket1 exFs = (Inr e, s, f)" "e_ns e = ''t''"
      "\<not> m_closed (e_wal e)" "m_batchWindow (e_wal e) \<le> 0"
    using open_one_table by blast
  show ?thesis using open_recovers [OF ex.cloud_engine_axioms ready1 o(1)] o by auto
qed

text \<open>C33: an engine opened after its log was collected (no log object, a manifest that covers
  a sequence number) numbers its writes from 1 again: a batch it acknowledges is visible to
  its reads and missing from the durable state, so the next recovery does not have it.\<close>

theorem restart_hides_writes:
  assumes "cloud_engine st contents ok P view flushed J" "openReady st J contents ok opts s f" "\<not> o_asyncWAL opts"
    "engine_Open st P J opts s f = (Inr e, s1, f1)" "\<forall>q. contents s (walPath (e_ns e) q) = None"
    "1 \<le> baseSeq J (contents s) (e_ns e)" "engine_Apply st P env b e = (None, e')"
  shows "view (the (e_db e')) = applyOps b (view (the (e_db e))) \<and>
    durable P view J (contents (e_store e')) (e_ns e) = Some (view (the (e_db e)))"
proof -
  note o = cloud_engine.Open_ok(5) [OF assms(1,2,4)] and h = cloud_engine.restart_hides [OF assms]
  show ?thesis using o h by auto
qed

theorem restart_hides_writes_witness:
  "\<exists>e s f e'. engine_Open exStore refPebble refCodec exOpts bucket1 exFs = (Inr e, s, f) \<and>
    engine_Apply exStore refPebble exEnv [OpSet [3] [4]] e = (None, e') \<and> exView (the (e_db e')) [3] = Some [4] \<and>
    durable refPebble exView refCodec (exContents (e_store e')) ''t'' = Some (exView (the (e_db e)))"
proof -
  obtain e s f where o: "engine_Open exStore refPebble refCodec exOpts bucket1 exFs = (Inr e, s, f)" "e_ns e = ''t''"
      "\<not> m_closed (e_wal e)" "m_batchWindow (e_wal e) \<le> 0"
    using open_one_table by blast
  note O = ex.Open_ok [OF ready1 o(1)]
  have n: "\<forall>q. exContents bucket1 (walPath (e_ns e) q) = None"
    using walPath_max o(2) by (simp add: exContents bucket1_def)
  have b: "1 \<le> baseSeq refCodec (exContents bucket1) (e_ns e)"
    using bucket1_manifest o(2) by (simp add: baseSeq_def exContents manifest1_def)
  obtain e' where a: "engine_Apply exStore refPebble exEnv [OpSet [3] [4]] e = (None, e')"
    using mem_apply [OF O(8)] O(10) opts0_ns(4) o(3,4) by auto
  show ?thesis
    using restart_hides_writes [OF ex.cloud_engine_axioms ready1 opts0_ns(4) o(1) n b a] o a by auto
qed

text \<open>C34: a batch acknowledged while a sync is between its checkpoint and its uploads is lost
  from the durable state by that sync: the manifest counts it as covered, its log object is
  deleted, and the uploaded checkpoint does not contain it.\<close>

theorem sync_race_loses:
  assumes "cloud_engine st contents ok P view flushed J" "engineInv P view J contents ok e"
    "syncCheckpoint st P e = (Inr entries, e1)" "m_nextSeq (e_wal e) \<noteq> - 1" "engine_Apply st P env b e1 = (None, e2)"
    "tablesStored (contents (e_store e2)) (e_ns e) (e_uploadedFiles e) entries" "syncUpload st J env' entries e2 = (None, e3)"
  shows "view (the (e_db e3)) = applyOps b (view (the (e_db e))) \<and>
    durable P view J (contents (e_store e3)) (e_ns e) = Some (view (the (e_db e)))"
  using cloud_engine.sync_race [OF assms] by simp

theorem sync_race_loses_witness:
  "\<exists>entries e1 e2 e3. syncCheckpoint exStore refPebble exEngine = (Inr entries, e1) \<and>
    engine_Apply exStore refPebble exEnv [OpSet [1] [2]] e1 = (None, e2) \<and> syncUpload exStore refCodec exEnv entries e2 = (None, e3) \<and>
    exView (the (e_db e3)) [1] = Some [2] \<and> durable refPebble exView refCodec (exContents (e_store e3)) ''t'' = Some Map.empty"
proof -
  obtain entries e1 where c: "syncCheckpoint exStore refPebble exEngine = (Inr entries, e1)" "e_fs e1 = exFs1"
    using mem_checkpoint [OF engineInvD(5) [OF inv_e0]] e0_fields by (auto simp: exFs1_def)
  obtain db1 fls f1 where k: "e1 = exEngine\<lparr>e_db := Some db1, e_wal := (e_wal exEngine)\<lparr>m_commitTimer := False, m_pendingSeq := 0\<rparr>, e_fs := f1\<rparr>"
    "pCheckpoint refPebble db1 = Inr fls" "entries = sort_key fst fls"
    using ex.syncCheckpoint_ok [OF engineInvD(7,5) [OF inv_e0] c(1)] by blast
  have t: "tablesStored (exContents s) ns U entries" for s ns U
    using k(2,3) ref_tables by (auto simp: refPebble_def)
  have i: "walIdle (e_wal e1)" "\<not> e_asyncWAL e1"
    using k(1) engineInvD(4,5) [OF inv_e0] by (simp_all add: walIdle_def)
  obtain e2 where a: "engine_Apply exStore refPebble exEnv [OpSet [1] [2]] e1 = (None, e2)" "e_fs e2 = exFs1"
    using mem_apply [OF i, of "[OpSet [1] [2]]"] c(2) k(1) by (auto simp: exEngine_def exEng_def exMgr_def)
  obtain e3 where u: "syncUpload exStore refCodec exEnv entries e2 = (None, e3)"
    using mem_syncUpload [of e2] a(2) by (auto simp: exFs1_def)
  show ?thesis
    using sync_race_loses [OF ex.cloud_engine_axioms inv_e0 c(1) e0_fields(1) a(1) t u] c(1) a(1) u e0_fields by auto
qed

end
