(* ===== verification/BigtableServer.thy ===== *)
theory BigtableServer
  imports CloudEngine RowFilters
begin

text \<open>
  The Bigtable server, \<open>pkg/bigtable/server.go\<close>: the table map, opening engines on demand,
  closing, and the small RPCs.

  All engines of a server share one object store and one local file system. The record
  \<open>server\<close> keeps both; an engine taken out of the table map is given the current ones, and
  what an operation leaves behind is put back. The base directory, the overrides and the
  per-row locks are fields. What a request observes of the outside (clocks, durations,
  random numbers, the regular-expression compiler) is the record \<open>request\<close>.
\<close>

section \<open>Status values and streams\<close>

datatype code = OK | Unknown | InvalidArgument | NotFound | FailedPrecondition | OutOfRange | Unimplemented | Internal

text \<open>An error of a handler: a gRPC status with its message and the error it was formatted
  with, or any other Go error.\<close>

datatype rpcError = StatusError code string "goerror option" | PlainError goerror

text \<open>The numbers of the gRPC codes.\<close>

fun codeNumber :: "code \<Rightarrow> 32 word" where
  "codeNumber OK = 0"
| "codeNumber Unknown = 2"
| "codeNumber InvalidArgument = 3"
| "codeNumber NotFound = 5"
| "codeNumber FailedPrecondition = 9"
| "codeNumber OutOfRange = 11"
| "codeNumber Unimplemented = 12"
| "codeNumber Internal = 13"

text \<open>A server stream: the messages sent, and for each send to come whether it fails.\<close>

record 'r sink =
  sk_sent :: "'r list"
  sk_faults :: "goerror option list"

definition Send :: "'r \<Rightarrow> 'r sink \<Rightarrow> goerror option \<times> 'r sink" where
  "Send r sk =
     (case sk_faults sk of
        [] \<Rightarrow> (None, sk\<lparr>sk_sent := sk_sent sk @ [r]\<rparr>)
      | None # fs \<Rightarrow> (None, sk\<lparr>sk_sent := sk_sent sk @ [r], sk_faults := fs\<rparr>)
      | Some e # fs \<Rightarrow> (Some e, sk\<lparr>sk_faults := fs\<rparr>))"

text \<open>What a request observes of its surroundings: the clock readings, one per call of
  \<open>time.Now\<close>, the random numbers, the regular-expression compiler and the capacity the
  runtime chooses when it grows a slice.\<close>

type_synonym clock = "nat \<Rightarrow> int64"

definition tick :: "clock \<Rightarrow> int64 \<times> clock" where
  "tick c = (c 0, \<lambda>n. c (Suc n))"

record request =
  rq_env :: env
  rq_clock :: clock
  rq_rng :: rng
  rq_compile :: compiler
  rq_grow :: "nat \<Rightarrow> nat \<Rightarrow> nat"

section \<open>The server\<close>

record ('s, 'db) tableState =
  ts_engine :: "('s, 'db) engine"
  ts_rowLocks :: "bytes list"

record ('s, 'db) server =
  sv_dir :: string
  sv_store :: 's
  sv_fs :: fs
  sv_tables :: "(string \<times> ('s, 'db) tableState) list"
  sv_nsPrefix :: string
  sv_batchWindow :: int
  sv_asyncWAL :: bool

definition NewServer :: "string \<Rightarrow> 's \<Rightarrow> fs \<Rightarrow> ('s, 'db) server" where
  "NewServer dir s f = \<lparr>sv_dir = dir, sv_store = s, sv_fs = f, sv_tables = [], sv_nsPrefix = [],
     sv_batchWindow = 0, sv_asyncWAL = False\<rparr>"

definition SetAsyncWAL :: "bool \<Rightarrow> ('s, 'db) server \<Rightarrow> ('s, 'db) server" where
  "SetAsyncWAL v sv = sv\<lparr>sv_asyncWAL := v\<rparr>"

definition tableNamespace :: "('s, 'db) server \<Rightarrow> string \<Rightarrow> string" where
  "tableNamespace sv tableName =
     (if sv_nsPrefix sv \<noteq> [] then sv_nsPrefix sv @ ''/'' @ tableName else ''bigtable/'' @ tableName)"

text \<open>An engine of the table map with the server's store and file system, and putting back
  what an operation on it left.\<close>

definition loadEngine :: "('s, 'db) server \<Rightarrow> ('s, 'db) engine \<Rightarrow> ('s, 'db) engine" where
  "loadEngine sv e = e\<lparr>e_store := sv_store sv, e_fs := sv_fs sv\<rparr>"

definition saveEngine :: "string \<Rightarrow> ('s, 'db) engine \<Rightarrow> ('s, 'db) server \<Rightarrow> ('s, 'db) server" where
  "saveEngine tableName e sv =
     sv\<lparr>sv_store := e_store e, sv_fs := e_fs e,
        sv_tables := (case map_of (sv_tables sv) tableName of
            None \<Rightarrow> AList.update tableName \<lparr>ts_engine = e, ts_rowLocks = []\<rparr> (sv_tables sv)
          | Some ts \<Rightarrow> AList.update tableName (ts\<lparr>ts_engine := e\<rparr>) (sv_tables sv))\<rparr>"

definition engineOptions :: "('s, 'db) server \<Rightarrow> string \<Rightarrow> options" where
  "engineOptions sv tableName =
     \<lparr>o_dir = sv_dir sv @ ''/'' @ tableName, o_hasStore = True, o_namespace = tableNamespace sv tableName,
      o_syncInterval = 0, o_coldMissThreshold = 0, o_consistency = ConsistencyStrong,
      o_asyncWAL = sv_asyncWAL sv, o_orphanWALTTL = 0,
      o_batchWindow = (if sv_batchWindow sv \<noteq> 0 then sv_batchWindow sv else 0), o_maxLocalBytes = 0\<rparr>"

definition getEngine :: "'s store \<Rightarrow> 'db pebble \<Rightarrow> codec \<Rightarrow> string \<Rightarrow> ('s, 'db) server \<Rightarrow>
    (goerror + ('s, 'db) engine) \<times> ('s, 'db) server" where
  "getEngine st P J tableName sv =
     (case map_of (sv_tables sv) tableName of
        Some ts \<Rightarrow> (Inr (loadEngine sv (ts_engine ts)), sv)
      | None \<Rightarrow>
          (case engine_Open st P J (engineOptions sv tableName) (sv_store sv) (sv_fs sv) of
             (Inl err, s1, f1) \<Rightarrow> (Inl (Wrap ''opening table'' err), sv\<lparr>sv_store := s1, sv_fs := f1\<rparr>)
           | (Inr eng, s1, f1) \<Rightarrow> (Inr eng, saveEngine tableName eng sv)))"

definition server_db :: "'s store \<Rightarrow> 'db pebble \<Rightarrow> codec \<Rightarrow> string \<Rightarrow> ('s, 'db) server \<Rightarrow> (goerror + 'db option) \<times> ('s, 'db) server" where
  "server_db st P J tableName sv =
     (case getEngine st P J tableName sv of (Inl err, sv1) \<Rightarrow> (Inl err, sv1) | (Inr eng, sv1) \<Rightarrow> (Inr (e_db eng), sv1))"

text \<open>Closing every engine; the errors that \<open>errors.Join\<close> would join.\<close>

fun closeLoop :: "'s store \<Rightarrow> 'db pebble \<Rightarrow> codec \<Rightarrow> env \<Rightarrow> (string \<times> ('s, 'db) tableState) list \<Rightarrow> goerror list \<Rightarrow>
    ('s, 'db) server \<Rightarrow> goerror list \<times> ('s, 'db) server" where
  "closeLoop st P J env [] errs sv = (errs, sv)"
| "closeLoop st P J env ((name, ts) # tss) errs sv =
     (case engine_Close st P J env (loadEngine sv (ts_engine ts)) of
        (r, e) \<Rightarrow>
          closeLoop st P J env tss
            (case r of None \<Rightarrow> errs | Some err \<Rightarrow> errs @ [Wrap ''closing table'' err])
            (sv\<lparr>sv_store := e_store e, sv_fs := e_fs e\<rparr>))"

definition server_Close :: "'s store \<Rightarrow> 'db pebble \<Rightarrow> codec \<Rightarrow> env \<Rightarrow> ('s, 'db) server \<Rightarrow> goerror list \<times> ('s, 'db) server" where
  "server_Close st P J env sv =
     (case closeLoop st P J env (sv_tables sv) [] sv of (errs, sv1) \<Rightarrow> (errs, sv1\<lparr>sv_tables := []\<rparr>))"

section \<open>Small RPCs\<close>

record clientConfiguration =
  cc_sessionLoad :: rat
  cc_stopPolling :: bool

definition GetClientConfiguration :: clientConfiguration where
  "GetClientConfiguration = \<lparr>cc_sessionLoad = 1, cc_stopPolling = True\<rparr>"

definition PingAndWarm :: "'s store \<Rightarrow> 'db pebble \<Rightarrow> codec \<Rightarrow> string \<Rightarrow> ('s, 'db) server \<Rightarrow> (rpcError + unit) \<times> ('s, 'db) server" where
  "PingAndWarm st P J name sv =
     (if name = [] then (Inl (StatusError InvalidArgument ''name is required'' None), sv)
      else (case getEngine st P J name sv of
              (Inl err, sv1) \<Rightarrow> (Inl (StatusError Internal ''opening table'' (Some err)), sv1)
            | (Inr _, sv1) \<Rightarrow> (Inr (), sv1)))"

text \<open>The RPCs that are not implemented.\<close>

definition OpenAuthorizedView :: rpcError where
  "OpenAuthorizedView = StatusError Unimplemented ''authorized views not supported'' None"

definition OpenMaterializedView :: rpcError where
  "OpenMaterializedView = StatusError Unimplemented ''materialized views not supported'' None"

definition GenerateInitialChangeStreamPartitions :: rpcError where
  "GenerateInitialChangeStreamPartitions = StatusError Unimplemented ''change streams not supported'' None"

definition ReadChangeStream :: rpcError where
  "ReadChangeStream = StatusError Unimplemented ''change streams not supported'' None"

definition PrepareQuery :: rpcError where
  "PrepareQuery = StatusError Unimplemented ''SQL queries not supported'' None"

definition ExecuteQuery :: rpcError where
  "ExecuteQuery = StatusError Unimplemented ''SQL queries not supported'' None"

section \<open>The table map\<close>

lemma saveEngine_tables:
  "map_of (sv_tables (saveEngine n e sv)) n' =
     (if n' = n then Some (case map_of (sv_tables sv) n of None \<Rightarrow> \<lparr>ts_engine = e, ts_rowLocks = []\<rparr> | Some ts \<Rightarrow> ts\<lparr>ts_engine := e\<rparr>)
      else map_of (sv_tables sv) n')"
  by (auto simp: saveEngine_def update_conv' split: option.splits)

lemma saveEngine_simps [simp]:
  "sv_store (saveEngine n e sv) = e_store e" "sv_fs (saveEngine n e sv) = e_fs e" "sv_nsPrefix (saveEngine n e sv) = sv_nsPrefix sv"
  "sv_dir (saveEngine n e sv) = sv_dir sv" "sv_asyncWAL (saveEngine n e sv) = sv_asyncWAL sv"
  "sv_batchWindow (saveEngine n e sv) = sv_batchWindow sv"
  by (simp_all add: saveEngine_def)

text \<open>An opened table is not opened again.\<close>

lemma getEngine_again:
  assumes "getEngine st P J n sv = (Inr e, sv')"
  shows "getEngine st P J n sv' = (Inr (loadEngine sv' e), sv')"
  using assms by (auto simp: getEngine_def saveEngine_tables loadEngine_def split: option.splits prod.splits sum.splits)

lemma tableNamespace_inj: "tableNamespace sv a = tableNamespace sv b \<longleftrightarrow> a = b"
  by (simp add: tableNamespace_def)

end
