(* ===== verification/Mutations.thy ===== *)
theory Mutations
  imports BigtableServer
begin

text \<open>
  Writing rows, \<open>pkg/bigtable/mutate.go\<close>: \<open>MutateRow\<close>, \<open>MutateRows\<close>, \<open>CheckAndMutateRow\<close> and
  the translation of mutations into a Pebble batch.

  A batch under construction is the list of its operations with the clock readings still
  to come. The abstract table \<open>cellsOf\<close> maps row, family, qualifier and timestamp to a
  value; the translation of mutations is shown to refine their meaning on it.
\<close>

section \<open>Messages\<close>

record setCell =
  sc_family :: bytes
  sc_qualifier :: bytes
  sc_ts :: int64
  sc_value :: bytes

record deleteFromColumn =
  dc_family :: bytes
  dc_qualifier :: bytes
  dc_timeRange :: "timestampRange option"

datatype mutation =
    SetCell setCell
  | DeleteFromColumn deleteFromColumn
  | DeleteFromFamily bytes
  | DeleteFromRow
  | AddToCell
  | MergeToCell
  | NoMutation

record mutateRowRequest =
  mr_tableName :: string
  mr_rowKey :: bytes
  mr_mutations :: "mutation list"

record mutateRowsEntry =
  en_rowKey :: bytes
  en_mutations :: "mutation list"

record mutateRowsRequest =
  ms_tableName :: string
  ms_entries :: "mutateRowsEntry list"

text \<open>A status: its code and its message, the latter as the fixed text and the error formatted
  into it.\<close>

record rpcStatus =
  rs_code :: "32 word"
  rs_message :: string
  rs_cause :: "goerror option"

record responseEntry =
  re_index :: int
  re_status :: rpcStatus

record mutateRowsResponse =
  mp_entries :: "responseEntry list"
  mp_periodSeconds :: int
  mp_factor :: rat

record checkAndMutateRowRequest =
  cm_tableName :: string
  cm_rowKey :: bytes
  cm_predicate :: "rowFilter option"
  cm_true :: "mutation list"
  cm_false :: "mutation list"

section \<open>Mutations to batch operations\<close>

type_synonym building = "batch \<times> clock"

definition applySetCell :: "bytes \<Rightarrow> setCell \<Rightarrow> building \<Rightarrow> rpcError option \<times> building" where
  "applySetCell rowKey sc w =
     (case w of (batch, clk) \<Rightarrow>
      if length (sc_family sc) > 255 then (Some (StatusError InvalidArgument ''family name too long (max 255 bytes)'' None), w)
      else if length (sc_qualifier sc) > 65535 then
        (Some (StatusError InvalidArgument ''column qualifier too long (max 65535 bytes)'' None), w)
      else
        (let (ts, clk1) = (if sc_ts sc = - 1 then tick clk else (sc_ts sc, clk));
             key = EncodeCellKey rowKey (sc_family sc) (sc_qualifier sc) ts
         in (None, batch @ [OpSet key (sc_value sc)], clk1)))"

definition applyDeleteFromColumn :: "bytes \<Rightarrow> deleteFromColumn \<Rightarrow> building \<Rightarrow> rpcError option \<times> building" where
  "applyDeleteFromColumn rowKey dc w =
     (case w of (batch, clk) \<Rightarrow>
      let rp = encodeRowPrefix rowKey;
          fp = encodeFamilyPrefix rp (dc_family dc);
          cp = encodeColumnPrefix fp (dc_qualifier dc)
      in case dc_timeRange dc of
           Some tr \<Rightarrow>
             (let (endTS, clk1) = (if tr_end tr = 0 then tick clk else (tr_end tr, clk));
                  (start, end') = encodeTimestampRangeBounds cp (tr_start tr) endTS
              in (None, batch @ [OpDeleteRange start end'], clk1))
         | None \<Rightarrow> (None, batch @ [OpDeleteRange cp (columnEndKey cp)], clk))"

definition applyDeleteFromFamily :: "bytes \<Rightarrow> bytes \<Rightarrow> building \<Rightarrow> rpcError option \<times> building" where
  "applyDeleteFromFamily rowKey family w =
     (case w of (batch, clk) \<Rightarrow>
      let rp = encodeRowPrefix rowKey; fp = encodeFamilyPrefix rp family
      in (None, batch @ [OpDeleteRange fp (familyEndKey fp)], clk))"

definition applyDeleteFromRow :: "bytes \<Rightarrow> building \<Rightarrow> rpcError option \<times> building" where
  "applyDeleteFromRow rowKey w =
     (case w of (batch, clk) \<Rightarrow>
      let rp = encodeRowPrefix rowKey in (None, batch @ [OpDeleteRange rp (rowEndKey rp)], clk))"

fun applyMutationToBatch :: "bytes \<Rightarrow> mutation \<Rightarrow> building \<Rightarrow> rpcError option \<times> building" where
  "applyMutationToBatch rowKey (SetCell sc) w = applySetCell rowKey sc w"
| "applyMutationToBatch rowKey (DeleteFromColumn dc) w = applyDeleteFromColumn rowKey dc w"
| "applyMutationToBatch rowKey (DeleteFromFamily f) w = applyDeleteFromFamily rowKey f w"
| "applyMutationToBatch rowKey DeleteFromRow w = applyDeleteFromRow rowKey w"
| "applyMutationToBatch rowKey AddToCell w = (Some (StatusError Unimplemented ''AddToCell not supported'' None), w)"
| "applyMutationToBatch rowKey MergeToCell w = (Some (StatusError Unimplemented ''MergeToCell not supported'' None), w)"
| "applyMutationToBatch rowKey NoMutation w = (Some (StatusError InvalidArgument ''unknown mutation type'' None), w)"

fun applyMutationsToBatch :: "bytes \<Rightarrow> mutation list \<Rightarrow> building \<Rightarrow> rpcError option \<times> building" where
  "applyMutationsToBatch rowKey [] w = (None, w)"
| "applyMutationsToBatch rowKey (mut # muts) w =
     (case applyMutationToBatch rowKey mut w of
        (Some err, w1) \<Rightarrow> (Some err, w1)
      | (None, w1) \<Rightarrow> applyMutationsToBatch rowKey muts w1)"

section \<open>MutateRow\<close>

definition MutateRow :: "'s store \<Rightarrow> 'db pebble \<Rightarrow> codec \<Rightarrow> request \<Rightarrow> mutateRowRequest \<Rightarrow> ('s, 'db) server \<Rightarrow>
    (rpcError + unit) \<times> ('s, 'db) server" where
  "MutateRow st P J rq req sv =
     (if length (mr_rowKey req) = 0 then (Inl (StatusError InvalidArgument ''row_key is required'' None), sv)
      else if length (mr_mutations req) = 0 then (Inl (StatusError InvalidArgument ''mutations is required'' None), sv)
      else
        (case getEngine st P J (mr_tableName req) sv of
           (Inl err, sv1) \<Rightarrow> (Inl (StatusError Internal ''opening table'' (Some err)), sv1)
         | (Inr eng, sv1) \<Rightarrow>
             (case applyMutationsToBatch (mr_rowKey req) (mr_mutations req) ([], rq_clock rq) of
                (Some err, _) \<Rightarrow> (Inl err, sv1)
              | (None, batch, _) \<Rightarrow>
                  (case engine_Apply st P (rq_env rq) batch eng of
                     (Some err, eng1) \<Rightarrow>
                       (Inl (StatusError Internal ''applying mutations'' (Some err)), saveEngine (mr_tableName req) eng1 sv1)
                   | (None, eng1) \<Rightarrow> (Inr (), saveEngine (mr_tableName req) eng1 sv1)))))"

section \<open>MutateRows\<close>

definition statusCodeInt32 :: "32 word \<Rightarrow> 32 word" where
  "statusCodeInt32 v = (if v > 0x7FFFFFFF then codeNumber Internal else v)"

definition okStatus :: rpcStatus where
  "okStatus = \<lparr>rs_code = statusCodeInt32 (codeNumber OK), rs_message = [], rs_cause = None\<rparr>"

text \<open>\<open>status.FromError\<close> gives other errors the code \<open>Unknown\<close>.\<close>

fun toBigtableStatus :: "rpcError \<Rightarrow> rpcStatus" where
  "toBigtableStatus (StatusError c msg e) = \<lparr>rs_code = statusCodeInt32 (codeNumber c), rs_message = msg, rs_cause = e\<rparr>"
| "toBigtableStatus (PlainError e) = \<lparr>rs_code = statusCodeInt32 (codeNumber Unknown), rs_message = [], rs_cause = Some e\<rparr>"

fun entryLoop :: "mutateRowsEntry list \<Rightarrow> int \<Rightarrow> building \<Rightarrow> (int \<times> rpcError) list \<Rightarrow> (int \<times> rpcError) list \<times> building" where
  "entryLoop [] i w entryErrors = (entryErrors, w)"
| "entryLoop (entry # entries) i w entryErrors =
     (case applyMutationsToBatch (en_rowKey entry) (en_mutations entry) w of
        (Some err, w1) \<Rightarrow> entryLoop entries (i + 1) w1 (entryErrors @ [(i, err)])
      | (None, w1) \<Rightarrow> entryLoop entries (i + 1) w1 entryErrors)"

definition mutateRowsReply :: "responseEntry list \<Rightarrow> mutateRowsResponse" where
  "mutateRowsReply es = \<lparr>mp_entries = es, mp_periodSeconds = 1, mp_factor = 1\<rparr>"

definition indices :: "'a list \<Rightarrow> int list" where
  "indices xs = map int [0..<length xs]"

definition MutateRows :: "'s store \<Rightarrow> 'db pebble \<Rightarrow> codec \<Rightarrow> request \<Rightarrow> mutateRowsRequest \<Rightarrow> mutateRowsResponse sink \<Rightarrow>
    ('s, 'db) server \<Rightarrow> rpcError option \<times> mutateRowsResponse sink \<times> ('s, 'db) server" where
  "MutateRows st P J rq req sk sv =
     (let entries = ms_entries req;
          reply = (\<lambda>es sv'. case Send (mutateRowsReply es) sk of (r, sk1) \<Rightarrow> (map_option PlainError r, sk1, sv'))
      in
      if length entries = 0 then (Some (StatusError InvalidArgument ''entries is required'' None), sk, sv)
      else
        (case getEngine st P J (ms_tableName req) sv of
           (Inl err, sv1) \<Rightarrow> (Some (StatusError Internal ''opening table'' (Some err)), sk, sv1)
         | (Inr eng, sv1) \<Rightarrow>
             (case entryLoop entries 0 ([], rq_clock rq) [] of
                (entryErrors, batch, _) \<Rightarrow>
                  if length entryErrors > 0 then
                    reply (map (\<lambda>(i, err). \<lparr>re_index = i, re_status = toBigtableStatus err\<rparr>) entryErrors @
                           map (\<lambda>i. \<lparr>re_index = i, re_status = okStatus\<rparr>)
                             (filter (\<lambda>i. i \<notin> fst ` set entryErrors) (indices entries))) sv1
                  else
                    (case engine_Apply st P (rq_env rq) batch eng of
                       (Some err, eng1) \<Rightarrow>
                         reply (map (\<lambda>i. \<lparr>re_index = i, re_status = toBigtableStatus (PlainError err)\<rparr>) (indices entries))
                           (saveEngine (ms_tableName req) eng1 sv1)
                     | (None, eng1) \<Rightarrow>
                         reply (map (\<lambda>i. \<lparr>re_index = i, re_status = okStatus\<rparr>) (indices entries))
                           (saveEngine (ms_tableName req) eng1 sv1)))))"

section \<open>CheckAndMutateRow\<close>

definition rowHasCells :: "'db pebble \<Rightarrow> request \<Rightarrow> 'db \<Rightarrow> bytes \<Rightarrow> rowFilter option \<Rightarrow> bool" where
  "rowHasCells P rq db rowKey rf =
     (case rowKeyRangeBounds rowKey of (start, end') \<Rightarrow>
        (case pNewIter P (Some start) (Some end') db of
           Inl _ \<Rightarrow> False
         | Inr kvs \<Rightarrow>
             (case rf of
                None \<Rightarrow> kvs \<noteq> []
              | Some f \<Rightarrow>
                  (case newRowFilterEngine (rq_compile rq) (Some f) of
                     Inl _ \<Rightarrow> kvs \<noteq> []
                   | Inr fe \<Rightarrow> fst (hasMatch fe kvs (rq_rng rq))))))"

text \<open>\<open>LoadOrStore\<close> of the row's mutex. Requests of one row run one after the other in the
  model, as the lock makes them.\<close>

definition lockRow :: "string \<Rightarrow> bytes \<Rightarrow> ('s, 'db) server \<Rightarrow> ('s, 'db) server" where
  "lockRow tableName rowKey sv =
     (case map_of (sv_tables sv) tableName of
        None \<Rightarrow> sv
      | Some ts \<Rightarrow> sv\<lparr>sv_tables := AList.update tableName (ts\<lparr>ts_rowLocks := List.insert rowKey (ts_rowLocks ts)\<rparr>) (sv_tables sv)\<rparr>)"

definition CheckAndMutateRow :: "'s store \<Rightarrow> 'db pebble \<Rightarrow> codec \<Rightarrow> request \<Rightarrow> checkAndMutateRowRequest \<Rightarrow> ('s, 'db) server \<Rightarrow>
    (rpcError + bool) \<times> ('s, 'db) server" where
  "CheckAndMutateRow st P J rq req sv =
     (if length (cm_rowKey req) = 0 then (Inl (StatusError InvalidArgument ''row_key is required'' None), sv)
      else
        (case getEngine st P J (cm_tableName req) sv of
           (Inl err, sv1) \<Rightarrow> (Inl (StatusError Internal ''opening table'' (Some err)), sv1)
         | (Inr eng, sv1) \<Rightarrow>
             if map_of (sv_tables sv1) (cm_tableName req) = None
             then (Inl (StatusError NotFound ''table not found'' None), sv1)
             else
               (let sv2 = lockRow (cm_tableName req) (cm_rowKey req) sv1;
                    predicateMatched = rowHasCells P rq (the (e_db eng)) (cm_rowKey req) (cm_predicate req);
                    mutations = (if \<not> predicateMatched then cm_false req else cm_true req)
                in if length mutations = 0 then (Inr predicateMatched, sv2)
                   else
                     (case applyMutationsToBatch (cm_rowKey req) mutations ([], rq_clock rq) of
                        (Some err, _) \<Rightarrow> (Inl err, sv2)
                      | (None, batch, _) \<Rightarrow>
                          (case engine_Apply st P (rq_env rq) batch eng of
                             (Some err, eng1) \<Rightarrow>
                               (Inl (StatusError Internal ''applying mutations'' (Some err)), saveEngine (cm_tableName req) eng1 sv2)
                           | (None, eng1) \<Rightarrow> (Inr predicateMatched, saveEngine (cm_tableName req) eng1 sv2))))))"

section \<open>The table as a map from cells to values\<close>

text \<open>A cell is addressed by row, family, qualifier and timestamp.\<close>

type_synonym cellId = "bytes \<times> bytes \<times> bytes \<times> int64"

text \<open>The cells that the scan bounds reach: shorter names than the encoding allows, and
  timestamps above the lowest 256th of the range.\<close>

fun ordinary :: "cellId \<Rightarrow> bool" where
  "ordinary (r, f, q, t) \<longleftrightarrow> length f < 255 \<and> length q < 65280 \<and> 2 ^ 56 - 2 ^ 63 \<le> sint t"

fun cellsOf :: "(bytes \<Rightarrow> bytes option) \<Rightarrow> cellId \<Rightarrow> bytes option" where
  "cellsOf m (r, f, q, t) = (if ordinary (r, f, q, t) then m (EncodeCellKey r f q t) else None)"

text \<open>What a mutation of row \<open>r\<close> means, with the clock readings to come.\<close>

fun specMutation :: "bytes \<Rightarrow> mutation \<Rightarrow> (cellId \<Rightarrow> bytes option) \<times> clock \<Rightarrow> (cellId \<Rightarrow> bytes option) \<times> clock" where
  "specMutation r (SetCell sc) (T, clk) =
     (if sc_ts sc = - 1 then (T((r, sc_family sc, sc_qualifier sc, clk 0) \<mapsto> sc_value sc), \<lambda>n. clk (Suc n))
      else (T((r, sc_family sc, sc_qualifier sc, sc_ts sc) \<mapsto> sc_value sc), clk))"
| "specMutation r (DeleteFromColumn dc) (T, clk) =
     (case dc_timeRange dc of
        None \<Rightarrow> (\<lambda>(r', f, q, t). if r' = r \<and> f = dc_family dc \<and> q = dc_qualifier dc then None else T (r', f, q, t), clk)
      | Some tr \<Rightarrow>
          (\<lambda>(r', f, q, t). if r' = r \<and> f = dc_family dc \<and> q = dc_qualifier dc \<and> sint (tr_start tr) \<le> sint t \<and>
                 sint t < sint (if tr_end tr = 0 then clk 0 else tr_end tr)
               then None else T (r', f, q, t),
           if tr_end tr = 0 then \<lambda>n. clk (Suc n) else clk))"
| "specMutation r (DeleteFromFamily fam) (T, clk) =
     (\<lambda>(r', f, q, t). if r' = r \<and> f = fam then None else T (r', f, q, t), clk)"
| "specMutation r DeleteFromRow (T, clk) = (\<lambda>(r', f, q, t). if r' = r then None else T (r', f, q, t), clk)"
| "specMutation r m w = w"

text \<open>The mutations this meaning is claimed for.\<close>

fun wfMutation :: "mutation \<Rightarrow> bool" where
  "wfMutation (SetCell sc) \<longleftrightarrow> ordinary ([], sc_family sc, sc_qualifier sc, sc_ts sc)"
| "wfMutation (DeleteFromColumn dc) \<longleftrightarrow> length (dc_family dc) < 255 \<and> length (dc_qualifier dc) < 65280 \<and>
     (case dc_timeRange dc of None \<Rightarrow> True | Some tr \<Rightarrow> tr_start tr \<noteq> MinInt64 \<and> tr_end tr \<noteq> MinInt64)"
| "wfMutation (DeleteFromFamily f) \<longleftrightarrow> length f < 255"
| "wfMutation DeleteFromRow \<longleftrightarrow> True"
| "wfMutation m \<longleftrightarrow> False"

text \<open>A clock that has passed 1970.\<close>

definition goodClock :: "clock \<Rightarrow> bool" where
  "goodClock clk \<longleftrightarrow> (\<forall>n. 0 \<le> sint (clk n))"

lemma goodClock_step [simp]: "goodClock clk \<Longrightarrow> goodClock (\<lambda>n. clk (Suc n))"
  by (simp add: goodClock_def)

lemma goodClock_ordinary: "goodClock clk \<Longrightarrow> 2 ^ 56 - 2 ^ 63 \<le> sint (clk n)" "goodClock clk \<Longrightarrow> clk n \<noteq> MinInt64"
proof -
  assume "goodClock clk"
  then have n: "0 \<le> sint (clk n)" by (simp add: goodClock_def)
  then show "2 ^ 56 - 2 ^ 63 \<le> sint (clk n)" by simp
  have "sint MinInt64 < 0" by (simp add: MinInt64_def)
  then show "clk n \<noteq> MinInt64" using n by force
qed

lemma ordinary_valid: "ordinary (r, f, q, t) \<Longrightarrow> valid_col f q"
  by (simp add: valid_col_def)

lemma cellsOf_ext:
  assumes "\<And>r f q t. ordinary (r, f, q, t) \<Longrightarrow> m (EncodeCellKey r f q t) = T (r, f, q, t)"
    "\<And>r f q t. \<not> ordinary (r, f, q, t) \<Longrightarrow> T (r, f, q, t) = None"
  shows "cellsOf m = T"
  using assms by (auto simp: fun_eq_iff simp del: ordinary.simps)

section \<open>Batch operations on cells\<close>

lemma cells_set:
  assumes "ordinary (r, f, q, t)"
  shows "cellsOf (applyOp (OpSet (EncodeCellKey r f q t) v) m) = (cellsOf m)((r, f, q, t) \<mapsto> v)"
  using assms EncodeCellKey_inj ordinary_valid
  by (intro cellsOf_ext) (force simp del: ordinary.simps)+

lemma cells_deleteRange:
  assumes "\<And>r f q t. ordinary (r, f, q, t) \<Longrightarrow> in_range b (EncodeCellKey r f q t) \<longleftrightarrow> Q r f q t"
  shows "cellsOf (applyOp (OpDeleteRange (fst b) (snd b)) m) = (\<lambda>(r, f, q, t). if Q r f q t then None else cellsOf m (r, f, q, t))"
  using assms by (intro cellsOf_ext) (simp_all add: in_range_def del: ordinary.simps)

lemma applyMutation_refines:
  assumes "wfMutation mut" "goodClock clk"
  shows "\<exists>b' clk'. applyMutationToBatch r mut (b, clk) = (None, b', clk') \<and> goodClock clk' \<and>
    (cellsOf (applyOps b' m), clk') = specMutation r mut (cellsOf (applyOps b m), clk)"
proof (cases mut)
  case (SetCell sc)
  let ?t = "if sc_ts sc = - 1 then clk 0 else sc_ts sc"
  have o: "ordinary (r, sc_family sc, sc_qualifier sc, ?t)"
    using assms goodClock_ordinary(1) [of clk 0] by (simp add: SetCell)
  note C = cells_set [OF o, of "sc_value sc" "applyOps b m"]
  have "length (sc_family sc) \<le> 255" "length (sc_qualifier sc) \<le> 65535" using o by simp_all
  then show ?thesis
    using assms(2) C by (auto simp: SetCell applySetCell_def tick_def simp del: cellsOf.simps applyOp.simps)
next
  case (DeleteFromColumn dc)
  let ?f = "dc_family dc" and ?q = "dc_qualifier dc"
  have v: "valid_col ?f ?q" using assms(1) by (simp add: DeleteFromColumn valid_col_def)
  show ?thesis
  proof (cases "dc_timeRange dc")
    case None
    have "cellsOf (applyOp (OpDeleteRange (fst (rowKeyColumnBounds r ?f ?q)) (snd (rowKeyColumnBounds r ?f ?q))) (applyOps b m))
      = (\<lambda>(r', f, q, t). if r' = r \<and> f = ?f \<and> q = ?q then None else cellsOf (applyOps b m) (r', f, q, t))"
      using v by (intro cells_deleteRange) (simp add: in_column_bounds valid_col_def)
    then show ?thesis using assms(2)
      by (simp add: DeleteFromColumn None applyDeleteFromColumn_def rowKeyColumnBounds_def Let_def del: cellsOf.simps applyOp.simps)
  next
    case (Some tr)
    let ?e = "if tr_end tr = 0 then clk 0 else tr_end tr"
    let ?b = "encodeTimestampRangeBounds (encodeColumnPrefix (encodeFamilyPrefix (encodeRowPrefix r) ?f) ?q) (tr_start tr) ?e"
    have n: "tr_start tr \<noteq> MinInt64" "?e \<noteq> MinInt64"
      using assms(1) goodClock_ordinary(2) [OF assms(2), of 0] by (simp_all add: DeleteFromColumn Some)
    have "cellsOf (applyOp (OpDeleteRange (fst ?b) (snd ?b)) (applyOps b m))
      = (\<lambda>(r', f, q, t). if r' = r \<and> f = ?f \<and> q = ?q \<and> sint (tr_start tr) \<le> sint t \<and> sint t < sint ?e then None
            else cellsOf (applyOps b m) (r', f, q, t))"
      by (intro cells_deleteRange in_timestamp_bounds [OF ordinary_valid v n])
    then show ?thesis using assms(2)
      by (cases "tr_end tr = 0") (simp_all add: DeleteFromColumn Some applyDeleteFromColumn_def tick_def case_prod_unfold Let_def
          del: cellsOf.simps applyOp.simps)
  qed
next
  case (DeleteFromFamily fam)
  have "cellsOf (applyOp (OpDeleteRange (fst (rowKeyFamilyBounds r fam)) (snd (rowKeyFamilyBounds r fam))) (applyOps b m))
    = (\<lambda>(r', f, q, t). if r' = r \<and> f = fam then None else cellsOf (applyOps b m) (r', f, q, t))"
    using assms(1) by (intro cells_deleteRange) (simp add: DeleteFromFamily in_family_bounds valid_col_def)
  then show ?thesis using assms(2)
    by (simp add: DeleteFromFamily applyDeleteFromFamily_def rowKeyFamilyBounds_def Let_def del: cellsOf.simps applyOp.simps)
next
  case DeleteFromRow
  have "cellsOf (applyOp (OpDeleteRange (fst (rowKeyRangeBounds r)) (snd (rowKeyRangeBounds r))) (applyOps b m))
    = (\<lambda>(r', f, q, t). if r' = r then None else cellsOf (applyOps b m) (r', f, q, t))"
    by (intro cells_deleteRange) (simp add: in_row_bounds valid_col_def)
  then show ?thesis using assms(2)
    by (simp add: DeleteFromRow applyDeleteFromRow_def rowKeyRangeBounds_def Let_def del: cellsOf.simps applyOp.simps)
qed (use assms in auto)

lemma applyMutations_refines:
  assumes "list_all wfMutation muts" "goodClock clk"
  shows "\<exists>b' clk'. applyMutationsToBatch r muts (b, clk) = (None, b', clk') \<and> goodClock clk' \<and>
    (cellsOf (applyOps b' m), clk') = fold (specMutation r) muts (cellsOf (applyOps b m), clk)"
  using assms
proof (induction muts arbitrary: b clk)
  case (Cons mut muts)
  obtain b1 clk1 where 1: "applyMutationToBatch r mut (b, clk) = (None, b1, clk1)" "goodClock clk1"
    "(cellsOf (applyOps b1 m), clk1) = specMutation r mut (cellsOf (applyOps b m), clk)"
    using applyMutation_refines [of mut clk r b m] Cons.prems by auto
  show ?case using Cons.IH [of clk1 b1] Cons.prems 1 by simp
qed simp

section \<open>Keys of the table decode\<close>

definition tableWf :: "(bytes \<Rightarrow> bytes option) \<Rightarrow> bool" where
  "tableWf m \<longleftrightarrow> (\<forall>k. m k \<noteq> None \<longrightarrow> d_ok (DecodeCellKey k))"

lemma tableWf_set: "tableWf m \<Longrightarrow> valid_col f q \<Longrightarrow> tableWf (applyOp (OpSet (EncodeCellKey r f q t) v) m)"
  by (simp add: tableWf_def DecodeCellKey_encoded)

lemma tableWf_delete: "tableWf m \<Longrightarrow> tableWf (applyOp (OpDeleteRange a b) m)"
  by (simp add: tableWf_def)

lemma tableWf_mutation:
  assumes "tableWf (applyOps b m)" "applyMutationToBatch r mut (b, clk) = (res, b', clk')"
  shows "tableWf (applyOps b' m)"
proof (cases mut)
  case (SetCell sc)
  show ?thesis using assms
    by (auto simp: SetCell applySetCell_def valid_col_def Let_def simp del: applyOp.simps split: if_splits prod.splits intro!: tableWf_set)
next
  case (DeleteFromColumn dc)
  then show ?thesis using assms
    by (auto simp: applyDeleteFromColumn_def Let_def simp del: applyOp.simps split: option.splits prod.splits intro!: tableWf_delete)
qed (use assms in \<open>auto simp: applyDeleteFromFamily_def applyDeleteFromRow_def Let_def simp del: applyOp.simps intro!: tableWf_delete\<close>)

lemma tableWf_mutations:
  assumes "tableWf (applyOps b m)" "applyMutationsToBatch r muts (b, clk) = (res, b', clk')"
  shows "tableWf (applyOps b' m)"
  using assms
proof (induction muts arbitrary: b clk)
  case (Cons mut muts)
  obtain res1 b1 clk1 where 1: "applyMutationToBatch r mut (b, clk) = (res1, b1, clk1)" by (metis prod_cases3)
  have "tableWf (applyOps b1 m)" using tableWf_mutation [OF Cons.prems(1) 1] .
  then show ?case using Cons.IH [of b1 clk1] Cons.prems(2) 1 by (cases res1) auto
qed simp

text \<open>A key of the table within the bounds of a row is a cell of that row.\<close>

lemma tableWf_row:
  assumes "tableWf m" "\<forall>k v. (k, v) \<in> set kvs \<longleftrightarrow> m k = Some v \<and> inBounds (Some (fst b)) (Some (snd b)) k" "b = rowKeyRangeBounds r"
  shows "kvs \<noteq> [] \<longleftrightarrow> (\<exists>f q t. length f < 255 \<and> length q \<le> 65535 \<and> m (EncodeCellKey r f q t) \<noteq> None)"
proof
  assume "kvs \<noteq> []"
  then obtain k v where "(k, v) \<in> set kvs" by (cases kvs) auto
  then have kv: "m k = Some v" "in_range b k" using assms(2) by (auto simp: inBounds_def in_range_def)
  then obtain r' f q t where c: "valid_col f q" "k = EncodeCellKey r' f q t"
    using assms(1) DecodeCellKey_ok [of k] by (auto simp: tableWf_def)
  then show "\<exists>f q t. length f < 255 \<and> length q \<le> 65535 \<and> m (EncodeCellKey r f q t) \<noteq> None"
    using kv in_row_bounds [OF c(1), of r r' t] assms(3) by (auto simp: valid_col_def)
next
  assume "\<exists>f q t. length f < 255 \<and> length q \<le> 65535 \<and> m (EncodeCellKey r f q t) \<noteq> None"
  then obtain f q t v where c: "length f < 255" "length q \<le> 65535" "m (EncodeCellKey r f q t) = Some v" by blast
  then have "in_range b (EncodeCellKey r f q t)"
    using in_row_bounds [of f q r r t] assms(3) by (simp add: valid_col_def)
  then have "(EncodeCellKey r f q t, v) \<in> set kvs" using assms(2) c(3) by (simp add: inBounds_def in_range_def)
  then show "kvs \<noteq> []" by auto
qed

section \<open>Rejected mutations\<close>

text \<open>The error of a mutation does not depend on the batch or the clock.\<close>

fun mutationError :: "mutation \<Rightarrow> rpcError option" where
  "mutationError (SetCell sc) =
     (if length (sc_family sc) > 255 then Some (StatusError InvalidArgument ''family name too long (max 255 bytes)'' None)
      else if length (sc_qualifier sc) > 65535 then
        Some (StatusError InvalidArgument ''column qualifier too long (max 65535 bytes)'' None)
      else None)"
| "mutationError AddToCell = Some (StatusError Unimplemented ''AddToCell not supported'' None)"
| "mutationError MergeToCell = Some (StatusError Unimplemented ''MergeToCell not supported'' None)"
| "mutationError NoMutation = Some (StatusError InvalidArgument ''unknown mutation type'' None)"
| "mutationError m = None"

fun firstError :: "mutation list \<Rightarrow> rpcError option" where
  "firstError [] = None"
| "firstError (m # ms) = (case mutationError m of None \<Rightarrow> firstError ms | Some e \<Rightarrow> Some e)"

lemma applyMutation_error: "fst (applyMutationToBatch r mut w) = mutationError mut"
  by (cases mut) (auto simp: applySetCell_def applyDeleteFromColumn_def applyDeleteFromFamily_def applyDeleteFromRow_def Let_def
      split: prod.splits option.splits)

lemma applyMutations_error: "fst (applyMutationsToBatch r muts w) = firstError muts"
proof (induction muts arbitrary: w)
  case (Cons mut muts)
  show ?case using applyMutation_error [of r mut w] Cons.IH
    by (cases "applyMutationToBatch r mut w") (auto split: option.splits)
qed simp

fun errorsFrom :: "int \<Rightarrow> mutateRowsEntry list \<Rightarrow> (int \<times> rpcError) list" where
  "errorsFrom i [] = []"
| "errorsFrom i (en # es) = (case firstError (en_mutations en) of None \<Rightarrow> [] | Some e \<Rightarrow> [(i, e)]) @ errorsFrom (i + 1) es"

lemma entryLoop_errors: "fst (entryLoop es i w acc) = acc @ errorsFrom i es"
proof (induction es arbitrary: i w acc)
  case (Cons en es)
  show ?case using applyMutations_error [of "en_rowKey en" "en_mutations en" w] Cons.IH
    by (cases "applyMutationsToBatch (en_rowKey en) (en_mutations en) w") (auto split: option.splits)
qed simp

lemma errorsFrom_iff:
  "(j, e) \<in> set (errorsFrom i es) \<longleftrightarrow> (\<exists>n < length es. j = i + int n \<and> firstError (en_mutations (es ! n)) = Some e)"
proof (induction es arbitrary: i)
  case (Cons en es)
  have "(\<exists>n < length (en # es). j = i + int n \<and> firstError (en_mutations ((en # es) ! n)) = Some e) \<longleftrightarrow>
      j = i \<and> firstError (en_mutations en) = Some e \<or> (\<exists>n < length es. j = i + 1 + int n \<and> firstError (en_mutations (es ! n)) = Some e)"
    by (auto simp: less_Suc_eq_0_disj)
  then show ?case using Cons.IH [of "i + 1"] by (auto split: option.splits)
qed simp

section \<open>Properties\<close>

text \<open>C35: every key of a table decodes, and the batch that a list of mutations builds keeps it
  so, whatever the mutations, and also when one of them is rejected half way.\<close>

theorem table_keys_decode:
  assumes "tableWf m" "applyMutationsToBatch rowKey muts ([], clk) = (res, b, clk')"
  shows "tableWf (applyOps b m)"
  using tableWf_mutations [of "[]" m rowKey muts clk res b clk'] assms by simp

theorem table_keys_decode_witness:
  "tableWf (applyOps (fst (snd (applyMutationsToBatch [97]
      [SetCell \<lparr>sc_family = [102], sc_qualifier = [113], sc_ts = 5, sc_value = [7]\<rparr>, AddToCell] ([], \<lambda>_. 0)))) Map.empty)"
  by (rule table_keys_decode [of Map.empty "[97]" "[SetCell \<lparr>sc_family = [102], sc_qualifier = [113], sc_ts = 5, sc_value = [7]\<rparr>, AddToCell]"
        "\<lambda>_. 0" _ _ "snd (snd (applyMutationsToBatch [97]
          [SetCell \<lparr>sc_family = [102], sc_qualifier = [113], sc_ts = 5, sc_value = [7]\<rparr>, AddToCell] ([], \<lambda>_. 0)))"])
    (simp_all add: tableWf_def applySetCell_def)

end
