(* ===== verification/ReadRows.thy ===== *)
theory ReadRows
  imports BigtableServer
begin

text \<open>
  Reading rows, \<open>pkg/bigtable/readrows.go\<close>: scan ranges, splitting values into chunks,
  buffering the chunks and streaming them.

  The handler copies each value into one buffer, \<open>valBuf\<close>, that it reuses for the next
  cell. The first chunk of a cell copies its bytes, but the continuation chunks of a long
  value are slices of that buffer. So a chunk under construction holds either its own bytes
  or a view of an array, the arrays are part of the state, and the views are read when the
  message is sent.
\<close>

section \<open>Messages\<close>

datatype rowStatus = CommitRow bool | ResetRow bool

record 'v cellChunk =
  ck_rowKey :: bytes
  ck_family :: "bytes option"
  ck_qualifier :: "bytes option"
  ck_ts :: int64
  ck_labels :: "bytes list"
  ck_value :: 'v
  ck_valueSize :: "32 word"
  ck_status :: "rowStatus option"

text \<open>The value of a chunk: bytes of its own, or the part of an array between two offsets.\<close>

datatype valueRef = Copied bytes | View nat nat nat

record readRowsResponse =
  rp_chunks :: "bytes cellChunk list"
  rp_lastScanned :: bytes

record rowRange =
  rr_start :: bound
  rr_end :: bound

record rowSet =
  rs_rowKeys :: "bytes list"
  rs_rowRanges :: "rowRange list"

record readRowsRequest =
  rd_tableName :: string
  rd_rowsLimit :: int64
  rd_filter :: "rowFilter option"
  rd_rows :: "rowSet option"
  rd_reversed :: bool

definition cellChunkBufferSize :: nat where
  "cellChunkBufferSize = 100"

definition maxCellChunkValueSize :: nat where
  "maxCellChunkValueSize = 64 * 1024"

section \<open>Chunks\<close>

definition cellChunk :: "bytes \<Rightarrow> bytes \<Rightarrow> bytes \<Rightarrow> int64 \<Rightarrow> bytes \<Rightarrow> bytes list \<Rightarrow> valueRef cellChunk" where
  "cellChunk rowKey family qualifier timestampMicros value labels =
     \<lparr>ck_rowKey = (if length rowKey > 0 then rowKey else []),
      ck_family = (if family \<noteq> [] then Some family else None),
      ck_qualifier = (if length qualifier > 0 then Some qualifier else None),
      ck_ts = timestampMicros, ck_labels = labels, ck_value = Copied (if length value > 0 then value else []),
      ck_valueSize = 0, ck_status = None\<rparr>"

definition emptyChunk :: "valueRef cellChunk" where
  "emptyChunk = \<lparr>ck_rowKey = [], ck_family = None, ck_qualifier = None, ck_ts = 0, ck_labels = [], ck_value = Copied [],
     ck_valueSize = 0, ck_status = None\<rparr>"

definition commitRowChunk :: "valueRef cellChunk" where
  "commitRowChunk = emptyChunk\<lparr>ck_status := Some (CommitRow True)\<rparr>"

definition resetRowChunk :: "valueRef cellChunk" where
  "resetRowChunk = emptyChunk\<lparr>ck_status := Some (ResetRow True)\<rparr>"

definition rowTerminal :: "'v cellChunk \<Rightarrow> bool" where
  "rowTerminal chunk \<longleftrightarrow> ck_status chunk = Some (CommitRow True) \<or> ck_status chunk = Some (ResetRow True)"

text \<open>The loop over the pieces of a long value; \<open>ptr\<close> is the array the value lies in.\<close>

function chunkLoop :: "valueRef cellChunk list \<Rightarrow> bytes \<Rightarrow> bytes \<Rightarrow> bytes \<Rightarrow> int64 \<Rightarrow> nat \<Rightarrow> bytes \<Rightarrow> nat \<Rightarrow> valueRef cellChunk list" where
  "chunkLoop buf rowKey family qualifier ts ptr value offset =
     (let totalSize = length value in
      if offset < totalSize then
        (let end' = min (offset + maxCellChunkValueSize) totalSize;
             chunk = (if offset = 0 then cellChunk rowKey family qualifier ts (slice value offset end') []
                      else emptyChunk\<lparr>ck_value := View ptr offset end'\<rparr>);
             chunk1 = (if end' < totalSize
                       then chunk\<lparr>ck_valueSize := (if totalSize > 0x7FFFFFFF then 0x7FFFFFFF else of_nat totalSize)\<rparr>
                       else chunk)
         in chunkLoop (buf @ [chunk1]) rowKey family qualifier ts ptr value (offset + maxCellChunkValueSize))
      else buf)"
  by auto
termination
  by (relation "measure (\<lambda>(_, _, _, _, _, _, value, offset). length value - offset)") (auto simp: maxCellChunkValueSize_def)

definition appendCellChunks :: "valueRef cellChunk list \<Rightarrow> bytes \<Rightarrow> bytes \<Rightarrow> bytes \<Rightarrow> int64 \<Rightarrow> nat \<Rightarrow> bytes \<Rightarrow> valueRef cellChunk list" where
  "appendCellChunks buf rowKey family qualifier ts ptr value =
     (if length value \<le> maxCellChunkValueSize then buf @ [cellChunk rowKey family qualifier ts value []]
      else chunkLoop buf rowKey family qualifier ts ptr value 0)"

section \<open>Ranges\<close>

definition rowRangeToBounds :: "rowRange \<Rightarrow> bytes option \<times> bytes option" where
  "rowRangeToBounds rr =
     (case rr_start rr of
        Closed k \<Rightarrow> Some (encodeRowPrefix k)
      | Open k \<Rightarrow> Some (encodeRowPrefix k @ [0xFF])
      | Unset \<Rightarrow> None,
      case rr_end rr of
        Closed k \<Rightarrow> Some (rowEndKey (encodeRowPrefix k))
      | Open k \<Rightarrow> Some (encodeRowPrefix k)
      | Unset \<Rightarrow> None)"

definition scanRanges :: "rowSet option \<Rightarrow> (bytes option \<times> bytes option) list" where
  "scanRanges rows =
     (case rows of
        None \<Rightarrow> [(None, None)]
      | Some rs \<Rightarrow>
          if length (rs_rowKeys rs) = 0 \<and> length (rs_rowRanges rs) = 0 then [(None, None)]
          else map (\<lambda>rk. case rowKeyRangeBounds rk of (start, end') \<Rightarrow> (Some start, Some end')) (rs_rowKeys rs) @
               map rowRangeToBounds (rs_rowRanges rs))"

section \<open>The scan\<close>

text \<open>The variables of the handler: the chunk buffer, the last scanned row, the row count, the
  decoder, the filter engine with its random numbers, the arrays that \<open>valBuf\<close> has used with
  the index of the present one, and the stream.\<close>

record scan =
  s_chunkBuf :: "valueRef cellChunk list"
  s_lastScanned :: bytes
  s_rowCount :: int
  s_dec :: cellDecoder
  s_filter :: "rowFilterEngine option"
  s_rng :: rng
  s_arrays :: "bytes list"
  s_valBuf :: nat
  s_stream :: "readRowsResponse sink"

definition readSlice :: "bytes list \<Rightarrow> valueRef \<Rightarrow> bytes" where
  "readSlice arrays v = (case v of Copied bs \<Rightarrow> bs | View p a b \<Rightarrow> slice (arrays ! p) a b)"

definition readChunk :: "bytes list \<Rightarrow> valueRef cellChunk \<Rightarrow> bytes cellChunk" where
  "readChunk arrays c =
     \<lparr>ck_rowKey = ck_rowKey c, ck_family = ck_family c, ck_qualifier = ck_qualifier c, ck_ts = ck_ts c,
      ck_labels = ck_labels c, ck_value = readSlice arrays (ck_value c), ck_valueSize = ck_valueSize c,
      ck_status = ck_status c\<rparr>"

text \<open>\<open>append(valBuf[:0], val...)\<close>: the array is reused when it is large enough, otherwise
  there is a new one, of the capacity that \<open>grow\<close> chooses.\<close>

definition fillValBuf :: "(nat \<Rightarrow> nat \<Rightarrow> nat) \<Rightarrow> bytes \<Rightarrow> scan \<Rightarrow> scan" where
  "fillValBuf grow val s =
     (let arr = s_arrays s ! s_valBuf s in
      if length val \<le> length arr
      then s\<lparr>s_arrays := (s_arrays s)[s_valBuf s := copy_at arr 0 val]\<rparr>
      else s\<lparr>s_arrays := s_arrays s @ [copy_at (make_bytes (max (length val) (grow (length arr) (length val)))) 0 val],
             s_valBuf := length (s_arrays s)\<rparr>)"

definition commitLastChunk :: "scan \<Rightarrow> scan" where
  "commitLastChunk s =
     (if length (s_chunkBuf s) = 0 then s
      else s\<lparr>s_chunkBuf := (s_chunkBuf s)[length (s_chunkBuf s) - 1 :=
               (s_chunkBuf s ! (length (s_chunkBuf s) - 1))\<lparr>ck_status := Some (CommitRow True)\<rparr>]\<rparr>)"

definition flush :: "scan \<Rightarrow> goerror option \<times> scan" where
  "flush s =
     (if length (s_chunkBuf s) = 0 then (None, s)
      else
        (let resp = \<lparr>rp_chunks = map (readChunk (s_arrays s)) (s_chunkBuf s),
                     rp_lastScanned = (if length (s_lastScanned s) > 0 then s_lastScanned s else [])\<rparr>
         in case Send resp (s_stream s) of (r, sk) \<Rightarrow> (r, s\<lparr>s_chunkBuf := [], s_stream := sk\<rparr>)))"

text \<open>The row boundary: commit the row that ended, count the new one and reset the filter;
  the result says whether the limit is kept, otherwise the code breaks out of the loop.\<close>

definition rowBoundary :: "int64 \<Rightarrow> bytes \<Rightarrow> bytes \<Rightarrow> bool \<Rightarrow> scan \<Rightarrow> bool \<times> scan" where
  "rowBoundary rowsLimit rk lastRowKey rowStarted s =
     (if rk = lastRowKey then (True, s)
      else
        (let s1 = (if rowStarted then (commitLastChunk s)\<lparr>s_lastScanned := lastRowKey\<rparr> else s);
             s2 = s1\<lparr>s_rowCount := s_rowCount s1 + 1\<rparr>
         in if sint rowsLimit > 0 \<and> s_rowCount s2 > sint rowsLimit then (False, s2)
            else (True, s2\<lparr>s_filter := map_option (\<lambda>fe. fe\<lparr>fe_eval := reset (fe_eval fe)\<rparr>) (s_filter s2)\<rparr>)))"

text \<open>Whether the filter lets a cell through, and the value that is sent.\<close>

definition filterCell :: "cellInfo \<Rightarrow> scan \<Rightarrow> bytes option \<times> scan" where
  "filterCell cell s =
     (case s_filter s of
        None \<Rightarrow> (Some (c_value cell), s)
      | Some fe \<Rightarrow>
          (case matchesCell fe cell (s_rng s) of
             (b, fe1, g1) \<Rightarrow>
               ((if \<not> b then None else Some (if hasStripValue fe1 then [] else c_value cell)),
                s\<lparr>s_filter := Some fe1, s_rng := g1\<rparr>)))"

text \<open>The loop over the pairs of one iterator, with \<open>lastRowKey\<close> and \<open>rowStarted\<close>. An error is a
  \<open>return\<close>.\<close>

fun cellLoop :: "(nat \<Rightarrow> nat \<Rightarrow> nat) \<Rightarrow> int64 \<Rightarrow> kv list \<Rightarrow> bytes \<Rightarrow> bool \<Rightarrow> scan \<Rightarrow> goerror option \<times> bytes \<times> bool \<times> scan" where
  "cellLoop grow rowsLimit [] lastRowKey rowStarted s = (None, lastRowKey, rowStarted, s)"
| "cellLoop grow rowsLimit ((k, v) # kvs) lastRowKey rowStarted s =
     (case Decode (s_dec s) k of
        (d, dec1) \<Rightarrow>
          (let s0 = s\<lparr>s_dec := dec1\<rparr> in
           if \<not> d_ok d then cellLoop grow rowsLimit kvs lastRowKey rowStarted s0
           else
             (let started = rowStarted \<or> d_rowKey d \<noteq> lastRowKey in
              case rowBoundary rowsLimit (d_rowKey d) lastRowKey rowStarted s0 of
                (False, s1) \<Rightarrow> (None, lastRowKey, rowStarted, s1)
              | (True, s1) \<Rightarrow>
                  (let s2 = (if length v > 0 then fillValBuf grow v s1 else s1) in
                   case filterCell (cell_of d v) s2 of
                     (None, s3) \<Rightarrow> cellLoop grow rowsLimit kvs (d_rowKey d) started s3
                   | (Some val, s3) \<Rightarrow>
                       (let s4 = s3\<lparr>s_chunkBuf := appendCellChunks (s_chunkBuf s3) (d_rowKey d) (d_family d) (d_qualifier d)
                                     (d_ts d) (s_valBuf s3) val\<rparr>
                        in if length (s_chunkBuf s4) \<ge> cellChunkBufferSize then
                             (case flush s4 of
                                (Some err, s5) \<Rightarrow> (Some err, d_rowKey d, started, s5)
                              | (None, s5) \<Rightarrow> cellLoop grow rowsLimit kvs (d_rowKey d) started s5)
                           else cellLoop grow rowsLimit kvs (d_rowKey d) started s4)))))"

text \<open>The loop over the ranges; reading backwards visits the pairs in reverse.\<close>

fun rangeLoop :: "'db pebble \<Rightarrow> (nat \<Rightarrow> nat \<Rightarrow> nat) \<Rightarrow> 'db \<Rightarrow> bool \<Rightarrow> int64 \<Rightarrow> (bytes option \<times> bytes option) list \<Rightarrow> scan \<Rightarrow>
    goerror option \<times> scan" where
  "rangeLoop P grow db reversed rowsLimit [] s = (None, s)"
| "rangeLoop P grow db reversed rowsLimit ((lo, hi) # krs) s =
     (case pNewIter P lo hi db of
        Inl _ \<Rightarrow> rangeLoop P grow db reversed rowsLimit krs s
      | Inr kvs \<Rightarrow>
          (case cellLoop grow rowsLimit (if reversed then rev kvs else kvs) [] False s of
             (Some err, _, _, s1) \<Rightarrow> (Some err, s1)
           | (None, lastRowKey, rowStarted, s1) \<Rightarrow>
               (let s2 = (if rowStarted then (commitLastChunk s1)\<lparr>s_lastScanned := lastRowKey\<rparr> else s1)
                in if sint rowsLimit > 0 \<and> s_rowCount s2 \<ge> sint rowsLimit then (None, s2)
                   else rangeLoop P grow db reversed rowsLimit krs s2)))"

definition scanStart :: "rowFilterEngine option \<Rightarrow> rng \<Rightarrow> readRowsResponse sink \<Rightarrow> scan" where
  "scanStart fe g sk =
     \<lparr>s_chunkBuf = [], s_lastScanned = [], s_rowCount = 0, s_dec = emptyDecoder, s_filter = fe, s_rng = g,
      s_arrays = [[]], s_valBuf = 0, s_stream = sk\<rparr>"

definition ReadRows :: "'s store \<Rightarrow> 'db pebble \<Rightarrow> codec \<Rightarrow> request \<Rightarrow> readRowsRequest \<Rightarrow> readRowsResponse sink \<Rightarrow>
    ('s, 'db) server \<Rightarrow> rpcError option \<times> readRowsResponse sink \<times> ('s, 'db) server" where
  "ReadRows st P J rq req sk sv =
     (case getEngine st P J (rd_tableName req) sv of
        (Inl err, sv1) \<Rightarrow> (Some (StatusError Internal ''opening table'' (Some err)), sk, sv1)
      | (Inr eng, sv1) \<Rightarrow>
          (case (case rd_filter req of
                   None \<Rightarrow> Inr None
                 | Some f \<Rightarrow> (case newRowFilterEngine (rq_compile rq) (Some f) of Inl e \<Rightarrow> Inl e | Inr fe \<Rightarrow> Inr (Some fe))) of
             Inl err \<Rightarrow> (Some (StatusError InvalidArgument ''invalid filter'' (Some (Err err))), sk, sv1)
           | Inr fe \<Rightarrow>
               (case rangeLoop P (rq_grow rq) (the (e_db eng)) (rd_reversed req) (rd_rowsLimit req) (scanRanges (rd_rows req))
                       (scanStart fe (rq_rng rq) sk) of
                  (Some err, s) \<Rightarrow> (Some (PlainError err), s_stream s, sv1)
                | (None, s) \<Rightarrow> (case flush s of (r, s1) \<Rightarrow> (map_option PlainError r, s_stream s1, sv1)))))"

section \<open>Row ranges\<close>

fun afterStart :: "bound \<Rightarrow> bytes \<Rightarrow> bool" where
  "afterStart Unset r = True"
| "afterStart (Closed a) r = (a \<le> r)"
| "afterStart (Open a) r = (a < r)"

fun beforeEnd :: "bound \<Rightarrow> bytes \<Rightarrow> bool" where
  "beforeEnd Unset r = True"
| "beforeEnd (Closed b) r = (r \<le> b)"
| "beforeEnd (Open b) r = (r < b)"

lemma rowRange_bounds:
  assumes "length f < 255" "length q \<le> 65535" "rowRangeToBounds rr = (lo, hi)"
  shows "inBounds lo hi (EncodeCellKey r f q t) \<longleftrightarrow> afterStart (rr_start rr) r \<and> beforeEnd (rr_end rr) r"
proof -
  have v: "valid_col f q" and h: "(of_nat (length f) :: byte) < 0xFF"
    using assms(1,2) by (simp_all add: valid_col_def of_nat_byte_less)
  have k: "EncodeCellKey r f q t = escape r @ 0 # 0 # of_nat (length f) # f @ 0 #
       PutUint16 (of_nat (length q)) @ q @ 0 # PutUint64 (invertedTimestamp t)" (is "_ = escape r @ 0 # 0 # ?b # ?x")
    using EncodeCellKey_eq [OF v] by simp
  have "(case lo of None \<Rightarrow> True | Some a \<Rightarrow> a \<le> EncodeCellKey r f q t) \<longleftrightarrow> afterStart (rr_start rr) r"
    using assms(3) h unfolding k
    by (cases "rr_start rr") (auto simp: rowRangeToBounds_def encodeRowPrefix_eq row_prefix_le not_le [symmetric])
  moreover have "(case hi of None \<Rightarrow> True | Some b \<Rightarrow> EncodeCellKey r f q t < b) \<longleftrightarrow> beforeEnd (rr_end rr) r"
    using assms(3) h unfolding k
    by (cases "rr_end rr") (auto simp: rowRangeToBounds_def encodeRowPrefix_eq rowEndKey_eq escape_row_order)
  ultimately show ?thesis by (simp add: inBounds_def)
qed

section \<open>Chunks of a value\<close>

declare chunkLoop.simps [simp del]

definition sizeHint :: "bytes \<Rightarrow> 32 word" where
  "sizeHint v = (if length v > 0x7FFFFFFF then 0x7FFFFFFF else of_nat (length v))"

lemma readChunk_fields [simp]:
  "ck_value (readChunk arrays c) = readSlice arrays (ck_value c)" "ck_valueSize (readChunk arrays c) = ck_valueSize c"
  "ck_rowKey (readChunk arrays c) = ck_rowKey c" "ck_family (readChunk arrays c) = ck_family c"
  "ck_qualifier (readChunk arrays c) = ck_qualifier c" "ck_ts (readChunk arrays c) = ck_ts c"
  "ck_status (readChunk arrays c) = ck_status c"
  by (simp_all add: readChunk_def)

lemma readSlice_simps [simp]:
  "readSlice arrays (Copied bs) = bs" "readSlice arrays (View p a b) = slice (arrays ! p) a b"
  by (simp_all add: readSlice_def)

lemma cellChunk_fields [simp]:
  "ck_value (cellChunk r f q t v ls) = Copied v" "ck_valueSize (cellChunk r f q t v ls) = 0" "ck_rowKey (cellChunk r f q t v ls) = r"
  "ck_status (cellChunk r f q t v ls) = None" "ck_ts (cellChunk r f q t v ls) = t"
  by (simp_all add: cellChunk_def)

lemma emptyChunk_fields [simp]: "ck_value emptyChunk = Copied []" "ck_valueSize emptyChunk = 0" "ck_rowKey emptyChunk = []"
  "ck_status emptyChunk = None"
  by (simp_all add: emptyChunk_def)

text \<open>What the pieces of a value are, from an offset on.\<close>

definition pieces :: "bytes list \<Rightarrow> bytes \<Rightarrow> nat \<Rightarrow> valueRef cellChunk list \<Rightarrow> bool" where
  "pieces arrays v offset cs \<longleftrightarrow>
     concat (map (\<lambda>c. readSlice arrays (ck_value c)) cs) = drop offset v \<and>
     (\<forall>c \<in> set cs. length (readSlice arrays (ck_value c)) \<le> maxCellChunkValueSize \<and> ck_status c = None) \<and>
     (\<forall>c \<in> set (butlast cs). ck_valueSize c = sizeHint v) \<and> (cs \<noteq> [] \<longrightarrow> ck_valueSize (last cs) = 0)"

lemma slice_drop: "a \<le> b \<Longrightarrow> b \<le> length v \<Longrightarrow> slice v a b @ drop b v = drop a v"
  unfolding slice_def by (metis append_take_drop_id drop_drop le_add_diff_inverse2)

lemma slice_prefix: "take (length v) arr = v \<Longrightarrow> b \<le> length v \<Longrightarrow> slice arr a b = slice v a b"
  unfolding slice_def by (metis drop_take take_take min.absorb1)

lemma length_slice_le: "length (slice v a b) \<le> b - a"
  by (simp add: slice_def)

lemma chunkLoop_pieces:
  assumes "take (length v) (arrays ! ptr) = v"
  shows "\<exists>cs. chunkLoop buf r f q t ptr v offset = buf @ cs \<and> pieces arrays v offset cs \<and> (offset < length v \<longleftrightarrow> cs \<noteq> []) \<and>
    (\<forall>c \<in> set cs. offset > 0 \<longrightarrow> ck_rowKey c = []) \<and>
    (offset = 0 \<longrightarrow> cs \<noteq> [] \<longrightarrow> (\<exists>u. hd cs = (cellChunk r f q t u [])\<lparr>ck_valueSize := ck_valueSize (hd cs)\<rparr>) \<and>
       (\<forall>c \<in> set (tl cs). ck_rowKey c = []))"
  using assms
proof (induction buf r f q t ptr v offset rule: chunkLoop.induct)
  case (1 buf r f q t ptr v offset)
  show ?case
  proof (cases "offset < length v")
    case True
    define ee where "ee = min (offset + maxCellChunkValueSize) (length v)"
    let ?c = "if offset = 0 then cellChunk r f q t (slice v offset ee) [] else emptyChunk\<lparr>ck_value := View ptr offset ee\<rparr>"
    let ?c1 = "if ee < length v then ?c\<lparr>ck_valueSize := sizeHint v\<rparr> else ?c"
    let ?o = "offset + maxCellChunkValueSize"
    have e: "offset \<le> ee" "ee \<le> length v" "ee - offset \<le> maxCellChunkValueSize" "drop ?o v = drop ee v" "ee < length v \<longleftrightarrow> ?o < length v"
      using True by (auto simp: ee_def min_def)
    have step: "chunkLoop buf r f q t ptr v offset = chunkLoop (buf @ [?c1]) r f q t ptr v ?o"
      using True by (subst chunkLoop.simps) (simp add: Let_def sizeHint_def ee_def)
    obtain cs where cs: "chunkLoop (buf @ [?c1]) r f q t ptr v ?o = (buf @ [?c1]) @ cs" "pieces arrays v ?o cs"
      "?o < length v \<longleftrightarrow> cs \<noteq> []" "\<forall>c \<in> set cs. ck_rowKey c = []"
      using "1.IH" [OF refl True refl refl refl, unfolded sizeHint_def [symmetric] ee_def [symmetric]] "1.prems"
      by (auto simp: maxCellChunkValueSize_def)
    have val: "readSlice arrays (ck_value ?c1) = slice v offset ee"
      using slice_prefix [OF "1.prems" e(2), of offset] by simp
    have d: "slice v offset ee @ drop ?o v = drop offset v"
      unfolding e(4) by (rule slice_drop [OF e(1,2)])
    have len: "length (slice v offset ee) \<le> maxCellChunkValueSize"
      using length_slice_le [of v offset ee] e(3) by simp
    have p: "pieces arrays v offset (?c1 # cs)"
    proof (cases "ee < length v")
      case True
      then have "cs \<noteq> []" using cs(3) e(5) by simp
      then show ?thesis using cs(2) d val len True unfolding pieces_def by simp
    next
      case False
      then have "cs = []" using cs(3) e(5) by simp
      then show ?thesis using cs(2) d val len False unfolding pieces_def by simp
    qed
    have "chunkLoop buf r f q t ptr v offset = buf @ (?c1 # cs)" using step cs(1) by simp
    then show ?thesis using p cs(4) True by (intro exI [of _ "?c1 # cs"]) (auto simp: cellChunk_def)
  next
    case False
    then show ?thesis by (subst chunkLoop.simps) (simp add: Let_def pieces_def)
  qed
qed

lemma appendCellChunks_pieces:
  assumes "take (length v) (arrays ! ptr) = v"
  shows "\<exists>u cs. appendCellChunks buf r f q t ptr v = buf @ u # cs \<and> pieces arrays v 0 (u # cs) \<and>
    (\<exists>x n. u = (cellChunk r f q t x [])\<lparr>ck_valueSize := n\<rparr>) \<and> (\<forall>c \<in> set cs. ck_rowKey c = [])"
proof (cases "length v \<le> maxCellChunkValueSize")
  case True
  then show ?thesis
    by (intro exI [of _ "cellChunk r f q t v []"] exI [of _ "[]"] conjI exI [of _ v] exI [of _ 0])
      (auto simp: appendCellChunks_def pieces_def cellChunk_def)
next
  case False
  then have "0 < length v" by auto
  then obtain cs where "chunkLoop buf r f q t ptr v 0 = buf @ cs" "pieces arrays v 0 cs" "cs \<noteq> []"
    "\<exists>x n. hd cs = (cellChunk r f q t x [])\<lparr>ck_valueSize := n\<rparr>" "\<forall>c \<in> set (tl cs). ck_rowKey c = []"
    using chunkLoop_pieces [OF assms, of buf r f q t 0] by auto
  then show ?thesis using False by (intro exI [of _ "hd cs"] exI [of _ "tl cs"]) (simp add: appendCellChunks_def)
qed

section \<open>What is streamed\<close>

text \<open>Chunks without their row status, the chunks sent on a stream, buffered chunks that own their
  value, and the chunk of a cell.\<close>

definition plain :: "'v cellChunk \<Rightarrow> 'v cellChunk" where
  "plain c = c\<lparr>ck_status := None\<rparr>"

definition sentOn :: "readRowsResponse sink \<Rightarrow> bytes cellChunk list" where
  "sentOn sk = concat (map rp_chunks (sk_sent sk))"

definition owned :: "valueRef cellChunk \<Rightarrow> bool" where
  "owned c \<longleftrightarrow> (case ck_value c of Copied _ \<Rightarrow> True | View _ _ _ \<Rightarrow> False)"

definition chunkOf :: "cellInfo \<Rightarrow> bytes cellChunk" where
  "chunkOf c = readChunk [] (cellChunk (c_rowKey c) (c_family c) (c_qualifier c) (c_ts c) (c_value c) [])"

lemma owned_simps [simp]:
  "owned (cellChunk r f q t v ls)" "owned (c\<lparr>ck_status := x\<rparr>) = owned c"
  by (simp_all add: owned_def)

lemma readChunk_owned: "owned c \<Longrightarrow> readChunk arrays c = readChunk [] c"
  by (auto simp: owned_def readChunk_def readSlice_def split: valueRef.splits)

lemma plain_simps [simp]: "plain (plain c) = plain c" "plain (chunkOf ci) = chunkOf ci" "plain (c\<lparr>ck_status := x\<rparr>) = plain c"
  "plain (readChunk arrays c) = readChunk arrays (plain c)"
  by (simp_all add: plain_def chunkOf_def readChunk_def cellChunk_def)

lemma map_readChunk_owned: "list_all owned cs \<Longrightarrow> map (readChunk arrays) cs = map (readChunk []) cs"
  by (auto simp: list_all_iff intro: readChunk_owned)

lemma fill_fields [simp]:
  "s_stream (fillValBuf g v s) = s_stream s" "s_chunkBuf (fillValBuf g v s) = s_chunkBuf s" "s_filter (fillValBuf g v s) = s_filter s"
  "s_rowCount (fillValBuf g v s) = s_rowCount s"
  by (simp_all add: fillValBuf_def Let_def)

text \<open>The cells of one range by row, and the rows that a limit leaves of the remaining ones.\<close>

function rowGroups :: "cellInfo list \<Rightarrow> cellInfo list list" where
  "rowGroups [] = []"
| "rowGroups (c # cs) =
     (c # takeWhile (\<lambda>d. c_rowKey d = c_rowKey c) cs) # rowGroups (dropWhile (\<lambda>d. c_rowKey d = c_rowKey c) cs)"
  by pat_completeness auto
termination
  by (relation "measure length") (simp_all add: length_dropWhile_le less_Suc_eq_le)

definition takeRows :: "int64 \<Rightarrow> int \<Rightarrow> 'a list \<Rightarrow> 'a list" where
  "takeRows rowsLimit rowCount gs = (if sint rowsLimit > 0 then take (nat (sint rowsLimit - rowCount)) gs else gs)"

lemma takeRows_Cons:
  "takeRows l n (g # gs) = (if sint l > 0 \<and> n + 1 > sint l then [] else g # takeRows l (n + 1) gs)"
proof (cases "sint l > n")
  case True
  then have "nat (sint l - n) = Suc (nat (sint l - (n + 1)))" by simp
  then show ?thesis using True by (simp add: takeRows_def)
qed (simp add: takeRows_def)

definition smallValues :: "kv list \<Rightarrow> bool" where
  "smallValues kvs \<longleftrightarrow> (\<forall>(k, v) \<in> set kvs. length v \<le> maxCellChunkValueSize)"

lemma smallValues_simps [simp]:
  "smallValues []" "smallValues ((k, v) # kvs) \<longleftrightarrow> length v \<le> maxCellChunkValueSize \<and> smallValues kvs"
  by (auto simp: smallValues_def)

text \<open>One cell that is not filtered and does not exceed the limit.\<close>

lemma cellLoop_step:
  assumes "d_ok d" "d = DecodeCellKey key" "rowBoundary l (d_rowKey d) k started (s\<lparr>s_dec := snd (Decode (s_dec s) key)\<rparr>) = (True, s1)"
    "s2 = (if length v > 0 then fillValBuf g v s1 else s1)" "s_filter s2 = None"
    "s4 = s2\<lparr>s_chunkBuf := appendCellChunks (s_chunkBuf s2) (d_rowKey d) (d_family d) (d_qualifier d) (d_ts d) (s_valBuf s2) v\<rparr>"
  shows "cellLoop g l ((key, v) # kvs) k started s =
      (if length (s_chunkBuf s4) \<ge> cellChunkBufferSize then
         (case flush s4 of
            (Some err, s5) \<Rightarrow> (Some err, d_rowKey d, started \<or> d_rowKey d \<noteq> k, s5)
          | (None, s5) \<Rightarrow> cellLoop g l kvs (d_rowKey d) (started \<or> d_rowKey d \<noteq> k) s5)
       else cellLoop g l kvs (d_rowKey d) (started \<or> d_rowKey d \<noteq> k) s4)"
proof -
  obtain dec where D: "Decode (s_dec s) key = (d, dec)" using Decode_pair [of "s_dec s" key] assms(2) by auto
  have f: "filterCell (cell_of d v) s2 = (Some v, s2)" using assms(5) by (simp add: filterCell_def cell_of_def)
  have R: "rowBoundary l (d_rowKey d) k started (s\<lparr>s_dec := dec\<rparr>) = (True, s1)" using assms(3) by (simp add: D)
  show ?thesis
    unfolding cellLoop.simps D R prod.case Let_def if_not_P [of "\<not> d_ok d", unfolded not_not, OF assms(1)]
      assms(4) [symmetric] f option.case assms(6) [symmetric] by simp
qed

text \<open>The pairs that the iterators of the ranges visit.\<close>

fun visits :: "'db pebble \<Rightarrow> 'db \<Rightarrow> bool \<Rightarrow> (bytes option \<times> bytes option) list \<Rightarrow> kv list list \<Rightarrow> bool" where
  "visits P db reversed [] [] \<longleftrightarrow> True"
| "visits P db reversed ((lo, hi) # krs) (kvs # kvss) \<longleftrightarrow>
     (\<exists>xs. pNewIter P lo hi db = Inr xs \<and> kvs = (if reversed then rev xs else xs)) \<and> visits P db reversed krs kvss"
| "visits P db reversed krs kvss \<longleftrightarrow> False"

section \<open>Long values share a buffer\<close>

text \<open>A value of two pieces, and the buffer after two such values of one length.\<close>

lemma two_chunks:
  assumes "maxCellChunkValueSize < length v" "length v \<le> 2 * maxCellChunkValueSize"
  shows "appendCellChunks buf r f q t p v = buf @
    [(cellChunk r f q t (take maxCellChunkValueSize v) [])\<lparr>ck_valueSize := of_nat (length v)\<rparr>,
     emptyChunk\<lparr>ck_value := View p maxCellChunkValueSize (length v)\<rparr>]"
proof -
  let ?m = maxCellChunkValueSize
  have m: "0 < ?m" "?m \<noteq> 0" "length v \<le> 0x7FFFFFFF" using assms by (auto simp: maxCellChunkValueSize_def)
  have "chunkLoop buf' r f q t p v (?m + ?m) = buf'" for buf'
    using assms(2) by (subst chunkLoop.simps) (simp add: Let_def)
  then have "chunkLoop buf' r f q t p v ?m = buf' @ [emptyChunk\<lparr>ck_value := View p ?m (length v)\<rparr>]" for buf'
    using assms m by (subst chunkLoop.simps) (simp add: Let_def min_def)
  then have "chunkLoop buf r f q t p v 0 = buf @
    [(cellChunk r f q t (take ?m v) [])\<lparr>ck_valueSize := of_nat (length v)\<rparr>, emptyChunk\<lparr>ck_value := View p ?m (length v)\<rparr>]"
    using assms m by (subst chunkLoop.simps) (auto simp: Let_def min_def slice_def)
  then show ?thesis using assms by (simp add: appendCellChunks_def)
qed

lemma overwritten:
  assumes "d_ok (DecodeCellKey k1)" "d_ok (DecodeCellKey k2)" "d_rowKey (DecodeCellKey k1) = r" "d_rowKey (DecodeCellKey k2) = r"
    "r \<noteq> []" "maxCellChunkValueSize < length v1" "length v1 \<le> 2 * maxCellChunkValueSize" "length v2 = length v1"
  shows "\<exists>s. cellLoop g 0 [(k1, v1), (k2, v2)] [] False (scanStart None h sk) = (None, r, True, s) \<and> s_stream s = sk \<and> s_rowCount s = 1 \<and>
    s_lastScanned s = [] \<and> length (s_chunkBuf s) = 4 \<and> map (\<lambda>c. readSlice (s_arrays s) (ck_value c)) (s_chunkBuf s) =
      [take maxCellChunkValueSize v1, drop maxCellChunkValueSize v2, take maxCellChunkValueSize v2, drop maxCellChunkValueSize v2]"
proof -
  let ?m = maxCellChunkValueSize
  have nz: "0 < length v1" "0 < length v2" "v1 \<noteq> []" "v2 \<noteq> []" using assms(6,8) by auto
  let ?cap = "max (length v1) (g 0 (length v1))"
  have a1: "copy_at (make_bytes ?cap) 0 v1 = v1 @ make_bytes (?cap - length v1)"
    using copy_prefix [of v1 "?cap - length v1"] by simp
  have a2: "copy_at (v1 @ make_bytes n) 0 v2 = v2 @ make_bytes n" for n
    using copy_at_append [of "[]" 0 v1 v2 "make_bytes n"] assms(8) by simp
  have t: "appendCellChunks buf r f q t p v = buf @
      [(cellChunk r f q t (take ?m v) [])\<lparr>ck_valueSize := of_nat (length v)\<rparr>, emptyChunk\<lparr>ck_value := View p ?m (length v)\<rparr>]"
    if "v = v1 \<or> v = v2" for v buf f q t p
    using two_chunks [of v] assms(6-8) that by auto
  have d: "slice (v2 @ z) ?m (length v1) = drop ?m v2" for z
    using slice_prefix [of v2 "v2 @ z" "length v2" ?m] assms(8) by (simp add: slice_def)
  let ?s0 = "scanStart None h sk" and ?d1 = "DecodeCellKey k1" and ?d2 = "DecodeCellKey k2"
  define s1 where "s1 = ?s0\<lparr>s_dec := snd (Decode (s_dec ?s0) k1), s_rowCount := 1\<rparr>"
  define s2 where "s2 = (if length v1 > 0 then fillValBuf g v1 s1 else s1)"
  define s4 where "s4 = s2\<lparr>s_chunkBuf := appendCellChunks (s_chunkBuf s2) r (d_family ?d1) (d_qualifier ?d1) (d_ts ?d1) (s_valBuf s2) v1\<rparr>"
  have b1: "rowBoundary 0 r [] False (?s0\<lparr>s_dec := snd (Decode (s_dec ?s0) k1)\<rparr>) = (True, s1)"
    using assms(5) by (simp add: rowBoundary_def s1_def scanStart_def)
  have s2: "s2 = s1\<lparr>s_arrays := [[], v1 @ make_bytes (?cap - length v1)], s_valBuf := 1\<rparr>"
    using nz by (simp add: s2_def s1_def fillValBuf_def scanStart_def a1)
  have l4: "length (s_chunkBuf s4) = 2" "s_filter s2 = None" by (simp_all add: s4_def t s2 s1_def scanStart_def)
  have step1: "cellLoop g 0 [(k1, v1), (k2, v2)] [] False ?s0 = cellLoop g 0 [(k2, v2)] r True s4"
    using cellLoop_step [OF assms(1) refl _ s2_def l4(2) s4_def [folded assms(3)], of 0 "[]" False ?s0 "[(k2, v2)]"] b1 l4(1) assms(3,5)
    by (simp add: cellChunkBufferSize_def)
  define s5 where "s5 = s4\<lparr>s_dec := snd (Decode (s_dec s4) k2)\<rparr>"
  define s6 where "s6 = (if length v2 > 0 then fillValBuf g v2 s5 else s5)"
  define s7 where "s7 = s6\<lparr>s_chunkBuf := appendCellChunks (s_chunkBuf s6) r (d_family ?d2) (d_qualifier ?d2) (d_ts ?d2) (s_valBuf s6) v2\<rparr>"
  have s6: "s6 = s5\<lparr>s_arrays := [[], v2 @ make_bytes (?cap - length v1)]\<rparr>"
    using nz assms(8) by (simp add: s6_def s5_def s4_def s2 fillValBuf_def a2 Let_def)
  have l7: "length (s_chunkBuf s7) = 4" "s_filter s6 = None"
    using l4 by (simp_all add: s7_def t s6 s5_def) (simp_all add: s4_def s2 s1_def scanStart_def)
  have step2: "cellLoop g 0 [(k2, v2)] r True s4 = (None, r, True, s7)"
    using cellLoop_step [OF assms(2) refl _ s6_def l7(2) s7_def [folded assms(4)], of 0 r True s4 "[]"] l7(1) assms(4)
    by (simp add: cellChunkBufferSize_def rowBoundary_def s5_def)
  have c: "s_chunkBuf s7 = s_chunkBuf s4 @
      [(cellChunk r (d_family ?d2) (d_qualifier ?d2) (d_ts ?d2) (take ?m v2) [])\<lparr>ck_valueSize := of_nat (length v2)\<rparr>,
       emptyChunk\<lparr>ck_value := View 1 ?m (length v2)\<rparr>]"
    "s_chunkBuf s4 = [(cellChunk r (d_family ?d1) (d_qualifier ?d1) (d_ts ?d1) (take ?m v1) [])\<lparr>ck_valueSize := of_nat (length v1)\<rparr>,
       emptyChunk\<lparr>ck_value := View 1 ?m (length v1)\<rparr>]"
    by (simp_all add: s7_def t s6 s5_def s4_def s2) (simp add: s1_def scanStart_def)
  have e: "s_arrays s7 = [[], v2 @ make_bytes (?cap - length v1)]" "s_stream s7 = sk" "s_rowCount s7 = 1" "s_lastScanned s7 = []"
    by (simp_all add: s7_def s6 s5_def s4_def s2 s1_def scanStart_def)
  show ?thesis unfolding step1 step2 using c e l7(1) assms(8) d by simp
qed

section \<open>Properties\<close>

text \<open>C26: the scan bounds of a row range cover a cell exactly when its row lies between the
  bounds of the range, each open, closed or absent (for family names shorter than 255
  bytes).\<close>

theorem row_range_exact:
  assumes "length f < 255" "length q \<le> 65535"
  shows "inBounds (fst (rowRangeToBounds rr)) (snd (rowRangeToBounds rr)) (EncodeCellKey r f q t) \<longleftrightarrow>
    afterStart (rr_start rr) r \<and> beforeEnd (rr_end rr) r"
  using rowRange_bounds [OF assms] by simp

theorem row_range_exact_witness:
  "inBounds (fst (rowRangeToBounds \<lparr>rr_start = Open [97], rr_end = Closed [98]\<rparr>)) (snd (rowRangeToBounds \<lparr>rr_start = Open [97], rr_end = Closed [98]\<rparr>))
     (EncodeCellKey [97, 0] [102] [] 3) \<and>
   \<not> inBounds (fst (rowRangeToBounds \<lparr>rr_start = Open [97], rr_end = Closed [98]\<rparr>)) (snd (rowRangeToBounds \<lparr>rr_start = Open [97], rr_end = Closed [98]\<rparr>))
     (EncodeCellKey [97] [102] [] 3)"
  using row_range_exact [of "[102]" "[]" "\<lparr>rr_start = Open [97], rr_end = Closed [98]\<rparr>" "[97, 0]" 3]
    row_range_exact [of "[102]" "[]" "\<lparr>rr_start = Open [97], rr_end = Closed [98]\<rparr>" "[97]" 3]
  by simp

text \<open>C24: splitting a value into chunks ends, loses nothing and keeps the size limit: there is
  at least one chunk, the first carries the cell's row, family, qualifier and timestamp, the
  values of the chunks concatenate to the value, none is longer than 64 KiB, and all chunks
  but the last announce the size of the value, capped at the largest 32-bit number.\<close>

theorem value_split:
  assumes "take (length value) (arrays ! ptr) = value"
  shows "\<exists>u cs. map (readChunk arrays) (appendCellChunks buf rowKey family qualifier ts ptr value) = map (readChunk arrays) buf @ u # cs \<and>
    concat (map ck_value (u # cs)) = value \<and> (\<forall>c \<in> set (u # cs). length (ck_value c) \<le> 65536) \<and>
    ck_rowKey u = rowKey \<and> ck_ts u = ts \<and> ck_family u = (if family = [] then None else Some family) \<and>
    ck_qualifier u = (if qualifier = [] then None else Some qualifier) \<and>
    (\<forall>c \<in> set (butlast (u # cs)). uint (ck_valueSize c) = min (int (length value)) (2 ^ 31 - 1)) \<and> ck_valueSize (last (u # cs)) = 0"
proof -
  obtain u cs where a: "appendCellChunks buf rowKey family qualifier ts ptr value = buf @ u # cs" "pieces arrays value 0 (u # cs)"
    "\<exists>x n. u = (cellChunk rowKey family qualifier ts x [])\<lparr>ck_valueSize := n\<rparr>"
    using appendCellChunks_pieces [OF assms] by blast
  have p: "concat (map (\<lambda>c. readSlice arrays (ck_value c)) (u # cs)) = value" "\<forall>c \<in> set (u # cs). length (readSlice arrays (ck_value c)) \<le> 65536"
    "\<forall>c \<in> set (butlast (u # cs)). ck_valueSize c = sizeHint value" "ck_valueSize (last (u # cs)) = 0"
    using a(2) unfolding pieces_def maxCellChunkValueSize_def by auto
  have h: "uint (sizeHint value) = min (int (length value)) (2 ^ 31 - 1)"
  proof -
    have "uint (of_nat n :: 32 word) = int n" if "n \<le> 2147483647" for n
      using that by (simp add: unsigned_of_nat take_bit_nat_eq_self)
    then show ?thesis by (simp add: sizeHint_def min_def)
  qed
  obtain x n where u: "u = (cellChunk rowKey family qualifier ts x [])\<lparr>ck_valueSize := n\<rparr>" using a(3) by blast
  have f: "ck_rowKey u = rowKey" "ck_ts u = ts" "ck_family u = (if family = [] then None else Some family)"
    "ck_qualifier u = (if qualifier = [] then None else Some qualifier)"
    by (subst u, simp add: cellChunk_def)+
  have bl: "butlast (readChunk arrays u # map (readChunk arrays) cs) = map (readChunk arrays) (butlast (u # cs))"
    using map_butlast [of "readChunk arrays" "u # cs"] by simp
  show ?thesis
  proof (intro exI [of _ "readChunk arrays u"] exI [of _ "map (readChunk arrays) cs"] conjI)
    show "concat (map ck_value (readChunk arrays u # map (readChunk arrays) cs)) = value" using p(1) by (simp add: comp_def)
    show "\<forall>c \<in> set (butlast (readChunk arrays u # map (readChunk arrays) cs)). uint (ck_valueSize c) = min (int (length value)) (2 ^ 31 - 1)"
      unfolding bl using p(3) h by (auto simp del: butlast.simps)
    show "ck_valueSize (last (readChunk arrays u # map (readChunk arrays) cs)) = 0"
      using p(4) last_map [of "u # cs" "readChunk arrays"] by simp
  qed (use a(1) p(2) f in auto)
qed

theorem value_split_witness:
  "\<exists>u cs. map (readChunk [replicate 65537 1]) (appendCellChunks [] [97] [102] [113] 5 0 (replicate 65537 1)) = u # cs \<and>
    concat (map ck_value (u # cs)) = replicate 65537 1 \<and> ck_valueSize (last (u # cs)) = 0"
proof -
  have t: "take (length (replicate 65537 1 :: bytes)) ([replicate 65537 1] ! 0) = (replicate 65537 1 :: bytes)" by simp
  show ?thesis using value_split [OF t, of "[]" "[97]" "[102]" "[113]" 5] unfolding list.map(1) append_Nil
    by (elim exE conjE, intro exI conjI) assumption+
qed

end
