(* ===== verification/ReadModifyWrite.thy ===== *)
theory ReadModifyWrite
  imports Mutations
begin

text \<open>
  \<open>pkg/bigtable/readmodifywrite.go\<close> and \<open>pkg/bigtable/samplekeys.go\<close>: reading, changing and
  writing cells of one row in an indexed batch, and sampling row keys at table boundaries.

  The rules are shown to refine their meaning on the cells of the table: each works on
  the newest cell of its column, earlier rules being visible to later ones. \<open>Batch.Set\<close> never
  fails on an open batch. The answer lists families and columns in the order of a Go map,
  which is unspecified, so they are maps here.
\<close>

section \<open>Messages\<close>

datatype rmwOp = AppendValue bytes | IncrementAmount int64 | NoRule

record rmwRule =
  ru_family :: bytes
  ru_qualifier :: bytes
  ru_rule :: rmwOp

record rmwRequest =
  rm_tableName :: string
  rm_rowKey :: bytes
  rm_rules :: "rmwRule list"

record rmwResponse =
  rw_key :: bytes
  rw_ts :: int64
  rw_families :: "bytes \<rightharpoonup> (bytes \<rightharpoonup> bytes)"

section \<open>The handler\<close>

text \<open>A bound of the iterator, absent when the slice is nil.\<close>

definition boundOf :: "bytes \<Rightarrow> bytes option" where
  "boundOf b = (if b = [] then None else Some b)"

definition readCellValue :: "'db pebble \<Rightarrow> batch \<Rightarrow> 'db \<Rightarrow> bytes \<Rightarrow> bytes \<Rightarrow> bytes \<Rightarrow> bytes" where
  "readCellValue P batch db rowKey family qualifier =
     (let rp = encodeRowPrefix rowKey;
          fp = encodeFamilyPrefix rp family;
          cp = encodeColumnPrefix fp qualifier
      in case pBatchIter P batch (boundOf cp) (boundOf (columnEndKey cp)) db of
           Inl _ \<Rightarrow> []
         | Inr kvs \<Rightarrow>
             (case kvs of
                [] \<Rightarrow> []
              | (k, v) # _ \<Rightarrow> if take (length cp) k = cp then v else []))"

definition applyRule :: "rmwOp \<Rightarrow> bytes \<Rightarrow> rpcError + bytes" where
  "applyRule op currentValue =
     (case op of
        AppendValue a \<Rightarrow> Inr (currentValue @ a)
      | IncrementAmount amount \<Rightarrow>
          (let add = (\<lambda>currentInt :: int64.
                 let newInt = currentInt + amount
                 in if sint newInt < 0 then Inl (StatusError OutOfRange ''increment result is negative'' None)
                    else Inr (PutUint64 newInt))
           in if length currentValue > 0 then
                (if length currentValue \<noteq> 8
                 then Inl (StatusError FailedPrecondition ''existing cell value must be 8 bytes for increment'' None)
                 else let uv = Uint64 currentValue in
                   if uv > MaxInt64
                   then Inl (StatusError FailedPrecondition ''existing cell value exceeds int64 range'' None)
                   else add uv)
              else add 0)
      | NoRule \<Rightarrow> Inl (StatusError InvalidArgument ''unknown rule type'' None))"

fun rulesLoop :: "'db pebble \<Rightarrow> 'db \<Rightarrow> bytes \<Rightarrow> int64 \<Rightarrow> rmwRule list \<Rightarrow> batch \<Rightarrow> (bytes \<rightharpoonup> (bytes \<rightharpoonup> bytes)) \<Rightarrow>
    rpcError + batch \<times> (bytes \<rightharpoonup> (bytes \<rightharpoonup> bytes))" where
  "rulesLoop P db rowKey ts [] batch modified = Inr (batch, modified)"
| "rulesLoop P db rowKey ts (rule # rules) batch modified =
     (let family = ru_family rule; qualifier = ru_qualifier rule;
          currentValue = readCellValue P batch db rowKey family qualifier
      in case applyRule (ru_rule rule) currentValue of
           Inl err \<Rightarrow> Inl err
         | Inr newValue \<Rightarrow>
             (let quals = (case modified family of None \<Rightarrow> Map.empty | Some m \<Rightarrow> m)
              in rulesLoop P db rowKey ts rules (batch @ [OpSet (EncodeCellKey rowKey family qualifier ts) newValue])
                   (modified(family \<mapsto> quals(qualifier \<mapsto> newValue)))))"

definition ReadModifyWriteRow :: "'s store \<Rightarrow> 'db pebble \<Rightarrow> codec \<Rightarrow> request \<Rightarrow> rmwRequest \<Rightarrow> ('s, 'db) server \<Rightarrow>
    (rpcError + rmwResponse) \<times> ('s, 'db) server" where
  "ReadModifyWriteRow st P J rq req sv =
     (if length (rm_rowKey req) = 0 then (Inl (StatusError InvalidArgument ''row_key is required'' None), sv)
      else if length (rm_rules req) = 0 then (Inl (StatusError InvalidArgument ''rules is required'' None), sv)
      else
        (case getEngine st P J (rm_tableName req) sv of
           (Inl err, sv1) \<Rightarrow> (Inl (StatusError Internal ''opening table'' (Some err)), sv1)
         | (Inr eng, sv1) \<Rightarrow>
             (let (ts, _) = tick (rq_clock rq) in
              case rulesLoop P (the (e_db eng)) (rm_rowKey req) ts (rm_rules req) [] Map.empty of
                Inl err \<Rightarrow> (Inl err, sv1)
              | Inr (batch, modified) \<Rightarrow>
                  (case engine_Apply st P (rq_env rq) batch eng of
                     (Some err, eng1) \<Rightarrow>
                       (Inl (StatusError Internal ''applying batch'' (Some err)), saveEngine (rm_tableName req) eng1 sv1)
                   | (None, eng1) \<Rightarrow>
                       (Inr \<lparr>rw_key = rm_rowKey req, rw_ts = ts, rw_families = modified\<rparr>,
                        saveEngine (rm_tableName req) eng1 sv1)))))"

section \<open>Sampling row keys\<close>

record sampleRowKeysResponse =
  sr_rowKey :: bytes
  sr_offsetBytes :: int64

text \<open>One table: its smallest key and its size.\<close>

fun sampleLoop :: "(bytes \<times> nat) list \<Rightarrow> int64 \<Rightarrow> cellDecoder \<Rightarrow> sampleRowKeysResponse sink \<Rightarrow>
    goerror option \<times> int64 \<times> cellDecoder \<times> sampleRowKeysResponse sink" where
  "sampleLoop [] offsetBytes dec sk = (None, offsetBytes, dec, sk)"
| "sampleLoop ((smallest, sz) # ssts) offsetBytes dec sk =
     (let size64 = (of_nat sz :: uint64);
          remaining = MaxInt64 - offsetBytes;
          offset1 = (if size64 > remaining then MaxInt64 else offsetBytes + size64)
      in if length smallest > 0 then
           (case Decode dec smallest of
              (d, dec1) \<Rightarrow>
                if \<not> d_ok d \<or> length (d_rowKey d) = 0 then sampleLoop ssts offsetBytes dec1 sk
                else (case Send \<lparr>sr_rowKey = d_rowKey d, sr_offsetBytes = offsetBytes\<rparr> sk of
                        (Some err, sk1) \<Rightarrow> (Some err, offsetBytes, dec1, sk1)
                      | (None, sk1) \<Rightarrow> sampleLoop ssts offset1 dec1 sk1))
         else sampleLoop ssts offset1 dec sk)"

fun levelLoop :: "(bytes \<times> nat) list list \<Rightarrow> int64 \<Rightarrow> cellDecoder \<Rightarrow> sampleRowKeysResponse sink \<Rightarrow>
    goerror option \<times> sampleRowKeysResponse sink" where
  "levelLoop [] offsetBytes dec sk = (None, sk)"
| "levelLoop (level # levels) offsetBytes dec sk =
     (case sampleLoop level offsetBytes dec sk of
        (Some err, _, _, sk1) \<Rightarrow> (Some err, sk1)
      | (None, offset1, dec1, sk1) \<Rightarrow> levelLoop levels offset1 dec1 sk1)"

definition SampleRowKeys :: "'s store \<Rightarrow> 'db pebble \<Rightarrow> codec \<Rightarrow> string \<Rightarrow> sampleRowKeysResponse sink \<Rightarrow> ('s, 'db) server \<Rightarrow>
    rpcError option \<times> sampleRowKeysResponse sink \<times> ('s, 'db) server" where
  "SampleRowKeys st P J tableName sk sv =
     (case getEngine st P J tableName sv of
        (Inl err, sv1) \<Rightarrow> (Some (StatusError Internal ''opening table'' (Some err)), sk, sv1)
      | (Inr eng, sv1) \<Rightarrow>
          (case pSSTables P (the (e_db eng)) of
             Inl err \<Rightarrow> (Some (StatusError Internal ''reading SSTs'' (Some err)), sk, sv1)
           | Inr sstInfos \<Rightarrow>
               (case levelLoop sstInfos 0 emptyDecoder sk of
                  (r, sk1) \<Rightarrow> (map_option PlainError r, sk1, sv1))))"

section \<open>Increments\<close>

lemma signed_wrap:
  "- (2 ^ 63) \<le> x \<Longrightarrow> x < 2 ^ 64 \<Longrightarrow> signed_take_bit 63 (x :: int) = (if x < 2 ^ 63 then x else x - 2 ^ 64)"
proof (cases "x < 2 ^ 63")
  case False
  assume x: "- (2 ^ 63) \<le> x" "x < 2 ^ 64"
  have "take_bit 64 (y - 2 ^ 64) = take_bit 64 y" for y :: int by (simp add: take_bit_eq_mod)
  from this [of "x + 2 ^ 63"] have "signed_take_bit 63 x = signed_take_bit 63 (x - 2 ^ 64)"
    by (simp add: signed_take_bit_eq_take_bit_shift)
  then show ?thesis using x False by (simp add: signed_take_bit_int_eq_self)
qed (simp add: signed_take_bit_int_eq_self)

lemma sint_wrap: "sint (w :: 64 word) = (if uint w < 2 ^ 63 then uint w else uint w - 2 ^ 64)"
proof -
  have "- (2 ^ 63) \<le> uint w" by (rule order_trans [OF _ uint_ge_0]) simp
  then show ?thesis using signed_wrap [of "uint w"] uint_lt2p [of w] by (simp add: sint_uint)
qed

lemma sint_add_nonneg:
  fixes a b :: int64
  assumes "0 \<le> sint a"
  shows "0 \<le> sint (a + b) \<longleftrightarrow> 0 \<le> sint a + sint b \<and> sint a + sint b < 2 ^ 63"
    "0 \<le> sint (a + b) \<Longrightarrow> sint (a + b) = sint a + sint b"
proof -
  have r: "sint a < 2 ^ 63" "- (2 ^ 63) \<le> sint b" "sint b < 2 ^ 63"
    using sint_lt [of a] sint_lt [of b] sint_ge [of b] by simp_all
  have "sint (a + b) = signed_take_bit 63 (sint a + sint b)"
    using sint_word_add [of a b] by simp
  then have e: "sint (a + b) = (if sint a + sint b < 2 ^ 63 then sint a + sint b else sint a + sint b - 2 ^ 64)"
    using assms r signed_wrap [of "sint a + sint b"] by simp
  show "0 \<le> sint (a + b) \<longleftrightarrow> 0 \<le> sint a + sint b \<and> sint a + sint b < 2 ^ 63"
    "0 \<le> sint (a + b) \<Longrightarrow> sint (a + b) = sint a + sint b"
    using e assms r by (simp_all split: if_splits)
qed

text \<open>The number a cell stands for, and the values on which an increment is defined.\<close>

definition counter :: "bytes \<Rightarrow> int" where
  "counter cur = (if cur = [] then 0 else uint (Uint64 cur))"

lemma increment_iff:
  "applyRule (IncrementAmount n) cur = Inr v \<longleftrightarrow>
     (cur = [] \<or> length cur = 8) \<and> counter cur < 2 ^ 63 \<and> 0 \<le> counter cur + sint n \<and> counter cur + sint n < 2 ^ 63 \<and>
     v = PutUint64 (word_of_int (counter cur + sint n))"
proof -
  define u :: int64 where "u = (if cur = [] then 0 else Uint64 cur)"
  have c: "counter cur = uint u" by (simp add: counter_def u_def)
  have m: "u > MaxInt64 \<longleftrightarrow> \<not> uint u < 2 ^ 63"
    by (simp add: word_less_def MaxInt64_def) linarith
  have s: "sint u = uint u" if "uint u < 2 ^ 63"
    using that sint_wrap [of u] by simp
  have w: "word_of_int (uint u + sint n) = u + n" by simp
  have "applyRule (IncrementAmount n) cur = Inr v \<longleftrightarrow>
      (cur = [] \<or> length cur = 8) \<and> uint u < 2 ^ 63 \<and> 0 \<le> sint (u + n) \<and> v = PutUint64 (u + n)"
    using m by (auto simp: applyRule_def Let_def u_def split: if_splits)
  then show ?thesis unfolding c w using sint_add_nonneg(1) [of u n] s by auto
qed

section \<open>The newest cell of a column\<close>

text \<open>\<open>v\<close> is the value of the newest cell of a column, empty when the column has none.\<close>

definition isLatest :: "(cellId \<Rightarrow> bytes option) \<Rightarrow> bytes \<Rightarrow> bytes \<Rightarrow> bytes \<Rightarrow> bytes \<Rightarrow> bool" where
  "isLatest T r f q v \<longleftrightarrow>
     (\<exists>t. T (r, f, q, t) = Some v \<and> (\<forall>t'. T (r, f, q, t') \<noteq> None \<longrightarrow> sint t' \<le> sint t)) \<or>
     v = [] \<and> (\<forall>t. T (r, f, q, t) = None)"

context pebble_db
begin

lemma readCellValue_latest:
  assumes "tableWf (applyOps b (view db))" "length f < 255" "length q < 65280"
    "\<And>lo hi. \<exists>kvs. pBatchIter P b lo hi db = Inr kvs"
  shows "isLatest (cellsOf (applyOps b (view db))) r f q (readCellValue P b db r f q)"
proof -
  let ?m = "applyOps b (view db)"
  define cp where "cp = encodeColumnPrefix (encodeFamilyPrefix (encodeRowPrefix r) f) q"
  have v: "valid_col f q" using assms(2,3) by (simp add: valid_col_def)
  have ne: "cp \<noteq> []" "columnEndKey cp \<noteq> []" by (simp_all add: cp_def column_prefix_eq [OF v] columnEndKey_eq)
  obtain kvs where k: "pBatchIter P b (Some cp) (Some (columnEndKey cp)) db = Inr kvs" using assms(4) by blast
  have it: "iterates ?m (Some cp) (Some (columnEndKey cp)) kvs" using batch_iter_view [OF k] .
  have mem: "(key, x) \<in> set kvs \<longleftrightarrow> ?m key = Some x \<and> in_range (rowKeyColumnBounds r f q) key" for key x
    using it by (simp add: iterates_def inBounds_def in_range_def rowKeyColumnBounds_def Let_def cp_def)
  have cell: "\<exists>t. key = EncodeCellKey r f q t \<and> 2 ^ 56 - 2 ^ 63 \<le> sint t" if "(key, x) \<in> set kvs" for key x
  proof -
    have "?m key = Some x" "in_range (rowKeyColumnBounds r f q) key" using that mem by auto
    moreover obtain r' f' q' t where c: "valid_col f' q'" "key = EncodeCellKey r' f' q' t"
      using calculation(1) assms(1) DecodeCellKey_ok [of key] by (auto simp: tableWf_def)
    ultimately show ?thesis using in_column_bounds [OF c(1) v, of r r' t] by auto
  qed
  have in_kvs: "(EncodeCellKey r f q t, x) \<in> set kvs" if "cellsOf ?m (r, f, q, t) = Some x" for t x
    using that mem in_column_bounds [OF v v, of r r t] by (auto split: if_splits)
  have R: "readCellValue P b db r f q = (case kvs of [] \<Rightarrow> [] | (key, x) # _ \<Rightarrow> if take (length cp) key = cp then x else [])"
    unfolding readCellValue_def Let_def cp_def [symmetric] using ne by (simp add: boundOf_def k)
  show ?thesis
  proof (cases kvs)
    case Nil
    then have "cellsOf ?m (r, f, q, t) = None" for t using in_kvs [of t] by (cases "cellsOf ?m (r, f, q, t)") auto
    then show ?thesis using R Nil by (simp add: isLatest_def)
  next
    case (Cons kx rest)
    obtain key x where kx: "kx = (key, x)" by (cases kx)
    then obtain t where t: "key = EncodeCellKey r f q t" "2 ^ 56 - 2 ^ 63 \<le> sint t" using cell [of key x] Cons by auto
    have x: "cellsOf ?m (r, f, q, t) = Some x" using mem [of key x] Cons kx t assms(2,3) by simp
    have "take (length cp) key = cp" by (simp add: t(1) EncodeCellKey_prefix cp_def)
    then have val: "readCellValue P b db r f q = x" using R Cons kx by simp
    have "sint t' \<le> sint t" if some: "cellsOf ?m (r, f, q, t') \<noteq> None" for t'
    proof -
      obtain y where "(EncodeCellKey r f q t', y) \<in> set kvs" using some in_kvs by blast
      then have "EncodeCellKey r f q t' \<in> set (map fst kvs)" by force
      moreover have "sorted (map fst kvs)" using it by (simp add: iterates_def)
      ultimately have "key \<le> EncodeCellKey r f q t'" by (auto simp: Cons kx)
      then show ?thesis
        using EncodeCellKey_order [OF v v, of r t' r t] by (auto simp: t(1) not_less [symmetric])
    qed
    then show ?thesis using x val unfolding isLatest_def by blast
  qed
qed

end

section \<open>Rules on the cells of the table\<close>

inductive ruleSteps :: "bytes \<Rightarrow> int64 \<Rightarrow> (cellId \<Rightarrow> bytes option) \<Rightarrow> rmwRule list \<Rightarrow> (cellId \<Rightarrow> bytes option) \<Rightarrow> bool"
  for r ts where
  rs_done: "ruleSteps r ts T [] T"
| rs_rule: "isLatest T r (ru_family rule) (ru_qualifier rule) cur \<Longrightarrow> applyRule (ru_rule rule) cur = Inr v \<Longrightarrow>
     ruleSteps r ts (T((r, ru_family rule, ru_qualifier rule, ts) \<mapsto> v)) rules T' \<Longrightarrow> ruleSteps r ts T (rule # rules) T'"

inductive_cases ruleSteps_ConsE: "ruleSteps r ts T (rule # rules) T'"
inductive_simps ruleSteps_simps: "ruleSteps r ts T [] T'" "ruleSteps r ts T (rule # rules) T'"

definition wfRule :: "rmwRule \<Rightarrow> bool" where
  "wfRule rule \<longleftrightarrow> length (ru_family rule) < 255 \<and> length (ru_qualifier rule) < 65280"

context pebble_db
begin

lemma rulesLoop_refines:
  assumes "rulesLoop P db r ts rules b modified = Inr (b', modified')" "list_all wfRule rules" "0 \<le> sint ts"
    "tableWf (applyOps b (view db))" "\<And>b lo hi. \<exists>kvs. pBatchIter P b lo hi db = Inr kvs"
  shows "ruleSteps r ts (cellsOf (applyOps b (view db))) rules (cellsOf (applyOps b' (view db))) \<and> tableWf (applyOps b' (view db))"
  using assms
proof (induction rules arbitrary: b modified)
  case Nil
  then show ?case by (simp add: rs_done)
next
  case (Cons rule rules)
  let ?f = "ru_family rule" and ?q = "ru_qualifier rule" and ?T = "cellsOf (applyOps b (view db))"
  have w: "length ?f < 255" "length ?q < 65280" using Cons.prems(2) by (simp_all add: wfRule_def)
  have L: "isLatest ?T r ?f ?q (readCellValue P b db r ?f ?q)"
    by (rule readCellValue_latest [OF Cons.prems(4) w Cons.prems(5)])
  obtain v where v: "applyRule (ru_rule rule) (readCellValue P b db r ?f ?q) = Inr v"
    using Cons.prems(1) by (auto simp: Let_def split: sum.splits)
  let ?b = "b @ [OpSet (EncodeCellKey r ?f ?q ts) v]"
  have o: "ordinary (r, ?f, ?q, ts)" using w Cons.prems(3) by simp
  have c: "cellsOf (applyOps ?b (view db)) = ?T((r, ?f, ?q, ts) \<mapsto> v)"
    using cells_set [OF o, of v "applyOps b (view db)"] by simp
  have t: "tableWf (applyOps ?b (view db))"
    using tableWf_set [OF Cons.prems(4) ordinary_valid [OF o]] by simp
  have "ruleSteps r ts (?T((r, ?f, ?q, ts) \<mapsto> v)) rules (cellsOf (applyOps b' (view db))) \<and> tableWf (applyOps b' (view db))"
    unfolding c [symmetric] using Cons.prems(1,2) v by (intro Cons.IH [OF _ _ Cons.prems(3) t Cons.prems(5)]) (auto simp: Let_def)
  then show ?case using L v by (auto intro: rs_rule)
qed

end

text \<open>A family name that is too long loses the row: cells of different rows share a key.\<close>

theorem long_family_collides:
  assumes "length f > 255" "length f' > 255"
  shows "EncodeCellKey r f q t = EncodeCellKey r' f' q t"
  using assms by (simp add: EncodeCellKey_prefix encodeFamilyPrefix_def)

section \<open>Sampled offsets\<close>

text \<open>Adding a size to an offset saturates, so the offsets are never negative and never fall.\<close>

definition offsetsFrom :: "int64 \<Rightarrow> sampleRowKeysResponse list \<Rightarrow> int64 \<Rightarrow> bool" where
  "offsetsFrom a rs b \<longleftrightarrow> sorted (map sint (a # map sr_offsetBytes rs @ [b]))"

lemma saturate:
  fixes off size64 :: "64 word"
  assumes "0 \<le> sint off"
  shows "sint off \<le> sint (if size64 > MaxInt64 - off then MaxInt64 else off + size64)"
proof -
  have o: "sint off = uint off" "uint off < 2 ^ 63"
    using assms sint_wrap [of off] uint_lt2p [of off] by (simp_all split: if_splits)
  show ?thesis
  proof (cases "size64 > MaxInt64 - off")
    case True
    then show ?thesis using o sint_wrap [of MaxInt64] by (simp add: MaxInt64_def)
  next
    case False
    have "uint (MaxInt64 - off) = 2 ^ 63 - 1 - uint off"
      using o uint_sub_lem [of off MaxInt64] by (simp add: MaxInt64_def)
    then have le: "uint size64 \<le> 2 ^ 63 - 1 - uint off" using False by (simp add: word_less_def)
    then have "uint (off + size64) = uint off + uint size64"
      using uint_add_lem [of off size64] by simp
    then have "sint (off + size64) = uint off + uint size64" using sint_wrap [of "off + size64"] le by simp
    then show ?thesis using False o by simp
  qed
qed

lemma sampleLoop_offsets:
  assumes "sampleLoop ssts off dec sk = (r, off', dec', sk')" "0 \<le> sint off"
  shows "\<exists>rs. sk_sent sk' = sk_sent sk @ rs \<and> offsetsFrom off rs off'"
  using assms
proof (induction ssts off dec sk rule: sampleLoop.induct)
  case (1 offsetBytes dec sk)
  then show ?case by (auto simp: offsetsFrom_def)
next
  case (2 smallest sz ssts off dec sk)
  let ?o = "if (of_nat sz :: uint64) > MaxInt64 - off then MaxInt64 else off + of_nat sz"
  have s: "sint off \<le> sint ?o" using saturate [OF "2.prems"(2)] .
  have ext: "\<exists>rs. sk_sent sk' = sk_sent sk @ rs \<and> offsetsFrom off rs off'"
    if ex: "\<exists>rs. sk_sent sk' = (sk_sent sk @ zs) @ rs \<and> offsetsFrom ?o rs off'" and z: "map sr_offsetBytes zs \<in> {[], [off]}" for zs
  proof -
    obtain rs where rs: "sk_sent sk' = (sk_sent sk @ zs) @ rs" "offsetsFrom ?o rs off'" using ex by blast
    then have "offsetsFrom off (zs @ rs) off'" using s z by (auto simp: offsetsFrom_def sorted_append map_eq_Cons_conv)
    then show ?thesis using rs(1) by (intro exI [of _ "zs @ rs"]) simp
  qed
  show ?case
  proof (cases "smallest = []")
    case True
    then show ?thesis using "2.IH"(3) [OF refl refl refl] "2.prems" s ext [of "[]"] by (simp add: Let_def)
  next
    case False
    obtain d dec1 where D: "Decode dec smallest = (d, dec1)" by (cases "Decode dec smallest")
    show ?thesis
    proof (cases "\<not> d_ok d \<or> d_rowKey d = []")
      case True
      then show ?thesis using "2.IH"(1) [OF refl refl refl _ D [symmetric]] "2.prems" False D by auto
    next
      case ok: False
      obtain e sk1 where S: "Send \<lparr>sr_rowKey = d_rowKey d, sr_offsetBytes = off\<rparr> sk = (e, sk1)" by fastforce
      then have sent: "sk_sent sk1 = sk_sent sk @ (if e = None then [\<lparr>sr_rowKey = d_rowKey d, sr_offsetBytes = off\<rparr>] else [])"
        by (auto simp: Send_def split: list.splits option.splits)
      show ?thesis
      proof (cases e)
        case None
        then show ?thesis
          using "2.IH"(2) [OF refl refl refl _ D [symmetric] _ S [symmetric, unfolded None]] "2.prems" s False D S ok sent
            ext [of "[\<lparr>sr_rowKey = d_rowKey d, sr_offsetBytes = off\<rparr>]"] by (simp add: Let_def)
      next
        case (Some err)
        then show ?thesis using "2.prems" False D S ok sent by (auto simp: offsetsFrom_def Let_def)
      qed
    qed
  qed
qed

theorem sample_offsets:
  assumes "levelLoop levels off dec sk = (r, sk')" "0 \<le> sint off"
  shows "\<exists>rs off'. sk_sent sk' = sk_sent sk @ rs \<and> offsetsFrom off rs off'"
  using assms
proof (induction levels off dec sk rule: levelLoop.induct)
  case (1 off dec sk)
  then show ?case by (auto simp: offsetsFrom_def)
next
  case (2 level levels off dec sk)
  obtain e off1 dec1 sk1 where L: "sampleLoop level off dec sk = (e, off1, dec1, sk1)" by (metis prod_cases4)
  obtain rs where rs: "sk_sent sk1 = sk_sent sk @ rs" "offsetsFrom off rs off1" using sampleLoop_offsets [OF L "2.prems"(2)] by blast
  show ?case
  proof (cases e)
    case None
    have p: "0 \<le> sint off1" using rs(2) "2.prems"(2) by (auto simp: offsetsFrom_def sorted_append)
    obtain rs2 off2 where "sk_sent sk' = sk_sent sk1 @ rs2" "offsetsFrom off1 rs2 off2"
      using "2.IH" [OF L [symmetric, unfolded None] refl refl refl] "2.prems"(1) p L None by auto
    moreover have "offsetsFrom off (rs @ rs2) off2"
      using rs(2) calculation(2) by (auto simp: offsetsFrom_def sorted_append intro: order_trans)
    ultimately show ?thesis using rs(1) by (intro exI [of _ "rs @ rs2"]) auto
  next
    case (Some err)
    then show ?thesis using "2.prems" L rs by auto
  qed
qed

section \<open>Properties\<close>


end
