(* ===== verification/Session.thy ===== *)
theory Session
  imports ReadRows ReadModifyWrite "HOL-Library.Stream"
begin

text \<open>
  Sessions, \<open>pkg/bigtable/session.go\<close>: a stream on which a client opens a table and sends
  requests as opaque payloads.

  Unmarshalling and marshalling protocol buffers are third-party code, so they are the
  record \<open>wire\<close>, an argument. The incoming stream is the infinite stream of what \<open>Recv\<close> would
  return, each with what the request observes, so the loop of \<open>handleSession\<close> need not end: it is a
  partial function, \<open>None\<close> when the session stays open for ever. A stream
  wrapper sends one session message per message of the handler, so a handler runs on a
  stream with the same faults and its messages are then marshalled.
\<close>

section \<open>Messages\<close>

record wire =
  uOpenTable :: "bytes \<Rightarrow> goerror + string"
  uReadRows :: "bytes \<Rightarrow> goerror + readRowsRequest"
  uCheckAndMutateRow :: "bytes \<Rightarrow> goerror + checkAndMutateRowRequest"
  uMutateRow :: "bytes \<Rightarrow> goerror + mutateRowRequest"
  uMutateRows :: "bytes \<Rightarrow> goerror + mutateRowsRequest"
  uSampleRowKeys :: "bytes \<Rightarrow> goerror + string"
  uPingAndWarm :: "bytes \<Rightarrow> goerror + string"
  wReadRows :: "readRowsResponse \<Rightarrow> goerror + bytes"
  wCheckAndMutateRow :: "bool \<Rightarrow> goerror + bytes"
  wMutateRow :: "unit \<Rightarrow> goerror + bytes"
  wMutateRows :: "mutateRowsResponse \<Rightarrow> goerror + bytes"
  wSampleRowKeys :: "sampleRowKeysResponse \<Rightarrow> goerror + bytes"
  wPingAndWarm :: "unit \<Rightarrow> goerror + bytes"

record virtualRpcRequest =
  vr_rpcId :: int64
  vr_payload :: bytes

datatype sessionRequest = OpenSession bytes | CloseSession | VirtualRpc virtualRpcRequest | NoPayload

text \<open>A message to the client, \<open>NilResponse\<close> for the nil pointer that is sent when marshalling
  fails.\<close>

datatype sessionResponse = OpenSessionResponse | ErrorResponse int64 | VirtualRpcResponse int64 bytes | NilResponse

type_synonym session = "sessionResponse sink"

definition marshalSessionResponse :: "('m \<Rightarrow> goerror + bytes) \<Rightarrow> int64 \<Rightarrow> 'm \<Rightarrow> sessionResponse \<times> goerror option" where
  "marshalSessionResponse marshal rpcID payload =
     (case marshal payload of Inl err \<Rightarrow> (NilResponse, Some err) | Inr data \<Rightarrow> (VirtualRpcResponse rpcID data, None))"

definition sendToSession :: "('m \<Rightarrow> goerror + bytes) \<Rightarrow> int64 \<Rightarrow> 'm \<Rightarrow> session \<Rightarrow> goerror option \<times> session" where
  "sendToSession marshal rpcID resp sk = Send (fst (marshalSessionResponse marshal rpcID resp)) sk"

text \<open>The stream a handler gets, and the session stream after it.\<close>

definition newSessionStream :: "session \<Rightarrow> 'm sink" where
  "newSessionStream sk = \<lparr>sk_sent = [], sk_faults = sk_faults sk\<rparr>"

definition endSessionStream :: "('m \<Rightarrow> goerror + bytes) \<Rightarrow> int64 \<Rightarrow> session \<Rightarrow> 'm sink \<Rightarrow> session" where
  "endSessionStream marshal rpcID sk w =
     \<lparr>sk_sent = sk_sent sk @ map (\<lambda>m. fst (marshalSessionResponse marshal rpcID m)) (sk_sent w), sk_faults = sk_faults w\<rparr>"

text \<open>The wrapper sends each message as it comes.\<close>

lemma wrapper_sends:
  "sendToSession marshal rpcID m (endSessionStream marshal rpcID sk w) =
     (fst (Send m w), endSessionStream marshal rpcID sk (snd (Send m w)))"
  by (auto simp: sendToSession_def endSessionStream_def Send_def split: list.splits option.splits)

section \<open>Dispatch\<close>

text \<open>The answer to a unary request.\<close>

definition unaryReply :: "('m \<Rightarrow> goerror + bytes) \<Rightarrow> int64 \<Rightarrow> session \<Rightarrow> (rpcError + 'm) \<times> ('s, 'db) server \<Rightarrow>
    rpcError option \<times> session \<times> ('s, 'db) server" where
  "unaryReply marshal rpcID sk r =
     (case r of
        (Inl err, sv1) \<Rightarrow> (Some err, sk, sv1)
      | (Inr resp, sv1) \<Rightarrow>
          (case Send (fst (marshalSessionResponse marshal rpcID resp)) sk of (e, sk1) \<Rightarrow> (map_option PlainError e, sk1, sv1)))"

text \<open>The payload does not say what it is: it is unmarshalled as one kind of request after the
  other, and the first that succeeds and has its characteristic field is taken.\<close>

definition tryPingAndWarm :: "'s store \<Rightarrow> 'db pebble \<Rightarrow> codec \<Rightarrow> wire \<Rightarrow> virtualRpcRequest \<Rightarrow> session \<Rightarrow> ('s, 'db) server \<Rightarrow>
    rpcError option \<times> session \<times> ('s, 'db) server" where
  "tryPingAndWarm st P J W vrpc sk sv =
     (case uPingAndWarm W (vr_payload vrpc) of
        Inr name \<Rightarrow>
          if name \<noteq> [] then unaryReply (wPingAndWarm W) (vr_rpcId vrpc) sk (PingAndWarm st P J name sv)
          else (Some (PlainError (Err ''unsupported vRPC request type'')), sk, sv)
      | Inl _ \<Rightarrow> (Some (PlainError (Err ''unsupported vRPC request type'')), sk, sv))"

definition trySampleRowKeys :: "'s store \<Rightarrow> 'db pebble \<Rightarrow> codec \<Rightarrow> wire \<Rightarrow> virtualRpcRequest \<Rightarrow> session \<Rightarrow> ('s, 'db) server \<Rightarrow>
    rpcError option \<times> session \<times> ('s, 'db) server" where
  "trySampleRowKeys st P J W vrpc sk sv =
     (case uSampleRowKeys W (vr_payload vrpc) of
        Inr name \<Rightarrow>
          if name \<noteq> [] then
            (case SampleRowKeys st P J name (newSessionStream sk) sv of
               (r, w, sv1) \<Rightarrow> (r, endSessionStream (wSampleRowKeys W) (vr_rpcId vrpc) sk w, sv1))
          else tryPingAndWarm st P J W vrpc sk sv
      | Inl _ \<Rightarrow> tryPingAndWarm st P J W vrpc sk sv)"

definition tryMutateRows :: "'s store \<Rightarrow> 'db pebble \<Rightarrow> codec \<Rightarrow> wire \<Rightarrow> request \<Rightarrow> virtualRpcRequest \<Rightarrow> session \<Rightarrow> ('s, 'db) server \<Rightarrow>
    rpcError option \<times> session \<times> ('s, 'db) server" where
  "tryMutateRows st P J W rq vrpc sk sv =
     (case uMutateRows W (vr_payload vrpc) of
        Inr req \<Rightarrow>
          if length (ms_entries req) > 0 then
            (case MutateRows st P J rq req (newSessionStream sk) sv of
               (r, w, sv1) \<Rightarrow> (r, endSessionStream (wMutateRows W) (vr_rpcId vrpc) sk w, sv1))
          else trySampleRowKeys st P J W vrpc sk sv
      | Inl _ \<Rightarrow> trySampleRowKeys st P J W vrpc sk sv)"

definition tryMutateRow :: "'s store \<Rightarrow> 'db pebble \<Rightarrow> codec \<Rightarrow> wire \<Rightarrow> request \<Rightarrow> virtualRpcRequest \<Rightarrow> session \<Rightarrow> ('s, 'db) server \<Rightarrow>
    rpcError option \<times> session \<times> ('s, 'db) server" where
  "tryMutateRow st P J W rq vrpc sk sv =
     (case uMutateRow W (vr_payload vrpc) of
        Inr req \<Rightarrow>
          if length (mr_rowKey req) > 0 then unaryReply (wMutateRow W) (vr_rpcId vrpc) sk (MutateRow st P J rq req sv)
          else tryMutateRows st P J W rq vrpc sk sv
      | Inl _ \<Rightarrow> tryMutateRows st P J W rq vrpc sk sv)"

definition tryCheckAndMutateRow :: "'s store \<Rightarrow> 'db pebble \<Rightarrow> codec \<Rightarrow> wire \<Rightarrow> request \<Rightarrow> virtualRpcRequest \<Rightarrow> session \<Rightarrow> ('s, 'db) server \<Rightarrow>
    rpcError option \<times> session \<times> ('s, 'db) server" where
  "tryCheckAndMutateRow st P J W rq vrpc sk sv =
     (case uCheckAndMutateRow W (vr_payload vrpc) of
        Inr req \<Rightarrow>
          if length (cm_rowKey req) > 0
          then unaryReply (wCheckAndMutateRow W) (vr_rpcId vrpc) sk (CheckAndMutateRow st P J rq req sv)
          else tryMutateRow st P J W rq vrpc sk sv
      | Inl _ \<Rightarrow> tryMutateRow st P J W rq vrpc sk sv)"

definition dispatchVRPC :: "'s store \<Rightarrow> 'db pebble \<Rightarrow> codec \<Rightarrow> wire \<Rightarrow> request \<Rightarrow> string \<Rightarrow> virtualRpcRequest \<Rightarrow> session \<Rightarrow> ('s, 'db) server \<Rightarrow>
    rpcError option \<times> session \<times> ('s, 'db) server" where
  "dispatchVRPC st P J W rq tableName vrpc sk sv =
     (if length (vr_payload vrpc) = 0 then (Some (PlainError (Err ''empty vRPC payload'')), sk, sv)
      else if tableName = [] then (Some (PlainError (Err ''no table session established'')), sk, sv)
      else case uReadRows W (vr_payload vrpc) of
             Inr req \<Rightarrow>
               if rd_tableName req \<noteq> [] then
                 (case ReadRows st P J rq (req\<lparr>rd_tableName := tableName\<rparr>) (newSessionStream sk) sv of
                    (r, w, sv1) \<Rightarrow> (r, endSessionStream (wReadRows W) (vr_rpcId vrpc) sk w, sv1))
               else tryCheckAndMutateRow st P J W rq vrpc sk sv
           | Inl _ \<Rightarrow> tryCheckAndMutateRow st P J W rq vrpc sk sv)"

text \<open>What \<open>stream.Recv\<close> returns.\<close>

datatype received = RecvEOF | RecvErr goerror | Received sessionRequest

type_synonym incoming = "(received \<times> request) stream"

text \<open>One turn of the loop: the session returns (\<open>Inl\<close>) or goes on with its table, stream and server.\<close>

fun sessionStep :: "'s store \<Rightarrow> 'db pebble \<Rightarrow> codec \<Rightarrow> wire \<Rightarrow> received \<times> request \<Rightarrow> string \<Rightarrow> session \<Rightarrow> ('s, 'db) server \<Rightarrow>
    (goerror option \<times> session \<times> ('s, 'db) server) + (string \<times> session \<times> ('s, 'db) server)" where
  "sessionStep st P J W (RecvEOF, rq) tableName sk sv = Inl (None, sk, sv)"
| "sessionStep st P J W (RecvErr err, rq) tableName sk sv = Inl (Some err, sk, sv)"
| "sessionStep st P J W (Received (OpenSession payload), rq) tableName sk sv =
     (let tableName1 = (case uOpenTable W payload of Inl _ \<Rightarrow> tableName | Inr n \<Rightarrow> n)
      in case Send OpenSessionResponse sk of
           (Some err, sk1) \<Rightarrow> Inl (Some err, sk1, sv)
         | (None, sk1) \<Rightarrow> Inr (tableName1, sk1, sv))"
| "sessionStep st P J W (Received CloseSession, rq) tableName sk sv = Inl (None, sk, sv)"
| "sessionStep st P J W (Received NoPayload, rq) tableName sk sv = Inr (tableName, sk, sv)"
| "sessionStep st P J W (Received (VirtualRpc vrpc), rq) tableName sk sv =
     (case dispatchVRPC st P J W rq tableName vrpc sk sv of
        (None, sk1, sv1) \<Rightarrow> Inr (tableName, sk1, sv1)
      | (Some err, sk1, sv1) \<Rightarrow> Inr (tableName, snd (Send (ErrorResponse (vr_rpcId vrpc)) sk1), sv1))"

partial_function (option) handleSession :: "'s store \<Rightarrow> 'db pebble \<Rightarrow> codec \<Rightarrow> wire \<Rightarrow> incoming \<Rightarrow> string \<Rightarrow> session \<Rightarrow> ('s, 'db) server \<Rightarrow>
    (goerror option \<times> session \<times> ('s, 'db) server) option" where
  [code]: "handleSession st P J W rs tableName sk sv =
     (case sessionStep st P J W (shd rs) tableName sk sv of
        Inl result \<Rightarrow> Some result
      | Inr next1 \<Rightarrow> handleSession st P J W (stl rs) (fst next1) (fst (snd next1)) (snd (snd next1)))"

definition OpenTable :: "'s store \<Rightarrow> 'db pebble \<Rightarrow> codec \<Rightarrow> wire \<Rightarrow> incoming \<Rightarrow> session \<Rightarrow> ('s, 'db) server \<Rightarrow>
    (goerror option \<times> session \<times> ('s, 'db) server) option" where
  "OpenTable st P J W rs sk sv = handleSession st P J W rs [] sk sv"

text \<open>Induction on a session that returns.\<close>

lemma handleSession_induct [consumes 1, case_names returns goes_on]:
  assumes "handleSession st P J W rs tableName sk sv = Some y"
    and ret: "\<And>rs tableName sk sv y. sessionStep st P J W (shd rs) tableName sk sv = Inl y \<Longrightarrow> Q rs tableName sk sv y"
    and go: "\<And>rs tableName sk sv tn1 sk1 sv1 y. sessionStep st P J W (shd rs) tableName sk sv = Inr (tn1, sk1, sv1) \<Longrightarrow>
      Q (stl rs) tn1 sk1 sv1 y \<Longrightarrow> Q rs tableName sk sv y"
  shows "Q rs tableName sk sv y"
proof -
  let ?R = "\<lambda>(((((((st', P'), J'), W'), rs), tn), sk), sv) y. st' = st \<and> P' = P \<and> J' = J \<and> W' = W \<longrightarrow> Q rs tn sk sv y"
  have "?R (((((((st, P), J), W), rs), tableName), sk), sv) y"
    by (rule handleSession.raw_induct [where Pa = ?R, OF _ assms(1)])
      (auto split: sum.splits dest: ret, metis go)
  then show ?thesis by simp
qed

section \<open>Answers carry the id of their request\<close>

fun answers :: "int64 \<Rightarrow> sessionResponse \<Rightarrow> bool" where
  "answers i (ErrorResponse j) \<longleftrightarrow> j = i"
| "answers i (VirtualRpcResponse j d) \<longleftrightarrow> j = i"
| "answers i NilResponse \<longleftrightarrow> True"
| "answers i OpenSessionResponse \<longleftrightarrow> False"

lemma marshal_answers [simp]: "answers i (fst (marshalSessionResponse marshal i m))"
  by (simp add: marshalSessionResponse_def split: sum.splits)

lemma Send_sent: "sk_sent (snd (Send m sk)) = sk_sent sk \<or> sk_sent (snd (Send m sk)) = sk_sent sk @ [m]"
  by (auto simp: Send_def split: list.splits option.splits)

definition answeredFrom :: "int64 \<Rightarrow> session \<Rightarrow> session \<Rightarrow> bool" where
  "answeredFrom i sk sk' \<longleftrightarrow> (\<exists>ms. sk_sent sk' = sk_sent sk @ ms \<and> list_all (answers i) ms)"

lemma answered_refl [simp]: "answeredFrom i sk sk"
  by (auto simp: answeredFrom_def)

lemma answered_end [simp]: "answeredFrom i sk (endSessionStream marshal i sk w)"
  by (auto simp: answeredFrom_def endSessionStream_def list_all_iff)

lemma answered_Send: "answers i m \<Longrightarrow> answeredFrom i sk sk1 \<Longrightarrow> answeredFrom i sk (snd (Send m sk1))"
  using Send_sent [of m sk1] by (fastforce simp: answeredFrom_def)

lemma answered_unary: "answeredFrom i sk (fst (snd (unaryReply marshal i sk r)))"
  using answered_Send [of i _ sk sk]
  by (auto simp: unaryReply_def split: prod.splits sum.splits) (metis answered_refl marshal_answers snd_conv)

lemma ping_answers: "answeredFrom (vr_rpcId vrpc) sk (fst (snd (tryPingAndWarm st P J W vrpc sk sv)))"
  by (simp add: tryPingAndWarm_def answered_unary split: sum.split)

lemma sample_answers: "answeredFrom (vr_rpcId vrpc) sk (fst (snd (trySampleRowKeys st P J W vrpc sk sv)))"
  by (simp add: trySampleRowKeys_def ping_answers split: sum.split prod.split)

lemma mutateRows_answers: "answeredFrom (vr_rpcId vrpc) sk (fst (snd (tryMutateRows st P J W rq vrpc sk sv)))"
  by (simp add: tryMutateRows_def sample_answers split: sum.split prod.split)

lemma mutateRow_answers: "answeredFrom (vr_rpcId vrpc) sk (fst (snd (tryMutateRow st P J W rq vrpc sk sv)))"
  by (simp add: tryMutateRow_def mutateRows_answers answered_unary split: sum.split)

lemma check_answers: "answeredFrom (vr_rpcId vrpc) sk (fst (snd (tryCheckAndMutateRow st P J W rq vrpc sk sv)))"
  by (simp add: tryCheckAndMutateRow_def mutateRow_answers answered_unary split: sum.split)

lemma dispatch_answers: "answeredFrom (vr_rpcId vrpc) sk (fst (snd (dispatchVRPC st P J W rq tableName vrpc sk sv)))"
  by (simp add: dispatchVRPC_def check_answers split: sum.split prod.split)

text \<open>The ids of the requests of a stream, and what a session sends: acknowledgements and answers to
  those requests.\<close>

definition vrpcIds :: "incoming \<Rightarrow> int64 set" where
  "vrpcIds rs = {vr_rpcId vrpc | vrpc rq. (Received (VirtualRpc vrpc), rq) \<in> sset rs}"

definition sessionMessage :: "int64 set \<Rightarrow> sessionResponse \<Rightarrow> bool" where
  "sessionMessage ids m \<longleftrightarrow> m = OpenSessionResponse \<or> (\<exists>i \<in> ids. answers i m)"

lemma sessionMessage_mono: "sessionMessage a m \<Longrightarrow> a \<subseteq> b \<Longrightarrow> sessionMessage b m"
  by (auto simp: sessionMessage_def)

lemma vrpcIds_stl: "vrpcIds (stl rs) \<subseteq> vrpcIds rs"
  by (auto simp: vrpcIds_def intro: stl_sset)

text \<open>What one turn adds to the messages sent.\<close>

definition adds :: "int64 set \<Rightarrow> session \<Rightarrow> session \<Rightarrow> bool" where
  "adds ids sk sk' \<longleftrightarrow> (\<exists>ms. sk_sent sk' = sk_sent sk @ ms \<and> list_all (sessionMessage ids) ms)"

lemma adds_refl [simp]: "adds ids sk sk"
  by (simp add: adds_def)

lemma adds_trans: "adds ids sk sk1 \<Longrightarrow> adds ids sk1 sk2 \<Longrightarrow> adds ids sk sk2"
  by (fastforce simp: adds_def)

lemma adds_mono: "adds a sk sk' \<Longrightarrow> a \<subseteq> b \<Longrightarrow> adds b sk sk'"
  using sessionMessage_mono by (fastforce simp: adds_def list_all_iff)

lemma adds_answered: "answeredFrom i sk sk' \<Longrightarrow> i \<in> ids \<Longrightarrow> adds ids sk sk'"
  by (auto simp: answeredFrom_def adds_def sessionMessage_def list_all_iff)

lemma step_adds:
  "case sessionStep st P J W x tableName sk sv of
     Inl (r, sk1, sv1) \<Rightarrow> adds (vrpcIds (x ## rs)) sk sk1
   | Inr (tn, sk1, sv1) \<Rightarrow> adds (vrpcIds (x ## rs)) sk sk1"
proof (cases "(st, P, J, W, x, tableName, sk, sv)" rule: sessionStep.cases)
  case (3 st' P' J' W' payload rq tn sk' sv')
  obtain e sk1 where s: "Send OpenSessionResponse sk = (e, sk1)" by fastforce
  then have "adds ids sk sk1" for ids using Send_sent [of OpenSessionResponse sk] by (auto simp: adds_def sessionMessage_def)
  with 3 s show ?thesis by (cases e) (simp_all add: Let_def)
next
  case (6 st' P' J' W' vrpc rq tn sk' sv')
  obtain r sk1 sv1 where D: "dispatchVRPC st P J W rq tableName vrpc sk sv = (r, sk1, sv1)" by (metis prod_cases3)
  have "vr_rpcId vrpc \<in> vrpcIds (x ## rs)" using 6 by (auto simp: vrpcIds_def)
  moreover have "answeredFrom (vr_rpcId vrpc) sk sk1"
    using dispatch_answers [of vrpc sk st P J W rq tableName sv] by (simp add: D)
  ultimately have "adds (vrpcIds (x ## rs)) sk sk1" "adds (vrpcIds (x ## rs)) sk (snd (Send (ErrorResponse (vr_rpcId vrpc)) sk1))"
    by (auto intro!: adds_answered [of "vr_rpcId vrpc"] answered_Send)
  then show ?thesis using 6 D by (cases r) auto
qed auto

theorem session_answers:
  assumes "handleSession st P J W rs tableName sk sv = Some y"
  shows "\<exists>ms. sk_sent (fst (snd y)) = sk_sent sk @ ms \<and> list_all (sessionMessage (vrpcIds rs)) ms"
proof -
  have "adds (vrpcIds rs) sk (fst (snd y))"
    using assms
  proof (induction rule: handleSession_induct)
    case (returns rs tableName sk sv y)
    then show ?case using step_adds [where x = "shd rs" and rs = "stl rs" and st = st and P = P and J = J and W = W and tableName = tableName and sk = sk and sv = sv]
      by (simp add: split_beta)
  next
    case (goes_on rs tableName sk sv tn1 sk1 sv1 y)
    then have "adds (vrpcIds rs) sk sk1"
      using step_adds [where x = "shd rs" and rs = "stl rs" and st = st and P = P and J = J and W = W and tableName = tableName and sk = sk and sv = sv] by simp
    then show ?case using goes_on.IH adds_mono [OF _ vrpcIds_stl] adds_trans by blast
  qed
  then show ?thesis by (simp add: adds_def)
qed

section \<open>When a session ends\<close>

text \<open>What ends a session whatever its state.\<close>

fun ends :: "received \<Rightarrow> bool" where
  "ends RecvEOF \<longleftrightarrow> True"
| "ends (RecvErr err) \<longleftrightarrow> True"
| "ends (Received req) \<longleftrightarrow> req = CloseSession"

lemma step_ends: "ends (fst x) \<Longrightarrow> \<exists>res. sessionStep st P J W x tableName sk sv = Inl res"
  by (cases x; cases "fst x") auto

lemma session_returns: "ends (fst (rs !! n)) \<Longrightarrow> \<exists>res. handleSession st P J W rs tableName sk sv = Some res"
proof (induction n arbitrary: rs tableName sk sv)
  case 0
  then obtain res where "sessionStep st P J W (shd rs) tableName sk sv = Inl res" using step_ends [of "shd rs"] by fastforce
  then show ?case by (subst handleSession.simps) (cases res, simp)
next
  case (Suc n)
  then show ?case
    by (subst handleSession.simps) (simp split: sum.split)
qed

text \<open>A stream without faults stays without faults, whatever the handlers send on it.\<close>

lemma Send_quiet: "sk_faults sk = [] \<Longrightarrow> Send r sk = (None, sk\<lparr>sk_sent := sk_sent sk @ [r]\<rparr>)"
  by (simp add: Send_def)

lemma scan_streams [simp]:
  "s_stream (fillValBuf grow v s) = s_stream s" "s_stream (commitLastChunk s) = s_stream s"
  "s_stream (snd (rowBoundary rowsLimit rk lastRowKey rowStarted s)) = s_stream s" "s_stream (snd (filterCell cell s)) = s_stream s"
  by (simp_all add: fillValBuf_def commitLastChunk_def rowBoundary_def filterCell_def Let_def split: option.split prod.split)

lemma flush_quiet: "sk_faults (s_stream s) = [] \<Longrightarrow> sk_faults (s_stream (snd (flush s))) = []"
  by (simp add: flush_def Let_def Send_quiet)

lemma cellLoop_quiet:
  "sk_faults (s_stream s) = [] \<Longrightarrow> sk_faults (s_stream (snd (snd (snd (cellLoop grow rowsLimit kvs lastRowKey rowStarted s))))) = []"
proof (induction kvs arbitrary: lastRowKey rowStarted s)
  case (Cons kv kvs)
  obtain k v where kv: "kv = (k, v)" by (cases kv)
  obtain d dec1 where d: "Decode (s_dec s) k = (d, dec1)" by fastforce
  obtain b s1 where b: "rowBoundary rowsLimit (d_rowKey d) lastRowKey rowStarted (s\<lparr>s_dec := dec1\<rparr>) = (b, s1)" by fastforce
  define s2 where "s2 = (if length v > 0 then fillValBuf grow v s1 else s1)"
  obtain x s3 where x: "filterCell (cell_of d v) s2 = (x, s3)" by fastforce
  have q1: "sk_faults (s_stream s1) = []"
    using scan_streams(3) [of rowsLimit "d_rowKey d" lastRowKey rowStarted "s\<lparr>s_dec := dec1\<rparr>"] b Cons.prems by simp
  then have "sk_faults (s_stream s2) = []" by (simp add: s2_def)
  then have q3: "sk_faults (s_stream s3) = []" using scan_streams(4) [of "cell_of d v" s2] x by simp
  have fl: "sk_faults (s_stream s5) = []" if "flush (s3\<lparr>s_chunkBuf := c\<rparr>) = (e, s5)" for c e s5
    using flush_quiet [of "s3\<lparr>s_chunkBuf := c\<rparr>"] q3 that by simp
  have step: "cellLoop grow rowsLimit ((k, v) # kvs) lastRowKey rowStarted s =
    (let s0 = s\<lparr>s_dec := dec1\<rparr>; started = rowStarted \<or> d_rowKey d \<noteq> lastRowKey in
     if \<not> d_ok d then cellLoop grow rowsLimit kvs lastRowKey rowStarted s0
     else if \<not> b then (None, lastRowKey, rowStarted, s1)
     else case x of None \<Rightarrow> cellLoop grow rowsLimit kvs (d_rowKey d) started s3
       | Some val \<Rightarrow>
          (let s4 = s3\<lparr>s_chunkBuf := appendCellChunks (s_chunkBuf s3) (d_rowKey d) (d_family d) (d_qualifier d)
                       (d_ts d) (s_valBuf s3) val\<rparr>
           in if length (s_chunkBuf s4) \<ge> cellChunkBufferSize then
                (case flush s4 of
                   (Some err, s5) \<Rightarrow> (Some err, d_rowKey d, started, s5)
                 | (None, s5) \<Rightarrow> cellLoop grow rowsLimit kvs (d_rowKey d) started s5)
              else cellLoop grow rowsLimit kvs (d_rowKey d) started s4))"
    unfolding cellLoop.simps(2) d prod.case Let_def b s2_def [symmetric] x by (cases b) simp_all
  show ?case
  proof (cases x)
    case None
    then show ?thesis unfolding kv step using Cons q1 q3 by (simp add: Let_def)
  next
    case (Some val)
    obtain e s5 where f: "flush (s3\<lparr>s_chunkBuf := appendCellChunks (s_chunkBuf s3) (d_rowKey d) (d_family d) (d_qualifier d)
                       (d_ts d) (s_valBuf s3) val\<rparr>) = (e, s5)" by fastforce
    have "sk_faults (s_stream s5) = []" using fl [OF f] .
    then show ?thesis unfolding kv step using Cons q1 q3 by (cases e) (simp_all add: Let_def Some f)
  qed
qed simp

lemma rangeLoop_quiet:
  "sk_faults (s_stream s) = [] \<Longrightarrow> sk_faults (s_stream (snd (rangeLoop P grow db reversed rowsLimit krs s))) = []"
proof (induction krs arbitrary: s)
  case (Cons kr krs)
  obtain lo hi where kr: "kr = (lo, hi)" by (cases kr)
  show ?case
  proof (cases "pNewIter P lo hi db")
    case (Inr kvs)
    obtain e rk st1 s1 where c: "cellLoop grow rowsLimit (if reversed then rev kvs else kvs) [] False s = (e, rk, st1, s1)"
      by (metis prod_cases4)
    have "sk_faults (s_stream s1) = []"
      using cellLoop_quiet [OF Cons.prems, of grow rowsLimit "if reversed then rev kvs else kvs" "[]" False] by (simp only: c snd_conv)
    then show ?thesis using Cons.IH unfolding kr by (cases e) (auto simp: Inr c Let_def)
  qed (use Cons in \<open>simp add: kr\<close>)
qed simp

lemma ReadRows_quiet: "sk_faults sk = [] \<Longrightarrow> ReadRows st P J rq req sk sv = (r, w, sv') \<Longrightarrow> sk_faults w = []"
proof -
  assume q: "sk_faults sk = []" and R: "ReadRows st P J rq req sk sv = (r, w, sv')"
  let ?l = "\<lambda>eng fe. rangeLoop P (rq_grow rq) (the (e_db eng)) (rd_reversed req) (rd_rowsLimit req) (scanRanges (rd_rows req)) (scanStart fe (rq_rng rq) sk)"
  have l: "sk_faults (s_stream (snd (?l eng fe))) = []" for eng fe by (rule rangeLoop_quiet) (simp add: scanStart_def q)
  have f: "sk_faults (s_stream (snd (flush (snd (?l eng fe))))) = []" for eng fe by (rule flush_quiet) (rule l)
  show ?thesis
    using R q l f unfolding ReadRows_def
    by (cases "getEngine st P J (rd_tableName req) sv"; cases "fst (getEngine st P J (rd_tableName req) sv)")
      (auto simp: split_beta split: option.splits sum.splits)
qed

lemma MutateRows_quiet: "sk_faults sk = [] \<Longrightarrow> MutateRows st P J rq req sk sv = (r, w, sv') \<Longrightarrow> sk_faults w = []"
  by (auto simp: MutateRows_def Let_def Send_quiet split: prod.splits sum.splits option.splits if_splits)

lemma sampleLoop_quiet: "sk_faults sk = [] \<Longrightarrow> sk_faults (snd (snd (snd (sampleLoop ssts offsetBytes dec sk)))) = []"
  by (induction ssts offsetBytes dec sk rule: sampleLoop.induct) (auto simp: Let_def Send_quiet split: prod.split)

lemma levelLoop_quiet: "sk_faults sk = [] \<Longrightarrow> sk_faults (snd (levelLoop levels offsetBytes dec sk)) = []"
proof (induction levels offsetBytes dec sk rule: levelLoop.induct)
  case (2 level levels offsetBytes dec sk)
  obtain e off dec1 sk1 where l: "sampleLoop level offsetBytes dec sk = (e, off, dec1, sk1)" by (metis prod_cases4)
  then have "sk_faults sk1 = []" using sampleLoop_quiet [OF "2.prems", of level offsetBytes dec] by simp
  then show ?case using "2.IH" l by (cases e) auto
qed simp

lemma SampleRowKeys_quiet: "sk_faults sk = [] \<Longrightarrow> SampleRowKeys st P J tableName sk sv = (r, w, sv') \<Longrightarrow> sk_faults w = []"
  using levelLoop_quiet [of sk] by (auto simp: SampleRowKeys_def split_beta split: sum.splits)

lemma unary_quiet: "sk_faults sk = [] \<Longrightarrow> sk_faults (fst (snd (unaryReply marshal i sk y))) = []"
  by (simp add: unaryReply_def Send_quiet split: prod.split sum.split)

text \<open>Each attempt of the dispatch in turn.\<close>

lemma session_streams: "sk_faults sk = [] \<Longrightarrow> sk_faults (newSessionStream sk) = []" "sk_faults (endSessionStream marshal i sk u) = sk_faults u"
  by (simp_all add: newSessionStream_def endSessionStream_def)

lemma ping_quiet: "sk_faults sk = [] \<Longrightarrow> sk_faults (fst (snd (tryPingAndWarm st P J W vrpc sk sv))) = []"
  by (simp add: tryPingAndWarm_def unary_quiet split: sum.split)

lemma sample_quiet: "sk_faults sk = [] \<Longrightarrow> sk_faults (fst (snd (trySampleRowKeys st P J W vrpc sk sv))) = []"
  using SampleRowKeys_quiet [OF session_streams(1)]
  by (simp add: trySampleRowKeys_def ping_quiet session_streams(2) split: sum.split prod.split) blast

lemma mutateRows_quiet: "sk_faults sk = [] \<Longrightarrow> sk_faults (fst (snd (tryMutateRows st P J W rq vrpc sk sv))) = []"
  using MutateRows_quiet [OF session_streams(1)]
  by (simp add: tryMutateRows_def sample_quiet session_streams(2) split: sum.split prod.split) blast

lemma mutateRow_quiet: "sk_faults sk = [] \<Longrightarrow> sk_faults (fst (snd (tryMutateRow st P J W rq vrpc sk sv))) = []"
  by (simp add: tryMutateRow_def mutateRows_quiet unary_quiet split: sum.split)

lemma check_quiet: "sk_faults sk = [] \<Longrightarrow> sk_faults (fst (snd (tryCheckAndMutateRow st P J W rq vrpc sk sv))) = []"
  by (simp add: tryCheckAndMutateRow_def mutateRow_quiet unary_quiet split: sum.split)

lemma dispatch_quiet: "sk_faults sk = [] \<Longrightarrow> sk_faults (fst (snd (dispatchVRPC st P J W rq tableName vrpc sk sv))) = []"
  using ReadRows_quiet [OF session_streams(1)]
  by (simp add: dispatchVRPC_def check_quiet session_streams(2) split: sum.split prod.split) blast

lemma step_quiet:
  assumes "sk_faults sk = []" "\<not> ends (fst x)"
  shows "\<exists>tn sk1 sv1. sessionStep st P J W x tableName sk sv = Inr (tn, sk1, sv1) \<and> sk_faults sk1 = []"
  using assms
proof (cases "(st, P, J, W, x, tableName, sk, sv)" rule: sessionStep.cases)
  case (6 st' P' J' W' vrpc rq tn sk' sv')
  obtain r sk1 sv1 where D: "dispatchVRPC st P J W rq tableName vrpc sk sv = (r, sk1, sv1)" by (metis prod_cases3)
  then have "sk_faults sk1 = []" using dispatch_quiet [OF assms(1), of st P J W rq tableName vrpc sv] by simp
  then show ?thesis using 6 D by (cases r) (auto simp: Send_quiet)
qed (auto simp: Send_quiet)

text \<open>A session that returns over a stream without faults was ended by the client.\<close>

lemma session_ended:
  assumes "handleSession st P J W rs tableName sk sv = Some res" "sk_faults sk = []"
  shows "\<exists>n. ends (fst (rs !! n))"
  using assms
proof (induction rule: handleSession_induct)
  case (returns rs tableName sk sv y)
  then have "ends (fst (rs !! 0))" using step_quiet [of sk "shd rs" st P J W tableName sv] by auto
  then show ?case ..
next
  case (goes_on rs tableName sk sv tn1 sk1 sv1 y)
  show ?case
  proof (cases "ends (fst (shd rs))")
    case False
    then have "sk_faults sk1 = []" using step_quiet [OF goes_on.prems False, of st P J W tableName sv] goes_on.hyps by auto
    then obtain n where "ends (fst (rs !! Suc n))" using goes_on.IH by auto
    then show ?thesis ..
  qed (metis snth.simps(1))
qed

text \<open>Reading a table with nothing in it answers a session request with no message at all.\<close>

theorem empty_read_silent:
  assumes "uReadRows W (vr_payload vrpc) = Inr req" "rd_tableName req \<noteq> []" "vr_payload vrpc \<noteq> []" "tableName \<noteq> []"
    "rd_rows req = None" "rd_filter req = None"
    "getEngine st P J tableName sv = (Inr eng, sv1)" "pNewIter P None None (the (e_db eng)) = Inr []"
  shows "dispatchVRPC st P J W rq tableName vrpc sk sv = (None, sk, sv1)"
  using assms
  by (simp add: dispatchVRPC_def Let_def ReadRows_def scanRanges_def flush_def scanStart_def newSessionStream_def endSessionStream_def)

end
