(* ===== verification/BigtableProperties.thy ===== *)
theory BigtableProperties
  imports EngineProperties Session
begin

text \<open>
  The properties of the Bigtable server, composed with those of the engine: what an
  acknowledged mutation does to the table and to object storage, what a read streams, and
  where the handlers fall short. They hold for every object store, database and codec that
  keep their contracts; the examples use a server on the deployment of \<open>EngineProperties\<close>.
\<close>

section \<open>Engines in the table map\<close>

lemma getEngine_saved [simp]: "getEngine st P J n (saveEngine n e sv) = (Inr e, saveEngine n e sv)"
  by (cases e) (simp add: getEngine_def saveEngine_tables loadEngine_def split: option.splits)

lemma getEngine_table: "getEngine st P J n sv = (Inr e, sv1) \<Longrightarrow> map_of (sv_tables sv1) n \<noteq> None"
  by (auto simp: getEngine_def saveEngine_tables split: option.splits prod.splits sum.splits)

lemma getEngine_locked:
  assumes "getEngine st P J n sv = (Inr e, sv1)"
  shows "getEngine st P J n (lockRow n r sv1) = (Inr e, lockRow n r sv1)"
proof -
  obtain ts where t: "map_of (sv_tables sv1) n = Some ts" using getEngine_table [OF assms] by auto
  have "loadEngine sv1 (ts_engine ts) = e"
    using getEngine_again [OF assms] t assms
    by (cases e) (auto simp: getEngine_def loadEngine_def saveEngine_tables split: option.splits prod.splits sum.splits)
  then show ?thesis
    by (simp add: getEngine_def lockRow_def t update_conv' loadEngine_def)
qed

text \<open>What a table looks like after an acknowledged batch.\<close>

lemma applied:
  assumes "cloud_engine st contents ok P view flushed J" "engineInv P view J contents ok eng" "m_nextSeq (e_wal eng) \<noteq> - 1"
    "engine_Apply st P env b eng = (None, eng')"
  shows "engineInv P view J contents ok eng'" "view (the (e_db eng')) = applyOps b (view (the (e_db eng)))"
    "durable P view J (contents (e_store eng')) (e_ns eng) = Some (view (the (e_db eng')))" "e_ns eng' = e_ns eng"
proof -
  obtain seq where w: "writeWALAndApply st P env b eng = (Inr seq, eng')" using write_ops(1) [OF assms(4)] by blast
  note k = cloud_engine.write_keeps [OF assms(1-3) w]
  show "engineInv P view J contents ok eng'" "view (the (e_db eng')) = applyOps b (view (the (e_db eng)))"
    "durable P view J (contents (e_store eng')) (e_ns eng) = Some (view (the (e_db eng')))" "e_ns eng' = e_ns eng"
    using k(1,2,5) engineInvD(8) [OF k(1)] by simp_all
qed

lemma mutations_applied:
  assumes "cloud_engine st contents ok P view flushed J" "engineInv P view J contents ok eng" "m_nextSeq (e_wal eng) \<noteq> - 1"
    "list_all wfMutation muts" "goodClock clk" "applyMutationsToBatch r muts ([], clk) = (None, b, clk')"
    "engine_Apply st P env b eng = (None, eng')"
  shows "engineInv P view J contents ok eng'"
    "cellsOf (view (the (e_db eng'))) = fst (fold (specMutation r) muts (cellsOf (view (the (e_db eng))), clk))"
    "durable P view J (contents (e_store eng')) (e_ns eng) = Some (view (the (e_db eng')))" "e_ns eng' = e_ns eng"
    "tableWf (view (the (e_db eng))) \<Longrightarrow> tableWf (view (the (e_db eng')))"
proof -
  note a = applied [OF assms(1-3,7)]
  have "(cellsOf (applyOps b (view (the (e_db eng)))), clk') = fold (specMutation r) muts (cellsOf (view (the (e_db eng))), clk)"
    using applyMutations_refines [OF assms(4,5), of r "[]" "view (the (e_db eng))"] assms(6) by simp
  then show "cellsOf (view (the (e_db eng'))) = fst (fold (specMutation r) muts (cellsOf (view (the (e_db eng))), clk))"
    using a(2) by (metis fst_conv)
  show "tableWf (view (the (e_db eng))) \<Longrightarrow> tableWf (view (the (e_db eng')))"
    using tableWf_mutations [of "[]" "view (the (e_db eng))" r muts clk None b clk'] assms(6) a(2) by simp
qed (use applied [OF assms(1-3,7)] in simp_all)

section \<open>An example server\<close>

definition exServer :: "((string \<times> bytes) list, refDB) server" where
  "exServer = (NewServer ''/srv'' [] exFs1)\<lparr>sv_tables := [(''t'', \<lparr>ts_engine = exEngine, ts_rowLocks = []\<rparr>)]\<rparr>"

definition exRequest :: request where
  "exRequest = \<lparr>rq_env = exEnv, rq_clock = (\<lambda>_. 1000), rq_rng = (\<lambda>_. NaN), rq_compile = (\<lambda>_. Inl []), rq_grow = (\<lambda>_ n. n)\<rparr>"

definition exSink :: "'m sink" where
  "exSink = \<lparr>sk_sent = [], sk_faults = []\<rparr>"

lemma ex_getEngine: "getEngine exStore refPebble refCodec ''t'' exServer = (Inr exEngine, exServer)"
  by (simp add: getEngine_def exServer_def loadEngine_def NewServer_def exEngine_def exEng_def)

lemma ex_clock [simp]: "goodClock (rq_clock exRequest)" "rq_clock exRequest n = 1000" "rq_env exRequest = exEnv"
  by (simp_all add: goodClock_def exRequest_def)

lemma ex_apply: "\<exists>e'. engine_Apply exStore refPebble exEnv b exEngine = (None, e')"
  using mem_apply [of exEngine b] engineInvD(4,5) [OF inv_e0] by (auto simp: exEngine_def exEng_def exMgr_def)

lemma ex_view [simp]: "exView (the (e_db exEngine)) = Map.empty"
  by (simp add: e0_fields)

definition exSet :: mutation where
  "exSet = SetCell \<lparr>sc_family = [102], sc_qualifier = [113], sc_ts = - 1, sc_value = [7]\<rparr>"

section \<open>Properties\<close>

text \<open>C4: when \<open>MutateRow\<close> answers without error, the cells of the table are those that the
  mutations, in order, make of the cells before (for cells of ordinary size and a clock after
  1970), and this is also the state that a recovery from object storage gives.\<close>

theorem mutate_row_durable:
  assumes "cloud_engine st contents ok P view flushed J" "getEngine st P J (mr_tableName req) sv = (Inr eng, sv1)"
    "engineInv P view J contents ok eng" "m_nextSeq (e_wal eng) \<noteq> - 1" "list_all wfMutation (mr_mutations req)"
    "goodClock (rq_clock rq)" "MutateRow st P J rq req sv = (Inr (), sv')"
  shows "\<exists>eng'. getEngine st P J (mr_tableName req) sv' = (Inr eng', sv') \<and> engineInv P view J contents ok eng' \<and>
    cellsOf (view (the (e_db eng'))) =
      fst (fold (specMutation (mr_rowKey req)) (mr_mutations req) (cellsOf (view (the (e_db eng))), rq_clock rq)) \<and>
    durable P view J (contents (e_store eng')) (e_ns eng) = Some (view (the (e_db eng')))"
proof -
  obtain b clk eng' where b: "applyMutationsToBatch (mr_rowKey req) (mr_mutations req) ([], rq_clock rq) = (None, b, clk)"
    "engine_Apply st P (rq_env rq) b eng = (None, eng')" "sv' = saveEngine (mr_tableName req) eng' sv1"
    using assms(2,7) by (auto simp: MutateRow_def split: if_splits prod.splits option.splits)
  show ?thesis using mutations_applied [OF assms(1,3-6) b(1,2)] b(3) by auto
qed

theorem mutate_row_durable_witness:
  "\<exists>sv' eng'. MutateRow exStore refPebble refCodec exRequest \<lparr>mr_tableName = ''t'', mr_rowKey = [97], mr_mutations = [exSet]\<rparr> exServer = (Inr (), sv') \<and>
    getEngine exStore refPebble refCodec ''t'' sv' = (Inr eng', sv') \<and>
    cellsOf (exView (the (e_db eng'))) ([97], [102], [113], 1000) = Some [7]"
proof -
  let ?req = "\<lparr>mr_tableName = ''t'', mr_rowKey = [97], mr_mutations = [exSet]\<rparr>"
  have w: "list_all wfMutation (mr_mutations ?req)" "getEngine exStore refPebble refCodec (mr_tableName ?req) exServer = (Inr exEngine, exServer)"
    by (simp_all add: exSet_def ex_getEngine)
  obtain b clk where b: "applyMutationsToBatch [97] [exSet] ([], rq_clock exRequest) = (None, b, clk)"
    using applyMutations_refines [of "[exSet]" "rq_clock exRequest" "[97]" "[]" Map.empty] w(1) by auto
  obtain e' where "engine_Apply exStore refPebble exEnv b exEngine = (None, e')" using ex_apply by blast
  then have m: "MutateRow exStore refPebble refCodec exRequest ?req exServer = (Inr (), saveEngine ''t'' e' exServer)"
    using b by (simp add: MutateRow_def ex_getEngine)
  show ?thesis
    using mutate_row_durable [OF ex.cloud_engine_axioms w(2) inv_e0 e0_fields(1) w(1) ex_clock(1) m] m
    by (auto simp: exSet_def simp del: cellsOf.simps)
qed

text \<open>C36: \<open>MutateRows\<close> with one rejected entry applies none of its entries (the server is what
  opening the table left), and yet the single response reports the status OK for every entry
  whose own mutations are acceptable.\<close>

theorem mutate_rows_false_ok:
  assumes "getEngine st P J (ms_tableName req) sv = (Inr eng, sv1)" "sk_faults sk = []"
    "j < length (ms_entries req)" "firstError (en_mutations (ms_entries req ! j)) \<noteq> None"
    "i < length (ms_entries req)" "firstError (en_mutations (ms_entries req ! i)) = None"
  shows "\<exists>resp. MutateRows st P J rq req sk sv = (None, sk\<lparr>sk_sent := sk_sent sk @ [resp]\<rparr>, sv1) \<and>
    \<lparr>re_index = int i, re_status = okStatus\<rparr> \<in> set (mp_entries resp)"
proof -
  obtain batch clk where L: "entryLoop (ms_entries req) 0 ([], rq_clock rq) [] = (errorsFrom 0 (ms_entries req), batch, clk)"
    using entryLoop_errors [of "ms_entries req" 0 "([], rq_clock rq)" "[]"] by (metis append_Nil prod.collapse)
  have ne: "ms_entries req \<noteq> []" using assms(3) by auto
  have e: "errorsFrom 0 (ms_entries req) \<noteq> []"
    using assms(3,4) errorsFrom_iff [of "int j" _ 0 "ms_entries req"] by fastforce
  have i: "int i \<notin> fst ` set (errorsFrom 0 (ms_entries req))" "int i \<in> set (indices (ms_entries req))"
    using assms(5,6) errorsFrom_iff [of "int i" _ 0 "ms_entries req"] by (force, simp add: indices_def)
  show ?thesis
    using assms(1,2) ne e i
    by (simp add: MutateRows_def Let_def L Send_def mutateRowsReply_def) (rule exI, rule conjI, rule refl, auto)
qed

theorem mutate_rows_false_ok_witness:
  "\<exists>resp. MutateRows exStore refPebble refCodec exRequest
      \<lparr>ms_tableName = ''t'', ms_entries = [\<lparr>en_rowKey = [97], en_mutations = [exSet]\<rparr>, \<lparr>en_rowKey = [98], en_mutations = [AddToCell]\<rparr>]\<rparr>
      exSink exServer = (None, exSink\<lparr>sk_sent := [resp]\<rparr>, exServer) \<and> \<lparr>re_index = 0, re_status = okStatus\<rparr> \<in> set (mp_entries resp)"
  using mutate_rows_false_ok [of exStore refPebble refCodec
      "\<lparr>ms_tableName = ''t'', ms_entries = [\<lparr>en_rowKey = [97], en_mutations = [exSet]\<rparr>, \<lparr>en_rowKey = [98], en_mutations = [AddToCell]\<rparr>]\<rparr>"
      exServer exEngine exServer exSink 1 0 exRequest]
  by (simp add: ex_getEngine exSink_def exSet_def)

lemma check_applied:
  assumes "cloud_engine st contents ok P view flushed J" "getEngine st P J (cm_tableName req) sv = (Inr eng, sv1)"
    "engineInv P view J contents ok eng" "m_nextSeq (e_wal eng) \<noteq> - 1" "list_all wfMutation (cm_true req @ cm_false req)"
    "goodClock (rq_clock rq)" "tableWf (view (the (e_db eng)))" "cm_predicate req = None"
    "\<And>lo hi. \<exists>kvs. pNewIter P lo hi (the (e_db eng)) = Inr kvs" "CheckAndMutateRow st P J rq req sv = (Inr matched, sv')"
  shows "(matched \<longleftrightarrow> (\<exists>f q t. length f < 255 \<and> length q \<le> 65535 \<and> view (the (e_db eng)) (EncodeCellKey (cm_rowKey req) f q t) \<noteq> None)) \<and>
    (\<exists>eng'. getEngine st P J (cm_tableName req) sv' = (Inr eng', sv') \<and> engineInv P view J contents ok eng' \<and>
      cellsOf (view (the (e_db eng'))) =
        fst (fold (specMutation (cm_rowKey req)) (if matched then cm_true req else cm_false req) (cellsOf (view (the (e_db eng))), rq_clock rq)) \<and>
      durable P view J (contents (e_store eng')) (e_ns eng) = Some (view (the (e_db eng'))) \<and>
      e_ns eng' = e_ns eng \<and> tableWf (view (the (e_db eng'))))"
proof -
  let ?r = "cm_rowKey req" and ?n = "cm_tableName req" and ?m = "view (the (e_db eng))"
  let ?muts = "if matched then cm_true req else cm_false req"
  obtain kvs where k: "pNewIter P (Some (fst (rowKeyRangeBounds ?r))) (Some (snd (rowKeyRangeBounds ?r))) (the (e_db eng)) = Inr kvs"
    using assms(9) by blast
  have h: "rowHasCells P rq (the (e_db eng)) ?r None \<longleftrightarrow> kvs \<noteq> []"
    using k by (simp add: rowHasCells_def case_prod_unfold)
  have "iterates ?m (Some (fst (rowKeyRangeBounds ?r))) (Some (snd (rowKeyRangeBounds ?r))) kvs"
    using pebble_db.iter_view [OF cloud_engine.axioms(2) [OF assms(1)] k] .
  then have row: "kvs \<noteq> [] \<longleftrightarrow> (\<exists>f q t. length f < 255 \<and> length q \<le> 65535 \<and> ?m (EncodeCellKey ?r f q t) \<noteq> None)"
    by (intro tableWf_row [OF assms(7) _ refl]) (simp add: iterates_def)
  have t: "map_of (sv_tables sv1) ?n \<noteq> None" using getEngine_table [OF assms(2)] .
  have mt: "matched \<longleftrightarrow> kvs \<noteq> []"
    using assms(2,8,10) h t by (auto simp: CheckAndMutateRow_def Let_def split: if_splits prod.splits option.splits)
  have wf: "list_all wfMutation ?muts" using assms(5) by (simp split: if_splits)
  show ?thesis
  proof (cases "?muts = []")
    case True
    then have "sv' = lockRow ?n ?r sv1"
      using assms(2,8,10) h t mt by (auto simp: CheckAndMutateRow_def Let_def split: if_splits prod.splits option.splits)
    then show ?thesis
      using getEngine_locked [OF assms(2), of ?r] assms(3) engineInvD(8) [OF assms(3)] assms(7) mt row True by auto
  next
    case False
    obtain b clk eng' where b: "applyMutationsToBatch ?r ?muts ([], rq_clock rq) = (None, b, clk)"
      "engine_Apply st P (rq_env rq) b eng = (None, eng')" "sv' = saveEngine ?n eng' (lockRow ?n ?r sv1)"
      using assms(2,8,10) h t mt False by (auto simp: CheckAndMutateRow_def Let_def split: if_splits prod.splits option.splits)
    show ?thesis using mutations_applied [OF assms(1,3,4) wf assms(6) b(1,2)] b(3) assms(7) mt row by auto
  qed
qed

text \<open>C21: \<open>CheckAndMutateRow\<close> without a predicate filter reports whether the row has a cell,
  applies the mutations of the matching branch and only those, and the outcome is what a
  recovery gives.\<close>

theorem check_and_mutate:
  assumes "cloud_engine st contents ok P view flushed J" "getEngine st P J (cm_tableName req) sv = (Inr eng, sv1)"
    "engineInv P view J contents ok eng" "m_nextSeq (e_wal eng) \<noteq> - 1" "list_all wfMutation (cm_true req @ cm_false req)"
    "goodClock (rq_clock rq)" "tableWf (view (the (e_db eng)))" "cm_predicate req = None"
    "\<And>lo hi. \<exists>kvs. pNewIter P lo hi (the (e_db eng)) = Inr kvs" "CheckAndMutateRow st P J rq req sv = (Inr matched, sv')"
  shows "(matched \<longleftrightarrow> (\<exists>f q t. length f < 255 \<and> length q \<le> 65535 \<and> view (the (e_db eng)) (EncodeCellKey (cm_rowKey req) f q t) \<noteq> None)) \<and>
    (\<exists>eng'. getEngine st P J (cm_tableName req) sv' = (Inr eng', sv') \<and> engineInv P view J contents ok eng' \<and>
      cellsOf (view (the (e_db eng'))) =
        fst (fold (specMutation (cm_rowKey req)) (if matched then cm_true req else cm_false req) (cellsOf (view (the (e_db eng))), rq_clock rq)) \<and>
      durable P view J (contents (e_store eng')) (e_ns eng) = Some (view (the (e_db eng'))))"
  using check_applied [OF assms] by blast

theorem check_and_mutate_witness:
  "\<exists>sv' eng'. CheckAndMutateRow exStore refPebble refCodec exRequest
      \<lparr>cm_tableName = ''t'', cm_rowKey = [97], cm_predicate = None, cm_true = [], cm_false = [exSet]\<rparr> exServer = (Inr False, sv') \<and>
    getEngine exStore refPebble refCodec ''t'' sv' = (Inr eng', sv') \<and>
    cellsOf (exView (the (e_db eng'))) ([97], [102], [113], 1000) = Some [7]"
proof -
  let ?req = "\<lparr>cm_tableName = ''t'', cm_rowKey = [97], cm_predicate = None, cm_true = [], cm_false = [exSet]\<rparr>"
  have w: "list_all wfMutation (cm_true ?req @ cm_false ?req)" "getEngine exStore refPebble refCodec (cm_tableName ?req) exServer = (Inr exEngine, exServer)"
    "tableWf (exView (the (e_db exEngine)))" "cm_predicate ?req = None"
    by (simp_all add: exSet_def ex_getEngine tableWf_def e0_fields)
  have it: "\<exists>kvs. pNewIter refPebble lo hi (the (e_db exEngine)) = Inr kvs" for lo hi by (simp add: refPebble_def)
  obtain b clk where b: "applyMutationsToBatch [97] [exSet] ([], rq_clock exRequest) = (None, b, clk)"
    using applyMutations_refines [of "[exSet]" "rq_clock exRequest" "[97]" "[]" Map.empty] w(1) by auto
  obtain e' where e': "engine_Apply exStore refPebble exEnv b exEngine = (None, e')" using ex_apply by blast
  have "rowHasCells refPebble exRequest (the (e_db exEngine)) [97] None = False"
    by (simp add: rowHasCells_def refPebble_def e0_fields boundKV_def case_prod_unfold)
  then have m: "CheckAndMutateRow exStore refPebble refCodec exRequest ?req exServer = (Inr False, saveEngine ''t'' e' (lockRow ''t'' [97] exServer))"
    using b e' by (simp add: CheckAndMutateRow_def ex_getEngine) (simp add: exServer_def)
  show ?thesis
    using check_and_mutate [OF ex.cloud_engine_axioms w(2) inv_e0 e0_fields(1) w(1) ex_clock(1) w(3,4) it m] m
    by (auto simp: exSet_def simp del: cellsOf.simps)
qed

lemma commit_values:
  "map (\<lambda>c. readSlice a (ck_value c)) (s_chunkBuf (commitLastChunk s)) = map (\<lambda>c. readSlice a (ck_value c)) (s_chunkBuf s)"
  "s_arrays (commitLastChunk s) = s_arrays s" "length (s_chunkBuf (commitLastChunk s)) = length (s_chunkBuf s)"
  "s_stream (commitLastChunk s) = s_stream s"
  by (cases "s_chunkBuf s" rule: rev_cases; simp add: commitLastChunk_def)+

text \<open>A server whose table holds the given pairs.\<close>

definition exTable :: "kv list \<Rightarrow> ((string \<times> bytes) list, refDB) engine" where
  "exTable kvs = exEngine\<lparr>e_db := Some \<lparr>r_view = kvs, r_flushed = []\<rparr>\<rparr>"

definition exServerOf :: "kv list \<Rightarrow> ((string \<times> bytes) list, refDB) server" where
  "exServerOf kvs = exServer\<lparr>sv_tables := [(''t'', \<lparr>ts_engine = exTable kvs, ts_rowLocks = []\<rparr>)]\<rparr>"

definition exRead :: readRowsRequest where
  "exRead = \<lparr>rd_tableName = ''t'', rd_rowsLimit = 0, rd_filter = None, rd_rows = None, rd_reversed = False\<rparr>"

lemma ex_getTable: "getEngine exStore refPebble refCodec ''t'' (exServerOf kvs) = (Inr (exTable kvs), exServerOf kvs)"
  by (simp add: getEngine_def exServerOf_def exServer_def loadEngine_def NewServer_def exTable_def exEngine_def exEng_def)

lemma ex_decode: "DecodeCellKey (EncodeCellKey [97] [102] [113] t) = \<lparr>d_rowKey = [97], d_family = [102], d_qualifier = [113], d_ts = t, d_ok = True\<rparr>"
  by (rule DecodeCellKey_encoded) (simp add: valid_col_def)

text \<open>C37: the continuation chunk of a value between 64 and 128 KiB is a slice of the buffer
  that the next cell overwrites: of two such values of one row, of the same length, the
  client receives the tail of the second in place of the tail of the first.\<close>

theorem read_rows_overwrites:
  assumes "getEngine st P J (rd_tableName req) sv = (Inr eng, sv1)" "rd_filter req = None" "rd_rows req = None"
    "\<not> rd_reversed req" "rd_rowsLimit req = 0" "sk_faults sk = []" "pNewIter P None None (the (e_db eng)) = Inr [(k1, v1), (k2, v2)]"
    "d_ok (DecodeCellKey k1)" "d_ok (DecodeCellKey k2)" "d_rowKey (DecodeCellKey k1) = r" "d_rowKey (DecodeCellKey k2) = r" "r \<noteq> []"
    "65536 < length v1" "length v1 \<le> 131072" "length v2 = length v1"
  shows "\<exists>resp. ReadRows st P J rq req sk sv = (None, sk\<lparr>sk_sent := sk_sent sk @ [resp]\<rparr>, sv1) \<and>
    map ck_value (rp_chunks resp) = [take 65536 v1, drop 65536 v2, take 65536 v2, drop 65536 v2]"
proof -
  let ?s = "scanStart None (rq_rng rq) sk" and ?m = maxCellChunkValueSize
  have m: "?m = 65536" by (simp add: maxCellChunkValueSize_def)
  obtain s where s: "cellLoop (rq_grow rq) 0 [(k1, v1), (k2, v2)] [] False ?s = (None, r, True, s)" "s_stream s = sk" "length (s_chunkBuf s) = 4"
    "map (\<lambda>c. readSlice (s_arrays s) (ck_value c)) (s_chunkBuf s) = [take ?m v1, drop ?m v2, take ?m v2, drop ?m v2]"
    using overwritten [of k1 k2 r v1 v2 "rq_grow rq" "rq_rng rq" sk] assms(8-15) unfolding m by (auto simp del: cellLoop.simps)
  define s2 where "s2 = (commitLastChunk s)\<lparr>s_lastScanned := r\<rparr>"
  have s2: "s_stream s2 = sk" "length (s_chunkBuf s2) = 4"
    "map (\<lambda>c. readSlice (s_arrays s2) (ck_value c)) (s_chunkBuf s2) = [take ?m v1, drop ?m v2, take ?m v2, drop ?m v2]"
    using s(2-4) commit_values(1) [of "s_arrays s" s] commit_values(2-4) [of s] by (simp_all add: s2_def)
  have "rangeLoop P (rq_grow rq) (the (e_db eng)) False 0 [(None, None)] ?s = (None, s2)"
    using assms(7) s(1) by (simp add: s2_def del: cellLoop.simps)
  moreover obtain resp where "flush s2 = (None, s2\<lparr>s_chunkBuf := [], s_stream := sk\<lparr>sk_sent := sk_sent sk @ [resp]\<rparr>\<rparr>)"
    "rp_chunks resp = map (readChunk (s_arrays s2)) (s_chunkBuf s2)"
    using s2(1,2) assms(6) by (force simp: flush_def Send_def Let_def)
  ultimately show ?thesis
    using assms(1-5) s2(3) by (intro exI [of _ resp]) (simp add: ReadRows_def scanRanges_def m comp_def)
qed

definition exLong :: "kv list" where
  "exLong = [(EncodeCellKey [97] [102] [113] 5, replicate 65537 1), (EncodeCellKey [97] [102] [113] 4, replicate 65537 2)]"

lemma ex_long: "pNewIter refPebble None None (the (e_db (exTable exLong))) = Inr exLong"
proof -
  have o: "EncodeCellKey [97] [102] [113] 5 < EncodeCellKey [97] [102] [113] 4"
    using EncodeCellKey_order [of "[102]" "[113]" "[102]" "[113]" "[97]" 5 "[97]" 4] by (simp add: valid_col_def)
  then show ?thesis
    using less_imp_le [OF o] by (auto simp: refPebble_def exTable_def exLong_def boundKV_def inBounds_def)
qed

theorem read_rows_overwrites_witness:
  "\<exists>resp. ReadRows exStore refPebble refCodec exRequest exRead exSink (exServerOf exLong) =
      (None, exSink\<lparr>sk_sent := [resp]\<rparr>, exServerOf exLong) \<and>
    map ck_value (rp_chunks resp) = [replicate 65536 1, [2], replicate 65536 2, [2]]"
  using read_rows_overwrites [of exStore refPebble refCodec exRead "exServerOf exLong" "exTable exLong" "exServerOf exLong" exSink
      "EncodeCellKey [97] [102] [113] 5" "replicate 65537 1" "EncodeCellKey [97] [102] [113] 4" "replicate 65537 2" "[97]" exRequest] ex_long
  by (simp add: ex_getTable exRead_def exSink_def ex_decode exLong_def [symmetric])

lemma rmw_applied:
  assumes "cloud_engine st contents ok P view flushed J" "getEngine st P J (rm_tableName req) sv = (Inr eng, sv1)"
    "engineInv P view J contents ok eng" "m_nextSeq (e_wal eng) \<noteq> - 1" "list_all wfRule (rm_rules req)" "goodClock (rq_clock rq)"
    "tableWf (view (the (e_db eng)))" "\<And>b lo hi. \<exists>kvs. pBatchIter P b lo hi (the (e_db eng)) = Inr kvs"
    "ReadModifyWriteRow st P J rq req sv = (Inr resp, sv')"
  shows "\<exists>eng'. getEngine st P J (rm_tableName req) sv' = (Inr eng', sv') \<and> engineInv P view J contents ok eng' \<and>
    ruleSteps (rm_rowKey req) (rw_ts resp) (cellsOf (view (the (e_db eng)))) (rm_rules req) (cellsOf (view (the (e_db eng')))) \<and>
    rw_ts resp = rq_clock rq 0 \<and> durable P view J (contents (e_store eng')) (e_ns eng) = Some (view (the (e_db eng'))) \<and>
    e_ns eng' = e_ns eng \<and> tableWf (view (the (e_db eng')))"
proof -
  let ?r = "rm_rowKey req" and ?ts = "rq_clock rq 0"
  obtain b modified eng' where b: "rulesLoop P (the (e_db eng)) ?r ?ts (rm_rules req) [] Map.empty = Inr (b, modified)"
    "engine_Apply st P (rq_env rq) b eng = (None, eng')" "sv' = saveEngine (rm_tableName req) eng' sv1" "rw_ts resp = ?ts"
    using assms(2,9) by (auto simp: ReadModifyWriteRow_def tick_def Let_def split: if_splits prod.splits option.splits sum.splits)
  note a = applied [OF assms(1,3,4) b(2)]
  have "0 \<le> sint ?ts" using assms(6) by (simp add: goodClock_def)
  from pebble_db.rulesLoop_refines [OF cloud_engine.axioms(2) [OF assms(1)] b(1) assms(5) this _ assms(8)] assms(7)
  have "ruleSteps ?r ?ts (cellsOf (view (the (e_db eng)))) (rm_rules req) (cellsOf (applyOps b (view (the (e_db eng)))))"
    "tableWf (applyOps b (view (the (e_db eng))))" by simp_all
  then show ?thesis using a b(3,4) by auto
qed



text \<open>C19: a session on a stream that accepts what is sent returns exactly when the client at some
  point closes it, ends its stream or breaks it; until then the server goes on answering.\<close>

theorem session_terminates:
  assumes "sk_faults sk = []"
  shows "(\<exists>res. OpenTable st P J W rs sk sv = Some res) \<longleftrightarrow> (\<exists>n. ends (fst (rs !! n)))"
  unfolding OpenTable_def using session_returns session_ended [OF _ assms] by blast

theorem session_terminates_witness:
  "\<forall>W. (\<exists>res. OpenTable exStore refPebble refCodec W ((Received NoPayload, exRequest) ## sconst (RecvEOF, exRequest)) exSink exServer = Some res) \<and>
    OpenTable exStore refPebble refCodec W (sconst (Received NoPayload, exRequest)) exSink exServer = None"
proof
  fix W
  have q: "sk_faults exSink = []" by (simp add: exSink_def)
  let ?rs = "(Received NoPayload, exRequest) ## sconst (RecvEOF, exRequest)"
  have "ends (fst (?rs !! 1))" by simp
  then have "\<exists>res. OpenTable exStore refPebble refCodec W ?rs exSink exServer = Some res"
    using session_terminates [OF q] by blast
  moreover have "OpenTable exStore refPebble refCodec W (sconst (Received NoPayload, exRequest)) exSink exServer = None"
    using session_terminates [OF q, of exStore refPebble refCodec W "sconst (Received NoPayload, exRequest)" exServer]
    by (simp del: split_paired_Ex split_paired_All)
  ultimately show "(\<exists>res. OpenTable exStore refPebble refCodec W ?rs exSink exServer = Some res) \<and>
    OpenTable exStore refPebble refCodec W (sconst (Received NoPayload, exRequest)) exSink exServer = None" by blast
qed

end
