(* ===== verification/StoreContract.thy ===== *)
theory StoreContract
  imports ObjStore
begin

text \<open>
  The contract tests that every object store backend must pass,
  \<open>pkg/objstore/testutil/testutil.go\<close>. A test is a program over a store and its state; its value
  is the failure it reports with \<open>t.Fatal\<close>, if any.

  The locale \<open>available_store\<close> adds to \<open>object_store\<close> what a store does when nothing fails:
  operations on names that collide with no directory succeed, missing objects are reported as
  such, and attributes carry the size and the time of the write. Every such store passes all
  the tests. The local store is available on every root while the file system has no fault
  scheduled, the GCS store while the service answers.
\<close>

section \<open>Errors as text\<close>

text \<open>\<open>err.Error()\<close>. How the Google API client prints its own errors is an argument.\<close>

fun errorText :: "(nat \<Rightarrow> string) \<Rightarrow> goerror \<Rightarrow> string" where
  "errorText api ErrNotFound = ''object not found''"
| "errorText api (Err s) = s"
| "errorText api (ApiErr code) = api code"
| "errorText api (Wrap s e) = s @ '': '' @ errorText api e"

definition Contains :: "string \<Rightarrow> string \<Rightarrow> bool" where
  "Contains s sub = list_ex (\<lambda>k. HasPrefix (drop k s) sub) [0..<Suc (length s)]"

section \<open>The tests\<close>

text \<open>A failed call returns the zero value besides its error.\<close>

definition orZero :: "'a \<Rightarrow> goerror + 'a \<Rightarrow> 'a" where
  "orZero z r = (case r of Inl _ \<Rightarrow> z | Inr x \<Rightarrow> x)"

definition rawBytes :: "string \<Rightarrow> bytes" where
  "rawBytes s = map (\<lambda>c. of_nat (of_char c)) s"

type_synonym failure = "string option"

definition testPutGet :: "(nat \<Rightarrow> string) \<Rightarrow> 's store \<Rightarrow> 's \<Rightarrow> failure" where
  "testPutGet api st s =
     (case sPut st ''key'' (rawBytes ''value'') s of
        (Inl err, s1) \<Rightarrow> Some (''Put: '' @ errorText api err)
      | (Inr _, s1) \<Rightarrow>
          (case sGet st ''key'' s1 of
             (Inl err, s2) \<Rightarrow> Some (''Get: '' @ errorText api err)
           | (Inr got, s2) \<Rightarrow> if got \<noteq> rawBytes ''value'' then Some ''got, want value'' else None))"

definition testPutOverwrite :: "'s store \<Rightarrow> 's \<Rightarrow> failure" where
  "testPutOverwrite st s =
     (let (_, s1) = sPut st ''key'' (rawBytes ''first'') s;
          (_, s2) = sPut st ''key'' (rawBytes ''second'') s1;
          (got, s3) = sGet st ''key'' s2
      in if orZero [] got \<noteq> rawBytes ''second'' then Some ''got, want second'' else None)"

definition testGetNotFound :: "(nat \<Rightarrow> string) \<Rightarrow> 's store \<Rightarrow> 's \<Rightarrow> failure" where
  "testGetNotFound api st s =
     (case sGet st ''nonexistent'' s of
        (Inr _, s1) \<Rightarrow> Some ''expected error for nonexistent key''
      | (Inl err, s1) \<Rightarrow>
          if \<not> Contains (errorText api err) ''not found'' \<and> \<not> Contains (errorText api err) ''NotFound'' \<and>
             \<not> Contains (errorText api err) ''doesn't exist''
          then Some (''error should indicate not found, got: '' @ errorText api err)
          else None)"

definition testDelete :: "(nat \<Rightarrow> string) \<Rightarrow> 's store \<Rightarrow> 's \<Rightarrow> failure" where
  "testDelete api st s =
     (let (_, s1) = sPut st ''key'' (rawBytes ''value'') s;
          (_, s2) = sDelete st ''key'' s1
      in case sExists st ''key'' s2 of
           (Inl err, s3) \<Rightarrow> Some (errorText api err)
         | (Inr found, s3) \<Rightarrow> if found then Some ''key should not exist after delete'' else None)"

definition testDeleteNotFound :: "(nat \<Rightarrow> string) \<Rightarrow> 's store \<Rightarrow> 's \<Rightarrow> failure" where
  "testDeleteNotFound api st s =
     (case sDelete st ''nonexistent'' s of (Inl err, s1) \<Rightarrow> Some (errorText api err) | (Inr _, s1) \<Rightarrow> None)"

text \<open>The loop \<open>for _, f := range files\<close> that stores each name under itself.\<close>

fun putFiles :: "'s store \<Rightarrow> string list \<Rightarrow> 's \<Rightarrow> 's" where
  "putFiles st [] s = s"
| "putFiles st (f # fls) s = putFiles st fls (snd (sPut st f (rawBytes f) s))"

definition testList :: "(nat \<Rightarrow> string) \<Rightarrow> 's store \<Rightarrow> 's \<Rightarrow> failure" where
  "testList api st s =
     (case sList st ''dir/'' (putFiles st [''dir/a'', ''dir/b'', ''dir/c'', ''other''] s) of
        (Inl err, s1) \<Rightarrow> Some (errorText api err)
      | (Inr got, s1) \<Rightarrow>
          if length got \<noteq> 3 \<or> got ! 0 \<noteq> ''dir/a'' \<or> got ! 1 \<noteq> ''dir/b'' \<or> got ! 2 \<noteq> ''dir/c''
          then Some ''got'' else None)"

definition testListEmptyPrefix :: "(nat \<Rightarrow> string) \<Rightarrow> 's store \<Rightarrow> 's \<Rightarrow> failure" where
  "testListEmptyPrefix api st s =
     (case sList st [] (putFiles st [''a'', ''b'', ''c''] s) of
        (Inl err, s1) \<Rightarrow> Some (errorText api err)
      | (Inr got, s1) \<Rightarrow> if length (sort got) \<noteq> 3 then Some ''got'' else None)"

definition testExists :: "'s store \<Rightarrow> 's \<Rightarrow> failure" where
  "testExists st s =
     (let (_, s1) = sPut st ''key'' (rawBytes ''value'') s;
          (ok1, s2) = sExists st ''key'' s1
      in if \<not> orZero False ok1 then Some ''key should exist''
         else let (ok2, s3) = sExists st ''nonexistent'' s2
              in if orZero False ok2 then Some ''key should not exist'' else None)"

text \<open>Times are nanoseconds since 1970; Go's zero time is the first of January of year 1. The
  time when \<open>time.Since\<close> is called is an argument.\<close>

definition zeroTime :: int where
  "zeroTime = - 62135596800 * 10 ^ 9"

definition testAttrs :: "(nat \<Rightarrow> string) \<Rightarrow> int \<Rightarrow> 's store \<Rightarrow> 's \<Rightarrow> failure" where
  "testAttrs api now st s =
     (let (_, s1) = sPut st ''key'' (rawBytes ''hello'') s
      in case sAttrs st ''key'' s1 of
           (Inl err, s2) \<Rightarrow> Some (errorText api err)
         | (Inr info, s2) \<Rightarrow>
             if oi_size info \<noteq> 5 then Some ''size, want 5''
             else if oi_createdAt info = zeroTime then Some ''creation time is zero''
             else if now - oi_createdAt info > 60 * 10 ^ 9 then Some ''creation time too old''
             else None)"

definition testAttrsNotFound :: "'s store \<Rightarrow> 's \<Rightarrow> failure" where
  "testAttrsNotFound st s =
     (case sAttrs st ''nonexistent'' s of (Inl err, s1) \<Rightarrow> None | (Inr _, s1) \<Rightarrow> Some ''expected error'')"

definition testEmptyPayload :: "'s store \<Rightarrow> 's \<Rightarrow> failure" where
  "testEmptyPayload st s =
     (let (_, s1) = sPut st ''empty'' [] s; (got, s2) = sGet st ''empty'' s1
      in if length (orZero [] got) \<noteq> 0 then Some ''expected empty'' else None)"

definition largePayload :: bytes where
  "largePayload = map (\<lambda>i. of_nat (i mod 256)) [0..<2 ^ 20]"

definition testLargePayload :: "'s store \<Rightarrow> 's \<Rightarrow> failure" where
  "testLargePayload st s =
     (let (_, s1) = sPut st ''large'' largePayload s; (got, s2) = sGet st ''large'' s1
      in if largePayload \<noteq> orZero [] got then Some ''large payload mismatch'' else None)"

text \<open>\<open>newStore\<close> makes the store of each test in turn; \<open>now\<close> is the time of the \<open>Attrs\<close> test.\<close>

definition RunContractTests :: "(nat \<Rightarrow> string) \<Rightarrow> int \<Rightarrow> (nat \<Rightarrow> 's store \<times> 's) \<Rightarrow> (string \<times> failure) list" where
  "RunContractTests api now newStore =
     [(''PutGet'', case_prod (testPutGet api) (newStore 0)),
      (''PutOverwrite'', case_prod testPutOverwrite (newStore 1)),
      (''GetNotFound'', case_prod (testGetNotFound api) (newStore 2)),
      (''Delete'', case_prod (testDelete api) (newStore 3)),
      (''DeleteNotFound'', case_prod (testDeleteNotFound api) (newStore 4)),
      (''List'', case_prod (testList api) (newStore 5)),
      (''ListEmptyPrefix'', case_prod (testListEmptyPrefix api) (newStore 6)),
      (''Exists'', case_prod testExists (newStore 7)),
      (''Attrs'', case_prod (testAttrs api now) (newStore 8)),
      (''AttrsNotFound'', case_prod testAttrsNotFound (newStore 9)),
      (''EmptyPayload'', case_prod testEmptyPayload (newStore 10)),
      (''LargePayload'', case_prod testLargePayload (newStore 11))]"

section \<open>Stores that answer\<close>

lemma Contains_iff: "Contains s sub \<longleftrightarrow> (\<exists>a b. s = a @ sub @ b)"
proof
  assume "Contains s sub"
  then obtain k b where "drop k s = sub @ b" by (auto simp: Contains_def list_ex_iff HasPrefix_iff)
  then show "\<exists>a b. s = a @ sub @ b" by (metis append_take_drop_id)
next
  assume "\<exists>a b. s = a @ sub @ b"
  then obtain a b where "s = a @ sub @ b" by blast
  then show "Contains s sub"
    by (auto simp: Contains_def list_ex_iff simp del: upt_Suc intro!: bexI [of _ "length a"])
qed

lemma Contains_append: "Contains s sub \<Longrightarrow> Contains (a @ s) sub"
  unfolding Contains_iff by (metis append.assoc)

lemma not_found_text: "errorsIs e ErrNotFound \<Longrightarrow> Contains (errorText api e) ''not found''"
proof (induction e)
  case (Wrap s e)
  then show ?case using Contains_append [of "errorText api e" "''not found''" "s @ '': ''"] by simp
qed (simp_all add: Contains_def upt_rec)

text \<open>A name that is no directory and lies below no object.\<close>

definition vacant :: "(string \<Rightarrow> bytes option) \<Rightarrow> (string \<Rightarrow> bool) \<Rightarrow> string \<Rightarrow> bool" where
  "vacant c isDir p \<longleftrightarrow> \<not> isDir p \<and> (\<forall>q. c q \<noteq> None \<longrightarrow> \<not> HasPrefix p (q @ [sep]))"

lemma plain_elems [simp]: "plainElem ''key''" "plainElem ''nonexistent''" "plainElem ''empty''" "plainElem ''large''"
    "plainElem ''other''" "plainElem ''dir''" "plainElem ''a''" "plainElem ''b''" "plainElem ''c''"
  by (simp_all add: plainElem_def sep_def)

lemmas plain_names = plain_elems [THEN plainPath_elem]

text \<open>Names neither of which is a directory above the other.\<close>

definition apart :: "string \<Rightarrow> string \<Rightarrow> bool" where
  "apart p q \<longleftrightarrow> \<not> HasPrefix p (q @ [sep]) \<and> \<not> HasPrefix q (p @ [sep])"

lemma elem_below: "plainElem p \<Longrightarrow> \<not> HasPrefix p (q @ [sep])"
  by (auto simp: plainElem_def HasPrefix_iff)

lemma apart_elems [simp]: "plainElem p \<Longrightarrow> plainElem q \<Longrightarrow> apart p q"
  by (simp add: apart_def elem_below)

lemma dir_plain: "plainPath ''dir/a''" "plainPath ''dir/b''" "plainPath ''dir/c''"
  by (simp_all add: plainPath_def plainElem_def sep_def)

lemma dir_apart: "f \<in> {''dir/a'', ''dir/b'', ''dir/c'', ''other''} \<Longrightarrow> g \<in> {''dir/a'', ''dir/b'', ''dir/c'', ''other''} \<Longrightarrow> apart f g"
  by (auto simp: apart_def sep_def)

lemma three_names: "distinct [''a'', ''b'', ''c'']" "length [''a'', ''b'', ''c''] = 3"
  by simp_all

locale available_store = object_store st contents inv
  for st :: "'s store" and contents :: "'s \<Rightarrow> string \<Rightarrow> bytes option" and inv :: "'s \<Rightarrow> bool" +
  fixes up :: "'s \<Rightarrow> bool" and isDir :: "'s \<Rightarrow> string \<Rightarrow> bool" and clock :: "'s \<Rightarrow> int"
  assumes up_inv: "up s \<Longrightarrow> inv s"
    and put_up: "up s \<Longrightarrow> plainPath p \<Longrightarrow> vacant (contents s) (isDir s) p \<Longrightarrow>
      \<exists>s'. sPut st p d s = (Inr (), s') \<and> up s' \<and> clock s' = clock s \<and> (\<forall>q. isDir s' q \<longrightarrow> isDir s q \<or> HasPrefix p (q @ [sep]))"
    and get_up: "up s \<Longrightarrow> plainPath p \<Longrightarrow> contents s p = Some d \<Longrightarrow>
      \<exists>s'. sGet st p s = (Inr d, s') \<and> up s' \<and> isDir s' = isDir s"
    and get_up_missing: "up s \<Longrightarrow> plainPath p \<Longrightarrow> contents s p = None \<Longrightarrow> vacant (contents s) (isDir s) p \<Longrightarrow>
      \<exists>e s'. sGet st p s = (Inl e, s') \<and> errorsIs e ErrNotFound \<and> up s' \<and> isDir s' = isDir s"
    and delete_up: "up s \<Longrightarrow> plainPath p \<Longrightarrow> vacant (contents s) (isDir s) p \<Longrightarrow>
      \<exists>s'. sDelete st p s = (Inr (), s') \<and> up s' \<and> isDir s' = isDir s"
    and list_up: "up s \<Longrightarrow> plainPath dir \<Longrightarrow> contents s dir = None \<Longrightarrow> \<forall>q. contents s q \<noteq> None \<longrightarrow> \<not> HasPrefix dir (q @ [sep]) \<Longrightarrow>
      \<exists>ps s'. sList st (dir @ [sep]) s = (Inr ps, s') \<and> up s' \<and> isDir s' = isDir s"
    and list_all_up: "up s \<Longrightarrow>
      \<exists>ps s'. sList st [] s = (Inr ps, s') \<and> distinct ps \<and> set ps = {q. contents s q \<noteq> None}"
    and exists_up: "up s \<Longrightarrow> plainPath p \<Longrightarrow> vacant (contents s) (isDir s) p \<Longrightarrow>
      \<exists>s'. sExists st p s = (Inr (contents s p \<noteq> None), s') \<and> up s' \<and> isDir s' = isDir s \<and> contents s' = contents s"
    and attrs_up: "up s \<Longrightarrow> plainPath p \<Longrightarrow> vacant (contents s) (isDir s) p \<Longrightarrow> sPut st p d s = (Inr (), s1) \<Longrightarrow>
      \<exists>info s2. sAttrs st p s1 = (Inr info, s2) \<and> oi_size info = length d \<and> oi_createdAt info = clock s"
    and attrs_up_missing: "up s \<Longrightarrow> plainPath p \<Longrightarrow> contents s p = None \<Longrightarrow> vacant (contents s) (isDir s) p \<Longrightarrow>
      \<exists>e s'. sAttrs st p s = (Inl e, s')"
begin

text \<open>A store that is up and has no object and no directory.\<close>

definition fresh :: "'s \<Rightarrow> bool" where
  "fresh s \<longleftrightarrow> up s \<and> contents s = Map.empty \<and> (\<forall>p. \<not> isDir s p)"

lemma fresh_vacant: "fresh s \<Longrightarrow> vacant (contents s) (isDir s) p"
  by (simp add: fresh_def vacant_def)

lemma put_step:
  assumes "up s" "plainPath p" "vacant (contents s) (isDir s) p"
  shows "\<exists>s'. sPut st p d s = (Inr (), s') \<and> up s' \<and> contents s' = (contents s)(p \<mapsto> d) \<and> clock s' = clock s \<and>
    (\<forall>q. vacant (contents s) (isDir s) q \<and> apart p q \<longrightarrow> vacant (contents s') (isDir s') q)"
proof -
  obtain s' where s': "sPut st p d s = (Inr (), s')" "up s'" "clock s' = clock s"
    "\<forall>q. isDir s' q \<longrightarrow> isDir s q \<or> HasPrefix p (q @ [sep])"
    using put_up [OF assms] by blast
  note c = put_contents [OF up_inv [OF assms(1)] assms(2) s'(1)]
  have "vacant (contents s') (isDir s') q" if "vacant (contents s) (isDir s) q" "apart p q" for q
    using that s'(4) unfolding c vacant_def apart_def by auto
  with s' c show ?thesis by blast
qed

lemma put_fresh:
  assumes "fresh s" "plainElem p"
  shows "\<exists>s1. sPut st p d s = (Inr (), s1) \<and> up s1 \<and> contents s1 = [p \<mapsto> d] \<and> clock s1 = clock s \<and>
    (\<forall>q. plainElem q \<longrightarrow> vacant (contents s1) (isDir s1) q)"
  using put_step [OF _ plainPath_elem [OF assms(2)] fresh_vacant [OF assms(1)], of d] apart_elems assms fresh_vacant
  unfolding fresh_def by metis

lemma putFiles_up:
  assumes "up s" "list_all plainPath fls" "\<forall>f \<in> set fls. vacant (contents s) (isDir s) f"
    "\<forall>f \<in> set fls. \<forall>g \<in> set fls. apart f g"
  shows "up (putFiles st fls s) \<and> contents (putFiles st fls s) = (\<lambda>q. if q \<in> set fls then Some (rawBytes q) else contents s q)"
  using assms
proof (induction fls arbitrary: s)
  case (Cons f fls)
  obtain s' where s': "sPut st f (rawBytes f) s = (Inr (), s')" "up s'" "contents s' = (contents s)(f \<mapsto> rawBytes f)"
    "\<forall>q. vacant (contents s) (isDir s) q \<and> apart f q \<longrightarrow> vacant (contents s') (isDir s') q"
    using put_step [of s f "rawBytes f"] Cons.prems by auto
  have "\<forall>g \<in> set fls. vacant (contents s') (isDir s') g" using s'(4) Cons.prems(3,4) by simp
  with Cons.IH [of s'] s'(2) Cons.prems
  have "up (putFiles st fls s') \<and> contents (putFiles st fls s') = (\<lambda>q. if q \<in> set fls then Some (rawBytes q) else contents s' q)"
    by simp
  then show ?case by (auto simp: s'(1,3) fun_eq_iff)
qed simp

lemma putGet_passes: "fresh s \<Longrightarrow> testPutGet api st s = None"
  using put_fresh [of s "''key''" "rawBytes ''value''"] get_up [OF _ plain_names(1), of _ "rawBytes ''value''"]
  by (fastforce simp: testPutGet_def)

lemma overwrite_passes: "fresh s \<Longrightarrow> testPutOverwrite st s = None"
proof -
  assume f: "fresh s"
  obtain s1 where s1: "sPut st ''key'' (rawBytes ''first'') s = (Inr (), s1)" "up s1" "vacant (contents s1) (isDir s1) ''key''"
    using put_fresh [OF f plain_elems(1)] plain_elems(1) by metis
  obtain s2 where s2: "sPut st ''key'' (rawBytes ''second'') s1 = (Inr (), s2)" "up s2" "contents s2 ''key'' = Some (rawBytes ''second'')"
    using put_step [OF s1(2) plain_names(1) s1(3), of "rawBytes ''second''"] by auto
  obtain s3 where "sGet st ''key'' s2 = (Inr (rawBytes ''second''), s3)" using get_up [OF s2(2) plain_names(1) s2(3)] by blast
  with s1 s2 show ?thesis by (simp add: testPutOverwrite_def orZero_def)
qed

lemma missing_passes:
  assumes "fresh s"
  shows "testGetNotFound api st s = None" "testDeleteNotFound api st s = None" "testAttrsNotFound st s = None"
proof -
  have u: "up s" "contents s ''nonexistent'' = None" using assms by (simp_all add: fresh_def)
  note v = fresh_vacant [OF assms, of "''nonexistent''"]
  show "testGetNotFound api st s = None"
    using get_up_missing [OF u(1) plain_names(2) u(2) v] not_found_text by (auto simp: testGetNotFound_def)
  show "testDeleteNotFound api st s = None"
    using delete_up [OF u(1) plain_names(2) v] by (auto simp: testDeleteNotFound_def)
  show "testAttrsNotFound st s = None"
    using attrs_up_missing [OF u(1) plain_names(2) u(2) v] by (auto simp: testAttrsNotFound_def)
qed

lemma delete_passes: "fresh s \<Longrightarrow> testDelete api st s = None"
proof -
  assume f: "fresh s"
  obtain s1 where s1: "sPut st ''key'' (rawBytes ''value'') s = (Inr (), s1)" "up s1" "vacant (contents s1) (isDir s1) ''key''"
    using put_fresh [OF f plain_elems(1)] plain_elems(1) by metis
  obtain s2 where s2: "sDelete st ''key'' s1 = (Inr (), s2)" "up s2" "isDir s2 = isDir s1"
    using delete_up [OF s1(2) plain_names(1) s1(3)] by blast
  note c = delete_contents [OF up_inv [OF s1(2)] plain_names(1) s2(1)]
  have "vacant (contents s2) (isDir s2) ''key''" using s1(3) s2(3) by (auto simp: c vacant_def)
  then obtain s3 where "sExists st ''key'' s2 = (Inr False, s3)"
    using exists_up [OF s2(2) plain_names(1)] by (auto simp: c)
  with s1 s2 show ?thesis by (simp add: testDelete_def)
qed

lemma exists_passes: "fresh s \<Longrightarrow> testExists st s = None"
proof -
  assume f: "fresh s"
  obtain s1 where s1: "sPut st ''key'' (rawBytes ''value'') s = (Inr (), s1)" "up s1" "contents s1 = [''key'' \<mapsto> rawBytes ''value'']"
    "vacant (contents s1) (isDir s1) ''key''" "vacant (contents s1) (isDir s1) ''nonexistent''"
    using put_fresh [OF f plain_elems(1)] plain_elems(1,2) by metis
  obtain s2 where s2: "sExists st ''key'' s1 = (Inr True, s2)" "up s2" "isDir s2 = isDir s1" "contents s2 = contents s1"
    using exists_up [OF s1(2) plain_names(1) s1(4)] by (auto simp: s1(3))
  have "vacant (contents s2) (isDir s2) ''nonexistent''" using s1(5) s2(3,4) by simp
  then obtain s3 where "sExists st ''nonexistent'' s2 = (Inr False, s3)"
    using exists_up [OF s2(2) plain_names(2)] by (auto simp: s1(3) s2(4))
  with s1(1) s2(1) show ?thesis by (simp add: testExists_def orZero_def)
qed

lemma attrs_passes: "fresh s \<Longrightarrow> clock s \<noteq> zeroTime \<Longrightarrow> now - clock s \<le> 60 * 10 ^ 9 \<Longrightarrow> testAttrs api now st s = None"
proof -
  assume f: "fresh s" and t: "clock s \<noteq> zeroTime" "now - clock s \<le> 60 * 10 ^ 9"
  obtain s1 where s1: "sPut st ''key'' (rawBytes ''hello'') s = (Inr (), s1)" "up s1"
    using put_fresh [OF f plain_elems(1)] by metis
  have "up s" using f by (simp add: fresh_def)
  from attrs_up [OF this plain_names(1) fresh_vacant [OF f] s1(1)] obtain info s2 where
    "sAttrs st ''key'' s1 = (Inr info, s2)" "oi_size info = 5" "oi_createdAt info = clock s"
    by (auto simp: rawBytes_def)
  with s1 t show ?thesis by (simp add: testAttrs_def)
qed

lemma payload_passes:
  assumes "fresh s"
  shows "testEmptyPayload st s = None" "testLargePayload st s = None"
proof -
  have get: "\<exists>s1 s2. sPut st p d s = (Inr (), s1) \<and> sGet st p s1 = (Inr d, s2)" if "plainElem p" for p d
    using put_fresh [OF assms that, of d] get_up [OF _ plainPath_elem [OF that], of _ d] by (metis fun_upd_same)
  show "testEmptyPayload st s = None"
    using get [OF plain_elems(3), of "[]"] by (auto simp: testEmptyPayload_def orZero_def)
  show "testLargePayload st s = None"
    using get [OF plain_elems(4), of largePayload] by (auto simp: testLargePayload_def orZero_def)
qed

lemma list_passes: "fresh s \<Longrightarrow> testList api st s = None"
proof -
  assume f: "fresh s"
  define s1 where "s1 = putFiles st [''dir/a'', ''dir/b'', ''dir/c'', ''other''] s"
  have s1: "up s1" "contents s1 = (\<lambda>q. if q \<in> {''dir/a'', ''dir/b'', ''dir/c'', ''other''} then Some (rawBytes q) else None)"
    using putFiles_up [of s "[''dir/a'', ''dir/b'', ''dir/c'', ''other'']"] f fresh_vacant [OF f]
    by (simp_all add: s1_def fresh_def fun_eq_iff dir_plain plain_names dir_apart)
  have "contents s1 ''dir'' = None" by (simp add: s1(2))
  moreover have "\<not> HasPrefix ''dir'' (q @ [sep])" for q using plain_elems(6) apart_elems [of "''dir''"] elem_below by blast
  ultimately obtain ps s2 where ps: "sList st (''dir'' @ [sep]) s1 = (Inr ps, s2)"
    using list_up [OF s1(1) plain_names(6)] by blast
  then have "set ps = set [''dir/a'', ''dir/b'', ''dir/c''] \<and> sorted ps \<and> distinct ps"
    using list_ok [OF up_inv [OF s1(1)] plain_names(6) \<open>contents s1 ''dir'' = None\<close> ps] by (auto simp: s1(2) sep_def split: if_splits)
  then have "ps = [''dir/a'', ''dir/b'', ''dir/c'']"
    by (intro sorted_distinct_set_unique) (simp_all add: less_eq_char_def)
  then show ?thesis using ps unfolding testList_def s1_def [symmetric] by (simp add: sep_def)
qed

lemma listAll_passes: "fresh s \<Longrightarrow> testListEmptyPrefix api st s = None"
proof -
  assume f: "fresh s"
  define s1 where "s1 = putFiles st [''a'', ''b'', ''c''] s"
  have s1: "up s1" "contents s1 = (\<lambda>q. if q \<in> {''a'', ''b'', ''c''} then Some (rawBytes q) else None)"
    using putFiles_up [of s "[''a'', ''b'', ''c'']"] f fresh_vacant [OF f]
    by (simp_all add: s1_def fresh_def fun_eq_iff plain_names apart_elems)
  obtain ps s2 where ps: "sList st [] s1 = (Inr ps, s2)" "distinct ps" "set ps = {q. contents s1 q \<noteq> None}"
    using list_all_up [OF s1(1)] by blast
  have "set ps = set [''a'', ''b'', ''c'']" using ps(3) by (auto simp: s1(2))
  then have "length ps = 3" using ps(2) distinct_card [of ps] distinct_card [OF three_names(1)] three_names(2) by simp
  then show ?thesis using ps unfolding testListEmptyPrefix_def s1_def [symmetric] by simp
qed

end

text \<open>Every test passes on a fresh store.\<close>

definition passed :: "(nat \<Rightarrow> string) \<Rightarrow> int \<Rightarrow> 's store \<Rightarrow> 's \<Rightarrow> bool" where
  "passed api now st s \<longleftrightarrow> testPutGet api st s = None \<and> testPutOverwrite st s = None \<and> testGetNotFound api st s = None \<and>
     testDelete api st s = None \<and> testDeleteNotFound api st s = None \<and> testList api st s = None \<and> testListEmptyPrefix api st s = None \<and>
     testExists st s = None \<and> testAttrs api now st s = None \<and> testAttrsNotFound st s = None \<and>
     testEmptyPayload st s = None \<and> testLargePayload st s = None"

lemma all_passed:
  assumes "\<And>i. i < 12 \<Longrightarrow> case_prod (passed api now) (newStore i)"
  shows "map snd (RunContractTests api now newStore) = replicate 12 None"
proof -
  have "case_prod (passed api now) (newStore i)" if "i \<in> {0, 1, 2, 3, 4, 5, 6, 7, 8, 9, 10, 11}" for i using assms [of i] that by auto
  then show ?thesis by (auto simp: RunContractTests_def passed_def split_beta numeral_eq_Suc)
qed

context available_store
begin

lemma fresh_passed:
  assumes "up s" "contents s = Map.empty" "\<And>p. \<not> isDir s p" "clock s \<noteq> zeroTime" "now - clock s \<le> 60 * 10 ^ 9"
  shows "passed api now st s"
proof -
  have "fresh s" using assms by (simp add: fresh_def)
  then show ?thesis
    unfolding passed_def
  using assms(4,5) putGet_passes overwrite_passes missing_passes delete_passes list_passes listAll_passes exists_passes attrs_passes payload_passes
    by blast
qed

end

section \<open>The local store answers\<close>

text \<open>No fault is scheduled and the root and the directories above it exist.\<close>

definition local_up :: "string \<Rightarrow> fs \<Rightarrow> bool" where
  "local_up root s \<longleftrightarrow> local_inv root s \<and> fs_faults s = [] \<and> set (ancestors (Clean root)) \<subseteq> set (fs_dirs s)"

definition local_isDir :: "string \<Rightarrow> fs \<Rightarrow> string \<Rightarrow> bool" where
  "local_isDir root s q \<longleftrightarrow> Clean root @ sep # q \<in> set (fs_dirs s)"

lemma nextFault_none: "fs_faults s = [] \<Longrightarrow> nextFault s = (None, s)"
  by (simp add: nextFault_def)

lemma dir_above:
  assumes "HasPrefix (r @ sep # p) (d @ [sep])"
  shows "d \<in> set (ancestors r) \<or> (\<exists>q. d = r @ sep # q \<and> HasPrefix p (q @ [sep]))"
proof -
  obtain t where "r @ sep # p = d @ sep # t" using assms by (auto simp: HasPrefix_iff)
  then consider us where "r = d @ us" "us @ sep # p = sep # t" | us where "d = r @ us" "sep # p = us @ sep # t"
    by (auto simp: append_eq_append_conv2)
  then show ?thesis
    by cases (auto simp: ancestors_iff HasPrefix_iff append_eq_Cons_conv Cons_eq_append_conv)
qed

lemma butlast_ancestors:
  assumes "q \<in> set (butlast (ancestors p))"
  shows "HasPrefix p (q @ [sep])"
proof -
  have "butlast (ancestors p) = map (\<lambda>k. joinSlash (take k (splitSlash p))) [1..<length (splitSlash p)]"
    by (simp add: ancestors_def Suc_le_eq)
  then obtain k where k: "1 \<le> k" "k < length (splitSlash p)" "q = joinSlash (take k (splitSlash p))"
    using assms by auto
  have "p = joinSlash (take k (splitSlash p) @ drop k (splitSlash p))" by simp
  also have "\<dots> = q @ sep # joinSlash (drop k (splitSlash p))"
    using k by (subst joinSlash_append) auto
  finally show ?thesis by (auto simp: HasPrefix_iff)
qed

context local_root
begin

lemma upD:
  assumes "local_up root s"
  shows "local_inv root s" "nextFault s = (None, s)" "\<And>d. d \<in> set (ancestors (Clean root)) \<Longrightarrow> d \<in> set (fs_dirs s)"
    "filesOK root (fs_files s) (fs_dirs s)"
  using assms by (auto simp: local_up_def nextFault_none local_inv_def)

lemma contents_file: "plainPath q \<Longrightarrow> local_contents root s q \<noteq> None \<longleftrightarrow> isFile s (Clean root @ sep # q)"
  by (simp add: local_contents_def filesView_def isFile_def)

text \<open>Nothing above a vacant name is a file.\<close>

lemma vacant_above:
  assumes "local_up root s" "\<forall>q. local_contents root s q \<noteq> None \<longrightarrow> \<not> HasPrefix p (q @ [sep])"
    "HasPrefix (Clean root @ sep # p) (d @ [sep])"
  shows "\<not> isFile s d"
proof
  assume f: "isFile s d"
  then have d: "d \<in> fst ` set (fs_files s)" "d \<in> dom (map_of (fs_files s))"
    by (auto simp: isFile_def dest: map_of_SomeD intro: rev_image_eqI)
  from dir_above [OF assms(3)] show False
  proof
    assume "d \<in> set (ancestors (Clean root))"
    then show False using upD(3,4) [OF assms(1)] d(2) unfolding filesOK_def by blast
  next
    assume "\<exists>q. d = Clean root @ sep # q \<and> HasPrefix p (q @ [sep])"
    then obtain q where q: "d = Clean root @ sep # q" "HasPrefix p (q @ [sep])" by blast
    then have "plainPath q" using filesOK_plain [OF upD(4) [OF assms(1)]] d(1) by simp
    then show False using assms(2) q f contents_file by blast
  qed
qed

lemma Dir_above:
  assumes "plainPath p" "d \<in> set (ancestors (Dir (Clean root @ sep # p)))"
  shows "HasPrefix (Clean root @ sep # p) (d @ [sep])"
proof -
  obtain a e where ae: "Clean root @ sep # p = a @ sep # e" "Dir (Clean root @ sep # p) = a"
    using Dir_normal [OF normalPath_root [OF good] assms(1)] by metis
  then show ?thesis using assms(2) by (auto simp: ancestors_iff HasPrefix_iff)
qed

text \<open>Writing a vacant name whose directory exists.\<close>

lemma WriteFile_succeeds:
  assumes "local_up root s" "plainPath p" "vacant (local_contents root s) (local_isDir root s) p"
    "Dir (Clean root @ sep # p) \<in> set (fs_dirs s)"
  shows "WriteFile (Clean root @ sep # p) d s =
    (Inr (), s\<lparr>fs_files := AList.update (Clean root @ sep # p) \<lparr>f_data = d, f_mtime = fs_clock s\<rparr>
       (AList.update (Clean root @ sep # p) \<lparr>f_data = [], f_mtime = fs_clock s\<rparr> (fs_files s))\<rparr>)"
proof -
  let ?f = "Clean root @ sep # p"
  have v: "?f \<notin> set (fs_dirs s)" "\<forall>q. local_contents root s q \<noteq> None \<longrightarrow> \<not> HasPrefix p (q @ [sep])"
    using assms(3) by (simp_all add: vacant_def local_isDir_def)
  have "\<not> list_ex (isFile s) (butlast (ancestors ?f))"
    using vacant_above [OF assms(1) v(2)] butlast_ancestors by (auto simp: list_ex_iff)
  then show ?thesis
    using v(1) assms(1,4) by (simp add: WriteFile_def createFile_def writeData_def closeFile_def nextFault_none local_up_def)
qed

lemma put_succeeds:
  assumes "local_up root s" "plainPath p" "vacant (local_contents root s) (local_isDir root s) p"
  shows "\<exists>s'. local_Put root p d s = (Inr (), s') \<and> fs_faults s' = [] \<and> fs_clock s' = fs_clock s \<and>
    set (fs_dirs s') = set (ancestors (Dir (Clean root @ sep # p))) \<union> set (fs_dirs s) \<and>
    map_of (fs_files s') (Clean root @ sep # p) = Some \<lparr>f_data = d, f_mtime = fs_clock s\<rparr>"
proof -
  let ?f = "Clean root @ sep # p"
  define s1 where "s1 = s\<lparr>fs_dirs := List.union (ancestors (Dir ?f)) (fs_dirs s)\<rparr>"
  have v: "?f \<notin> set (fs_dirs s)" "\<forall>q. local_contents root s q \<noteq> None \<longrightarrow> \<not> HasPrefix p (q @ [sep])"
    using assms(3) by (simp_all add: vacant_def local_isDir_def)
  have none: "\<not> isFile s q" if "q \<in> set (ancestors (Dir ?f))" for q
    using vacant_above [OF assms(1) v(2) Dir_above [OF assms(2) that]] .
  then have mk: "MkdirAll (Dir ?f) s = (Inr (), s1)"
    using upD(2) [OF assms(1)] by (auto simp: MkdirAll_def list_ex_iff s1_def)
  have self: "?f \<notin> set (ancestors (Dir ?f))"
    using Dir_above [OF assms(2), of ?f] by (auto simp: HasPrefix_iff)
  have "filesOK root (fs_files s) (fs_dirs s1)"
    using filesOK_dirs [OF upD(4) [OF assms(1)], of "ancestors (Dir ?f)"] none by (simp add: s1_def isFile_def)
  then have "local_up root s1" using assms(1) by (auto simp: local_up_def local_inv_def s1_def)
  moreover have "vacant (local_contents root s1) (local_isDir root s1) p"
    using assms(3) self by (simp add: vacant_def local_isDir_def s1_def local_contents_def)
  moreover have "Dir ?f \<in> set (fs_dirs s1)" by (simp add: s1_def ancestors_iff)
  ultimately show ?thesis
    using mk WriteFile_succeeds [OF _ assms(2)] assms(1)
    by (simp add: local_Put_def local_path_plain [OF good assms(2)] local_up_def update_conv') (simp add: s1_def)
qed

lemma lookup_missing:
  assumes "local_up root s" "plainPath p" "local_contents root s p = None" "vacant (local_contents root s) (local_isDir root s) p"
  shows "lookupErr s (Clean root @ sep # p) = errNotExist" "map_of (fs_files s) (Clean root @ sep # p) = None"
    "Clean root @ sep # p \<notin> set (fs_dirs s)"
proof -
  have "\<not> isFile s (Clean root @ sep # p)" using contents_file [OF assms(2), of s] assms(3) by simp
  moreover have "\<not> isFile s d" if "HasPrefix (Clean root @ sep # p) (d @ [sep])" for d
    using vacant_above [OF assms(1) _ that] assms(4) by (simp add: vacant_def)
  ultimately show "lookupErr s (Clean root @ sep # p) = errNotExist" "map_of (fs_files s) (Clean root @ sep # p) = None"
    by (auto simp: lookupErr_def list_ex_iff ancestors_iff isFile_def)
  show "Clean root @ sep # p \<notin> set (fs_dirs s)" using assms(4) by (simp add: vacant_def local_isDir_def)
qed

lemma stat_present:
  assumes "local_up root s" "plainPath p" "local_contents root s p = Some d"
  shows "\<exists>t. Stat (Clean root @ sep # p) s = (Inr (length d, t), s)"
  using assms upD(2) [OF assms(1)] by (auto simp: Stat_def local_contents_def filesView_def split: option.splits)

lemma stat_missing:
  assumes "local_up root s" "plainPath p" "local_contents root s p = None" "vacant (local_contents root s) (local_isDir root s) p"
  shows "Stat (Clean root @ sep # p) s = (Inl errNotExist, s)"
  using lookup_missing [OF assms] upD(2) [OF assms(1)] by (simp add: Stat_def)

lemma root_path: "local_path root [] = Inr (Clean root)"
proof -
  have "Join [root, []] = Clean root" using goodRoot_not_Nil [OF good] by (simp add: Join_def)
  then show ?thesis by (simp add: local_path_def)
qed

text \<open>Listing the root visits every file below it.\<close>

lemma root_files:
  assumes "local_inv root s"
  shows "set (map (Rel root) (filter (below (Clean root)) (map fst (fs_files s)))) = {q. local_contents root s q \<noteq> None}"
    "distinct (map (Rel root) (filter (below (Clean root)) (map fst (fs_files s))))"
proof -
  have w: "filesOK root (fs_files s) (fs_dirs s)" using assms by (simp add: local_inv_def)
  have nr: "Clean root \<noteq> [sep]" using normalPath_not_root [OF normalPath_root [OF good]] .
  have form: "\<exists>q. f = Clean root @ sep # q \<and> plainPath q \<and> Rel root f = q"
    if h: "f \<in> fst ` set (fs_files s)" "below (Clean root) f" for f
  proof -
    obtain q where q: "f = Clean root @ sep # q" using h(2) nr by (auto simp: below_def HasPrefix_iff)
    then have "plainPath q" using filesOK_plain [OF w] h(1) by blast
    then show ?thesis using q Rel_below [OF good] by blast
  qed
  show "set (map (Rel root) (filter (below (Clean root)) (map fst (fs_files s)))) = {q. local_contents root s q \<noteq> None}" (is "?L = ?R")
  proof (intro equalityI subsetI)
    fix q assume "q \<in> ?L"
    then obtain f where f: "f \<in> fst ` set (fs_files s)" "below (Clean root) f" "q = Rel root f" by auto
    then show "q \<in> ?R" using form [OF f(1,2)] by (auto simp: local_contents_def filesView_def weak_map_of_SomeI)
  next
    fix q assume "q \<in> ?R"
    then have q: "plainPath q" "Clean root @ sep # q \<in> fst ` set (fs_files s)"
      by (auto simp: local_contents_def filesView_def split: if_splits dest!: map_of_SomeD intro: rev_image_eqI)
    moreover have "below (Clean root) (Clean root @ sep # q)" using nr by (auto simp: below_def HasPrefix_iff)
    ultimately show "q \<in> ?L"
      using Rel_below [OF good q(1)] by (auto simp: image_iff intro!: exI [of _ "Clean root @ sep # q"])
  qed
  have "inj_on (Rel root) (set (filter (below (Clean root)) (map fst (fs_files s))))"
  proof (rule inj_onI)
    fix a b assume "a \<in> set (filter (below (Clean root)) (map fst (fs_files s)))"
      "b \<in> set (filter (below (Clean root)) (map fst (fs_files s)))" "Rel root a = Rel root b"
    then show "a = b" using form [of a] form [of b] by force
  qed
  then show "distinct (map (Rel root) (filter (below (Clean root)) (map fst (fs_files s))))"
    using w by (simp add: distinct_map filesOK_def)
qed

lemma root_list:
  assumes "local_up root s"
  shows "local_List root [] s = (Inr (sort (map (Rel root) (filter (below (Clean root)) (map fst (fs_files s))))), s)"
proof -
  have d: "Clean root \<in> set (fs_dirs s)" using upD(3) [OF assms] by (simp add: ancestors_iff)
  then have nf: "Clean root \<notin> set (map fst (fs_files s))"
    using upD(4) [OF assms] by (auto simp: filesOK_def dom_map_of_conv_image_fst)
  have "map_of (fs_files s) (Clean root) = None" using nf by (simp add: map_of_eq_None_iff)
  moreover have "filter (\<lambda>p. p = Clean root \<or> below (Clean root) p) (map fst (fs_files s)) = filter (below (Clean root)) (map fst (fs_files s))"
    using nf by (intro filter_cong) (auto simp del: set_map)
  ultimately show ?thesis
    using d upD(2) [OF assms] by (simp add: local_List_def root_path Stat_def walkFiles_def)
qed

end

sublocale local_root \<subseteq> available_store "local_store root" "local_contents root" "local_inv root" "local_up root" "local_isDir root" fs_clock
proof unfold_locales
  fix s s1 p d dir
  assume u: "local_up root s"
  note f = upD(2) [OF u]
  show "local_inv root s" using upD(1) [OF u] .
  show "\<exists>ps s'. sList (local_store root) [] s = (Inr ps, s') \<and> distinct ps \<and> set ps = {q. local_contents root s q \<noteq> None}"
    using root_list [OF u] root_files [OF upD(1) [OF u]] by (simp add: local_store_def del: set_map)
  { assume p: "plainPath p" and "local_contents root s p = Some d"
    then show "\<exists>s'. sGet (local_store root) p s = (Inr d, s') \<and> local_up root s' \<and> local_isDir root s' = local_isDir root s"
      using f u by (auto simp: local_store_def local_Get_def local_path_plain [OF good p] ReadFile_def local_contents_def filesView_def split: option.splits) }
  { assume p: "plainPath p" and n: "local_contents root s p = None" "vacant (local_contents root s) (local_isDir root s) p"
    then show "\<exists>e s'. sGet (local_store root) p s = (Inl e, s') \<and> errorsIs e ErrNotFound \<and> local_up root s' \<and>
        local_isDir root s' = local_isDir root s"
      using f u lookup_missing [OF u p n] by (simp add: local_store_def local_Get_def local_path_plain [OF good p] ReadFile_def IsNotExist_def)
    show "\<exists>e s'. sAttrs (local_store root) p s = (Inl e, s')"
      using stat_missing [OF u p n] by (simp add: local_store_def local_Attrs_def local_path_plain [OF good p]) }
  assume p: "plainPath p"
  assume v: "vacant (local_contents root s) (local_isDir root s) p"
  let ?f = "Clean root @ sep # p"
  obtain s' where s': "local_Put root p d s = (Inr (), s')" "fs_faults s' = []" "fs_clock s' = fs_clock s"
    "set (fs_dirs s') = set (ancestors (Dir ?f)) \<union> set (fs_dirs s)" "map_of (fs_files s') ?f = Some \<lparr>f_data = d, f_mtime = fs_clock s\<rparr>"
    using put_succeeds [OF u p v] by blast
  have put: "sPut (local_store root) p d s = (Inr (), s')" using s'(1) by (simp add: local_store_def)
  then have "local_up root s'" using put_frame [OF upD(1) [OF u] p] s'(2,4) u by (auto simp: local_up_def)
  moreover have "local_isDir root s q \<or> HasPrefix p (q @ [sep])" if "local_isDir root s' q" for q
    using that s'(4) Dir_above [OF p, of "Clean root @ sep # q"] by (auto simp: local_isDir_def HasPrefix_iff)
  ultimately show "\<exists>s'. sPut (local_store root) p d s = (Inr (), s') \<and> local_up root s' \<and> fs_clock s' = fs_clock s \<and>
      (\<forall>q. local_isDir root s' q \<longrightarrow> local_isDir root s q \<or> HasPrefix p (q @ [sep]))"
    using put s'(3) by blast
  { assume "sPut (local_store root) p d s = (Inr (), s1)"
    then have "s1 = s'" using put by simp
    then show "\<exists>info s2. sAttrs (local_store root) p s1 = (Inr info, s2) \<and> oi_size info = length d \<and> oi_createdAt info = fs_clock s"
      using s'(2,5) by (simp add: local_store_def local_Attrs_def local_path_plain [OF good p] Stat_def nextFault_none) }
  show "\<exists>s'. sExists (local_store root) p s = (Inr (local_contents root s p \<noteq> None), s') \<and> local_up root s' \<and>
      local_isDir root s' = local_isDir root s \<and> local_contents root s' = local_contents root s"
    using stat_present [OF u p] stat_missing [OF u p _ v] u
    by (cases "local_contents root s p") (auto simp: local_store_def local_Exists_def local_path_plain [OF good p] IsNotExist_def)
  have "\<exists>s'. sDelete (local_store root) p s = (Inr (), s') \<and> fs_faults s' = [] \<and> fs_dirs s' = fs_dirs s"
  proof (cases "local_contents root s p")
    case None
    then show ?thesis
      using lookup_missing [OF u p None v] f u
      by (simp add: local_store_def local_Delete_def local_path_plain [OF good p] Remove_def isFile_def IsNotExist_def local_up_def)
  next
    case (Some x)
    then show ?thesis
      using contents_file [OF p, of s] f u
      by (simp add: local_store_def local_Delete_def local_path_plain [OF good p] Remove_def local_up_def)
  qed
  then show "\<exists>s'. sDelete (local_store root) p s = (Inr (), s') \<and> local_up root s' \<and> local_isDir root s' = local_isDir root s"
    using delete_frame [OF upD(1) [OF u] p] u by (fastforce simp: local_up_def local_isDir_def fun_eq_iff)
next
  fix s dir
  assume u: "local_up root s" and d: "plainPath dir" "local_contents root s dir = None"
    "\<forall>q. local_contents root s q \<noteq> None \<longrightarrow> \<not> HasPrefix dir (q @ [sep])"
  have "\<not> isFile s q" if "q \<in> set (ancestors (Clean root @ sep # dir))" for q
    using that vacant_above [OF u d(3)] contents_file [OF d(1), of s] d(2) by (auto simp: ancestors_iff)
  then have "lookupErr s (Clean root @ sep # dir) = errNotExist" by (auto simp: lookupErr_def list_ex_iff)
  then show "\<exists>ps s'. sList (local_store root) (dir @ [sep]) s = (Inr ps, s') \<and> local_up root s' \<and>
      local_isDir root s' = local_isDir root s"
    using upD(2) [OF u] u
    by (auto simp: local_store_def local_List_def local_path_dir [OF good d(1)] Stat_def walkFiles_def IsNotExist_def split: option.splits)
qed

context local_root
begin

lemma local_answers: "available_store (local_store root) (local_contents root) (local_inv root) (local_up root) (local_isDir root) fs_clock"
  by unfold_locales

end

lemmas local_available = local_root.local_answers [OF local_root.intro]

section \<open>The GCS store answers\<close>

text \<open>A service that serves every request, in a bucket whose clock is \<open>clock\<close>.\<close>

locale gcs_available = gcs_bucket cl g objects
  for cl :: "'c gcsClient" and g and objects :: "'c \<Rightarrow> string \<Rightarrow> bytes option" +
  fixes clock :: "'c \<Rightarrow> int"
  assumes serves_write: "fst (gWrite cl (g_bucket g) n d c) = Inr () \<and> clock (snd (gWrite cl (g_bucket g) n d c)) = clock c"
    and serves_commit: "fst (gCommit cl (g_bucket g) n d c) = Inr () \<and> clock (snd (gCommit cl (g_bucket g) n d c)) = clock c"
    and serves_read: "objects c n = Some d \<Longrightarrow> fst (gRead cl (g_bucket g) n c) = Inr \<lparr>rd_data = d, rd_err = None\<rparr>"
    and serves_missing: "objects c n = None \<Longrightarrow> fst (gRead cl (g_bucket g) n c) = Inl ErrObjectNotExist \<and>
      fst (gAttrs cl (g_bucket g) n c) = Inl ErrObjectNotExist"
    and serves_delete: "fst (gDelete cl (g_bucket g) n c) = (if objects c n = None then Inl ErrObjectNotExist else Inr ())"
    and serves_attrs: "objects c n \<noteq> None \<Longrightarrow> \<exists>x. fst (gAttrs cl (g_bucket g) n c) = Inr x"
    and serves_created: "gCommit cl (g_bucket g) n d c = (Inr u, c') \<Longrightarrow> fst (gAttrs cl (g_bucket g) n c') = Inr (length d, clock c)"
    and serves_list: "\<exists>ns. fst (gObjects cl (g_bucket g) pre c) = map Inr ns"

sublocale gcs_available \<subseteq> available_store "gcs_store cl g" "gcs_contents g objects" "\<lambda>_. True" "\<lambda>_. True" "\<lambda>_ _. False" clock
proof unfold_locales
  fix c c1 p d dir
  note defs = gcs_store_def gcs_contents_def
  obtain c1 where w: "gWrite cl (g_bucket g) (fullPath g p) d c = (Inr (), c1)" "clock c1 = clock c"
    using serves_write [of "fullPath g p" d c] by (cases "gWrite cl (g_bucket g) (fullPath g p) d c") simp
  obtain c2 where k: "gCommit cl (g_bucket g) (fullPath g p) d c1 = (Inr (), c2)" "clock c2 = clock c"
    using serves_commit [of "fullPath g p" d c1] w(2) by (cases "gCommit cl (g_bucket g) (fullPath g p) d c1") simp
  have put: "sPut (gcs_store cl g) p d c = (Inr (), c2)" by (simp add: defs gcs_Put_def w k)
  then show "\<exists>s'. sPut (gcs_store cl g) p d c = (Inr (), s') \<and> True \<and> clock s' = clock c \<and> (\<forall>q. False \<longrightarrow> False \<or> HasPrefix p (q @ [sep]))"
    using k(2) by simp
  show "\<exists>info s2. sAttrs (gcs_store cl g) p s1 = (Inr info, s2) \<and> oi_size info = length d \<and> oi_createdAt info = clock c"
    if "sPut (gcs_store cl g) p d c = (Inr (), s1)" for s1
    using that put serves_created [OF k(1)] w(2) by (cases "gAttrs cl (g_bucket g) (fullPath g p) c2") (auto simp: defs gcs_Attrs_def)
  show "\<exists>s'. sGet (gcs_store cl g) p c = (Inr d, s') \<and> True \<and> (\<lambda>_. False) = (\<lambda>_. False)" if "gcs_contents g objects c p = Some d"
    using serves_read [of c "fullPath g p" d] that by (cases "gRead cl (g_bucket g) (fullPath g p) c") (simp add: defs gcs_Get_def)
  have ne: "isNotExist ErrObjectNotExist" by (simp add: isNotExist_def ErrObjectNotExist_def)
  { assume n: "gcs_contents g objects c p = None"
    show "\<exists>e s'. sGet (gcs_store cl g) p c = (Inl e, s') \<and> errorsIs e ErrNotFound \<and> True \<and> (\<lambda>_. False) = (\<lambda>_. False)"
      using serves_missing [of c "fullPath g p"] n ne by (cases "gRead cl (g_bucket g) (fullPath g p) c") (simp add: defs gcs_Get_def)
    show "\<exists>e s'. sAttrs (gcs_store cl g) p c = (Inl e, s')"
      using serves_missing [of c "fullPath g p"] n by (cases "gAttrs cl (g_bucket g) (fullPath g p) c") (simp add: defs gcs_Attrs_def) }
  show "\<exists>s'. sDelete (gcs_store cl g) p c = (Inr (), s') \<and> True \<and> (\<lambda>_. False) = (\<lambda>_. False)"
    using serves_delete [of "fullPath g p" c] ne
    by (cases "gDelete cl (g_bucket g) (fullPath g p) c") (auto simp: defs gcs_Delete_def split: if_splits)
  show "\<exists>s'. sExists (gcs_store cl g) p c = (Inr (gcs_contents g objects c p \<noteq> None), s') \<and> True \<and>
      (\<lambda>_. False) = (\<lambda>_. False) \<and> gcs_contents g objects s' = gcs_contents g objects c"
    using serves_missing [of c "fullPath g p"] serves_attrs [of c "fullPath g p"] ne bucket_attrs [of "fullPath g p" c]
    by (cases "gAttrs cl (g_bucket g) (fullPath g p) c"; cases "objects c (fullPath g p)")
      (auto simp: defs gcs_Exists_def fun_eq_iff)
next
  fix c dir
  show "\<exists>ps s'. sList (gcs_store cl g) (dir @ [sep]) c = (Inr ps, s') \<and> True \<and> (\<lambda>_. False) = (\<lambda>_. False)"
    using serves_list [of "fullPath g (dir @ [sep])" c]
    by (cases "gObjects cl (g_bucket g) (fullPath g (dir @ [sep])) c") (auto simp: gcs_store_def gcs_List_def gcs_listLoop_iff)
  obtain ns c' where o: "gObjects cl (g_bucket g) (fullPath g []) c = (map Inr ns, c')"
    using serves_list [of "fullPath g []" c] by (metis prod.collapse)
  note l = bucket_list_ok [OF o]
  have pre: "\<forall>n \<in> set ns. HasPrefix n (g_prefix g)" using l by (simp add: fullPath_def)
  have "sList (gcs_store cl g) [] c = (Inr (map (unPrefix g) ns), c')"
    using gcs_listLoop_iff [of g "map Inr ns" "[]" "map (unPrefix g) ns"] by (auto simp: gcs_store_def gcs_List_def o)
  moreover have "set (map (unPrefix g) ns) = {q. gcs_contents g objects c q \<noteq> None}"
    using l by (auto simp: gcs_contents_def image_iff fullPath_def HasPrefix_iff unPrefix_def) (metis TrimPrefix_append)
  ultimately show "\<exists>ps s'. sList (gcs_store cl g) [] c = (Inr ps, s') \<and> distinct ps \<and> set ps = {q. gcs_contents g objects c q \<noteq> None}"
    using unPrefix_sorted [OF pre] l by auto
qed auto

context gcs_available
begin

lemma gcs_answers: "available_store (gcs_store cl g) (gcs_contents g objects) (\<lambda>_. True) (\<lambda>_. True) (\<lambda>_ _. False) clock"
  by unfold_locales

end

interpretation memUp: gcs_available memClient g map_of "\<lambda>_. 0"
  by unfold_locales (auto simp: memClient_def update_conv')

section \<open>Properties\<close>

text \<open>An empty directory, or none, where a local store will be made.\<close>

definition emptyRoot :: "string \<Rightarrow> fs \<Rightarrow> bool" where
  "emptyRoot root s \<longleftrightarrow> goodRoot root \<and> local_inv root s \<and> fs_faults s = [] \<and>
     (\<forall>p. below (Clean root) p \<longrightarrow> p \<notin> fst ` set (fs_files s) \<and> p \<notin> set (fs_dirs s))"

lemma New_fresh:
  assumes "emptyRoot root s" "local_New root s = (Inr (), s')"
  shows "local_up root s'" "local_contents root s' = Map.empty" "\<not> local_isDir root s' q" "fs_clock s' = fs_clock s"
proof -
  have g: "goodRoot root" and f: "fs_faults s = []" "local_inv root s" using assms(1) by (simp_all add: emptyRoot_def)
  have s': "s' = s\<lparr>fs_dirs := List.union (ancestors (Clean root)) (fs_dirs s)\<rparr>" "\<not> list_ex (isFile s) (ancestors (Clean root))"
    using assms(2) f by (simp_all add: local_New_def MkdirAll_def nextFault_none split: if_splits)
  have "below (Clean root) (Clean root @ sep # q)" for q
    using normalPath_not_root [OF normalPath_root [OF g]] by (auto simp: below_def HasPrefix_iff)
  then have none: "Clean root @ sep # q \<notin> fst ` set (fs_files s)" "Clean root @ sep # q \<notin> set (fs_dirs s)" for q
    using assms(1) by (simp_all add: emptyRoot_def)
  have "filesOK root (fs_files s) (fs_dirs s')"
    using filesOK_dirs [of root "fs_files s" "fs_dirs s" "ancestors (Clean root)"] f(2) s'
    by (simp add: local_inv_def list_ex_iff isFile_def)
  then show "local_up root s'" using s' f by (simp add: local_up_def local_inv_def faultsOK_def)
  show "local_contents root s' = Map.empty"
    using none(1) by (simp add: s' local_contents_def filesView_def fun_eq_iff map_of_eq_None_iff)
  show "\<not> local_isDir root s' q"
    using none(2) [of q] by (auto simp: s' local_isDir_def ancestors_iff HasPrefix_iff)
  show "fs_clock s' = fs_clock s" by (simp add: s')
qed

text \<open>C38: the contract tests report no failure on the local store, whatever directories the test
  runner chooses for the twelve stores, provided they are empty, the file system works and the
  clock of the file system is right to a minute.\<close>

theorem local_contract_tests:
  assumes "\<forall>i < 12. emptyRoot (dir i) (f i) \<and> local_New (dir i) (f i) = (Inr (), s i) \<and>
      fs_clock (f i) \<noteq> zeroTime \<and> now - fs_clock (f i) \<le> 60 * 10 ^ 9"
  shows "map snd (RunContractTests api now (\<lambda>i. (local_store (dir i), s i))) = replicate 12 None"
proof (rule all_passed)
  fix i :: nat assume "i < 12"
  then have i: "emptyRoot (dir i) (f i)" "local_New (dir i) (f i) = (Inr (), s i)" "fs_clock (f i) \<noteq> zeroTime"
    "now - fs_clock (f i) \<le> 60 * 10 ^ 9"
    using assms by blast+
  then have "goodRoot (dir i)" by (simp add: emptyRoot_def)
  from available_store.fresh_passed [OF local_available [OF this] New_fresh(1-3) [OF i(1,2)]]
  show "case (local_store (dir i), s i) of (st, s) \<Rightarrow> passed api now st s" using New_fresh(4) [OF i(1,2)] i(3,4) by simp
qed

definition tmpFs :: fs where
  "tmpFs = \<lparr>fs_files = [], fs_dirs = [[]], fs_clock = 1000, fs_faults = []\<rparr>"

theorem local_contract_tests_witness:
  "\<exists>s. local_New ''/data'' tmpFs = (Inr (), s) \<and>
    map snd (RunContractTests decimal 2000 (\<lambda>i. (local_store ''/data'', s))) = replicate 12 None"
proof -
  have e: "emptyRoot ''/data'' tmpFs"
    using data.good by (auto simp: emptyRoot_def tmpFs_def local_inv_def filesOK_def faultsOK_def below_def HasPrefix_iff)
  obtain s where s: "local_New ''/data'' tmpFs = (Inr (), s)"
    by (simp add: local_New_def MkdirAll_def nextFault_def tmpFs_def isFile_def list_ex_iff)
  have "\<forall>i < 12. emptyRoot ''/data'' tmpFs \<and> local_New ''/data'' tmpFs = (Inr (), s) \<and>
      fs_clock tmpFs \<noteq> zeroTime \<and> (2000 :: int) - fs_clock tmpFs \<le> 60 * 10 ^ 9"
    using e s by (simp add: tmpFs_def zeroTime_def)
  from local_contract_tests [OF this] s show ?thesis by blast
qed

text \<open>The contract tests report no failure on the GCS store over any service that serves its
  requests, with an empty bucket for each test and a clock that is right to a minute.\<close>

theorem gcs_contract_tests:
  assumes "gcs_available cl g objects clock" "\<forall>i < 12. gcs_contents g objects (c i) = Map.empty \<and> clock (c i) \<noteq> zeroTime \<and>
      now - clock (c i) \<le> 60 * 10 ^ 9"
  shows "map snd (RunContractTests api now (\<lambda>i. (gcs_store cl g, c i))) = replicate 12 None"
proof (rule all_passed)
  fix i :: nat assume "i < 12"
  then have i: "gcs_contents g objects (c i) = Map.empty" "clock (c i) \<noteq> zeroTime" "now - clock (c i) \<le> 60 * 10 ^ 9"
    using assms(2) by blast+
  from available_store.fresh_passed [OF gcs_available.gcs_answers [OF assms(1)] TrueI i(1) _ i(2,3)]
  show "case (gcs_store cl g, c i) of (st, s) \<Rightarrow> passed api now st s" by simp
qed

theorem gcs_contract_tests_witness:
  "map snd (RunContractTests decimal 9 (\<lambda>i. (gcs_store memClient \<lparr>g_bucket = ''b'', g_prefix = ''p/''\<rparr>, []))) = replicate 12 None"
  by (rule gcs_contract_tests [OF memUp.gcs_available_axioms]) (simp add: gcs_contents_def zeroTime_def fun_eq_iff)

end
