(* ===== verification/RecoveryLiveness.thy ===== *)
theory RecoveryLiveness
  imports EngineProperties StoreContract
begin

text \<open>
  Recovery gets through: when the object store answers, the local file system works, Pebble
  applies what it is given and the objects of the namespace have a meaning (\<open>durable\<close>),
  \<open>engine_Open\<close> on an empty directory returns an engine. Together with \<open>Open_ok\<close> this says that
  recovery produces the durable state, not only that what it produces is right.

  The locale \<open>live_engine\<close> joins the contracts of the engine with those of a store that answers.
\<close>

section \<open>Conditions\<close>

text \<open>No directory or object is in the way of the manifest and of the log.\<close>

definition nsClear :: "(string \<Rightarrow> bytes option) \<Rightarrow> (string \<Rightarrow> bool) \<Rightarrow> string \<Rightarrow> bool" where
  "nsClear c isDir ns \<longleftrightarrow> vacant c isDir (manifestPath ns) \<and>
     (\<forall>q. c q \<noteq> None \<longrightarrow> \<not> HasPrefix (ns @ sep # walDir) (q @ [sep]))"

text \<open>The manifest does not list a file under the name of the local log directory.\<close>

definition filesClear :: "codec \<Rightarrow> (string \<Rightarrow> bytes option) \<Rightarrow> string \<Rightarrow> bool" where
  "filesClear J c ns \<longleftrightarrow>
     (\<forall>bs m. c (manifestPath ns) = Some bs \<and> decodeManifest J bs = Inr m \<longrightarrow>
        (\<forall>mf \<in> set (mn_files m). mf_name mf \<noteq> ''localwal'' \<and> c (dataPath ns (mf_name mf)) \<noteq> None))"

text \<open>The local directory exists, is empty, and the file system has no fault scheduled.\<close>

definition dirEmpty :: "string \<Rightarrow> fs \<Rightarrow> bool" where
  "dirEmpty dir f \<longleftrightarrow> local_up dir f \<and> local_contents dir f = Map.empty \<and> (\<forall>q. \<not> local_isDir dir f q)"

locale live_engine = cloud_engine st contents ok P view flushed J + available_store st contents ok up isDir clock
  for st :: "'s store" and contents ok and P :: "'db pebble" and view flushed J up isDir clock +
  assumes apply_total: "\<exists>db'. pApply P b db = Inr db'"
begin

lemma listWALs_answers:
  assumes "up s" "walTidy ns (contents s)" "plainPath ns" "nsClear (contents s) (isDir s) ns"
  shows "\<exists>es s'. listWALs st ns s = (Inr es, s') \<and> up s' \<and> isDir s' = isDir s \<and> contents s' = contents s"
proof -
  have p: "plainPath (ns @ sep # walDir)" "walPrefix ns = (ns @ sep # walDir) @ [sep]"
    using assms(3) by (simp_all add: walPrefix_eq)
  have "contents s (ns @ sep # walDir) = None" using assms(2) by (simp add: walTidy_def)
  then obtain ps s' where l: "sList st (walPrefix ns) s = (Inr ps, s')" "up s'" "isDir s' = isDir s"
    using list_up [OF assms(1) p(1)] assms(4) by (auto simp: p(2) nsClear_def)
  then have "contents s' = contents s" using list_frame [OF up_inv [OF assms(1)] p(1)] by (simp add: p(2))
  then show ?thesis using l by (simp add: listWALs_def)
qed

lemma replayLoop_answers:
  assumes "up (e_store e)" "plainPath (e_ns e)" "e_db e = Some db" "sorted (map we_seq es)" "distinct (map we_seq es)"
    "replaySeqs P (contents (e_store e)) (e_ns e) (filter (\<lambda>q. e_maxWALSeq e < q) (map we_seq es)) (view db) \<noteq> None"
  shows "\<exists>e'. replayLoop st P es e = (None, e') \<and> e_fs e' = e_fs e \<and> e_localDir e' = e_localDir e \<and>
    up (e_store e') \<and> isDir (e_store e') = isDir (e_store e) \<and> e_uploadedFiles e' = e_uploadedFiles e"
  using assms
proof (induction es arbitrary: e db)
  case (Cons x es)
  show ?case
  proof (cases "we_seq x \<le> e_maxWALSeq e")
    case True
    then show ?thesis using Cons.IH [OF Cons.prems(1-3)] Cons.prems(4-6) leD [OF True] by simp
  next
    case False
    have "filter (\<lambda>q. we_seq x < q) (map we_seq es) = map we_seq es" "filter (\<lambda>q. e_maxWALSeq e < q) (map we_seq es) = map we_seq es"
      using Cons.prems(4,5) False by (auto simp: filter_id_conv less_le)
    note fl = this and lt = False [unfolded not_le]
    have p: "plainPath (walPath (e_ns e) (we_seq x))" using Cons.prems(2) by simp
    obtain data b where d: "contents (e_store e) (walPath (e_ns e) (we_seq x)) = Some data" "pSetRepr P data = Inr b"
      "replaySeqs P (contents (e_store e)) (e_ns e) (map we_seq es) (applyOps b (view db)) \<noteq> None"
      using Cons.prems(6) lt fl by (auto split: option.splits sum.splits)
    obtain s1 where g: "sGet st (walPath (e_ns e) (we_seq x)) (e_store e) = (Inr data, s1)" "up s1" "isDir s1 = isDir (e_store e)"
      using get_up [OF Cons.prems(1) p d(1)] by blast
    have c: "contents s1 = contents (e_store e)" using get_frame [OF up_inv [OF Cons.prems(1)] p g(1)] by simp
    obtain db1 where a: "pApply P b db = Inr db1" using apply_total by blast
    have "view db1 = applyOps b (view db)" using apply_view [OF a] .
    then show ?thesis
      using Cons.IH [of "e\<lparr>e_store := s1, e_db := Some db1, e_maxWALSeq := we_seq x\<rparr>" db1] Cons.prems(2-5) d g c a fl(1)
      by (simp add: ReadRecord_def False lt)
  qed
qed simp

end

text \<open>Downloads into an empty directory.\<close>

definition landing :: "string \<Rightarrow> fs \<Rightarrow> bool" where
  "landing dir f \<longleftrightarrow> goodRoot dir \<and> local_up dir f \<and> (\<forall>q. local_isDir dir f q \<longrightarrow> q = ''localwal'')"

lemma landing_write:
  assumes "landing dir f" "plainElem n" "n \<noteq> ''localwal''"
  shows "\<exists>f'. WriteFile (Join [dir, n]) d f = (Inr (), f') \<and> landing dir f' \<and> fs_dirs f' = fs_dirs f"
proof -
  have g: "goodRoot dir" and u: "local_up dir f" and q: "\<not> local_isDir dir f n" using assms by (auto simp: landing_def)
  note n = plainPath_elem [OF assms(2)]
  have j: "Join [dir, n] = Clean dir @ sep # n" using Join_root [OF g n] .
  have v: "vacant (local_contents dir f) (local_isDir dir f) n" using q elem_below [OF assms(2)] by (simp add: vacant_def)
  have "Dir (Clean dir @ sep # n) = Clean dir"
    using assms(2) Dir_slash [OF plainElem_sep [OF assms(2)], of "Clean dir"] normalPath_root [OF g]
    by (simp add: Clean_trailing normalPath_not_Nil Clean_normal)
  then have "Dir (Clean dir @ sep # n) \<in> set (fs_dirs f)" using u by (auto simp: local_up_def ancestors_iff)
  from local_root.WriteFile_succeeds [OF local_root.intro [OF g] u n v this, of d]
  obtain f' where w: "WriteFile (Clean dir @ sep # n) d f = (Inr (), f')" "fs_dirs f' = fs_dirs f" "fs_faults f' = fs_faults f" by simp
  have "\<forall>e. HasPrefix (Clean dir @ sep # n) (e @ [sep]) \<longrightarrow> e \<in> set (fs_dirs f)"
    using dir_above [of "Clean dir" n] elem_below [OF assms(2)] u by (auto simp: local_up_def)
  from WriteFile_cases [OF _ n this, of d] u w(1) have "local_inv dir f'"
    by (auto simp: local_up_def written_def)
  then have "landing dir f'" using assms(1) w(2,3) by (simp add: landing_def local_up_def local_isDir_def)
  then show ?thesis using w j by simp
qed

context live_engine
begin

lemma downloadLoop_answers:
  assumes "up (e_store e)" "plainPath (e_ns e)" "landing (e_localDir e) (e_fs e)"
    "\<forall>mf \<in> set mfs. plainElem (mf_name mf) \<and> mf_name mf \<noteq> ''localwal'' \<and> contents (e_store e) (dataPath (e_ns e) (mf_name mf)) \<noteq> None"
  shows "\<exists>e'. downloadLoop st mfs e = (None, e') \<and> up (e_store e') \<and> isDir (e_store e') = isDir (e_store e) \<and>
    landing (e_localDir e) (e_fs e') \<and> fs_dirs (e_fs e') = fs_dirs (e_fs e)"
  using assms
proof (induction mfs arbitrary: e)
  case (Cons mf mfs)
  have n: "plainElem (mf_name mf)" "mf_name mf \<noteq> ''localwal''" using Cons.prems(4) by simp_all
  obtain data where d: "contents (e_store e) (dataPath (e_ns e) (mf_name mf)) = Some data" using Cons.prems(4) by auto
  have p: "plainPath (dataPath (e_ns e) (mf_name mf))" using Cons.prems(2) n(1) by simp
  obtain s1 where g: "sGet st (dataPath (e_ns e) (mf_name mf)) (e_store e) = (Inr data, s1)" "up s1" "isDir s1 = isDir (e_store e)"
    using get_up [OF Cons.prems(1) p d] by blast
  have c: "contents s1 = contents (e_store e)" using get_frame [OF up_inv [OF Cons.prems(1)] p g(1)] by simp
  obtain f1 where w: "WriteFile (Join [e_localDir e, mf_name mf]) data (e_fs e) = (Inr (), f1)" "landing (e_localDir e) f1"
    "fs_dirs f1 = fs_dirs (e_fs e)"
    using landing_write [OF Cons.prems(3) n] by blast
  show ?case
    using Cons.IH [of "e\<lparr>e_store := s1, e_fs := f1,
        e_uploadedFiles := List.insert (Join [dataPrefix (e_ns e), mf_name mf]) (e_uploadedFiles e)\<rparr>"] Cons.prems(2,4) g w c
    by (simp add: dataPath_def Let_def)
qed simp

text \<open>The local log directory exists and is empty.\<close>

lemma replayLocal_answers:
  assumes "landing (e_localDir e) (e_fs e)" "local_isDir (e_localDir e) (e_fs e) ''localwal''"
    "\<forall>x. local_contents (e_localDir e) (e_fs e) (''localwal'' @ sep # x) = None"
  shows "replayLocalWALs P e = (None, e)"
proof -
  let ?d = "Clean (e_localDir e) @ sep # ''localwal''"
  have g: "goodRoot (e_localDir e)" and u: "local_up (e_localDir e) (e_fs e)" using assms(1) by (simp_all add: landing_def)
  have j: "Join [e_localDir e, ''localwal''] = ?d" using Join_root [OF g] by simp
  have "\<forall>q d. plainElem q \<and> HasPrefix (Clean (e_localDir e) @ sep # q) (d @ [sep]) \<longrightarrow> d \<in> set (fs_dirs (e_fs e))"
    using dir_above [of "Clean (e_localDir e)"] elem_below u by (fastforce simp: local_up_def)
  then have r: "dirReady (e_localDir e) (e_fs e)" using g u by (simp add: dirReady_def local_up_def)
  obtain names where n: "ReadDir (Join [e_localDir e, ''localwal'']) (e_fs e) = (Inr names, e_fs e)"
    using assms(2) u by (simp add: ReadDir_def j nextFault_none local_up_def local_isDir_def)
  then have "names = []" using ReadDir_empty [OF r assms(3)] by blast
  then show ?thesis using n by (cases e) (simp add: replayLocalWALs_def Let_def)
qed

text \<open>The files that Pebble finds are those of the checkpoint.\<close>

lemma recover_dirMap:
  assumes "ok (e_store e)" "plainPath (e_ns e)" "dirReady (e_localDir e) (e_fs e)"
    "local_contents (e_localDir e) (e_fs e) = Map.empty" "manifestTidy J (contents (e_store e)) (e_ns e)"
    "contents (e_store e) (manifestPath (e_ns e)) = Some bs" "decodeManifest J bs = Inr m"
    "recoverManifest st J bs e = (None, e2)"
  shows "dirMap (e_localDir e2) (e_fs e2) = checkpointFiles (contents (e_store e)) (e_ns e) (mn_files m)"
proof -
  let ?c = "contents (e_store e)" and ?ns = "e_ns e" and ?dir = "e_localDir e"
  obtain e1 where d: "downloadLoop st (mn_files m) (e\<lparr>e_manifestVersion := mn_version m\<rparr>) = (None, e1)"
    and e2: "e2 = e1\<lparr>e_maxWALSeq := mn_maxWALSeq m\<rparr>"
    using assms(7,8) by (auto simp: recoverManifest_def split: prod.splits option.splits)
  have names: "\<forall>mf \<in> set (mn_files m). plainElem (mf_name mf)" using assms(5-7) by (auto simp: manifestTidy_def)
  from downloadLoop_ok [OF _ _ _ names d] assms(1-4) obtain s' f' U where dl:
    "e1 = e\<lparr>e_manifestVersion := mn_version m, e_store := s', e_fs := f', e_uploadedFiles := U\<rparr>"
    "\<forall>n \<in> mf_name ` set (mn_files m). local_contents ?dir f' n = ?c (dataPath ?ns n)"
    "\<forall>n. n \<notin> mf_name ` set (mn_files m) \<longrightarrow> local_contents ?dir f' n = None"
    by simp (elim exE conjE, simp)
  have "local_contents ?dir f' = checkpointFiles ?c ?ns (mn_files m)"
    using dl(2,3) by (auto simp: checkpointFiles_def fun_eq_iff)
  moreover have "plainElem n" if "checkpointFiles ?c ?ns (mn_files m) n \<noteq> None" for n
    using that names by (auto simp: checkpointFiles_def split: if_splits)
  ultimately show ?thesis using dirMap_eq e2 dl(1) by simp
qed

lemma recover_answers:
  assumes "up (e_store e)" "plainPath (e_ns e)" "walTidy (e_ns e) (contents (e_store e))"
    "landing (e_localDir e) (e_fs e)" "local_isDir (e_localDir e) (e_fs e) ''localwal''"
    "local_contents (e_localDir e) (e_fs e) = Map.empty" "e_maxWALSeq e = 0"
    "manifestTidy J (contents (e_store e)) (e_ns e)" "filesClear J (contents (e_store e)) (e_ns e)"
    "nsClear (contents (e_store e)) (isDir (e_store e)) (e_ns e)" "durable P view J (contents (e_store e)) (e_ns e) \<noteq> None"
  shows "\<exists>e'. recover st P J e = (None, e') \<and> up (e_store e') \<and> isDir (e_store e') = isDir (e_store e) \<and> local_up (e_localDir e) (e_fs e') \<and>
    (contents (e_store e) (manifestPath (e_ns e)) = None \<longrightarrow> e_uploadedFiles e' = [])"
proof -
  let ?c = "contents (e_store e)" and ?ns = "e_ns e" and ?dir = "e_localDir e"
  have ok: "ok (e_store e)" using up_inv [OF assms(1)] .
  have mp: "plainPath (manifestPath ?ns)" using assms(2) by simp
  have g: "goodRoot ?dir" and u: "local_up ?dir (e_fs e)" using assms(4) by (simp_all add: landing_def)
  have ready: "dirReady ?dir f" if "landing ?dir f" for f
    using that dir_above [of "Clean ?dir"] elem_below by (fastforce simp: dirReady_def landing_def local_up_def)
  have "\<exists>got s1. sGet st (manifestPath ?ns) (e_store e) = (got, s1) \<and> up s1 \<and> isDir s1 = isDir (e_store e) \<and>
      (case ?c (manifestPath ?ns) of None \<Rightarrow> \<exists>err. got = Inl err \<and> errorsIs err ErrNotFound | Some bs \<Rightarrow> got = Inr bs)"
    using get_up [OF assms(1) mp] get_up_missing [OF assms(1) mp] assms(10)
    by (cases "?c (manifestPath ?ns)") (auto simp: nsClear_def)
  then obtain got s1 where s1: "sGet st (manifestPath ?ns) (e_store e) = (got, s1)" "up s1" "isDir s1 = isDir (e_store e)"
    "case ?c (manifestPath ?ns) of None \<Rightarrow> \<exists>err. got = Inl err \<and> errorsIs err ErrNotFound | Some bs \<Rightarrow> got = Inr bs"
    by blast
  have c1: "contents s1 = ?c" using get_frame [OF ok mp s1(1)] by simp
  have rd: "manifestReadable st ?ns (e_store e)"
    using s1(1,4) by (auto simp: manifestReadable_def split: option.splits)
  let ?start = "e\<lparr>e_store := s1, e_uploadedFiles := []\<rparr>"
  have "\<exists>e2. (case got of Inl _ \<Rightarrow> (None, ?start) | Inr bs \<Rightarrow> recoverManifest st J bs ?start) = (None, e2) \<and>
      up (e_store e2) \<and> isDir (e_store e2) = isDir (e_store e) \<and> landing ?dir (e_fs e2) \<and> fs_dirs (e_fs e2) = fs_dirs (e_fs e) \<and>
      (?c (manifestPath ?ns) = None \<longrightarrow> e_uploadedFiles e2 = [])"
  proof (cases "?c (manifestPath ?ns)")
    case None
    then show ?thesis using s1 assms(4) by auto
  next
    case (Some bs)
    then obtain m where m: "decodeManifest J bs = Inr m"
      using assms(11) by (auto simp: durable_def durableBase_def split: option.splits sum.splits)
    have "\<forall>mf \<in> set (mn_files m). plainElem (mf_name mf) \<and> mf_name mf \<noteq> ''localwal'' \<and> ?c (dataPath ?ns (mf_name mf)) \<noteq> None"
      using assms(8,9) Some m by (auto simp: manifestTidy_def filesClear_def)
    then show ?thesis
      using downloadLoop_answers [of "?start\<lparr>e_manifestVersion := mn_version m\<rparr>" "mn_files m"] s1 c1 assms(2,4) Some m
      by (auto simp: recoverManifest_def)
  qed
  then obtain e2 where e2: "(case got of Inl _ \<Rightarrow> (None, ?start) | Inr bs \<Rightarrow> recoverManifest st J bs ?start) = (None, e2)"
    "up (e_store e2)" "isDir (e_store e2) = isDir (e_store e)" "landing ?dir (e_fs e2)" "fs_dirs (e_fs e2) = fs_dirs (e_fs e)"
    "?c (manifestPath ?ns) = None \<longrightarrow> e_uploadedFiles e2 = []"
    by (elim exE conjE)
  have "\<exists>db. pOpen P (dirMap (e_localDir e2) (e_fs e2)) = Inr db"
  proof (cases "?c (manifestPath ?ns)")
    case None
    then have "e2 = ?start" using e2(1) s1(4) by auto
    then show ?thesis using open_empty dirMap_eq [of Map.empty ?dir "e_fs e"] assms(6) by auto
  next
    case (Some bs)
    then obtain m db where m: "decodeManifest J bs = Inr m" "pOpen P (checkpointFiles ?c ?ns (mn_files m)) = Inr db"
      using assms(11) by (auto simp: durable_def durableBase_def split: option.splits sum.splits)
    have "ok s1" using up_inv [OF s1(2)] .
    then show ?thesis
      using recover_dirMap [of ?start bs m e2] m c1 Some s1(4) e2(1) ready [OF assms(4)] assms(2,6,8) by simp
  qed
  then obtain db where db: "pOpen P (dirMap (e_localDir e2) (e_fs e2)) = Inr db" by blast
  obtain s2 f2 U v where r2: "e2 = e\<lparr>e_store := s2, e_fs := f2, e_uploadedFiles := U, e_manifestVersion := v, e_maxWALSeq := baseSeq J ?c ?ns\<rparr>"
    "ok s2" "contents s2 = ?c" "\<forall>x. local_contents ?dir f2 (''localwal'' @ sep # x) = None"
    "durableBase P view J ?c ?ns = Some (baseSeq J ?c ?ns, view db)"
    using recover_files [OF ok assms(2) ready [OF assms(4)] assms(6,7,8) rd s1(1) e2(1) db] by (elim exE conjE)
  have e2s: "up s2" "isDir s2 = isDir (e_store e)" "landing ?dir f2" "fs_dirs f2 = fs_dirs (e_fs e)"
    using e2(2-5) r2(1) by simp_all
  obtain es s3 where l: "listWALs st ?ns s2 = (Inr es, s3)" "up s3" "contents s3 = ?c" "isDir s3 = isDir (e_store e)"
    using listWALs_answers [of s2 ?ns] e2s(1,2) assms(2,3,10) r2(3) by auto
  have ls: "map we_seq es = walSeqs ?c ?ns" "sorted (map we_seq es)" "distinct (map we_seq es)"
    using listWALs_seqs [OF r2(2) assms(2) _ l(1)] listWALs_ok(3,4) [OF r2(2) assms(2) _ l(1)] assms(3) r2(3) by simp_all
  let ?e3 = "e2\<lparr>e_db := Some db\<rparr>"
  have rs: "replaySeqs P ?c ?ns (filter (\<lambda>q. baseSeq J ?c ?ns < q) (map we_seq es)) (view db) \<noteq> None"
    using assms(11) r2(5) by (simp add: durable_def ls(1))
  have e2f: "e_ns e2 = ?ns" "e_maxWALSeq e2 = baseSeq J ?c ?ns" "e_fs e2 = f2" "e_localDir e2 = ?dir" using r2(1) by simp_all
  then have "\<exists>e4. replayLoop st P es (?e3\<lparr>e_store := s3\<rparr>) = (None, e4) \<and> e_fs e4 = f2 \<and> e_localDir e4 = ?dir \<and>
      up (e_store e4) \<and> isDir (e_store e4) = isDir (e_store e) \<and> e_uploadedFiles e4 = e_uploadedFiles e2"
    using replayLoop_answers [of "?e3\<lparr>e_store := s3\<rparr>" db es] l(2-4) ls(2,3) assms(2) rs by simp
  then obtain e4 where e4: "replayLoop st P es (?e3\<lparr>e_store := s3\<rparr>) = (None, e4)" "e_fs e4 = f2" "e_localDir e4 = ?dir"
      "up (e_store e4)" "isDir (e_store e4) = isDir (e_store e)" "e_uploadedFiles e4 = e_uploadedFiles e2"
    by blast
  define e5 where "e5 = (if e_consistency e = ConsistencyStrong then e4 else ?e3)"
  have e5: "e_fs e5 = f2" "e_localDir e5 = ?dir" "up (e_store e5)" "isDir (e_store e5) = isDir (e_store e)" "e_uploadedFiles e5 = e_uploadedFiles e2"
    using e4(2-6) e2(2,3) e2f by (simp_all add: e5_def)
  have "replayWALs st P ?e3 = (None, e4)" using l(1) e4(1) r2(1) by (simp add: replayWALs_def)
  then have "(if e_consistency ?e3 = ConsistencyStrong then replayWALs st P ?e3 else (None, ?e3)) = (None, e5)"
    using r2(1) by (simp add: e5_def)
  moreover have "replayLocalWALs P e5 = (None, e5)"
    using replayLocal_answers [of e5] e5(1,2) e2s(3,4) r2(4) assms(5) by (auto simp: local_isDir_def)
  ultimately have "recover st P J e = (None, e5)"
    using s1(1) e2(1) db by (simp add: recover_def Let_def)
  then show ?thesis using e5 e2(6) e2s(3) by (simp add: landing_def)
qed

text \<open>In either consistency mode.\<close>

lemma Open_answers_any:
  assumes "o_hasStore opts" "openReady st J contents ok (opts\<lparr>o_consistency := ConsistencyStrong\<rparr>) s f" "up s" "dirEmpty (o_dir opts) f"
    "nsClear (contents s) (isDir s) (o_namespace (defaultOptions opts))" "filesClear J (contents s) (o_namespace (defaultOptions opts))"
    "durable P view J (contents s) (o_namespace (defaultOptions opts)) \<noteq> None"
  shows "\<exists>e s' f'. engine_Open st P J opts s f = (Inr e, s', f') \<and> up (e_store e) \<and> isDir (e_store e) = isDir s \<and> local_up (o_dir opts) (e_fs e) \<and>
    (contents s (manifestPath (o_namespace (defaultOptions opts))) = None \<longrightarrow> e_uploadedFiles e = [])"
proof -
  let ?o = "defaultOptions opts" and ?ns = "o_namespace (defaultOptions opts)" and ?dir = "o_dir opts"
  have d: "o_dir ?o = o_dir opts" "o_consistency ?o = o_consistency opts" by (simp_all add: defaultOptions_def)
  have "o_namespace (defaultOptions (opts\<lparr>o_consistency := ConsistencyStrong\<rparr>)) = ?ns" by (simp add: defaultOptions_def)
  then have R: "nsTidy J (contents s) ?ns" "goodRoot ?dir" "local_contents ?dir f = Map.empty"
    using assms(2) by (simp_all add: openReady_def Let_def)
  note tidy = nsTidyD [OF R(1)]
  have u: "local_up ?dir f" "\<And>q. \<not> local_isDir ?dir f q" using assms(4) by (simp_all add: dirEmpty_def)
  note U = local_root.upD [OF local_root.intro [OF R(2)] u(1)]
  obtain es s1 where l: "listWALs st ?ns s = (Inr es, s1)" "up s1" "isDir s1 = isDir s" "contents s1 = contents s"
    using listWALs_answers [OF assms(3) tidy(2,1) assms(5)] by blast
  obtain wal where n: "NewManager st ?ns (o_batchWindow ?o) s = (Inr wal, s1)" by (simp add: NewManager_def l(1))
  have nf: "\<not> isFile g p" if "filesOK ?dir (fs_files f) (fs_dirs f)" "p \<in> set (fs_dirs f)" "fs_files g = fs_files f" for g p
    using that by (auto simp: filesOK_def isFile_def)
  define f1 where "f1 = f\<lparr>fs_dirs := List.union (ancestors (Clean ?dir)) (fs_dirs f)\<rparr>"
  have f1: "MkdirAll (Clean ?dir) f = (Inr (), f1)"
    using nf [OF U(4)] U(2,3) by (auto simp: MkdirAll_def list_ex_iff f1_def)
  let ?w = "Clean ?dir @ sep # ''localwal''"
  define f2 where "f2 = f1\<lparr>fs_dirs := List.union (ancestors ?w) (fs_dirs f1)\<rparr>"
  have anc: "p \<in> set (ancestors (Clean ?dir)) \<or> p = ?w" if "p \<in> set (ancestors ?w)" for p
    using that dir_above [of "Clean ?dir" "''localwal''" p] elem_below [of "''localwal''"]
    by (auto simp: ancestors_iff plainElem_def sep_def)
  have "local_contents ?dir f ''localwal'' = None" by (simp add: R(3))
  then have "\<not> isFile f ?w"
    using local_root.contents_file [OF local_root.intro [OF R(2)], of "''localwal''" f] by simp
  then have "\<not> list_ex (isFile f1) (ancestors ?w)"
    using anc nf [OF U(4)] U(3) by (auto simp: list_ex_iff f1_def isFile_def)
  moreover have "nextFault f1 = (None, f1)" using u(1) by (simp add: f1_def nextFault_none local_up_def)
  ultimately have f2: "MkdirAll (Join [?dir, ''localwal'']) f1 = (Inr (), f2)"
    using Join_root [OF R(2), of "''localwal''"] by (simp add: MkdirAll_def f2_def)
  have ds: "set (fs_dirs f2) = insert ?w (set (fs_dirs f))"
  proof -
    have "set (ancestors (Clean ?dir)) \<subseteq> set (fs_dirs f)" "set (ancestors ?w) \<subseteq> insert ?w (set (fs_dirs f))"
      using U(3) anc by blast+
    moreover have "?w \<in> set (ancestors ?w)" by (simp add: ancestors_iff)
    ultimately show ?thesis by (auto simp: f1_def f2_def)
  qed
  have dr: "dirReady ?dir f2" "local_contents ?dir f2 = Map.empty"
    using MkdirAll_ready [OF R(2) U(1) f1 f2] R(3) by simp_all
  have land: "landing ?dir f2" "local_isDir ?dir f2 ''localwal''"
    using R(2) u dr(1) ds by (auto simp: landing_def local_up_def local_isDir_def dirReady_def f1_def f2_def)
  define e0 :: "('s, 'db) engine" where
    "e0 = \<lparr>e_ns = ?ns, e_store = s1, e_fs = f2, e_wal = wal, e_localDir = ?dir,
       e_consistency = o_consistency opts, e_asyncWAL = o_asyncWAL ?o, e_db = None, e_maxWALSeq = 0,
       e_uploadedFiles = [], e_orphanWALTTL = o_orphanWALTTL ?o, e_batchWindow = o_batchWindow ?o,
       e_maxLocalBytes = o_maxLocalBytes ?o, e_manifestVersion = 0, e_metrics = noMetrics,
       e_coldMissCount = 0, e_recovering = False, e_coldMissThresh = o_coldMissThreshold ?o,
       e_errCh = [], e_healthy = False, e_ready = False, e_async = []\<rparr>"
  have e0: "e_store e0 = s1" "e_ns e0 = ?ns" "e_fs e0 = f2" "e_localDir e0 = ?dir" "e_maxWALSeq e0 = 0"
    by (simp_all add: e0_def)
  obtain e' where r: "recover st P J e0 = (None, e')" "up (e_store e')" "isDir (e_store e') = isDir s" "local_up ?dir (e_fs e')"
      "contents s (manifestPath ?ns) = None \<longrightarrow> e_uploadedFiles e' = []"
    using recover_answers [of e0, unfolded e0, OF l(2) tidy(1) _ land dr(2)] tidy(2,3) l(3,4) assms(5-7) by auto
  have "?dir \<noteq> []" using goodRoot_not_Nil [OF R(2)] .
  then show ?thesis
    using assms(1) n f1 f2 r by (simp add: engine_Open_def Let_def d e0_def)
qed

lemma Open_answers:
  assumes "o_hasStore opts" "openReady st J contents ok opts s f" "up s" "dirEmpty (o_dir opts) f"
    "nsClear (contents s) (isDir s) (o_namespace (defaultOptions opts))" "filesClear J (contents s) (o_namespace (defaultOptions opts))"
    "durable P view J (contents s) (o_namespace (defaultOptions opts)) \<noteq> None"
  shows "\<exists>e s' f'. engine_Open st P J opts s f = (Inr e, s', f') \<and> up (e_store e) \<and> isDir (e_store e) = isDir s \<and> local_up (o_dir opts) (e_fs e) \<and>
    (contents s (manifestPath (o_namespace (defaultOptions opts))) = None \<longrightarrow> e_uploadedFiles e = [])"
proof -
  have "opts\<lparr>o_consistency := ConsistencyStrong\<rparr> = opts" using assms(2) by (cases opts) (simp add: openReady_def Let_def)
  then show ?thesis using Open_answers_any [OF assms(1) _ assms(3-7)] assms(2) by simp
qed

end

section \<open>The stores of the repository\<close>

interpretation exLive: live_engine exStore exContents "\<lambda>_. True" refPebble exView "map_of \<circ> r_flushed" refCodec "\<lambda>_. True" "\<lambda>_ _. False" "\<lambda>_. 0"
  unfolding exStore_def by unfold_locales (auto simp: refPebble_def refCodec_def refUnmarshal_marshal)

interpretation localLive: live_engine "local_store ''/data''" "local_contents ''/data''" "local_inv ''/data''" refPebble exView "map_of \<circ> r_flushed" refCodec
    "local_up ''/data''" "local_isDir ''/data''" fs_clock
  by unfold_locales (simp_all add: refPebble_def refCodec_def refUnmarshal_marshal)

section \<open>Properties\<close>

text \<open>C15: recovery succeeds. When the store answers, nothing is in the way of the names of the
  namespace, the local directory exists and is empty and its file system works, and the
  objects of the namespace have a durable state, then \<open>engine_Open\<close> returns an engine, and what
  the engine shows is the durable state.\<close>

theorem recovery_succeeds:
  assumes "live_engine st contents ok P view flushed J up isDir clock" "o_hasStore opts" "openReady st J contents ok opts s f" "up s"
    "dirEmpty (o_dir opts) f" "nsClear (contents s) (isDir s) (o_namespace (defaultOptions opts))"
    "filesClear J (contents s) (o_namespace (defaultOptions opts))"
    "durable P view J (contents s) (o_namespace (defaultOptions opts)) \<noteq> None"
  shows "\<exists>e s' f'. engine_Open st P J opts s f = (Inr e, s', f') \<and>
    durable P view J (contents s) (o_namespace (defaultOptions opts)) = Some (view (the (e_db e)))"
proof -
  obtain e s' f' where o: "engine_Open st P J opts s f = (Inr e, s', f')" using live_engine.Open_answers [OF assms] by blast
  note k = cloud_engine.Open_ok [OF live_engine.axioms(1) [OF assms(1)] assms(3) o]
  show ?thesis using o k(1,5) by auto
qed

definition exFsUp :: fs where
  "exFsUp = \<lparr>fs_files = [], fs_dirs = [[], ''/cache''], fs_clock = 5, fs_faults = []\<rparr>"

lemma exFsUp_empty: "dirEmpty ''/cache'' exFsUp" "local_inv ''/cache'' exFsUp" "local_contents ''/cache'' exFsUp = Map.empty"
proof -
  show i: "local_inv ''/cache'' exFsUp" by (simp add: local_inv_def filesOK_def faultsOK_def exFsUp_def)
  show c: "local_contents ''/cache'' exFsUp = Map.empty" by (simp add: local_contents_def filesView_def exFsUp_def fun_eq_iff)
  have "set (ancestors (Clean ''/cache'')) \<subseteq> set (fs_dirs exFsUp)"
    by (simp add: cache_paths(1) ancestors_def sep_def exFsUp_def upt_rec)
  then show "dirEmpty ''/cache'' exFsUp"
    using i c by (simp add: dirEmpty_def local_up_def local_isDir_def cache_paths(1)) (simp add: exFsUp_def)
qed

lemma ready_up:
  assumes "openReady exStore refCodec exContents (\<lambda>_. True) exOpts c exFs"
  shows "openReady exStore refCodec exContents (\<lambda>_. True) exOpts c exFsUp"
  using assms exFsUp_empty(2,3) by (simp add: openReady_def Let_def opts0_ns)

theorem recovery_succeeds_witness:
  "\<exists>e s f. engine_Open exStore refPebble refCodec exOpts [(walPath ''t'' 1, refRepr [OpSet [1] [2]])] exFsUp = (Inr e, s, f) \<and>
    exView (the (e_db e)) = [[1] \<mapsto> [2]]"
proof -
  let ?c = "[(walPath ''t'' 1, refRepr [OpSet [1] [2]])]"
  have m: "exContents ?c (manifestPath ''t'') = None" using walPath_max(2) [of 1] by (simp add: exContents manifestPath_def cache_paths)
  have r: "openReady exStore refCodec exContents (\<lambda>_. True) exOpts ?c exFsUp"
    by (rule ready_up, rule ready0) (use m in \<open>auto simp: manifestTidy_def exContents split: if_splits\<close>)
  have s: "walSeqs (exContents ?c) ''t'' = [1]"
  proof -
    have "{q. exContents ?c (walPath ''t'' q) \<noteq> None} = {1}" by (auto simp: exContents walPath_inj [OF plain_t] split: if_splits)
    then show ?thesis by (simp add: walSeqs_def)
  qed
  have d: "durable refPebble exView refCodec (exContents ?c) ''t'' = Some [[1] \<mapsto> [2]]"
    using m refRepr_parse [of "[OpSet [1] [2]]"] by (simp add: durable_def durableBase_def s) (simp add: exContents refPebble_def)
  have "\<not> HasPrefix ''t/manifest'' (walPath ''t'' 1 @ [sep])" "\<not> HasPrefix (''t'' @ sep # walDir) (walPath ''t'' 1 @ [sep])"
    by (simp_all add: wal_path1 sep_def walDir_def)
  then have n: "nsClear (exContents ?c) (\<lambda>_. False) ''t''"
    by (auto simp: nsClear_def vacant_def exContents manifestPath_def cache_paths split: if_splits)
  have fc: "filesClear refCodec (exContents ?c) ''t''" using m by (simp add: filesClear_def)
  have o: "o_hasStore exOpts" "o_dir exOpts = ''/cache''" by (simp_all add: exOpts_def)
  show ?thesis
    using recovery_succeeds [OF exLive.live_engine_axioms o(1) r TrueI, unfolded o(2) opts0_ns(1), OF exFsUp_empty(1) n fc] d by auto
qed

end
