(* ===== verification/EngineLiveness.thy ===== *)
theory EngineLiveness
  imports RecoveryLiveness
begin

text \<open>
  The engine gets its work done: on a store that answers, with nothing in the way of the names
  the engine uses, every write in synchronous mode is acknowledged, every sync succeeds and
  every key is read back, and all of this still holds afterwards.

  \<open>enginePath\<close> are the names of a namespace, \<open>roomFor\<close> says that they are free of directories and
  of objects above them, and the locale \<open>working_engine\<close> adds to \<open>live_engine\<close> that Pebble and the
  JSON encoder do not fail.
\<close>

section \<open>The options of an engine\<close>

text \<open>Recovery keeps the log manager and the options of the engine.\<close>

definition settings :: "('s, 'db) engine \<Rightarrow> manager \<times> string \<times> bool \<times> int \<times> consistencyLevel \<times> int \<times> bool" where
  "settings e = (e_wal e, e_localDir e, e_asyncWAL e, e_coldMissThresh e, e_consistency e, e_maxLocalBytes e, e_recovering e)"

lemma settings_update [simp]:
  "settings (e\<lparr>e_store := s\<rparr>) = settings e" "settings (e\<lparr>e_fs := f\<rparr>) = settings e" "settings (e\<lparr>e_db := d\<rparr>) = settings e"
  "settings (e\<lparr>e_uploadedFiles := u\<rparr>) = settings e" "settings (e\<lparr>e_manifestVersion := v\<rparr>) = settings e"
  "settings (e\<lparr>e_maxWALSeq := q\<rparr>) = settings e" "settings (e\<lparr>e_healthy := h\<rparr>) = settings e" "settings (e\<lparr>e_ready := h\<rparr>) = settings e"
  by (simp_all add: settings_def)

lemma loops_keep_settings [simp]:
  "settings (snd (replayLoop st P es e)) = settings e"
  "settings (snd (replayLocalLoop P sub names e)) = settings e"
  "settings (snd (downloadLoop st mfs e)) = settings e"
proof -
  show "settings (snd (replayLoop st P es e)) = settings e"
    by (induction es arbitrary: e) (simp_all split: prod.split sum.split)
  show "settings (snd (replayLocalLoop P sub names e)) = settings e"
    by (induction names arbitrary: e) (simp_all add: Let_def split: prod.split sum.split)
  show "settings (snd (downloadLoop st mfs e)) = settings e"
    by (induction mfs arbitrary: e) (simp_all add: Let_def split: prod.split sum.split)
qed

lemma recovery_keeps_settings [simp]:
  "settings (snd (recoverManifest st J d e)) = settings e"
  "settings (snd (replayWALs st P e)) = settings e"
  "settings (snd (replayLocalWALs P e)) = settings e"
proof -
  have d: "settings e1 = settings e" if "downloadLoop st mfs e = (r, e1)" for mfs r e1 and e :: "('a, 'b) engine"
    using loops_keep_settings(3) [of st mfs e] that by simp
  show "settings (snd (recoverManifest st J d e)) = settings e"
    by (auto simp: recoverManifest_def dest: d split: sum.split prod.split option.split)
  show "settings (snd (replayWALs st P e)) = settings e" by (simp add: replayWALs_def split: sum.split prod.split)
  show "settings (snd (replayLocalWALs P e)) = settings e" by (simp add: replayLocalWALs_def Let_def split: sum.split prod.split)
qed

lemma recover_keeps_settings: "settings (snd (recover st P J e)) = settings e"
proof -
  obtain got s1 where g: "sGet st (manifestPath (e_ns e)) (e_store e) = (got, s1)" by fastforce
  let ?e1 = "e\<lparr>e_store := s1, e_uploadedFiles := []\<rparr>"
  obtain r e2 where r: "(case got of Inl _ \<Rightarrow> (None, ?e1) | Inr manifestBytes \<Rightarrow> recoverManifest st J manifestBytes ?e1) = (r, e2)" by fastforce
  have 2: "settings e2 = settings e"
  proof (cases got)
    case (Inr d)
    then show ?thesis using r recovery_keeps_settings(1) [of st J d ?e1] by simp
  qed (use r in auto)
  show ?thesis
  proof (cases "pOpen P (dirMap (e_localDir e2) (e_fs e2))")
    case (Inr db)
    let ?e3 = "e2\<lparr>e_db := Some db\<rparr>"
    obtain r4 e4 where 4: "(if e_consistency ?e3 = ConsistencyStrong then replayWALs st P ?e3 else (None, ?e3)) = (r4, e4)" by fastforce
    have "settings e4 = settings ?e3"
      using 4 recovery_keeps_settings(2) [of st P ?e3] by (metis snd_conv)
    moreover obtain r5 e5 where 5: "replayLocalWALs P e4 = (r5, e5)" by fastforce
    then have "settings e5 = settings e4" using recovery_keeps_settings(3) [of P e4] by simp
    ultimately show ?thesis
      unfolding recover_def g Let_def prod.case r using Inr 2 by (simp only: 4 5 sum.case prod.case split: option.split) simp
  qed (use 2 in \<open>simp add: recover_def g r split: option.split\<close>)
qed

lemma Open_settings:
  assumes "engine_Open st P J opts s f = (Inr e, s', f')"
  shows "m_batchWindow (e_wal e) = o_batchWindow (defaultOptions opts)" "\<not> m_closed (e_wal e)" "e_localDir e = o_dir opts"
    "e_asyncWAL e = o_asyncWAL opts" "e_coldMissThresh e = o_coldMissThreshold (defaultOptions opts)" "e_consistency e = o_consistency opts"
    "e_maxLocalBytes e = o_maxLocalBytes opts" "\<not> e_recovering e"
proof -
  have d: "o_dir (defaultOptions opts) = o_dir opts" "o_asyncWAL (defaultOptions opts) = o_asyncWAL opts"
    "o_consistency (defaultOptions opts) = o_consistency opts" "o_maxLocalBytes (defaultOptions opts) = o_maxLocalBytes opts"
    by (simp_all add: defaultOptions_def)
  obtain wal s1 f2 er where w: "NewManager st (o_namespace (defaultOptions opts)) (o_batchWindow (defaultOptions opts)) s = (Inr wal, s1)"
    "recover st P J \<lparr>e_ns = o_namespace (defaultOptions opts), e_store = s1, e_fs = f2, e_wal = wal, e_localDir = o_dir opts,
       e_consistency = o_consistency opts, e_asyncWAL = o_asyncWAL opts, e_db = None, e_maxWALSeq = 0,
       e_uploadedFiles = [], e_orphanWALTTL = o_orphanWALTTL (defaultOptions opts), e_batchWindow = o_batchWindow (defaultOptions opts),
       e_maxLocalBytes = o_maxLocalBytes opts, e_manifestVersion = 0, e_metrics = noMetrics,
       e_coldMissCount = 0, e_recovering = False, e_coldMissThresh = o_coldMissThreshold (defaultOptions opts),
       e_errCh = [], e_healthy = False, e_ready = False, e_async = []\<rparr> = (None, er)" "e = er\<lparr>e_healthy := True, e_ready := True\<rparr>"
    using assms unfolding engine_Open_def Let_def d by (auto split: if_splits prod.splits sum.splits option.splits)
  have "settings e = (wal, o_dir opts, o_asyncWAL opts, o_coldMissThreshold (defaultOptions opts), o_consistency opts, o_maxLocalBytes opts, False)"
    using arg_cong [OF w(2), of "\<lambda>p. settings (snd p)"] w(3) by (simp add: recover_keeps_settings) (simp add: settings_def)
  moreover have "m_batchWindow wal = o_batchWindow (defaultOptions opts)" "\<not> m_closed wal"
    using w(1) by (auto simp: NewManager_def split: prod.splits sum.splits)
  ultimately show "m_batchWindow (e_wal e) = o_batchWindow (defaultOptions opts)" "\<not> m_closed (e_wal e)" "e_localDir e = o_dir opts"
    "e_asyncWAL e = o_asyncWAL opts" "e_coldMissThresh e = o_coldMissThreshold (defaultOptions opts)" "e_consistency e = o_consistency opts"
    "e_maxLocalBytes e = o_maxLocalBytes opts" "\<not> e_recovering e"
    by (simp_all add: settings_def)
qed

text \<open>What writes and syncs leave as it is.\<close>

definition steady :: "('s, 'db) engine \<Rightarrow> string \<times> string \<times> fs \<times> bool \<times> int \<times> int \<times> bool" where
  "steady e = (e_ns e, e_localDir e, e_fs e, m_closed (e_wal e), m_batchWindow (e_wal e), e_coldMissThresh e, e_recovering e)"

section \<open>Room for the objects of a namespace\<close>

definition enginePath :: "string \<Rightarrow> string \<Rightarrow> bool" where
  "enginePath ns p \<longleftrightarrow> p = ns @ sep # ''manifest'' \<or>
     (\<exists>d n. d \<in> {walDir, ''data'', ''manifests''} \<and> plainElem n \<and> p = ns @ sep # d @ sep # n)"

definition roomFor :: "(string \<Rightarrow> bytes option) \<Rightarrow> (string \<Rightarrow> bool) \<Rightarrow> string \<Rightarrow> bool" where
  "roomFor c isDir ns \<longleftrightarrow> (\<forall>p. enginePath ns p \<longrightarrow> vacant c isDir p) \<and>
     (\<forall>p. c p \<noteq> None \<and> HasPrefix p (manifestVersionsPrefix ns) \<longrightarrow> enginePath ns p)"

lemma enginePath_names [simp]:
  assumes "plainPath ns"
  shows "enginePath ns (walPath ns q)" "enginePath ns (manifestPath ns)" "enginePath ns (manifestVersionPath ns v)"
    "plainElem n \<Longrightarrow> enginePath ns (dataPath ns n)"
  using assms plainElem_wal plainElem_json
  by (auto simp: enginePath_def walPath_eq manifestPath_eq manifestVersionPath_eq dataPath_eq)

lemma enginePath_plain:
  assumes "plainPath ns" "enginePath ns p"
  shows "plainPath p"
proof -
  have "plainPath d" if "d \<in> {walDir, ''data'', ''manifests''}" for d using that by auto
  then have "plainPath (ns @ sep # d @ sep # n)" if "d \<in> {walDir, ''data'', ''manifests''}" "plainElem n" for d n
    using that assms(1) plainPath_elem [OF that(2)] by (simp only: plainPath_slash simp_thms)
  note dirs = this
  from assms(2) show ?thesis
    unfolding enginePath_def by (elim disjE exE conjE) (simp_all only: dirs, use assms(1) in simp)
qed

lemma enginePath_apart:
  assumes "enginePath ns p" "enginePath ns q"
  shows "apart p q"
proof -
  have "\<not> HasPrefix p (q @ [sep])" if pq: "enginePath ns p" "enginePath ns q" for p q
  proof
    assume "HasPrefix p (q @ [sep])"
    then obtain t where t: "p = q @ sep # t" by (auto simp: HasPrefix_iff)
    have split: "a @ sep # b = c @ sep # d \<Longrightarrow> sep \<notin> set a \<Longrightarrow> sep \<notin> set c \<Longrightarrow> a = c \<and> b = d" for a b c d
      by (induction a arbitrary: c) (auto simp: Cons_eq_append_conv)
    from pq(1) consider "p = ns @ sep # ''manifest''" |
      (b) d n where "d \<in> {walDir, ''data'', ''manifests''}" "plainElem n" "p = ns @ sep # d @ sep # n"
      unfolding enginePath_def by blast
    then show False
    proof cases
      case 1
      then show False using pq(2) t by (auto simp: enginePath_def walDir_def sep_def)
    next
      case b
      have nd: "sep \<notin> set d" "sep \<notin> set n" using b(1,2) sep_data by (auto simp: plainElem_def)
      from pq(2) show False
        unfolding enginePath_def
      proof (elim disjE exE conjE)
        assume "q = ns @ sep # ''manifest''"
        then have "d @ sep # n = ''manifest'' @ sep # t" using t b(3) by simp
        then have "d = ''manifest''" using split [of d n "''manifest''" t] nd sep_data(2) by blast
        then show False using b(1) by (auto simp: walDir_def)
      next
        fix d' n' assume q: "d' \<in> {walDir, ''data'', ''manifests''}" "plainElem n'" "q = ns @ sep # d' @ sep # n'"
        then have "sep \<notin> set d'" using sep_data by auto
        moreover have "d @ sep # n = d' @ sep # (n' @ sep # t)" using t b(3) q(3) by simp
        ultimately have "n = n' @ sep # t" using split nd(1) by blast
        then show False using nd(2) by simp
      qed
    qed
  qed
  then show ?thesis using assms by (simp add: apart_def)
qed

lemma roomD:
  assumes "roomFor c isDir ns" "plainPath ns"
  shows "enginePath ns p \<Longrightarrow> vacant c isDir p" "c q \<noteq> None \<Longrightarrow> \<not> HasPrefix (ns @ sep # walDir) (q @ [sep])"
    "c q \<noteq> None \<Longrightarrow> \<not> HasPrefix (ns @ sep # ''manifests'') (q @ [sep])" "nsClear c isDir ns"
proof -
  show v: "enginePath ns p \<Longrightarrow> vacant c isDir p" for p using assms(1) by (simp add: roomFor_def)
  have above: "\<not> HasPrefix d (q @ [sep])" if "c q \<noteq> None" "vacant c isDir (d @ sep # x)" for q d x
    using that unfolding vacant_def HasPrefix_iff by (metis append.assoc)
  show a: "c q \<noteq> None \<Longrightarrow> \<not> HasPrefix (ns @ sep # walDir) (q @ [sep])" for q
  proof -
    assume "c q \<noteq> None"
    moreover have "vacant c isDir ((ns @ sep # walDir) @ sep # padDecimal seqNumWidth 0 @ walExt)"
      using v [OF enginePath_names(1) [OF assms(2), of 0]] assms(2) by (simp add: walPath_eq)
    ultimately show "\<not> HasPrefix (ns @ sep # walDir) (q @ [sep])" by (rule above)
  qed
  show "c q \<noteq> None \<Longrightarrow> \<not> HasPrefix (ns @ sep # ''manifests'') (q @ [sep])"
  proof -
    assume "c q \<noteq> None"
    moreover have "vacant c isDir ((ns @ sep # ''manifests'') @ sep # padDecimal 6 0 @ ''.json'')"
      using v [OF enginePath_names(3) [OF assms(2), of 0]] assms(2) by (simp add: manifestVersionPath_eq)
    ultimately show "\<not> HasPrefix (ns @ sep # ''manifests'') (q @ [sep])" by (rule above)
  qed
  show "nsClear c isDir ns" using v [of "manifestPath ns"] a assms(2) by (simp add: nsClear_def)
qed

section \<open>An engine on a store that answers\<close>

locale working_engine = live_engine st contents ok P view flushed J up isDir clock
  for st :: "'s store" and contents ok and P :: "'db pebble" and view flushed J up isDir clock +
  assumes flush_total: "\<exists>db'. pAsyncFlush P db = Inr db'"
    and checkpoint_total: "\<exists>fls. pCheckpoint P db = Inr fls"
    and checkpoint_local: "pCheckpoint P db = Inr fls \<Longrightarrow> ''localwal'' \<notin> fst ` set fls"
    and get_total: "view db k = Some v \<Longrightarrow> pGet P k db = Inr v"
    and get_total_missing: "view db k = None \<Longrightarrow> pGet P k db = Inl pebbleErrNotFound"
    and marshal_total: "\<exists>bs. jMarshal J m = Inr bs"
begin

definition live :: "string \<Rightarrow> 's \<Rightarrow> bool" where
  "live ns s \<longleftrightarrow> plainPath ns \<and> up s \<and> roomFor (contents s) (isDir s) ns"

lemma put_live:
  assumes "live ns s" "enginePath ns p"
  shows "\<exists>s'. sPut st p d s = (Inr (), s') \<and> live ns s' \<and> contents s' = (contents s)(p \<mapsto> d)"
proof -
  have a: "plainPath ns" "up s" "roomFor (contents s) (isDir s) ns" using assms(1) by (simp_all add: live_def)
  obtain s' where s': "sPut st p d s = (Inr (), s')" "up s'" "contents s' = (contents s)(p \<mapsto> d)"
    "\<forall>q. vacant (contents s) (isDir s) q \<and> apart p q \<longrightarrow> vacant (contents s') (isDir s') q"
    using put_step [OF a(2) enginePath_plain [OF a(1) assms(2)] roomD(1) [OF a(3,1) assms(2)], of d] by blast
  have "vacant (contents s') (isDir s') q" if "enginePath ns q" for q
    using s'(4) roomD(1) [OF a(3,1) that] enginePath_apart [OF assms(2) that] by blast
  moreover have "enginePath ns q" if "contents s' q \<noteq> None" "HasPrefix q (manifestVersionsPrefix ns)" for q
    using that a(3) assms(2) s'(3) by (cases "q = p") (auto simp: roomFor_def)
  ultimately show ?thesis using s' a(1) by (auto simp: live_def roomFor_def)
qed

lemma live_shrinks:
  assumes "live ns s" "up s'" "isDir s' = isDir s" "\<And>p. contents s' p \<noteq> None \<Longrightarrow> contents s p \<noteq> None"
  shows "live ns s'"
proof -
  have "vacant (contents s') (isDir s') p" if "vacant (contents s) (isDir s) p" for p
    using that assms(4) unfolding vacant_def assms(3) by blast
  then show ?thesis using assms(1,2,4) unfolding live_def roomFor_def by blast
qed

lemma delete_live:
  assumes "live ns s" "enginePath ns p"
  shows "\<exists>s'. sDelete st p s = (Inr (), s') \<and> live ns s' \<and> contents s' = (contents s)(p := None)"
proof -
  have a: "plainPath ns" "up s" "roomFor (contents s) (isDir s) ns" using assms(1) by (simp_all add: live_def)
  have p: "plainPath p" using enginePath_plain [OF a(1) assms(2)] .
  obtain s' where s': "sDelete st p s = (Inr (), s')" "up s'" "isDir s' = isDir s"
    using delete_up [OF a(2) p roomD(1) [OF a(3,1) assms(2)]] by blast
  have c: "contents s' = (contents s)(p := None)" using delete_contents [OF up_inv [OF a(2)] p s'(1)] .
  have "live ns s'" by (rule live_shrinks [OF assms(1) s'(2,3)]) (simp add: c split: if_splits)
  then show ?thesis using s'(1) c by blast
qed

lemma list_live:
  assumes "live ns s" "d = walDir \<or> d = ''manifests''" "contents s (ns @ sep # d) = None"
  shows "\<exists>ps s'. sList st ((ns @ sep # d) @ [sep]) s = (Inr ps, s') \<and> live ns s' \<and> contents s' = contents s"
proof -
  have a: "plainPath ns" "up s" "roomFor (contents s) (isDir s) ns" using assms(1) by (simp_all add: live_def)
  have p: "plainPath (ns @ sep # d)" using a(1) assms(2) by auto
  have "\<forall>q. contents s q \<noteq> None \<longrightarrow> \<not> HasPrefix (ns @ sep # d) (q @ [sep])"
    using roomD(2,3) [OF a(3,1)] assms(2) by blast
  then obtain ps s' where l: "sList st ((ns @ sep # d) @ [sep]) s = (Inr ps, s')" "up s'" "isDir s' = isDir s"
    using list_up [OF a(2) p assms(3)] by blast
  then have "contents s' = contents s" using list_frame [OF up_inv [OF a(2)] p] by blast
  then show ?thesis using l live_shrinks [OF assms(1) l(2,3)] by auto
qed

text \<open>Writes.\<close>

lemma write_answers:
  assumes "live (e_ns e) (e_store e)" "\<not> e_asyncWAL e" "walIdle (e_wal e)" "m_ns (e_wal e) = e_ns e" "\<not> m_closed (e_wal e)"
    "e_db e = Some db" "\<not> en_ctxDone env"
  shows "\<exists>e'. writeWALAndApply st P env b e = (Inr (m_nextSeq (e_wal e)), e') \<and> live (e_ns e') (e_store e') \<and>
    steady e' = steady e \<and> e_uploadedFiles e' = e_uploadedFiles e"
proof -
  let ?m = "e_wal e" and ?q = "m_nextSeq (e_wal e)" and ?ch = "m_nextChan (e_wal e)" and ?d = "pRepr P b"
  obtain db' where a: "pApply P b db = Inr db'" using apply_total by blast
  have ns: "plainPath (e_ns e)" using assms(1) by (simp add: live_def)
  obtain s' where s': "sPut st (walPath (e_ns e) ?q) ?d (e_store e) = (Inr (), s')" "live (e_ns e) s'"
    using put_live [OF assms(1) enginePath_names(1) [OF ns]] by blast
  have i: "m_pending ?m = []" "m_waiters ?m = []" "m_inflight ?m = []" "\<forall>x \<in> set (m_delivered ?m). fst x < ?ch"
    using assms(3) by (simp_all add: walIdle_def)
  then have f: "\<forall>x \<in> set (m_delivered ?m). fst x \<noteq> ?ch" by auto
  show ?thesis
    using assms(2,4-7) s' a i(1-3) map_of_fresh [OF f]
    by (cases "m_batchWindow ?m \<le> 0")
      (simp_all add: writeWALAndApply_def WriteRecord_def Let_def enqueue_def awaitCommit_def flushPending_def takePending_def
        wgWait_def upload_single mergeBatchSegments_def meter_def deliver_def applyLocally_def steady_def)
qed

text \<open>Syncing.\<close>

lemma uploadLoop_answers:
  assumes "live (e_ns e) (e_store e)" "fs_faults (e_fs e) = []" "\<forall>x \<in> set entries. plainElem (fst x)"
  shows "\<exists>mfs' s' U. uploadLoop st J prev entries mfs e = (Inr mfs', e\<lparr>e_store := s', e_uploadedFiles := U\<rparr>) \<and> live (e_ns e) s'"
  using assms
proof (induction entries arbitrary: e mfs)
  case Nil
  then show ?case by (intro exI [of _ mfs] exI [of _ "e_store e"] exI [of _ "e_uploadedFiles e"]) simp
next
  case (Cons x entries)
  obtain n d where x: "x = (n, d)" by (cases x)
  let ?p = "dataPath (e_ns e) n" and ?U = "List.insert (dataPath (e_ns e) n) (e_uploadedFiles e)"
  let ?mfs = "mfs @ [\<lparr>mf_name = n, mf_size = length d, mf_checksum = jSha256Hex J d\<rparr>]"
  have nf: "nextFault (e_fs e) = (None, e_fs e)" using Cons.prems(2) by (rule nextFault_none)
  have p: "enginePath (e_ns e) ?p" using Cons.prems(1,3) x by (simp add: live_def)
  have "\<exists>s1. live (e_ns e) s1 \<and>
      uploadLoop st J prev (x # entries) mfs e = uploadLoop st J prev entries ?mfs (e\<lparr>e_store := s1, e_uploadedFiles := ?U\<rparr>)"
  proof (cases "?p \<in> set prev \<and> \<not> isMutable n")
    case True
    moreover have "e\<lparr>e_store := e_store e, e_uploadedFiles := ?U\<rparr> = e\<lparr>e_uploadedFiles := ?U\<rparr>" by (cases e) simp
    ultimately show ?thesis
      using Cons.prems(1) by (intro exI [of _ "e_store e"]) (simp add: x nf Let_def flip: dataPath_def)
  next
    case False
    obtain s1 where "sPut st ?p d (e_store e) = (Inr (), s1)" "live (e_ns e) s1" using put_live [OF Cons.prems(1) p] by blast
    then show ?thesis using False by (intro exI [of _ s1]) (auto simp: x nf Let_def simp flip: dataPath_def)
  qed
  then obtain s1 where s1: "live (e_ns e) s1"
    "uploadLoop st J prev (x # entries) mfs e = uploadLoop st J prev entries ?mfs (e\<lparr>e_store := s1, e_uploadedFiles := ?U\<rparr>)" by blast
  show ?case
    unfolding s1(2) using Cons.IH [of "e\<lparr>e_store := s1, e_uploadedFiles := ?U\<rparr>" ?mfs] s1(1) Cons.prems(2,3) by simp
qed

lemma deleteStale_live: "live ns s \<Longrightarrow> \<forall>p \<in> set ps. enginePath ns p \<Longrightarrow> live ns (deleteStale st names ps s)"
proof (induction ps arbitrary: s)
  case (Cons p ps)
  then obtain s' where "sDelete st p s = (Inr (), s')" "live ns s'" using delete_live [of ns s p] by auto
  then show ?case using Cons by simp
qed simp

lemma deleteAll_live: "live ns s \<Longrightarrow> \<forall>p \<in> set ps. enginePath ns p \<Longrightarrow> live ns (deleteAll st ps s)"
proof (induction ps arbitrary: s)
  case (Cons p ps)
  then obtain s' where "sDelete st p s = (Inr (), s')" "live ns s'" using delete_live [of ns s p] by auto
  then show ?case using Cons by simp
qed simp

lemma pruneManifests_live:
  assumes "live ns s" "nsTidy J (contents s) ns"
  shows "live ns (pruneManifests st ns s)"
proof -
  have ns: "plainPath ns" "plainPath (ns @ sep # ''manifests'')" using nsTidyD(1) [OF assms(2)] by simp_all
  obtain ps s1 where l: "sList st ((ns @ sep # ''manifests'') @ [sep]) s = (Inr ps, s1)" "live ns s1" "contents s1 = contents s"
    using list_live [OF assms(1) _ nsTidyD(4) [OF assms(2)]] by blast
  have "ok s" using assms(1) up_inv by (simp add: live_def)
  then have "set ps = {q. contents s q \<noteq> None \<and> HasPrefix q (manifestVersionsPrefix ns)}"
    using list_ok [OF _ ns(2) nsTidyD(4) [OF assms(2)] l(1)] by (simp add: manifestVersionsPrefix_eq [OF ns(1)])
  then have "\<forall>p \<in> set ps. enginePath ns p" using assms(1) by (auto simp: live_def roomFor_def)
  then have "\<forall>p \<in> set (take k (sort ps)). enginePath ns p" for k using set_take_subset [of k "sort ps"] by auto
  then show ?thesis
    using l deleteAll_live [OF l(2)] by (simp add: pruneManifests_def manifestVersionsPrefix_eq [OF ns(1)])
qed

lemma gcLoop_answers:
  assumes "live ns s" "\<forall>e \<in> set es. we_path e = walPath ns (we_seq e) \<and> we_seq e \<le> maxSeq"
  shows "\<exists>n s'. gcLoop st maxSeq ttl now es k s = ((n, None), s') \<and> live ns s'"
  using assms
proof (induction es arbitrary: s k)
  case (Cons e es)
  have "enginePath ns (we_path e)" using Cons.prems by (simp add: live_def)
  then obtain s' where "sDelete st (we_path e) s = (Inr (), s')" "live ns s'" using delete_live [OF Cons.prems(1)] by blast
  then show ?case using Cons by simp
qed simp

lemma GC_answers:
  assumes "live ns s" "walTidy ns (contents s)" "\<And>q. contents s (walPath ns q) \<noteq> None \<Longrightarrow> q \<le> maxSeq"
  shows "\<exists>n s'. GC st ns maxSeq ttl now s = ((n, None), s') \<and> live ns s'"
proof -
  have a: "plainPath ns" "up s" "roomFor (contents s) (isDir s) ns" using assms(1) by (simp_all add: live_def)
  obtain es s1 where l: "listWALs st ns s = (Inr es, s1)" "up s1" "isDir s1 = isDir s" "contents s1 = contents s"
    using listWALs_answers [OF a(2) assms(2) a(1) roomD(4) [OF a(3,1)]] by blast
  have "\<forall>e \<in> set es. we_path e = walPath ns (we_seq e) \<and> we_seq e \<le> maxSeq"
    using listWALs_ok(5) [OF up_inv [OF a(2)] a(1) assms(2) l(1)] assms(3) by auto
  moreover have "live ns s1" using live_shrinks [OF assms(1) l(2,3)] l(4) by simp
  ultimately show ?thesis using gcLoop_answers l(1) by (simp add: GC_def)
qed

lemma syncUpload_answers:
  assumes "live (e_ns e) (e_store e)" "fs_faults (e_fs e) = []" "nsTidy J (contents (e_store e)) (e_ns e)"
    "set (e_uploadedFiles e) \<subseteq> dataPath (e_ns e) ` {n. plainElem n}" "\<And>q. contents (e_store e) (walPath (e_ns e) q) \<noteq> None \<Longrightarrow> q \<le> e_maxWALSeq e"
    "distinct (map fst entries)" "\<forall>x \<in> set entries. plainElem (fst x)"
    "tablesStored (contents (e_store e)) (e_ns e) (e_uploadedFiles e) entries"
  shows "\<exists>e'. syncUpload st J env entries e = (None, e') \<and> live (e_ns e') (e_store e') \<and> steady e' = steady e \<and>
    (''localwal'' \<notin> fst ` set entries \<longrightarrow> filesClear J (contents (e_store e')) (e_ns e))"
proof -
  let ?c = "contents (e_store e)" and ?ns = "e_ns e" and ?prev = "e_uploadedFiles e"
  have ns: "plainPath ?ns" using nsTidyD(1) [OF assms(3)] .
  have ok: "live ns s \<Longrightarrow> ok s" for ns s using up_inv by (simp add: live_def)
  obtain mfs s1 U where u: "uploadLoop st J ?prev entries [] (e\<lparr>e_uploadedFiles := []\<rparr>) = (Inr mfs, e\<lparr>e_store := s1, e_uploadedFiles := U\<rparr>)"
    and l1: "live ?ns s1"
    using uploadLoop_answers [of "e\<lparr>e_uploadedFiles := []\<rparr>" entries ?prev "[]"] assms(1,2,7) by auto
  obtain s1' f1 U' where up: "e\<lparr>e_store := s1, e_uploadedFiles := U\<rparr> = e\<lparr>e_store := s1', e_fs := f1, e_uploadedFiles := U'\<rparr>"
    "\<forall>p. p \<notin> dataPath ?ns ` fst ` set entries \<longrightarrow> contents s1' p = ?c p" "map mf_name mfs = map fst entries"
    using uploadLoop_ok [OF _ _ assms(7,6) _ u] assms(8) ok [OF assms(1)] ns by auto
  have "s1' = s1" using arg_cong [OF up(1), of e_store] by simp
  then have up1: "\<forall>p. p \<notin> dataPath ?ns ` fst ` set entries \<longrightarrow> contents s1 p = ?c p" "map mf_name mfs = map fst entries"
    using up(2,3) by simp_all
  have tidy1: "nsTidy J (contents s1) ?ns"
    using nsTidy_data [OF assms(3)] up1(1) assms(7) by (metis (mono_tags, lifting) image_iff mem_Collect_eq)
  let ?s2 = "deleteStale st (map fst entries) ?prev s1"
  have prev: "\<forall>p \<in> set ?prev. enginePath ?ns p" "\<forall>p \<in> set ?prev. plainPath p" using assms(4) ns by auto
  have l2: "live ?ns ?s2" using deleteStale_live [OF l1 prev(1)] .
  note r2 = deleteStale_ok [OF ok [OF l1] prev(2), of "map fst entries"]
  have tidy2: "nsTidy J (contents ?s2) ?ns" using nsTidy_removes [OF tidy1 r2(2)] .
  let ?mf = "\<lparr>mn_version = e_manifestVersion e + 1, mn_maxWALSeq = e_maxWALSeq e, mn_createdAt = en_now env,
      mn_prevVersion = e_manifestVersion e, mn_files = mfs\<rparr>"
  obtain bs where j: "jMarshal J ?mf = Inr bs" using marshal_total by blast
  have dec: "decodeManifest J bs = Inr ?mf" using json [OF j] by (simp add: decodeManifest_def)
  let ?vp = "manifestVersionPath ?ns (e_manifestVersion e + 1)"
  obtain s3 where p3: "sPut st ?vp bs ?s2 = (Inr (), s3)" "live ?ns s3" "contents s3 = (contents ?s2)(?vp \<mapsto> bs)"
    using put_live [OF l2 enginePath_names(3) [OF ns]] by blast
  obtain s4 where p4: "sPut st (manifestPath ?ns) bs s3 = (Inr (), s4)" "live ?ns s4"
    "contents s4 = (contents ?s2)(?vp \<mapsto> bs, manifestPath ?ns \<mapsto> bs)"
    using put_live [OF p3(2) enginePath_names(2) [OF ns]] p3(3) by metis
  have names: "\<forall>mf \<in> set mfs. plainElem (mf_name mf)"
    using up1(2) assms(7) by (metis (no_types, lifting) image_iff list.set_map)
  have tidy4: "nsTidy J (contents s4) ?ns"
    unfolding p4(3) using dec names by (intro nsTidy_manifest [OF tidy2]) simp
  let ?s5 = "pruneManifests st ?ns s4"
  have l5: "live ?ns ?s5" using pruneManifests_live [OF p4(2) tidy4] .
  have r5: "removes {p. HasPrefix p (manifestVersionsPrefix ?ns)} (contents s4) (contents ?s5)"
    using pruneManifests_ok [OF ok [OF p4(2)] tidy4] by blast
  have wal: "q \<le> e_maxWALSeq e" if q: "contents ?s5 (walPath ?ns q) \<noteq> None" for q
  proof -
    have "contents s4 (walPath ?ns q) \<noteq> None" using q r5 unfolding removes_def by metis
    then have "contents ?s2 (walPath ?ns q) \<noteq> None" using p4(3) ns by simp
    then have "contents s1 (walPath ?ns q) \<noteq> None" using r2(2) unfolding removes_def by metis
    moreover have "walPath ?ns q \<notin> dataPath ?ns ` fst ` set entries" using ns assms(7) by auto
    ultimately show ?thesis using up1(1) assms(5) by simp
  qed
  obtain n s6 where g: "GC st ?ns (e_maxWALSeq e) (e_orphanWALTTL e) (en_now env) ?s5 = ((n, None), s6)" "live ?ns s6"
    using GC_answers [OF l5 nsTidyD(2) [OF nsTidy_removes [OF tidy4 r5]] wal] by blast
  obtain e' where e': "syncUpload st J env entries e = (None, e')" "e_store e' = s6" "e_ns e' = ?ns" "steady e' = steady e"
    using u j p3(1) p4(1) g(1) by (simp add: syncUpload_def Let_def meter_def steady_def)
  have r6: "removes {walPath ?ns q | q. q \<le> e_maxWALSeq e \<or> 0 < e_orphanWALTTL e} (contents ?s5) (contents s6)"
    using GC_frame(2) [OF ok [OF l5] ns nsTidyD(2) [OF nsTidy_removes [OF tidy4 r5]] g(1)] .
  have "filesClear J (contents s6) ?ns" if nl: "''localwal'' \<notin> fst ` set entries"
    unfolding filesClear_def
  proof (intro allI impI ballI)
    fix bs' m mf assume m: "contents s6 (manifestPath ?ns) = Some bs' \<and> decodeManifest J bs' = Inr m" "mf \<in> set (mn_files m)"
    have "contents s4 (manifestPath ?ns) = Some bs'"
      using m(1) r5 r6 unfolding removes_def by (metis option.distinct(1))
    then have "bs' = bs" using p4(3) by simp
    then have mm: "m = ?mf" using m(1) dec by simp
    then have mf: "mf_name mf \<in> fst ` set entries" using m(2) up1(2) by (metis image_eqI list.set_map manifest.select_convs(5))
    obtain m2 bs2 where k: "contents s6 (manifestPath ?ns) = Some bs2" "decodeManifest J bs2 = Inr m2"
      "checkpointFiles (contents s6) ?ns (mn_files m2) = map_of entries"
      using syncUpload_ok [OF ok [OF assms(1)] assms(3,4,6,7,8) e'(1)] e'(2) by auto
    then have "checkpointFiles (contents s6) ?ns (mn_files m) = map_of entries" using m(1) by simp
    moreover have "map_of entries (mf_name mf) \<noteq> None" using mf by (simp add: map_of_eq_None_iff)
    ultimately have "contents s6 (dataPath ?ns (mf_name mf)) \<noteq> None"
      using m(2) unfolding checkpointFiles_def fun_eq_iff by (metis image_eqI)
    then show "mf_name mf \<noteq> ''localwal'' \<and> contents s6 (dataPath ?ns (mf_name mf)) \<noteq> None" using mf nl by metis
  qed
  then show ?thesis using e' g(2) by auto
qed

lemma Sync_answers:
  assumes "engineInv P view J contents ok e" "syncReady P contents e" "live (e_ns e) (e_store e)" "fs_faults (e_fs e) = []"
  shows "\<exists>e'. Sync st P J env e = (None, e') \<and> live (e_ns e') (e_store e') \<and> steady e' = steady e \<and>
    filesClear J (contents (e_store e')) (e_ns e)"
proof -
  note I = engineInvD [OF assms(1)]
  obtain db1 fls where f: "pAsyncFlush P (the (e_db e)) = Inr db1" "pCheckpoint P db1 = Inr fls"
    using flush_total checkpoint_total by meson
  have n: "distinct (map fst fls)" "list_all (plainElem \<circ> fst) fls" using checkpoint_names [OF f(2)] by auto
  let ?m = "(e_wal e)\<lparr>m_commitTimer := False, m_pendingSeq := 0\<rparr>"
  define e1 where "e1 = e\<lparr>e_db := Some db1, e_wal := ?m, e_store := e_store e\<rparr>"
  have c: "syncCheckpoint st P e = (Inr (sort_key fst fls), e1)"
    using f Flush_idle [OF I(5), of "e_store e"] nextFault_none [OF assms(4)]
    by (cases e) (simp add: syncCheckpoint_def Let_def e1_def)
  have t: "tablesStored (contents (e_store e)) (e_ns e) (e_uploadedFiles e) (sort_key fst fls)"
    using assms(2) f by (simp add: syncReady_def tablesStored_def)
  have d: "distinct (map fst (sort_key fst fls))" "\<forall>x \<in> set (sort_key fst fls). plainElem (fst x)"
    using n by (auto simp: distinct_map list_all_iff)
  have e1: "e_ns e1 = e_ns e" "e_store e1 = e_store e" "e_fs e1 = e_fs e" "e_uploadedFiles e1 = e_uploadedFiles e"
    "e_maxWALSeq e1 = e_maxWALSeq e" "steady e1 = steady e"
    by (simp_all add: e1_def steady_def)
  have "''localwal'' \<notin> fst ` set (sort_key fst fls)" using checkpoint_local [OF f(2)] by auto
  then obtain e2 where "syncUpload st J env (sort_key fst fls) e1 = (None, e2)" "live (e_ns e2) (e_store e2)" "steady e2 = steady e"
      "filesClear J (contents (e_store e2)) (e_ns e)"
    using syncUpload_answers [of e1, unfolded e1, OF assms(3,4) I(2,12) _ d t] I(9) by metis
  then show ?thesis using c by (simp add: Sync_def meter_def steady_def)
qed

text \<open>An engine that serves: its invariant holds, its store answers and its log is not closed.\<close>

definition serving :: "('s, 'db) engine \<Rightarrow> bool" where
  "serving e \<longleftrightarrow> engineInv P view J contents ok e \<and> live (e_ns e) (e_store e) \<and> filesClear J (contents (e_store e)) (e_ns e) \<and>
     \<not> m_closed (e_wal e) \<and> fs_faults (e_fs e) = []"

lemma steadyD:
  assumes "steady e' = steady e"
  shows "e_ns e' = e_ns e" "e_fs e' = e_fs e" "m_closed (e_wal e') = m_closed (e_wal e)"
  using assms by (simp_all add: steady_def)

lemma write_serves:
  assumes "serving e" "m_nextSeq (e_wal e) \<noteq> - 1" "\<not> en_ctxDone env"
  shows "\<exists>e'. writeWALAndApply st P env b e = (Inr (m_nextSeq (e_wal e)), e') \<and> serving e' \<and> steady e' = steady e \<and>
    view (the (e_db e')) = applyOps b (view (the (e_db e))) \<and> m_nextSeq (e_wal e') = m_nextSeq (e_wal e) + 1 \<and>
    e_uploadedFiles e' = e_uploadedFiles e \<and> contents (e_store e') = (contents (e_store e))(walPath (e_ns e) (m_nextSeq (e_wal e)) \<mapsto> pRepr P b)"
proof -
  have s: "engineInv P view J contents ok e" "live (e_ns e) (e_store e)" "filesClear J (contents (e_store e)) (e_ns e)" "\<not> m_closed (e_wal e)"
    "fs_faults (e_fs e) = []"
    using assms(1) by (simp_all add: serving_def)
  note I = engineInvD [OF s(1)]
  obtain e' where w: "writeWALAndApply st P env b e = (Inr (m_nextSeq (e_wal e)), e')" "live (e_ns e') (e_store e')" "steady e' = steady e"
    "e_uploadedFiles e' = e_uploadedFiles e"
    using write_answers [OF s(2) I(4-6) s(4) I(7) assms(3)] by blast
  note k = write_keeps [OF s(1) assms(2) w(1)]
  have "filesClear J (contents (e_store e')) (e_ns e')"
    using s(3) I(3) engine_paths_distinct [OF I(3)] nsTidyD(3) [OF I(2)] unfolding filesClear_def k(5,6) manifestTidy_def
    by (metis fun_upd_apply option.distinct(1))
  then show ?thesis using w k s(4,5) steadyD [OF w(3)] by (intro exI [of _ e']) (simp add: serving_def)
qed

lemma serving_meter [simp]: "serving (meter f e) = serving e" "steady (meter f e) = steady e"
  by (simp_all add: serving_def engineInv_meter(1) steady_def) (simp_all add: meter_def)

lemma Set_serves:
  assumes "serving e" "m_nextSeq (e_wal e) \<noteq> - 1" "\<not> en_ctxDone env"
  shows "\<exists>e'. engine_Set st P env k v e = (None, e') \<and> serving e' \<and> steady e' = steady e \<and>
    view (the (e_db e')) = (view (the (e_db e)))(k \<mapsto> v) \<and> m_nextSeq (e_wal e') = m_nextSeq (e_wal e) + 1 \<and>
    e_uploadedFiles e' = e_uploadedFiles e \<and> contents (e_store e') = (contents (e_store e))(walPath (e_ns e) (m_nextSeq (e_wal e)) \<mapsto> pRepr P [OpSet k v])"
proof -
  obtain e1 where "writeWALAndApply st P env [OpSet k v] e = (Inr (m_nextSeq (e_wal e)), e1)" "serving e1" "steady e1 = steady e"
    "view (the (e_db e1)) = applyOps [OpSet k v] (view (the (e_db e)))" "m_nextSeq (e_wal e1) = m_nextSeq (e_wal e) + 1"
    "e_uploadedFiles e1 = e_uploadedFiles e" "contents (e_store e1) = (contents (e_store e))(walPath (e_ns e) (m_nextSeq (e_wal e)) \<mapsto> pRepr P [OpSet k v])"
    using write_serves [OF assms] by blast
  then show ?thesis by (simp add: engine_Set_def) (simp add: meter_def)
qed

lemma Sync_serves:
  assumes "serving e" "syncReady P contents e"
  shows "\<exists>e'. Sync st P J env e = (None, e') \<and> serving e' \<and> steady e' = steady e \<and> view (the (e_db e')) = view (the (e_db e)) \<and>
    m_nextSeq (e_wal e') = m_nextSeq (e_wal e) \<and> (\<forall>q. contents (e_store e') (walPath (e_ns e) q) = None)"
proof -
  have s: "engineInv P view J contents ok e" "live (e_ns e) (e_store e)" "\<not> m_closed (e_wal e)" "fs_faults (e_fs e) = []"
    using assms(1) by (simp_all add: serving_def)
  obtain e' where w: "Sync st P J env e = (None, e')" "live (e_ns e') (e_store e')" "steady e' = steady e"
    "filesClear J (contents (e_store e')) (e_ns e)"
    using Sync_answers [OF s(1) assms(2) s(2,4)] by blast
  note k = Sync_keeps [OF s(1) assms(2) w(1)]
  show ?thesis using w k s(3,4) steadyD [OF w(3)] by (intro exI [of _ e']) (simp add: serving_def)
qed

lemma Get_answers:
  assumes "e_db e = Some db"
  shows "\<exists>mt n b. engine_Get P k e =
    (case view db k of Some v \<Rightarrow> Inr v | None \<Rightarrow> Inl pebbleErrNotFound, e\<lparr>e_metrics := mt, e_coldMissCount := n, e_recovering := b\<rparr>)"
proof -
  have "fst (engine_Get P k e) = (case view db k of Some v \<Rightarrow> Inr v | None \<Rightarrow> Inl pebbleErrNotFound)"
    using get_total [of db k] get_total_missing [of db k] assms by (cases "view db k") (simp_all add: engine_Get_def Let_def)
  then show ?thesis using Get_frame [of P k e] by (cases "engine_Get P k e") auto
qed

lemma Get_serves:
  assumes "serving e"
  shows "\<exists>e'. engine_Get P k e = (case view (the (e_db e)) k of Some v \<Rightarrow> Inr v | None \<Rightarrow> Inl pebbleErrNotFound, e') \<and> serving e' \<and>
    view (the (e_db e')) = view (the (e_db e))"
proof -
  obtain db where db: "e_db e = Some db" using assms engineInvD(7) [of P view J contents ok e] by (auto simp: serving_def)
  obtain mt n b where g: "engine_Get P k e = (case view db k of Some v \<Rightarrow> Inr v | None \<Rightarrow> Inl pebbleErrNotFound,
      e\<lparr>e_metrics := mt, e_coldMissCount := n, e_recovering := b\<rparr>)"
    using Get_answers [OF db] by blast
  then show ?thesis using assms db by (auto simp: serving_def engineInv_meter)
qed

text \<open>Opening an engine on an empty directory.\<close>

lemma opens_ready:
  assumes "o_consistency opts = ConsistencyStrong" "goodRoot (o_dir opts)" "dirEmpty (o_dir opts) f"
    "o_namespace (defaultOptions opts) = ns" "live ns s" "nsTidy J (contents s) ns" "contents s (walPath ns (- 1)) = None"
  shows "openReady st J contents ok opts s f"
proof -
  have a: "plainPath ns" "up s" "roomFor (contents s) (isDir s) ns" using assms(5) by (simp_all add: live_def)
  have mp: "plainPath (manifestPath ns)" using a(1) by simp
  have clear: "nsClear (contents s) (isDir s) ns" using roomD(4) [OF a(3,1)] .
  obtain es s1 where l: "listWALs st ns s = (Inr es, s1)" "up s1" "isDir s1 = isDir s" "contents s1 = contents s"
    using listWALs_answers [OF a(2) nsTidyD(2) [OF assms(6)] a(1) clear] by blast
  have "manifestReadable st ns s1"
    using get_up [OF l(2) mp] get_up_missing [OF l(2) mp] clear l(3,4)
    by (cases "contents s (manifestPath ns)") (auto simp: manifestReadable_def nsClear_def)
  then show ?thesis
    using assms(1-4,6,7) up_inv [OF a(2)] by (simp add: openReady_def Let_def NewManager_def l(1) dirEmpty_def local_up_def)
qed

lemma Open_serves:
  assumes "o_hasStore opts" "\<not> o_asyncWAL opts" "o_consistency opts = ConsistencyStrong" "goodRoot (o_dir opts)" "dirEmpty (o_dir opts) f"
    "o_namespace (defaultOptions opts) = ns" "live ns s" "nsTidy J (contents s) ns" "filesClear J (contents s) ns"
    "durable P view J (contents s) ns \<noteq> None" "contents s (walPath ns (- 1)) = None"
  shows "\<exists>e s' f'. engine_Open st P J opts s f = (Inr e, s', f') \<and> e_ns e = ns \<and> contents (e_store e) = contents s \<and> local_up (o_dir opts) (e_fs e) \<and>
    durable P view J (contents s) ns = Some (view (the (e_db e))) \<and>
    (baseSeq J (contents s) ns < m_nextSeq (e_wal e) \<longrightarrow> serving e) \<and> (\<forall>q. contents s (walPath ns q) \<noteq> None \<longrightarrow> q < m_nextSeq (e_wal e)) \<and>
    ((\<forall>q. contents s (walPath ns q) = None) \<longrightarrow> m_nextSeq (e_wal e) = 1) \<and> (contents s (manifestPath ns) = None \<longrightarrow> e_uploadedFiles e = [])"
proof -
  have a: "plainPath ns" "up s" "roomFor (contents s) (isDir s) ns" using assms(7) by (simp_all add: live_def)
  have clear: "nsClear (contents s) (isDir s) ns" using roomD(4) [OF a(3,1)] .
  have r: "openReady st J contents ok opts s f" using opens_ready [OF assms(3-8,11)] .
  obtain e s' f' where o: "engine_Open st P J opts s f = (Inr e, s', f')" "up (e_store e)" "isDir (e_store e) = isDir s" "local_up (o_dir opts) (e_fs e)"
    "contents s (manifestPath ns) = None \<longrightarrow> e_uploadedFiles e = []"
    using Open_answers [OF assms(1) r a(2) assms(5)] clear assms(6,9,10) by auto
  note k = Open_ok [OF r o(1), unfolded assms(6)]
  have "live ns (e_store e)" using live_shrinks [OF assms(7) o(2,3)] k(2) by simp
  then have "serving e" if "baseSeq J (contents s) ns < m_nextSeq (e_wal e)"
    using that k(1,2,12) assms(2,9) o(4) Open_settings(2) [OF o(1)] by (simp add: serving_def local_up_def)
  then show ?thesis using o(1,4,5) k(1,2,5,6,7) by (intro exI [of _ e] exI [of _ s'] exI [of _ f']) auto
qed

end

section \<open>The stores of the repository\<close>

interpretation exWorking: working_engine exStore exContents "\<lambda>_. True" refPebble exView "map_of \<circ> r_flushed" refCodec "\<lambda>_. True" "\<lambda>_ _. False" "\<lambda>_. 0"
  by unfold_locales (auto simp: refPebble_def refCodec_def refFile_def)

text \<open>What Pebble and the codec promise does not depend on the store.\<close>

lemma local_working:
  assumes "goodRoot root" "working_engine st contents ok P view flushed J up isDir clock"
  shows "working_engine (local_store root) (local_contents root) (local_inv root) P view flushed J (local_up root) (local_isDir root) fs_clock"
proof -
  note live = working_engine.axioms(1) [OF assms(2)]
  note cloud = live_engine.axioms(1) [OF live]
  have "cloud_engine (local_store root) (local_contents root) (local_inv root) P view flushed J"
    using local_object_store [OF assms(1)] cloud_engine.axioms(2,3) [OF cloud] by (rule cloud_engine.intro)
  then have "live_engine (local_store root) (local_contents root) (local_inv root) P view flushed J (local_up root) (local_isDir root) fs_clock"
    using local_available [OF assms(1)] live_engine.axioms(3) [OF live] by (rule live_engine.intro)
  then show ?thesis using working_engine.axioms(2) [OF assms(2)] by (rule working_engine.intro)
qed

interpretation localWorking: working_engine "local_store ''/data''" "local_contents ''/data''" "local_inv ''/data''" refPebble exView "map_of \<circ> r_flushed" refCodec
    "local_up ''/data''" "local_isDir ''/data''" fs_clock
  by (rule local_working [OF data.good exWorking.working_engine_axioms])

end
