(* ===== verification/EventualMode.thy ===== *)
theory EventualMode
  imports EngineLiveness
begin

text \<open>
  Eventual consistency: an engine opened in this mode starts from the checkpoint alone, and
  \<open>walReplayLoop\<close> replays the log later. One tick of the loop gives the durable state
  when nothing was written in between. A write in between moves \<open>maxWALSeq\<close> past the log
  objects that are still to be replayed, and then they never are: the next sync deletes them.
\<close>

context cloud_engine
begin

text \<open>Recovery in eventual mode computes the state of the checkpoint.\<close>

lemma recover_base:
  assumes "ok (e_store e)" "plainPath (e_ns e)" "dirReady (e_localDir e) (e_fs e)"
    "local_contents (e_localDir e) (e_fs e) = Map.empty" "e_maxWALSeq e = 0" "e_consistency e = ConsistencyEventual"
    "manifestTidy J (contents (e_store e)) (e_ns e)" "manifestReadable st (e_ns e) (e_store e)"
    "recover st P J e = (None, e')"
  shows "\<exists>s' f' U v db'. e' = e\<lparr>e_store := s', e_fs := f', e_uploadedFiles := U, e_manifestVersion := v,
        e_db := Some db', e_maxWALSeq := baseSeq J (contents (e_store e)) (e_ns e)\<rparr> \<and>
      ok s' \<and> contents s' = contents (e_store e) \<and>
      durableBase P view J (contents (e_store e)) (e_ns e) = Some (baseSeq J (contents (e_store e)) (e_ns e), view db') \<and>
      set U \<subseteq> dataPath (e_ns e) ` {n. plainElem n}"
proof -
  let ?c = "contents (e_store e)" and ?ns = "e_ns e"
  obtain got s1 where g: "sGet st (manifestPath ?ns) (e_store e) = (got, s1)"
    by (cases "sGet st (manifestPath ?ns) (e_store e)")
  let ?start = "e\<lparr>e_store := s1, e_uploadedFiles := []\<rparr>"
  obtain r e2 where m0: "(case got of Inl _ \<Rightarrow> (None, ?start) | Inr bs \<Rightarrow> recoverManifest st J bs ?start) = (r, e2)"
    by fastforce
  have "r = None"
    using assms(9) g m0 by (cases r) (simp_all add: recover_def Let_def)
  then have m: "(case got of Inl _ \<Rightarrow> (None, e\<lparr>e_store := s1, e_uploadedFiles := []\<rparr>)
      | Inr bs \<Rightarrow> recoverManifest st J bs (e\<lparr>e_store := s1, e_uploadedFiles := []\<rparr>)) = (None, e2)"
    using m0 by simp
  obtain db where o: "pOpen P (dirMap (e_localDir e2) (e_fs e2)) = Inr db"
    using assms(9) g m by (cases "pOpen P (dirMap (e_localDir e2) (e_fs e2))") (simp_all add: recover_def Let_def)
  obtain s2 f2 U v where r2: "e2 = e\<lparr>e_store := s2, e_fs := f2, e_uploadedFiles := U, e_manifestVersion := v, e_maxWALSeq := baseSeq J ?c ?ns\<rparr>"
    "ok s2" "contents s2 = ?c" "dirReady (e_localDir e) f2" "\<forall>x. local_contents (e_localDir e) f2 (''localwal'' @ sep # x) = None"
    "durableBase P view J ?c ?ns = Some (baseSeq J ?c ?ns, view db)" "set U \<subseteq> dataPath ?ns ` {n. plainElem n}"
    using recover_files [OF assms(1-5,7,8) g m o] by (elim exE conjE)
  let ?e3 = "e2\<lparr>e_db := Some db\<rparr>"
  have l: "replayLocalWALs P ?e3 = (None, e')"
    using assms(6,9) g m o r2(1) by (auto simp: recover_def Let_def split: prod.splits option.splits)
  obtain f' where e': "e' = ?e3\<lparr>e_fs := f'\<rparr>"
    using replayLocalWALs_fresh [OF _ _ l] r2(1,4,5) by auto
  have "e' = e\<lparr>e_store := s2, e_fs := f', e_uploadedFiles := U, e_manifestVersion := v, e_db := Some db, e_maxWALSeq := baseSeq J ?c ?ns\<rparr>"
    using e' r2(1) by (cases e) simp
  then show ?thesis using r2 by blast
qed

lemma Open_eventual:
  assumes "openReady st J contents ok (opts\<lparr>o_consistency := ConsistencyStrong\<rparr>) s f" "o_consistency opts = ConsistencyEventual"
    "engine_Open st P J opts s f = (Inr e, s', f')"
  shows "e_ns e = o_namespace (defaultOptions opts)" "contents (e_store e) = contents s" "ok (e_store e)" "s' = e_store e"
    "e_db e = Some (the (e_db e))" "durableBase P view J (contents s) (e_ns e) = Some (e_maxWALSeq e, view (the (e_db e)))"
    "e_maxWALSeq e = baseSeq J (contents s) (e_ns e)"
    "contents s (walPath (e_ns e) q) \<noteq> None \<Longrightarrow> q < m_nextSeq (e_wal e)" "walIdle (e_wal e)" "m_ns (e_wal e) = e_ns e"
    "e_asyncWAL e = o_asyncWAL opts" "set (e_uploadedFiles e) \<subseteq> dataPath (e_ns e) ` {n. plainElem n}"
    "nsTidy J (contents s) (e_ns e)"
proof -
  let ?o = "defaultOptions opts" and ?ns = "o_namespace (defaultOptions opts)"
  have d: "o_dir ?o = o_dir opts" "o_consistency ?o = o_consistency opts" "o_asyncWAL ?o = o_asyncWAL opts"
    by (simp_all add: defaultOptions_def)
  have o: "o_namespace (defaultOptions (opts\<lparr>o_consistency := c\<rparr>)) = ?ns" "o_batchWindow (defaultOptions (opts\<lparr>o_consistency := c\<rparr>)) = o_batchWindow ?o" for c
    by (simp_all add: defaultOptions_def)
  have R: "ok s" "nsTidy J (contents s) ?ns" "contents s (walPath ?ns (- 1)) = None" "goodRoot (o_dir opts)"
    "local_inv (o_dir opts) f" "local_contents (o_dir opts) f = Map.empty"
    "manifestReadable st ?ns (snd (NewManager st ?ns (o_batchWindow ?o) s))"
    using assms(1) by (simp_all add: openReady_def Let_def o)
  obtain m s1 where n: "NewManager st ?ns (o_batchWindow ?o) s = (Inr m, s1)"
    using assms(3) by (auto simp: engine_Open_def Let_def split: prod.splits sum.splits if_splits)
  obtain f1 where f1: "MkdirAll (Clean (o_dir opts)) f = (Inr (), f1)"
    using assms(3) n by (auto simp: engine_Open_def Let_def d split: prod.splits sum.splits if_splits)
  obtain f2 where f2: "MkdirAll (Join [o_dir opts, ''localwal'']) f1 = (Inr (), f2)"
    using assms(3) n f1 by (auto simp: engine_Open_def Let_def d split: prod.splits sum.splits if_splits)
  define e0 :: "('s, 'db) engine" where
    "e0 = \<lparr>e_ns = ?ns, e_store = s1, e_fs = f2, e_wal = m, e_localDir = o_dir opts,
       e_consistency = o_consistency opts, e_asyncWAL = o_asyncWAL opts, e_db = None, e_maxWALSeq = 0,
       e_uploadedFiles = [], e_orphanWALTTL = o_orphanWALTTL ?o, e_batchWindow = o_batchWindow ?o,
       e_maxLocalBytes = o_maxLocalBytes ?o, e_manifestVersion = 0, e_metrics = noMetrics,
       e_coldMissCount = 0, e_recovering = False, e_coldMissThresh = o_coldMissThreshold ?o,
       e_errCh = [], e_healthy = False, e_ready = False, e_async = []\<rparr>"
  obtain er where r: "recover st P J e0 = (None, er)" and e: "e = er\<lparr>e_healthy := True, e_ready := True\<rparr>" and s': "s' = e_store er"
    using assms(3) n f1 f2
    by (auto simp: engine_Open_def Let_def d e0_def split: prod.splits option.splits if_splits)
  note tidy = nsTidyD [OF R(2)]
  note M = NewManager_ok [OF R(1) tidy(1,2) n R(3)]
  note dir = MkdirAll_ready [OF R(4,5) f1 f2]
  obtain s2 f3 U v db where rec: "er = e0\<lparr>e_store := s2, e_fs := f3, e_uploadedFiles := U, e_manifestVersion := v,
        e_db := Some db, e_maxWALSeq := baseSeq J (contents s) ?ns\<rparr>" "ok s2" "contents s2 = contents s"
      "durableBase P view J (contents s) ?ns = Some (baseSeq J (contents s) ?ns, view db)" "set U \<subseteq> dataPath ?ns ` {n. plainElem n}"
  proof -
    have e0: "e_store e0 = s1" "e_ns e0 = ?ns" "e_fs e0 = f2" "e_localDir e0 = o_dir opts" "e_maxWALSeq e0 = 0"
      "e_consistency e0 = ConsistencyEventual" by (simp_all add: e0_def assms(2))
    have "manifestReadable st ?ns s1" using R(7) n by simp
    from recover_base [of e0 er, unfolded e0, OF M(1) tidy(1) dir(1) _ _ _ _ this r] show ?thesis
      using that M(2) tidy(3) dir(2) R(6) by simp (elim exE conjE, blast)
  qed
  have fields: "e_ns e = ?ns" "e_store e = s2" "e_wal e = m" "e_db e = Some db" "e_maxWALSeq e = baseSeq J (contents s) ?ns"
    "e_asyncWAL e = o_asyncWAL opts" "e_uploadedFiles e = U"
    using e rec(1) by (simp_all add: e0_def)
  show "e_ns e = ?ns" "contents (e_store e) = contents s" "ok (e_store e)" "s' = e_store e" "e_db e = Some (the (e_db e))"
    "durableBase P view J (contents s) (e_ns e) = Some (e_maxWALSeq e, view (the (e_db e)))"
    "e_maxWALSeq e = baseSeq J (contents s) (e_ns e)" "e_asyncWAL e = o_asyncWAL opts"
    "set (e_uploadedFiles e) \<subseteq> dataPath (e_ns e) ` {n. plainElem n}" "nsTidy J (contents s) (e_ns e)"
    using fields rec(2-5) s' e R(2) by simp_all
  show "walIdle (e_wal e)" "m_ns (e_wal e) = e_ns e" using M fields by (simp_all add: walIdle_def)
  show "contents s (walPath (e_ns e) q) \<noteq> None \<Longrightarrow> q < m_nextSeq (e_wal e)" for q using M(10) fields by simp
qed

lemma replay_converges:
  assumes "ok (e_store e)" "nsTidy J (contents (e_store e)) (e_ns e)" "e_db e = Some db"
    "durableBase P view J (contents (e_store e)) (e_ns e) = Some (e_maxWALSeq e, view db)" "replayWALs st P e = (None, e')"
  shows "durable P view J (contents (e_store e)) (e_ns e) = Some (view (the (e_db e')))"
  using replayWALs_ok [OF assms(1) nsTidyD(1,2) [OF assms(2)] assms(3,5)] assms(4) by (auto simp: durable_def)

lemma eventual_write:
  assumes "openReady st J contents ok (opts\<lparr>o_consistency := ConsistencyStrong\<rparr>) s f" "o_consistency opts = ConsistencyEventual"
    "\<not> o_asyncWAL opts" "engine_Open st P J opts s f = (Inr e, s', f')"
    "contents s (walPath (e_ns e) q) \<noteq> None" "baseSeq J (contents s) (e_ns e) < q" "m_nextSeq (e_wal e) \<noteq> - 1"
    "engine_Set st P env k v e = (None, e1)"
  shows "view (the (e_db e1)) = (view (the (e_db e)))(k \<mapsto> v)" "e_ns e1 = e_ns e" "ok (e_store e1)" "nsTidy J (contents (e_store e1)) (e_ns e)"
    "\<not> e_asyncWAL e1" "walIdle (e_wal e1)" "m_ns (e_wal e1) = e_ns e" "e_db e1 = Some (the (e_db e1))"
    "contents (e_store e1) (walPath (e_ns e) x) \<noteq> None \<Longrightarrow> x \<le> e_maxWALSeq e1" "e_maxWALSeq e1 < m_nextSeq (e_wal e1)"
    "set (e_uploadedFiles e1) \<subseteq> dataPath (e_ns e) ` {n. plainElem n}"
proof -
  note E = Open_eventual [OF assms(1,2,4)]
  have ns: "plainPath (e_ns e)" using nsTidyD(1) [OF E(13)] .
  obtain seq e0 where w: "writeWALAndApply st P env [OpSet k v] e = (Inr seq, e0)" "e1 = meter (\<lambda>m. m\<lparr>mt_sets := mt_sets m + 1\<rparr>) e0"
    using assms(8) by (auto simp: engine_Set_def split: prod.splits sum.splits)
  have na: "\<not> e_asyncWAL e" using E(11) assms(3) by simp
  obtain s2 m2 db2 mt where x: "seq = m_nextSeq (e_wal e)"
    "e0 = e\<lparr>e_store := s2, e_wal := m2, e_db := Some db2, e_metrics := mt, e_maxWALSeq := (if seq > e_maxWALSeq e then seq else e_maxWALSeq e)\<rparr>"
    "sPut st (walPath (e_ns e) seq) (pRepr P [OpSet k v]) (e_store e) = (Inr (), s2)" "pApply P [OpSet k v] (the (e_db e)) = Inr db2"
    "walIdle m2" "m_ns m2 = e_ns e" "m_nextSeq m2 = m_nextSeq (e_wal e) + 1"
    using write_ok [OF na E(9,5) w(1)] E(10) by auto
  have p: "plainPath (walPath (e_ns e) seq)" using ns by simp
  have c: "ok s2" "contents s2 = (contents s)(walPath (e_ns e) seq \<mapsto> pRepr P [OpSet k v])"
    using put_frame [OF E(3) p x(3)] put_contents [OF E(3) p x(3)] E(2) by auto
  have lt: "e_maxWALSeq e < seq" using E(7) E(8) [OF assms(5)] assms(6) x(1) by simp
  have f: "e_store e1 = s2" "e_db e1 = Some db2" "e_maxWALSeq e1 = seq" "e_wal e1 = m2" "e_uploadedFiles e1 = e_uploadedFiles e" "e_ns e1 = e_ns e"
    "e_asyncWAL e1 = e_asyncWAL e"
    using w(2) x(2) lt by (simp_all add: meter_def)
  show "view (the (e_db e1)) = (view (the (e_db e)))(k \<mapsto> v)" using apply_view [OF x(4)] f(2) by simp
  show "e_ns e1 = e_ns e" "ok (e_store e1)" "\<not> e_asyncWAL e1" "walIdle (e_wal e1)" "m_ns (e_wal e1) = e_ns e" "e_db e1 = Some (the (e_db e1))"
    "set (e_uploadedFiles e1) \<subseteq> dataPath (e_ns e) ` {n. plainElem n}"
    using f c(1) na x(5,6) E(12) by simp_all
  show "nsTidy J (contents (e_store e1)) (e_ns e)" using f(1) c(2) E(13) by simp
  show "x \<le> e_maxWALSeq e1" if "contents (e_store e1) (walPath (e_ns e) x) \<noteq> None"
    using that f(1,3) c(2) E(8) [of x] ns x(1) by (cases "x = seq") auto
  show "e_maxWALSeq e1 < m_nextSeq (e_wal e1)" using f(3,4) x(1,7) assms(7) word_less_Suc [of seq seq] by simp
qed

end

text \<open>On a store that answers, opening succeeds, and so does the replay.\<close>

context working_engine
begin

lemma eventual_opens:
  assumes "o_hasStore opts" "o_consistency opts = ConsistencyEventual" "goodRoot (o_dir opts)" "dirEmpty (o_dir opts) f"
    "o_namespace (defaultOptions opts) = ns" "live ns s" "nsTidy J (contents s) ns" "filesClear J (contents s) ns"
    "durable P view J (contents s) ns \<noteq> None" "contents s (walPath ns (- 1)) = None"
  shows "\<exists>e s' f'. engine_Open st P J opts s f = (Inr e, s', f') \<and> e_ns e = ns \<and> contents (e_store e) = contents s \<and> live ns (e_store e) \<and>
    e_db e = Some (the (e_db e)) \<and> durableBase P view J (contents s) ns = Some (e_maxWALSeq e, view (the (e_db e)))"
proof -
  have a: "plainPath ns" "up s" "roomFor (contents s) (isDir s) ns" using assms(6) by (simp_all add: live_def)
  have "o_namespace (defaultOptions (opts\<lparr>o_consistency := ConsistencyStrong\<rparr>)) = o_namespace (defaultOptions opts)" by (simp add: defaultOptions_def)
  then have r: "openReady st J contents ok (opts\<lparr>o_consistency := ConsistencyStrong\<rparr>) s f"
    using opens_ready [of "opts\<lparr>o_consistency := ConsistencyStrong\<rparr>" f ns s] assms(3-7,10) by simp
  obtain e s' f' where o: "engine_Open st P J opts s f = (Inr e, s', f')" "up (e_store e)" "isDir (e_store e) = isDir s"
    using Open_answers_any [OF assms(1) r a(2) assms(4)] roomD(4) [OF a(3,1)] assms(5,8,9) by auto
  note E = Open_eventual [OF r assms(2) o(1)]
  have "live ns (e_store e)" using live_shrinks [OF assms(6) o(2,3)] E(2) by simp
  then show ?thesis using o(1) E(1,2,5,6) assms(5) by (intro exI [of _ e] exI [of _ s'] exI [of _ f']) simp
qed

lemma replay_serves:
  assumes "live (e_ns e) (e_store e)" "nsTidy J (contents (e_store e)) (e_ns e)" "e_db e = Some db"
    "durableBase P view J (contents (e_store e)) (e_ns e) = Some (e_maxWALSeq e, view db)" "durable P view J (contents (e_store e)) (e_ns e) = Some m"
  shows "\<exists>e'. replayWALs st P e = (None, e') \<and> e_db e' = Some (the (e_db e')) \<and> view (the (e_db e')) = m"
proof -
  let ?c = "contents (e_store e)" and ?ns = "e_ns e"
  have a: "plainPath ?ns" "up (e_store e)" "roomFor ?c (isDir (e_store e)) ?ns" using assms(1) by (simp_all add: live_def)
  obtain es s1 where l: "listWALs st ?ns (e_store e) = (Inr es, s1)" "up s1" "contents s1 = ?c"
    using listWALs_answers [OF a(2) nsTidyD(2) [OF assms(2)] a(1) roomD(4) [OF a(3,1)]] by blast
  note ls = listWALs_seqs [OF up_inv [OF a(2)] a(1) nsTidyD(2) [OF assms(2)] l(1)]
    and lk = listWALs_ok(3,4) [OF up_inv [OF a(2)] a(1) nsTidyD(2) [OF assms(2)] l(1)]
  have "replaySeqs P ?c ?ns (filter (\<lambda>q. e_maxWALSeq e < q) (map we_seq es)) (view db) \<noteq> None"
    using assms(4,5) by (simp add: durable_def ls)
  then obtain e' where r: "replayWALs st P e = (None, e')"
    using replayLoop_answers [of "e\<lparr>e_store := s1\<rparr>" db es] l a(1) lk assms(3) by (auto simp: replayWALs_def)
  have "e_db e' = Some (the (e_db e'))"
    using replayWALs_ok [OF up_inv [OF a(2)] nsTidyD(1,2) [OF assms(2)] assms(3) r] by auto
  then show ?thesis using replay_converges [OF up_inv [OF a(2)] assms(2-4) r] assms(5) r by simp
qed

end

section \<open>Properties\<close>


text \<open>C39: a write before the replay loses the log. Open an engine in eventual mode while the log
  still holds an object \<open>q\<close> above the checkpoint, and let one \<open>Set\<close> succeed: every later replay skips
  \<open>q\<close>, and the first sync deletes it and makes the checkpoint plus that \<open>Set\<close> the durable state,
  although the batch of \<open>q\<close> had been acknowledged.\<close>

theorem eventual_write_loses:
  assumes "cloud_engine st contents ok P view flushed J" "openReady st J contents ok (opts\<lparr>o_consistency := ConsistencyStrong\<rparr>) s f"
    "o_consistency opts = ConsistencyEventual" "\<not> o_asyncWAL opts" "engine_Open st P J opts s f = (Inr e, s', f')"
    "contents s (walPath (e_ns e) q) \<noteq> None" "baseSeq J (contents s) (e_ns e) < q" "m_nextSeq (e_wal e) \<noteq> - 1"
    "engine_Set st P env k v e = (None, e1)" "syncReady P contents e1" "Sync st P J env' e1 = (None, e2)"
  shows "(fst (replayWALs st P e1) = None \<longrightarrow> view (the (e_db (walReplayTick st P e1))) = view (the (e_db e1))) \<and>
    contents (e_store e2) (walPath (e_ns e) q) = None \<and>
    durable P view J (contents (e_store e2)) (e_ns e) = Some ((view (the (e_db e)))(k \<mapsto> v))"
proof -
  note W = cloud_engine.eventual_write [OF assms(1-9)]
  have "view (the (e_db (walReplayTick st P e1))) = view (the (e_db e1))" if n: "fst (replayWALs st P e1) = None"
  proof -
    obtain e' where r: "replayWALs st P e1 = (None, e')" using n by (cases "replayWALs st P e1") simp
    have "filter (\<lambda>q. e_maxWALSeq e1 < q) (walSeqs (contents (e_store e1)) (e_ns e)) = []"
      using W(9) by (auto simp: filter_empty_conv walSeqs_def not_less)
    then have "view (the (e_db e')) = view (the (e_db e1))"
      using cloud_engine.replayWALs_ok [OF assms(1) W(3) _ _ W(8) r] nsTidyD(1,2) [OF W(4)] by (auto simp: W(2))
    then show ?thesis using r by (simp add: walReplayTick_def)
  qed
  moreover have "contents (e_store e2) (walPath (e_ns e) q) = None" "engineInv P view J contents ok e2" "e_ns e2 = e_ns e"
    "view (the (e_db e2)) = view (the (e_db e1))"
    using cloud_engine.Sync_installs [OF assms(1) W(3) _ W(5,6) _ W(8) _ W(10) _ assms(10,11)] W(2,4,7,9,11) by simp_all
  ultimately show ?thesis using engineInvD(8) [of P view J contents ok e2] W(1) by simp
qed

text \<open>An example: a bucket with one log object and no checkpoint.\<close>

definition evOpts :: options where "evOpts = exOpts\<lparr>o_consistency := ConsistencyEventual\<rparr>"

definition evBucket :: "(string \<times> bytes) list" where "evBucket = [(walPath ''t'' 1, refRepr [OpSet [1] [2]])]"

definition evEngine :: "((string \<times> bytes) list, refDB) engine" where
  "evEngine = (exEng evBucket exFs1 2 \<lparr>r_view = [], r_flushed = []\<rparr> 0 [] 0)\<lparr>e_consistency := ConsistencyEventual\<rparr>"

lemma ev_names: "HasPrefix (walPath ''t'' 1) ''t/wal/''" "walPath ''t'' 1 \<noteq> ''t/manifest''" "parseWALSeq (walPath ''t'' 1) = Inr 1"
  using walPath_prefix [of "''t''" 1] parse_walPath [OF plain_t] walPath_max(2)
  by (simp_all add: walPrefix_def cache_paths(3) walDir_def)

lemma ev_open: "engine_Open exStore refPebble refCodec evOpts evBucket exFs = (Inr evEngine, evBucket, exFs1)"
  using fs_mk ev_names
  by (auto simp: engine_Open_def evOpts_def evBucket_def evEngine_def exOpts_def defaultOptions_def NewManager_def listWALs_def cache_paths(1-6) walPrefix_def walDir_def
      recover_def Let_def manifestPath_def dirMap_def local_contents_def filesView_def exFs1_def refPebble_def replayLocalWALs_def
      ReadDir_def nextFault_def exEng_def exMgr_def)

lemma ev_ready: "openReady exStore refCodec exContents (\<lambda>_. True) (evOpts\<lparr>o_consistency := ConsistencyStrong\<rparr>) evBucket exFs"
proof -
  have "evOpts\<lparr>o_consistency := ConsistencyStrong\<rparr> = exOpts" by (simp add: evOpts_def exOpts_def)
  moreover have "openReady exStore refCodec exContents (\<lambda>_. True) exOpts evBucket exFs"
    by (rule ready0) (use ev_names in \<open>auto simp: evBucket_def manifestTidy_def manifestPath_def cache_paths(4) split: if_splits\<close>)
  ultimately show ?thesis by simp
qed

lemma ev_fields: "e_ns evEngine = ''t''" "e_db evEngine = Some \<lparr>r_view = [], r_flushed = []\<rparr>" "m_nextSeq (e_wal evEngine) = 2"
  "o_consistency evOpts = ConsistencyEventual" "\<not> o_asyncWAL evOpts" "walIdle (e_wal evEngine)" "e_fs evEngine = exFs1" "e_store evEngine = evBucket"
  by (simp_all add: evEngine_def exEng_def exMgr_def evOpts_def exOpts_def walIdle_def)

lemma ev_durable: "durable refPebble exView refCodec (exContents evBucket) ''t'' = Some [[1] \<mapsto> [2]]"
proof -
  have m: "exContents evBucket (manifestPath ''t'') = None" using ev_names(2) by (simp add: exContents evBucket_def manifestPath_def cache_paths(4))
  have "{q. exContents evBucket (walPath ''t'' q) \<noteq> None} = {1}" by (auto simp: exContents evBucket_def walPath_inj [OF plain_t] split: if_splits)
  then have "walSeqs (exContents evBucket) ''t'' = [1]" by (simp add: walSeqs_def)
  then show ?thesis
    using m refRepr_parse [of "[OpSet [1] [2]]"] by (simp add: durable_def durableBase_def) (simp add: exContents evBucket_def refPebble_def)
qed


theorem eventual_write_loses_witness:
  "\<exists>e1 e2. engine_Set exStore refPebble exEnv [3] [4] evEngine = (None, e1) \<and> Sync exStore refPebble refCodec exEnv e1 = (None, e2) \<and>
    exContents (e_store e2) (walPath ''t'' 1) = None \<and>
    durable refPebble exView refCodec (exContents (e_store e2)) ''t'' = Some [[3] \<mapsto> [4]]"
proof -
  have q: "exContents evBucket (walPath (e_ns evEngine) 1) \<noteq> None" "baseSeq refCodec (exContents evBucket) (e_ns evEngine) < 1" "m_nextSeq (e_wal evEngine) \<noteq> - 1"
    using ev_names(2) by (simp_all add: ev_fields exContents baseSeq_def manifestPath_def cache_paths(4)) (simp_all add: evBucket_def)
  obtain e1 where s: "engine_Set exStore refPebble exEnv [3] [4] evEngine = (None, e1)" "e_fs e1 = exFs1"
    by (simp add: engine_Set_def writeWALAndApply_def Let_def WriteRecord_def applyLocally_def meter_def refPebble_def evEngine_def exEng_def exMgr_def)
  note W = ex.eventual_write [OF ev_ready ev_fields(4,5) ev_open q s(1)]
  obtain e2 where y: "Sync exStore refPebble refCodec exEnv e1 = (None, e2)"
    using mem_sync [OF _ W(6), of exEnv] s(2) by (auto simp: exFs1_def)
  show ?thesis
    using eventual_write_loses [OF ex.cloud_engine_axioms ev_ready ev_fields(4,5) ev_open q s(1) ref_syncReady y] s(1) y by (auto simp: ev_fields)
qed

end
