(* ===== verification/ServerHistory.thy ===== *)
theory ServerHistory
  imports BigtableProperties EngineLiveness
begin

text \<open>
  Histories of a server: sequences of acknowledged requests on one table, seen as steps on the
  cells of the table, and what is left of them when the machine is lost; and interleavings of
  requests that the server runs side by side.

  \<open>serves\<close> is the relation between the server and table before and after a sequence of
  acknowledged \<open>MutateRow\<close>, \<open>CheckAndMutateRow\<close> and \<open>ReadModifyWriteRow\<close> requests. Its effect on
  the table is given by the meaning of the messages alone.

  \<open>ReadModifyWriteRow\<close> takes no lock, so other requests may run between its reads and the
  application of its batch. \<open>rmwPrepare\<close> is the handler up to that point, \<open>rmwCommit\<close> the rest.
\<close>

section \<open>Histories\<close>

text \<open>The table \<open>n\<close> of the server is open, in good order, and has the cells \<open>T\<close>.\<close>

definition holds :: "'s store \<Rightarrow> 'db pebble \<Rightarrow> codec \<Rightarrow> ('db \<Rightarrow> bytes \<Rightarrow> bytes option) \<Rightarrow> ('s \<Rightarrow> string \<Rightarrow> bytes option) \<Rightarrow> ('s \<Rightarrow> bool) \<Rightarrow>
    string \<Rightarrow> string \<Rightarrow> ('s, 'db) server \<Rightarrow> (cellId \<Rightarrow> bytes option) \<Rightarrow> bool" where
  "holds st P J view contents ok ns n sv T \<longleftrightarrow>
     (\<exists>eng. getEngine st P J n sv = (Inr eng, sv) \<and> engineInv P view J contents ok eng \<and>
        tableWf (view (the (e_db eng))) \<and> cellsOf (view (the (e_db eng))) = T \<and> e_ns eng = ns)"

text \<open>The table can still number a batch.\<close>

definition numbered :: "'s store \<Rightarrow> 'db pebble \<Rightarrow> codec \<Rightarrow> string \<Rightarrow> ('s, 'db) server \<Rightarrow> bool" where
  "numbered st P J n sv \<longleftrightarrow> (\<forall>eng. getEngine st P J n sv = (Inr eng, sv) \<longrightarrow> m_nextSeq (e_wal eng) \<noteq> - 1)"

text \<open>The branch of a conditional mutation.\<close>

definition branch :: "checkAndMutateRowRequest \<Rightarrow> bool \<Rightarrow> mutation list" where
  "branch req matched = (if matched then cm_true req else cm_false req)"

inductive serves :: "'s store \<Rightarrow> 'db pebble \<Rightarrow> codec \<Rightarrow> string \<Rightarrow> ('s, 'db) server \<Rightarrow> (cellId \<Rightarrow> bytes option) \<Rightarrow>
    ('s, 'db) server \<Rightarrow> (cellId \<Rightarrow> bytes option) \<Rightarrow> bool"
  for st P J n where
  h_start: "serves st P J n sv T sv T"
| h_mutate: "serves st P J n sv T sv1 T1 \<Longrightarrow> mr_tableName req = n \<Longrightarrow> numbered st P J n sv1 \<Longrightarrow>
    list_all wfMutation (mr_mutations req) \<Longrightarrow> goodClock (rq_clock rq) \<Longrightarrow> MutateRow st P J rq req sv1 = (Inr (), sv2) \<Longrightarrow>
    serves st P J n sv T sv2 (fst (fold (specMutation (mr_rowKey req)) (mr_mutations req) (T1, rq_clock rq)))"
| h_check: "serves st P J n sv T sv1 T1 \<Longrightarrow> cm_tableName req = n \<Longrightarrow> numbered st P J n sv1 \<Longrightarrow>
    list_all wfMutation (cm_true req @ cm_false req) \<Longrightarrow> goodClock (rq_clock rq) \<Longrightarrow> cm_predicate req = None \<Longrightarrow>
    CheckAndMutateRow st P J rq req sv1 = (Inr matched, sv2) \<Longrightarrow>
    serves st P J n sv T sv2 (fst (fold (specMutation (cm_rowKey req)) (branch req matched) (T1, rq_clock rq)))"
| h_rmw: "serves st P J n sv T sv1 T1 \<Longrightarrow> rm_tableName req = n \<Longrightarrow> numbered st P J n sv1 \<Longrightarrow>
    list_all wfRule (rm_rules req) \<Longrightarrow> goodClock (rq_clock rq) \<Longrightarrow> ReadModifyWriteRow st P J rq req sv1 = (Inr resp, sv2) \<Longrightarrow>
    ruleSteps (rm_rowKey req) (rq_clock rq 0) T1 (rm_rules req) T2 \<Longrightarrow> serves st P J n sv T sv2 T2"

text \<open>The newest cell is one value, so rules have one outcome.\<close>

lemma isLatest_unique: "isLatest T r f q v \<Longrightarrow> isLatest T r f q w \<Longrightarrow> v = w"
  unfolding isLatest_def
  by (metis (no_types, lifting) option.distinct(1) option.inject order_antisym signed_word_eqI)

lemma ruleSteps_unique: "ruleSteps r ts T rules T1 \<Longrightarrow> ruleSteps r ts T rules T2 \<Longrightarrow> T1 = T2"
proof (induction arbitrary: T2 rule: ruleSteps.induct)
  case (rs_done T)
  then show ?case by (simp add: ruleSteps_simps)
next
  case (rs_rule T rule cur v rules T')
  from rs_rule.prems obtain cur' v' where c: "isLatest T r (ru_family rule) (ru_qualifier rule) cur'" "applyRule (ru_rule rule) cur' = Inr v'"
    "ruleSteps r ts (T((r, ru_family rule, ru_qualifier rule, ts) \<mapsto> v')) rules T2"
    by (auto elim: ruleSteps_ConsE)
  have "cur' = cur" using isLatest_unique [OF c(1) rs_rule.hyps(1)] .
  then have "v' = v" using c(2) rs_rule.hyps(2) by simp
  then show ?case using rs_rule.IH c(3) by blast
qed

lemma mutate_holds:
  assumes "cloud_engine st contents ok P view flushed J" "holds st P J view contents ok ns (mr_tableName req) sv T"
    "numbered st P J (mr_tableName req) sv" "list_all wfMutation (mr_mutations req)" "goodClock (rq_clock rq)"
    "MutateRow st P J rq req sv = (Inr (), sv')"
  shows "holds st P J view contents ok ns (mr_tableName req) sv' (fst (fold (specMutation (mr_rowKey req)) (mr_mutations req) (T, rq_clock rq)))"
proof -
  obtain eng where e: "getEngine st P J (mr_tableName req) sv = (Inr eng, sv)" "engineInv P view J contents ok eng"
    "tableWf (view (the (e_db eng)))" "cellsOf (view (the (e_db eng))) = T" "e_ns eng = ns"
    using assms(2) by (auto simp: holds_def)
  have q: "m_nextSeq (e_wal eng) \<noteq> - 1" using assms(3) e(1) by (simp add: numbered_def)
  obtain b clk eng' where b: "applyMutationsToBatch (mr_rowKey req) (mr_mutations req) ([], rq_clock rq) = (None, b, clk)"
    "engine_Apply st P (rq_env rq) b eng = (None, eng')" "sv' = saveEngine (mr_tableName req) eng' sv"
    using e(1) assms(6) by (auto simp: MutateRow_def split: if_splits prod.splits option.splits)
  show ?thesis
    using mutations_applied [OF assms(1) e(2) q assms(4,5) b(1,2)] b(3) e(3-5) by (auto simp: holds_def)
qed

lemma check_holds:
  assumes "cloud_engine st contents ok P view flushed J" "holds st P J view contents ok ns (cm_tableName req) sv T"
    "numbered st P J (cm_tableName req) sv" "list_all wfMutation (cm_true req @ cm_false req)" "goodClock (rq_clock rq)"
    "cm_predicate req = None" "\<And>lo hi db. \<exists>kvs. pNewIter P lo hi db = Inr kvs" "CheckAndMutateRow st P J rq req sv = (Inr matched, sv')"
  shows "holds st P J view contents ok ns (cm_tableName req) sv' (fst (fold (specMutation (cm_rowKey req)) (branch req matched) (T, rq_clock rq)))"
proof -
  obtain eng where e: "getEngine st P J (cm_tableName req) sv = (Inr eng, sv)" "engineInv P view J contents ok eng"
    "tableWf (view (the (e_db eng)))" "cellsOf (view (the (e_db eng))) = T" "e_ns eng = ns"
    using assms(2) by (auto simp: holds_def)
  have q: "m_nextSeq (e_wal eng) \<noteq> - 1" using assms(3) e(1) by (simp add: numbered_def)
  show ?thesis
    using check_applied [OF assms(1) e(1,2) q assms(4,5) e(3) assms(6,7,8)] e(4,5) by (auto simp: holds_def branch_def)
qed

lemma rmw_holds:
  assumes "cloud_engine st contents ok P view flushed J" "holds st P J view contents ok ns (rm_tableName req) sv T"
    "numbered st P J (rm_tableName req) sv" "list_all wfRule (rm_rules req)" "goodClock (rq_clock rq)"
    "\<And>b lo hi db. \<exists>kvs. pBatchIter P b lo hi db = Inr kvs" "ReadModifyWriteRow st P J rq req sv = (Inr resp, sv')"
  shows "\<exists>T'. ruleSteps (rm_rowKey req) (rq_clock rq 0) T (rm_rules req) T' \<and> holds st P J view contents ok ns (rm_tableName req) sv' T'"
proof -
  obtain eng where e: "getEngine st P J (rm_tableName req) sv = (Inr eng, sv)" "engineInv P view J contents ok eng"
    "tableWf (view (the (e_db eng)))" "cellsOf (view (the (e_db eng))) = T" "e_ns eng = ns"
    using assms(2) by (auto simp: holds_def)
  have q: "m_nextSeq (e_wal eng) \<noteq> - 1" using assms(3) e(1) by (simp add: numbered_def)
  show ?thesis
    using rmw_applied [OF assms(1) e(1,2) q assms(4,5) e(3) assms(6,7)] e(4,5) by (auto simp: holds_def)
qed

lemma serves_holds:
  assumes "serves st P J n sv T sv' T'" "cloud_engine st contents ok P view flushed J" "holds st P J view contents ok ns n sv T"
    "\<And>lo hi db. \<exists>kvs. pNewIter P lo hi db = Inr kvs" "\<And>b lo hi db. \<exists>kvs. pBatchIter P b lo hi db = Inr kvs"
  shows "holds st P J view contents ok ns n sv' T'"
  using assms(1,3)
proof (induction rule: serves.induct)
  case (h_mutate sv T sv1 T1 req rq sv2)
  then show ?case using mutate_holds [OF assms(2)] by metis
next
  case (h_check sv T sv1 T1 req rq matched sv2)
  then show ?case using check_holds [OF assms(2) _ _ _ _ _ assms(4)] by metis
next
  case (h_rmw sv T sv1 T1 req rq resp sv2 T2)
  then obtain T' where "ruleSteps (rm_rowKey req) (rq_clock rq 0) T1 (rm_rules req) T'" "holds st P J view contents ok ns n sv2 T'"
    using rmw_holds [OF assms(2) _ _ _ _ assms(5), of ns req sv1 T1 rq resp sv2] by blast
  then show ?case using ruleSteps_unique [OF h_rmw.hyps(7)] by simp
qed

text \<open>A server that has no table open yet recovers the table from object storage.\<close>

lemma recovered_cells:
  assumes "cloud_engine st contents ok P view flushed J" "holds st P J view contents ok (tableNamespace new n) n sv T"
    "sv_tables new = []" "sv_store new = sv_store sv" "openReady st J contents ok (engineOptions new n) (sv_store sv) (sv_fs new)"
    "getEngine st P J n new = (Inr eng2, new2)"
  shows "cellsOf (view (the (e_db eng2))) = T"
proof -
  obtain eng where e: "getEngine st P J n sv = (Inr eng, sv)" "engineInv P view J contents ok eng"
    "cellsOf (view (the (e_db eng))) = T" "e_ns eng = tableNamespace new n"
    using assms(2) by (auto simp: holds_def)
  have s: "e_store eng = sv_store sv"
    using e(1) getEngine_again [OF e(1)] by (cases eng) (auto simp: loadEngine_def)
  obtain s1 f1 where o: "engine_Open st P J (engineOptions new n) (sv_store sv) (sv_fs new) = (Inr eng2, s1, f1)"
    using assms(3,4,6) by (auto simp: getEngine_def split: prod.splits sum.splits)
  have "o_namespace (defaultOptions (engineOptions new n)) = tableNamespace new n"
    by (simp add: defaultOptions_def engineOptions_def tableNamespace_def)
  then have ns: "e_ns eng2 = tableNamespace new n" using cloud_engine.Open_ok(1) [OF assms(1,5) o] by simp
  obtain db where "e_db eng2 = Some db" "durable P view J (contents (sv_store sv)) (e_ns eng2) = Some (view db)"
    using cloud_engine.Open_ok(5) [OF assms(1,5) o] by blast
  then show ?thesis using engineInvD(8) [OF e(2)] e(3,4) s ns by simp
qed

section \<open>Properties\<close>


text \<open>An example: a server in \<open>/srv\<close> whose log does not batch.\<close>

definition srvFs :: fs where
  "srvFs = \<lparr>fs_files = [], fs_dirs = [[], ''/srv'', ''/srv/t''], fs_clock = 5, fs_faults = []\<rparr>"

definition srvOn :: "(string \<times> bytes) list \<Rightarrow> ((string \<times> bytes) list, refDB) server" where
  "srvOn c = (NewServer ''/srv'' c srvFs)\<lparr>sv_batchWindow := - 1\<rparr>"

lemma srv_fields:
  "engineOptions (srvOn c) ''t'' = \<lparr>o_dir = ''/srv/t'', o_hasStore = True, o_namespace = ''bigtable/t'', o_syncInterval = 0,
     o_coldMissThreshold = 0, o_consistency = ConsistencyStrong, o_asyncWAL = False, o_orphanWALTTL = 0, o_batchWindow = - 1, o_maxLocalBytes = 0\<rparr>"
  "tableNamespace (srvOn c) ''t'' = ''bigtable/t''" "sv_tables (srvOn c) = []" "sv_store (srvOn c) = c" "sv_fs (srvOn c) = srvFs"
  by (simp_all add: srvOn_def NewServer_def engineOptions_def tableNamespace_def)

lemma srv_dir: "goodRoot ''/srv/t''" "local_inv ''/srv/t'' srvFs" "local_contents ''/srv/t'' srvFs = Map.empty" "dirEmpty ''/srv/t'' srvFs"
proof -
  have c: "Clean ''/srv/t'' = ''/srv/t''" by (simp add: Clean_def cleanElems_def sep_def)
  show "goodRoot ''/srv/t''" by (simp add: goodRoot_def cleanElems_def rooted_def sep_def plainElem_def)
  show i: "local_inv ''/srv/t'' srvFs" by (simp add: local_inv_def filesOK_def faultsOK_def srvFs_def)
  show f: "local_contents ''/srv/t'' srvFs = Map.empty" by (simp add: local_contents_def filesView_def srvFs_def fun_eq_iff)
  have "set (ancestors (Clean ''/srv/t'')) \<subseteq> set (fs_dirs srvFs)" by (simp add: c ancestors_def sep_def srvFs_def upt_rec)
  then show "dirEmpty ''/srv/t'' srvFs" using i f by (simp add: dirEmpty_def local_up_def local_isDir_def c) (simp add: srvFs_def sep_def)
qed

lemma plain_bt: "plainPath ''bigtable/t''"
  by (simp add: plainPath_def plainElem_def sep_def)

text \<open>Objects that are all log objects of the table: opening it on a new server succeeds.\<close>

lemma srv_opens:
  assumes "nsTidy refCodec (exContents c) ''bigtable/t''" "\<And>p. exContents c p \<noteq> None \<Longrightarrow> p = walPath ''bigtable/t'' 1"
    "durable refPebble exView refCodec (exContents c) ''bigtable/t'' \<noteq> None"
  shows "openReady exStore refCodec exContents (\<lambda>_. True) (engineOptions (srvOn c) ''t'') c srvFs"
    "\<exists>eng new'. getEngine exStore refPebble refCodec ''t'' (srvOn c) = (Inr eng, new')"
proof -
  let ?o = "engineOptions (srvOn c) ''t''"
  have ns: "o_namespace (defaultOptions ?o) = ''bigtable/t''" "o_dir ?o = ''/srv/t''" "o_consistency ?o = ConsistencyStrong" "o_hasStore ?o"
    by (simp_all add: srv_fields defaultOptions_def)
  have "walPath ''bigtable/t'' (- 1) \<noteq> walPath ''bigtable/t'' 1" by (simp only: walPath_inj [OF plain_bt]) simp
  then have w: "exContents c (walPath ''bigtable/t'' (- 1)) = None" using assms(2) by blast
  have mf: "exContents c (manifestPath ''bigtable/t'') = None"
    using assms(2) [of "manifestPath ''bigtable/t''"] engine_paths_distinct(1) [OF plain_bt, of 1] by metis
  show r: "openReady exStore refCodec exContents (\<lambda>_. True) ?o c srvFs"
    using assms(1) w srv_dir by (simp add: openReady_def Let_def ns manifestReadable_def split: option.split)
  have wp: "walPath ''bigtable/t'' 1 = ''bigtable/t/wal/'' @ padDecimal 20 1 @ ''.wal''"
    by (simp add: walPath_eq [OF plain_bt] walDir_def sep_def seqNumWidth_def walExt_def)
  have "nsClear (exContents c) (\<lambda>_. False) ''bigtable/t''"
  proof -
    have a: "\<not> HasPrefix (manifestPath ''bigtable/t'') (walPath ''bigtable/t'' 1 @ [sep])"
      "\<not> HasPrefix (''bigtable/t'' @ sep # walDir) (walPath ''bigtable/t'' 1 @ [sep])"
      by (simp_all add: wp manifestPath_eq [OF plain_bt] walDir_def sep_def)
    show ?thesis unfolding nsClear_def vacant_def using a assms(2) by blast
  qed
  moreover have "filesClear refCodec (exContents c) ''bigtable/t''" using mf by (simp add: filesClear_def)
  ultimately obtain e s' f' where "engine_Open exStore refPebble refCodec ?o c srvFs = (Inr e, s', f')"
    using exLive.Open_answers [OF ns(4) r TrueI, unfolded ns(1,2), OF srv_dir(4)] assms(3) by blast
  then show "\<exists>eng new'. getEngine exStore refPebble refCodec ''t'' (srvOn c) = (Inr eng, new')"
    by (simp add: getEngine_def srv_fields(3-5))
qed

lemma srv_empty: "nsTidy refCodec (exContents []) ''bigtable/t''" "durable refPebble exView refCodec (exContents []) ''bigtable/t'' = Some Map.empty"
  "\<And>p. exContents [] p \<noteq> None \<Longrightarrow> p = walPath ''bigtable/t'' 1"
  by (simp_all add: exContents nsTidy_def plain_bt walTidy_def manifestTidy_def durable_def durableBase_def walSeqs_def)

text \<open>The table on a new server over an empty bucket.\<close>

lemma srv_table:
  "\<exists>eng sv. getEngine exStore refPebble refCodec ''t'' (srvOn []) = (Inr eng, sv) \<and> getEngine exStore refPebble refCodec ''t'' sv = (Inr eng, sv) \<and>
    engineInv refPebble exView refCodec exContents (\<lambda>_. True) eng \<and> exView (the (e_db eng)) = Map.empty \<and> e_ns eng = ''bigtable/t'' \<and>
    exContents (e_store eng) = Map.empty \<and> m_nextSeq (e_wal eng) = 1 \<and> m_batchWindow (e_wal eng) \<le> 0 \<and> \<not> m_closed (e_wal eng)"
proof -
  let ?o = "engineOptions (srvOn []) ''t''"
  have dd: "durable refPebble exView refCodec (exContents []) ''bigtable/t'' \<noteq> None" by (simp add: srv_empty)
  note S = srv_opens [OF srv_empty(1,3) dd]
  obtain eng sv where g: "getEngine exStore refPebble refCodec ''t'' (srvOn []) = (Inr eng, sv)" using S(2) by blast
  obtain s f where o: "engine_Open exStore refPebble refCodec ?o [] srvFs = (Inr eng, s, f)" and sv: "sv = saveEngine ''t'' eng (srvOn [])"
    using g by (auto simp: getEngine_def srv_fields(3-5) split: prod.splits sum.splits)
  note O = ex.Open_ok [OF S(1) o]
  have ns: "e_ns eng = ''bigtable/t''" using O(1) by (simp add: srv_fields defaultOptions_def)
  have e: "exContents [] = Map.empty" by (simp add: exContents)
  have q: "m_nextSeq (e_wal eng) = 1" using O(7) by (simp add: e)
  have i: "engineInv refPebble exView refCodec exContents (\<lambda>_. True) eng"
    using O(12) q by (simp add: srv_fields baseSeq_def e)
  have m: "m_batchWindow (e_wal eng) = - 1" "\<not> m_closed (e_wal eng)"
    using Open_settings(1,2) [OF o] by (simp_all add: srv_fields defaultOptions_def)
  show ?thesis
    using g i ns q m O(2,5) e srv_empty(2) sv getEngine_saved [of exStore refPebble refCodec "''t''" eng "srvOn []"]
    by (intro exI [of _ eng] exI [of _ sv]) auto
qed


section \<open>Interleaved requests\<close>

text \<open>The two halves of \<open>ReadModifyWriteRow\<close>: computing the batch from the table as it is, and
  applying it.\<close>

definition rmwPrepare :: "'db pebble \<Rightarrow> request \<Rightarrow> rmwRequest \<Rightarrow> ('s, 'db) engine \<Rightarrow> rpcError + batch \<times> rmwResponse" where
  "rmwPrepare P rq req eng =
     (let (ts, _) = tick (rq_clock rq) in
      case rulesLoop P (the (e_db eng)) (rm_rowKey req) ts (rm_rules req) [] Map.empty of
        Inl err \<Rightarrow> Inl err
      | Inr (batch, modified) \<Rightarrow> Inr (batch, \<lparr>rw_key = rm_rowKey req, rw_ts = ts, rw_families = modified\<rparr>))"

definition rmwCommit :: "'s store \<Rightarrow> 'db pebble \<Rightarrow> request \<Rightarrow> batch \<times> rmwResponse \<Rightarrow> ('s, 'db) engine \<Rightarrow>
    (rpcError + rmwResponse) \<times> ('s, 'db) engine" where
  "rmwCommit st P rq prepared eng =
     (case engine_Apply st P (rq_env rq) (fst prepared) eng of
        (Some err, eng1) \<Rightarrow> (Inl (StatusError Internal ''applying batch'' (Some err)), eng1)
      | (None, eng1) \<Rightarrow> (Inr (snd prepared), eng1))"

lemma rmw_halves:
  assumes "getEngine st P J (rm_tableName req) sv = (Inr eng, sv1)" "rm_rowKey req \<noteq> []" "rm_rules req \<noteq> []"
  shows "ReadModifyWriteRow st P J rq req sv =
    (case rmwPrepare P rq req eng of
       Inl err \<Rightarrow> (Inl err, sv1)
     | Inr prepared \<Rightarrow> (case rmwCommit st P rq prepared eng of (r, eng1) \<Rightarrow> (r, saveEngine (rm_tableName req) eng1 sv1)))"
  using assms by (simp add: ReadModifyWriteRow_def rmwPrepare_def rmwCommit_def tick_def split: sum.split prod.split option.split)

abbreviation increments :: "string \<Rightarrow> bytes \<Rightarrow> bytes \<Rightarrow> bytes \<Rightarrow> int64 \<Rightarrow> rmwRequest" where
  "increments n r f q a \<equiv> \<lparr>rm_tableName = n, rm_rowKey = r, rm_rules = [\<lparr>ru_family = f, ru_qualifier = q, ru_rule = IncrementAmount a\<rparr>]\<rparr>"

text \<open>What the first half reads, and what it computes for a single increment.\<close>

lemma reads_latest:
  assumes "pebble_db P view flushed" "tableWf (view db)" "length f < 255" "length q < 65280"
    "\<And>b lo hi. \<exists>kvs. pBatchIter P b lo hi db = Inr kvs" "isLatest (cellsOf (view db)) r f q cur"
  shows "readCellValue P [] db r f q = cur"
  using pebble_db.readCellValue_latest [OF assms(1), of "[]" db f q r] assms(2-5) isLatest_unique [OF _ assms(6)] by simp

lemma prepare_increment:
  assumes "pebble_db P view flushed" "tableWf (view (the (e_db eng)))" "length f < 255" "length q < 65280"
    "\<And>b lo hi. \<exists>kvs. pBatchIter P b lo hi (the (e_db eng)) = Inr kvs" "isLatest (cellsOf (view (the (e_db eng)))) r f q cur"
    "rmwPrepare P rq (increments n r f q a) eng = Inr p"
  shows "fst p = [OpSet (EncodeCellKey r f q (rq_clock rq 0)) (PutUint64 (word_of_int (counter cur + sint a)))]"
  using assms(7) reads_latest [OF assms(1-6)] by (auto simp: rmwPrepare_def tick_def Let_def increment_iff split: sum.splits)

text \<open>C20: \<open>ReadModifyWriteRow\<close> takes no lock, so it is not atomic. When two increments of the same
  cell both read before either is applied, both are answered without error, and the newest
  cell then counts only the second: the first one is lost, whatever its amount.\<close>

theorem rmw_lost_update:
  assumes "cloud_engine st contents ok P view flushed J" "engineInv P view J contents ok eng" "tableWf (view (the (e_db eng)))"
    "\<And>b lo hi. \<exists>kvs. pBatchIter P b lo hi (the (e_db eng)) = Inr kvs" "length f < 255" "length q < 65280"
    "isLatest (cellsOf (view (the (e_db eng)))) r f q cur" "\<forall>t. cellsOf (view (the (e_db eng))) (r, f, q, t) \<noteq> None \<longrightarrow> sint t \<le> sint (rq_clock rq2 0)"
    "goodClock (rq_clock rq1)" "goodClock (rq_clock rq2)" "sint (rq_clock rq1 0) \<le> sint (rq_clock rq2 0)"
    "rmwPrepare P rq1 (increments n r f q a) eng = Inr p1" "rmwPrepare P rq2 (increments n r f q b) eng = Inr p2"
    "m_nextSeq (e_wal eng) \<noteq> - 1" "rmwCommit st P rq1 p1 eng = (Inr resp1, e1)"
    "m_nextSeq (e_wal e1) \<noteq> - 1" "rmwCommit st P rq2 p2 e1 = (Inr resp2, e2)"
  shows "isLatest (cellsOf (view (the (e_db e2)))) r f q (PutUint64 (word_of_int (counter cur + sint b)))"
proof -
  let ?T = "cellsOf (view (the (e_db eng)))" and ?t1 = "rq_clock rq1 0" and ?t2 = "rq_clock rq2 0"
  let ?v1 = "PutUint64 (word_of_int (counter cur + sint a))" and ?v2 = "PutUint64 (word_of_int (counter cur + sint b))"
  note prep = prepare_increment [OF cloud_engine.axioms(2) [OF assms(1)] assms(3,5,6,4,7)]
  have c1: "engine_Apply st P (rq_env rq1) (fst p1) eng = (None, e1)" and c2: "engine_Apply st P (rq_env rq2) (fst p2) e1 = (None, e2)"
    using assms(15,17) by (auto simp: rmwCommit_def split: prod.splits option.splits)
  have "0 \<le> sint ?t1" "0 \<le> sint ?t2" using assms(9,10) by (simp_all add: goodClock_def)
  then have o: "ordinary (r, f, q, ?t1)" "ordinary (r, f, q, ?t2)" using assms(5,6) by simp_all
  note a1 = applied [OF assms(1,2,14) c1]
  have "cellsOf (view (the (e_db e2))) = ?T((r, f, q, ?t1) \<mapsto> ?v1, (r, f, q, ?t2) \<mapsto> ?v2)"
    using a1(2) applied(2) [OF assms(1) a1(1) assms(16) c2] prep [OF assms(12)] prep [OF assms(13)]
    by (simp add: cells_set [OF o(1)] cells_set [OF o(2)] del: cellsOf.simps applyOp.simps)
  then show ?thesis unfolding isLatest_def using assms(8,11) by (intro disjI1 exI [of _ ?t2]) auto
qed

lemma mem_apply_log:
  assumes "engine_Apply exStore refPebble exEnv b e = (None, e')" "walIdle (e_wal e)" "\<not> e_asyncWAL e" "\<not> m_closed (e_wal e)" "m_batchWindow (e_wal e) \<le> 0"
  shows "\<not> m_closed (e_wal e') \<and> m_batchWindow (e_wal e') \<le> 0"
  using assms by (auto simp: engine_Apply_def writeWALAndApply_def Let_def WriteRecord_def applyLocally_def meter_def refPebble_def)

theorem rmw_lost_update_witness:
  "\<exists>p1 p2 resp1 resp2 e1 e2. rmwPrepare refPebble exRequest (increments ''t'' [97] [102] [113] 5) exEngine = Inr p1 \<and>
    rmwPrepare refPebble exRequest (increments ''t'' [97] [102] [113] 1) exEngine = Inr p2 \<and>
    rmwCommit exStore refPebble exRequest p1 exEngine = (Inr resp1, e1) \<and> rmwCommit exStore refPebble exRequest p2 e1 = (Inr resp2, e2) \<and>
    isLatest (cellsOf (exView (the (e_db e2)))) [97] [102] [113] (PutUint64 1)"
proof -
  let ?c = "cellsOf (exView (the (e_db exEngine)))" and ?inc = "increments ''t'' [97] [102] [113]"
  have w: "tableWf (exView (the (e_db exEngine)))" "length [102 :: 8 word] < 255" "length [113 :: 8 word] < 65280"
    by (simp_all add: tableWf_def e0_fields)
  have it: "\<exists>kvs. pBatchIter refPebble b lo hi (the (e_db exEngine)) = Inr kvs" for b lo hi by (simp add: refPebble_def)
  have l: "isLatest ?c [97] [102] [113] []" by (simp add: isLatest_def e0_fields)
  note rd = reads_latest [OF cloud_engine.axioms(2) [OF ex.cloud_engine_axioms] w it l]
  obtain p1 p2 where p: "rmwPrepare refPebble exRequest (?inc 5) exEngine = Inr p1" "rmwPrepare refPebble exRequest (?inc 1) exEngine = Inr p2"
    by (simp add: rmwPrepare_def tick_def rd applyRule_def Let_def)
  have idle: "\<not> m_closed (e_wal exEngine)" "m_batchWindow (e_wal exEngine) \<le> 0" by (simp_all add: exEngine_def exEng_def exMgr_def)
  obtain e1 where e1: "engine_Apply exStore refPebble exEnv (fst p1) exEngine = (None, e1)" "\<not> m_closed (e_wal e1)" "m_batchWindow (e_wal e1) \<le> 0"
    using mem_apply [OF engineInvD(5,4) [OF inv_e0] idle] mem_apply_log [OF _ engineInvD(5,4) [OF inv_e0] idle] by blast
  obtain seq where wr: "writeWALAndApply exStore refPebble exEnv (fst p1) exEngine = (Inr seq, e1)" using write_ops(1) [OF e1(1)] by blast
  note k = ex.write_keeps [OF inv_e0 e0_fields(1) wr]
  have n1: "m_nextSeq (e_wal e1) \<noteq> - 1" using k(4) by (simp add: e0_fields)
  obtain e2 where e2: "engine_Apply exStore refPebble exEnv (fst p2) e1 = (None, e2)"
    using mem_apply [OF engineInvD(5,4) [OF k(1)] e1(2,3)] by blast
  have c: "rmwCommit exStore refPebble exRequest p1 exEngine = (Inr (snd p1), e1)" "rmwCommit exStore refPebble exRequest p2 e1 = (Inr (snd p2), e2)"
    using e1 e2 by (simp_all add: rmwCommit_def)
  have "isLatest (cellsOf (exView (the (e_db e2)))) [97] [102] [113] (PutUint64 (word_of_int (counter [] + sint (1 :: int64))))"
    by (rule rmw_lost_update [OF ex.cloud_engine_axioms inv_e0 w(1) it w(2,3) l _ _ _ _ p e0_fields(1) c(1) n1 c(2)]) (simp_all add: e0_fields)
  then show ?thesis using p c by (auto simp: counter_def)
qed

end
