(* ===== verification/Commands.thy ===== *)
theory Commands
  imports EventualMode
begin

text \<open>
  The commands of \<open>cmd/\<close> that drive an engine over a local object store, as programs on two
  file systems: the one that holds the object directory and the one that holds the engine's
  directory. The two directories are siblings, so what is done to one does not reach the
  other. A program returns how it ended (\<open>log.Fatal\<close> with an error, or normally), what it
  printed, and the file systems. A printed line is its format string with its arguments; a dash is written in ASCII.

  No tick of the background loops falls into a run, except where the command waits for one.
  The environments of the calls (clocks, cancellation) are arguments.
\<close>

section \<open>Running a command\<close>

datatype fmtArg = FStr string | FBytes bytes | FErr "goerror option" | FInt int

type_synonym line = "string \<times> fmtArg list"

datatype exitCode = Exited | Fatal goerror

type_synonym run = "exitCode \<times> line list \<times> fs \<times> fs"

text \<open>\<open>os.RemoveAll\<close>: the path and what is below it, files and directories.\<close>

definition RemoveAll :: "string \<Rightarrow> (fs, unit) op" where
  "RemoveAll p s =
     (case nextFault s of
        (Some (e, _), s1) \<Rightarrow> (Inl e, s1)
      | (None, s1) \<Rightarrow>
          (Inr (), s1\<lparr>fs_files := filter (\<lambda>x. \<not> (fst x = p \<or> below p (fst x))) (fs_files s1),
                      fs_dirs := filter (\<lambda>d. \<not> (d = p \<or> below p d)) (fs_dirs s1)\<rparr>))"

text \<open>\<open>engine.Options\<close> with only a directory, a store and a namespace.\<close>

definition plainOptions :: "string \<Rightarrow> string \<Rightarrow> options" where
  "plainOptions dir ns = \<lparr>o_dir = dir, o_hasStore = True, o_namespace = ns, o_syncInterval = 0, o_coldMissThreshold = 0,
     o_consistency = ConsistencyStrong, o_asyncWAL = False, o_orphanWALTTL = 0, o_batchWindow = 0, o_maxLocalBytes = 0\<rparr>"

section \<open>test-recovery\<close>

definition recoveryDir :: "string \<Rightarrow> string" where
  "recoveryDir tmp = Join [tmp, ''cloudpebble-test-recovery'']"

definition recoveryObjDir :: "string \<Rightarrow> string" where
  "recoveryObjDir tmp = Join [tmp, ''cloudpebble-test-recovery-obj'']"

text \<open>The writes of the first step, up to the first error.\<close>

definition recoveryWrites :: "'s store \<Rightarrow> 'db pebble \<Rightarrow> codec \<Rightarrow> (nat \<Rightarrow> env) \<Rightarrow> ('s, 'db) engine \<Rightarrow> goerror option \<times> ('s, 'db) engine" where
  "recoveryWrites st P J envs e =
     (case engine_Set st P (envs 0) (rawBytes ''k1'') (rawBytes ''v1'') e of
        (Some err, e1) \<Rightarrow> (Some err, e1)
      | (None, e1) \<Rightarrow>
          (case engine_Set st P (envs 1) (rawBytes ''k2'') (rawBytes ''v2'') e1 of
             (Some err, e2) \<Rightarrow> (Some err, e2)
           | (None, e2) \<Rightarrow>
               (case Sync st P J (envs 2) e2 of
                  (Some err, e3) \<Rightarrow> (Some err, e3)
                | (None, e3) \<Rightarrow> engine_Set st P (envs 3) (rawBytes ''k3'') (rawBytes ''v3'') e3)))"

definition recoveryStep1 :: "'db pebble \<Rightarrow> codec \<Rightarrow> (nat \<Rightarrow> env) \<Rightarrow> string \<Rightarrow> fs \<Rightarrow> fs \<Rightarrow> run" where
  "recoveryStep1 P J envs tmp obj loc =
     (let dir = recoveryDir tmp; objDir = recoveryObjDir tmp; st = local_store objDir;
          loc1 = snd (RemoveAll dir loc);
          obj1 = snd (RemoveAll objDir obj);
          loc2 = snd (MkdirAll dir loc1)
      in case local_New objDir obj1 of
           (Inl err, obj2) \<Rightarrow> (Fatal err, [], obj2, loc2)
         | (Inr _, obj2) \<Rightarrow>
             (case engine_Open st P J (plainOptions dir ''test'') obj2 loc2 of
                (Inl err, obj3, loc3) \<Rightarrow> (Fatal err, [], obj3, loc3)
              | (Inr e, _, _) \<Rightarrow>
                  (case recoveryWrites st P J envs e of
                     (Some err, e1) \<Rightarrow> (Fatal err, [], e_store e1, e_fs e1)
                   | (None, e1) \<Rightarrow>
                       (Exited, [(''step1 done: k1,k2 synced, k3 only in WAL'', [])], e_store e1, e_fs e1))))"

text \<open>The reading loop of the second step: the lines printed and the first error.\<close>

fun printKeys :: "'db pebble \<Rightarrow> string list \<Rightarrow> ('s, 'db) engine \<Rightarrow> line list \<Rightarrow> goerror option \<times> line list \<times> ('s, 'db) engine" where
  "printKeys P [] e out = (None, out, e)"
| "printKeys P (k # ks) e out =
     (case engine_Get P (rawBytes k) e of
        (Inl err, e1) \<Rightarrow> (Some (Wrap k err), out, e1)
      | (Inr v, e1) \<Rightarrow> printKeys P ks e1 (out @ [(''%s = %s'', [FStr k, FBytes v])]))"

definition recoveryStep2 :: "'db pebble \<Rightarrow> codec \<Rightarrow> (nat \<Rightarrow> env) \<Rightarrow> string \<Rightarrow> fs \<Rightarrow> fs \<Rightarrow> run" where
  "recoveryStep2 P J envs tmp obj loc =
     (let dir = recoveryDir tmp; objDir = recoveryObjDir tmp; st = local_store objDir;
          loc1 = snd (RemoveAll dir loc);
          loc2 = snd (MkdirAll dir loc1)
      in case local_New objDir obj of
           (Inl err, obj1) \<Rightarrow> (Fatal err, [], obj1, loc2)
         | (Inr _, obj1) \<Rightarrow>
             (case engine_Open st P J (plainOptions dir ''test'') obj1 loc2 of
                (Inl err, obj2, loc3) \<Rightarrow> (Fatal err, [], obj2, loc3)
              | (Inr e, _, _) \<Rightarrow>
                  (case printKeys P [''k1'', ''k2'', ''k3''] e [] of
                     (Some err, out, e1) \<Rightarrow> (Fatal err, out, e_store e1, e_fs e1)
                   | (None, out, e1) \<Rightarrow>
                       (let e2 = snd (engine_Close st P J (envs 0) e1)
                        in (Exited, out @ [(''recovery OK: k1,k2 from SSTs, k3 from WAL replay'', [])], e_store e2, e_fs e2)))))"

definition recoveryMain :: "'db pebble \<Rightarrow> codec \<Rightarrow> (nat \<Rightarrow> env) \<Rightarrow> string \<Rightarrow> string list \<Rightarrow> fs \<Rightarrow> fs \<Rightarrow> run" where
  "recoveryMain P J envs tmp args obj loc =
     (case args of
        [] \<Rightarrow> (Fatal (Err ''usage: test-recovery <step1|step2>''), [], obj, loc)
      | a # _ \<Rightarrow>
          if a = ''step1'' then recoveryStep1 P J envs tmp obj loc
          else if a = ''step2'' then recoveryStep2 P J envs tmp obj loc
          else (Exited, [], obj, loc))"

section \<open>test-eventual\<close>

definition eventualDir :: "string \<Rightarrow> string" where
  "eventualDir tmp = Join [tmp, ''cloudpebble-test-eventual'']"

definition eventualObjDir :: "string \<Rightarrow> string" where
  "eventualObjDir tmp = Join [tmp, ''cloudpebble-test-eventual-obj'']"

text \<open>The errors of the writes and of the sync are dropped.\<close>

definition eventualWrites :: "'s store \<Rightarrow> 'db pebble \<Rightarrow> codec \<Rightarrow> (nat \<Rightarrow> env) \<Rightarrow> ('s, 'db) engine \<Rightarrow> ('s, 'db) engine" where
  "eventualWrites st P J envs e =
     (let e1 = snd (engine_Set st P (envs 0) (rawBytes ''k1'') (rawBytes ''synced'') e);
          e2 = snd (Sync st P J (envs 1) e1)
      in snd (engine_Set st P (envs 2) (rawBytes ''k2'') (rawBytes ''wal-only'') e2))"

definition eventualStep1 :: "'db pebble \<Rightarrow> codec \<Rightarrow> (nat \<Rightarrow> env) \<Rightarrow> string \<Rightarrow> fs \<Rightarrow> fs \<Rightarrow> run" where
  "eventualStep1 P J envs tmp obj loc =
     (let dir = eventualDir tmp; objDir = eventualObjDir tmp; st = local_store objDir;
          loc1 = snd (RemoveAll dir loc);
          obj1 = snd (RemoveAll objDir obj)
      in case local_New objDir obj1 of
           (Inl err, obj2) \<Rightarrow> (Fatal err, [], obj2, loc1)
         | (Inr _, obj2) \<Rightarrow>
             (case engine_Open st P J ((plainOptions dir ''test-eventual'')\<lparr>o_syncInterval := 3600 * 10 ^ 9\<rparr>) obj2 loc1 of
                (Inl err, obj3, loc3) \<Rightarrow> (Fatal err, [], obj3, loc3)
              | (Inr e, _, _) \<Rightarrow>
                  (let e1 = eventualWrites st P J envs e
                   in (Exited, [(''step1 done: k1 synced, k2 in WAL only, crashed'', [])], e_store e1, e_fs e1))))"

text \<open>The reads of the second step; between them one tick of the replay loop.\<close>

definition eventualReads :: "'s store \<Rightarrow> 'db pebble \<Rightarrow> ('s, 'db) engine \<Rightarrow> line list \<times> ('s, 'db) engine" where
  "eventualReads st P e =
     (let (r1, e1) = engine_Get P (rawBytes ''k1'') e;
          line1 = (''k1 = %q err=%v (should be from checkpoint)'',
            case r1 of Inl err \<Rightarrow> [FBytes [], FErr (Some err)] | Inr v \<Rightarrow> [FBytes v, FErr None]);
          (r2, e2) = engine_Get P (rawBytes ''k2'') e1;
          line2 = (case r2 of
            Inl _ \<Rightarrow> (''k2 NOT FOUND (correct - WAL not replayed in eventual mode)'', [])
          | Inr v \<Rightarrow> (''k2 = %q (found immediately - from checkpoint?)'', [FBytes v]));
          e3 = walReplayTick st P e2;
          (r3, e4) = engine_Get P (rawBytes ''k2'') e3;
          last = (case r3 of
            Inl err \<Rightarrow> [(''k2 STILL MISS: %v (FAIL)'', [FErr (Some err)])]
          | Inr v \<Rightarrow> [(''k2 = %q (self-healing via WAL replay)'', [FBytes v]), (''PASS: eventual consistency converges'', [])])
      in ([line1, line2, (''Waiting for WAL replay loop (5s)...'', [])] @ last, e4))"

definition eventualStep2 :: "'db pebble \<Rightarrow> codec \<Rightarrow> (nat \<Rightarrow> env) \<Rightarrow> string \<Rightarrow> fs \<Rightarrow> fs \<Rightarrow> run" where
  "eventualStep2 P J envs tmp obj loc =
     (let dir = eventualDir tmp; st = local_store (eventualObjDir tmp);
          loc1 = snd (RemoveAll dir loc);
          loc2 = snd (MkdirAll dir loc1);
          (listed, obj1) = sList st (''test-eventual'' @ ''/wal/'') obj;
          wals = (case listed of Inl _ \<Rightarrow> [] | Inr ps \<Rightarrow> ps);
          out = (''WAL files on disk: %d'', [FInt (int (length wals))]) # map (\<lambda>w. (''  %s'', [FStr w])) wals
      in case engine_Open st P J ((plainOptions dir ''test-eventual'')\<lparr>o_consistency := ConsistencyEventual, o_syncInterval := 3600 * 10 ^ 9\<rparr>) obj1 loc2 of
           (Inl err, obj2, loc3) \<Rightarrow> (Fatal err, out, obj2, loc3)
         | (Inr e, _, _) \<Rightarrow>
             (let (reads, e1) = eventualReads st P e;
                  e2 = snd (engine_Close st P J (envs 0) e1)
              in (Exited, out @ reads, e_store e2, e_fs e2)))"

definition eventualMain :: "'db pebble \<Rightarrow> codec \<Rightarrow> (nat \<Rightarrow> env) \<Rightarrow> string \<Rightarrow> string list \<Rightarrow> fs \<Rightarrow> fs \<Rightarrow> run" where
  "eventualMain P J envs tmp args obj loc =
     (case args of
        [] \<Rightarrow> (Fatal (Err ''usage: test-eventual <step1|step2>''), [], obj, loc)
      | a # _ \<Rightarrow>
          (case local_New (eventualObjDir tmp) obj of
             (Inl err, obj1) \<Rightarrow> (Fatal err, [], obj1, loc)
           | (Inr _, obj1) \<Rightarrow>
               if a = ''step1'' then eventualStep1 P J envs tmp obj1 loc
               else if a = ''step2'' then eventualStep2 P J envs tmp obj1 loc
               else (Exited, [], obj1, loc)))"

section \<open>cloudpebble\<close>

definition cloudpebbleMain :: "'db pebble \<Rightarrow> codec \<Rightarrow> (nat \<Rightarrow> env) \<Rightarrow> fs \<Rightarrow> fs \<Rightarrow> run" where
  "cloudpebbleMain P J envs obj loc =
     (let dir = ''testdata/cloudpebble''; objDir = ''testdata/objectstore''; st = local_store objDir;
          key = rawBytes ''hello''; val = rawBytes ''world'';
          out = [(''Setting %q = %q'', [FBytes key, FBytes val])]
      in case local_New objDir obj of
           (Inl err, obj1) \<Rightarrow> (Fatal err, [], obj1, loc)
         | (Inr _, obj1) \<Rightarrow>
             (case engine_Open st P J (plainOptions dir ''default'') obj1 loc of
                (Inl err, obj2, loc2) \<Rightarrow> (Fatal err, [], obj2, loc2)
              | (Inr e, _, _) \<Rightarrow>
                  (case engine_Set st P (envs 0) key val e of
                     (Some err, e1) \<Rightarrow> (Fatal err, out, e_store e1, e_fs e1)
                   | (None, e1) \<Rightarrow>
                       (case engine_Get P key e1 of
                          (Inl err, e2) \<Rightarrow> (Fatal err, out, e_store e2, e_fs e2)
                        | (Inr got, e2) \<Rightarrow>
                            (let e3 = snd (engine_Close st P J (envs 1) e2)
                             in (Exited, out @ [(''Got %q = %q'', [FBytes key, FBytes got]), (''OK: cloudpebble is working'', [])],
                                 e_store e3, e_fs e3))))))"

section \<open>Directories of a command\<close>

lemma normal_goodRoot: "normalPath a \<Longrightarrow> goodRoot a"
proof -
  have c: "cleanElems r (splitSlash b) = splitSlash b" if "plainPath b" for r b
    using cleanElems_append_plain [of "splitSlash b" r "[]"] that by (simp add: plainPath_def cleanElems_def)
  have s: "cleanElems r ([] # splitSlash b) = splitSlash b" if "plainPath b" for r b
    using cleanElems_append_plain [of "splitSlash b" r "[[]]"] that by (simp add: plainPath_def cleanElems_def)
  assume "normalPath a"
  then show ?thesis unfolding normalPath_def
  proof (elim disjE exE conjE)
    assume "plainPath a"
    then show ?thesis using c by (simp add: goodRoot_def plainPath_def)
  next
    fix b assume "a = sep # b" "plainPath b"
    then show ?thesis using s by (simp add: goodRoot_def plainPath_def)
  qed
qed

lemma subRoot:
  assumes "goodRoot tmp" "plainElem n"
  shows "goodRoot (Join [tmp, n])" "Clean (Join [tmp, n]) = Join [tmp, n]"
proof -
  have j: "normalPath (Join [tmp, n])"
    using Join_root [OF assms(1) plainPath_elem [OF assms(2)]] normalPath_slash [OF normalPath_root [OF assms(1)] plainPath_elem [OF assms(2)]] by simp
  show "goodRoot (Join [tmp, n])" "Clean (Join [tmp, n]) = Join [tmp, n]" using normal_goodRoot [OF j] Clean_normal [OF j] by simp_all
qed

text \<open>A file system on which a directory can be made: no file is above it.\<close>

definition usable :: "string \<Rightarrow> fs \<Rightarrow> bool" where
  "usable root f \<longleftrightarrow> fs_faults f = [] \<and> filesOK root (fs_files f) (fs_dirs f) \<and> (\<forall>d. HasPrefix (Clean root) (d @ [sep]) \<longrightarrow> \<not> isFile f d)"

lemma up_usable: "local_up root f \<Longrightarrow> usable root f"
proof -
  assume u: "local_up root f"
  have "\<not> isFile f d" if "HasPrefix (Clean root) (d @ [sep])" for d
  proof
    assume "isFile f d"
    then have "d \<notin> set (fs_dirs f)" using u by (auto simp: local_up_def local_inv_def filesOK_def isFile_def dom_def)
    moreover have "d \<in> set (ancestors (Clean root))" using that by (simp add: ancestors_iff)
    ultimately show False using u by (auto simp: local_up_def)
  qed
  then show ?thesis using u by (simp add: usable_def local_up_def local_inv_def)
qed

lemma remake:
  assumes "goodRoot root" "usable root f"
  shows "\<exists>f'. MkdirAll (Clean root) (snd (RemoveAll (Clean root) f)) = (Inr (), f') \<and> dirEmpty root f'"
proof -
  let ?r = "Clean root"
  have nr: "normalPath ?r" "?r \<noteq> [sep]" using normalPath_root [OF assms(1)] normalPath_not_root by auto
  have u: "fs_faults f = []" "filesOK root (fs_files f) (fs_dirs f)" "\<And>d. HasPrefix ?r (d @ [sep]) \<Longrightarrow> \<not> isFile f d"
    using assms(2) by (simp_all add: usable_def)
  define gone where "gone p \<longleftrightarrow> p = ?r \<or> HasPrefix p (?r @ [sep])" for p
  define f1 where "f1 = f\<lparr>fs_files := filter (\<lambda>x. \<not> gone (fst x)) (fs_files f), fs_dirs := filter (\<lambda>d. \<not> gone d) (fs_dirs f)\<rparr>"
  have f1: "snd (RemoveAll ?r f) = f1"
    using nr(2) by (simp add: RemoveAll_def nextFault_none [OF u(1)] below_def f1_def gone_def)
  have look: "map_of (fs_files f1) p = (if gone p then None else map_of (fs_files f) p)" for p
  proof -
    have "map_of (filter (\<lambda>x. \<not> gone (fst x)) xs) p = (if gone p then None else map_of xs p)" for xs :: "(string \<times> fileEntry) list"
      by (induction xs) auto
    then show ?thesis by (simp add: f1_def)
  qed
  have anc: "\<not> isFile f1 d" if "d \<in> set (ancestors ?r)" for d
    using that u(3) by (auto simp: ancestors_iff isFile_def look gone_def)
  define f2 where "f2 = f1\<lparr>fs_dirs := List.union (ancestors ?r) (fs_dirs f1)\<rparr>"
  have "nextFault f1 = (None, f1)" using u(1) by (simp add: nextFault_none f1_def)
  then have m: "MkdirAll ?r f1 = (Inr (), f2)" using anc by (auto simp: MkdirAll_def list_ex_iff f2_def)
  have files: "fs_files f2 = fs_files f1" "fs_faults f2 = []" using u(1) by (simp_all add: f2_def f1_def)
  have stay: "\<not> gone d" if "HasPrefix p (d @ [sep])" "\<not> gone p" for p d
    using that by (auto simp: gone_def HasPrefix_iff)
  have "filesOK root (fs_files f2) (fs_dirs f2)"
    unfolding filesOK_def
  proof (intro conjI ballI allI impI)
    show "distinct (map fst (fs_files f2))" using u(2) by (simp add: files f1_def filesOK_def distinct_map_filter)
    fix p assume "p \<in> dom (map_of (fs_files f2))"
    then have p: "\<not> gone p" "p \<in> dom (map_of (fs_files f))" by (auto simp: files look split: if_splits)
    show "plainPath q" if "p = ?r @ sep # q" for q using that p(1) by (simp add: gone_def)
    show "d \<in> set (fs_dirs f2)" if "HasPrefix p (d @ [sep])" for d
      using that p u(2) stay [OF that p(1)] by (auto simp: filesOK_def f2_def f1_def)
    have "isFile f1 p" using p by (auto simp: isFile_def look)
    then have "p \<notin> set (ancestors ?r)" using anc by blast
    moreover have "p \<notin> set (fs_dirs f)" using p(2) u(2) by (simp add: filesOK_def)
    ultimately show "p \<notin> set (fs_dirs f2)" by (simp add: f2_def f1_def)
  qed
  then have "local_up root f2" using files(2) by (auto simp: local_up_def local_inv_def faultsOK_def f2_def)
  moreover have "local_contents root f2 = Map.empty"
    by (auto simp: local_contents_def filesView_def files look gone_def)
  moreover have "\<not> local_isDir root f2 q" for q
    by (auto simp: local_isDir_def f2_def f1_def ancestors_iff gone_def HasPrefix_iff)
  ultimately show ?thesis using m f1 by (auto simp: dirEmpty_def)
qed

text \<open>Opening a store that is there changes nothing.\<close>

lemma New_up:
  assumes "local_up root s"
  shows "\<exists>s'. local_New root s = (Inr (), s') \<and> local_up root s' \<and> local_contents root s' = local_contents root s \<and>
    local_isDir root s' = local_isDir root s"
proof -
  have sub: "set (ancestors (Clean root)) \<subseteq> set (fs_dirs s)" and n: "nextFault s = (None, s)"
    using assms by (simp_all add: local_up_def nextFault_none)
  have "\<not> isFile s d" if "d \<in> set (ancestors (Clean root))" for d
    using subsetD [OF sub that] assms by (auto simp: local_up_def local_inv_def filesOK_def isFile_def dom_def)
  then have m: "MkdirAll (Clean root) s = (Inr (), s\<lparr>fs_dirs := List.union (ancestors (Clean root)) (fs_dirs s)\<rparr>)"
    by (auto simp: MkdirAll_def n list_ex_iff)
  have "set (List.union (ancestors (Clean root)) (fs_dirs s)) = set (fs_dirs s)" using sub by auto
  then show ?thesis
    using assms by (auto simp: local_New_def m local_up_def local_inv_def filesOK_def local_contents_def local_isDir_def fun_eq_iff)
qed

context working_engine
begin

lemma fresh_opens:
  assumes "up s" "contents s = Map.empty" "\<forall>q. \<not> isDir s q" "o_hasStore opts" "\<not> o_asyncWAL opts" "o_consistency opts = ConsistencyStrong"
    "goodRoot (o_dir opts)" "dirEmpty (o_dir opts) f" "o_namespace (defaultOptions opts) = ns" "plainPath ns"
  shows "\<exists>e s' f'. engine_Open st P J opts s f = (Inr e, s', f') \<and> serving e \<and> e_ns e = ns \<and> view (the (e_db e)) = Map.empty \<and>
    m_nextSeq (e_wal e) = 1 \<and> e_uploadedFiles e = [] \<and> local_up (o_dir opts) (e_fs e)"
proof -
  have l: "live ns s" using assms(1-3,10) by (simp add: live_def roomFor_def vacant_def)
  have t: "nsTidy J (contents s) ns" "filesClear J (contents s) ns"
    using assms(2,10) by (simp_all add: nsTidy_def walTidy_def manifestTidy_def filesClear_def)
  have d: "durable P view J (contents s) ns = Some Map.empty" "baseSeq J (contents s) ns = 0"
    using assms(2) by (simp_all add: durable_def durableBase_def walSeqs_def baseSeq_def)
  show ?thesis
    using Open_serves [OF assms(4-9) l t] d assms(2) by auto
qed

lemma reopens:
  assumes "serving e" "up s" "contents s = contents (e_store e)" "isDir s = isDir (e_store e)" "o_hasStore opts" "\<not> o_asyncWAL opts"
    "o_consistency opts = ConsistencyStrong" "goodRoot (o_dir opts)" "dirEmpty (o_dir opts) f" "o_namespace (defaultOptions opts) = e_ns e"
    "contents s (walPath (e_ns e) q) \<noteq> None" "baseSeq J (contents s) (e_ns e) < q" "contents s (walPath (e_ns e) (- 1)) = None"
  shows "\<exists>e' s' f'. engine_Open st P J opts s f = (Inr e', s', f') \<and> serving e' \<and> e_ns e' = e_ns e \<and>
    view (the (e_db e')) = view (the (e_db e)) \<and> local_up (o_dir opts) (e_fs e')"
proof -
  have s: "engineInv P view J contents ok e" "live (e_ns e) (e_store e)" "filesClear J (contents s) (e_ns e)"
    using assms(1,3) by (simp_all add: serving_def)
  have l: "live (e_ns e) s" using s(2) assms(2-4) by (simp add: live_def)
  have d: "durable P view J (contents s) (e_ns e) = Some (view (the (e_db e)))" using engineInvD(8) [OF s(1)] assms(3) by simp
  have t: "nsTidy J (contents s) (e_ns e)" using engineInvD(2) [OF s(1)] assms(3) by simp
  obtain e' s' f' where o: "engine_Open st P J opts s f = (Inr e', s', f')" "e_ns e' = e_ns e" "local_up (o_dir opts) (e_fs e')"
    "durable P view J (contents s) (e_ns e) = Some (view (the (e_db e')))"
    "baseSeq J (contents s) (e_ns e) < m_nextSeq (e_wal e') \<longrightarrow> serving e'" "\<forall>q. contents s (walPath (e_ns e) q) \<noteq> None \<longrightarrow> q < m_nextSeq (e_wal e')"
    using Open_serves [OF assms(5-10) l t s(3) _ assms(13)] d by auto
  have "baseSeq J (contents s) (e_ns e) < m_nextSeq (e_wal e')" using o(6) assms(11,12) less_trans by blast
  then show ?thesis using o(1-5) d by auto
qed

lemma no_files_ready: "e_uploadedFiles e = [] \<Longrightarrow> syncReady P contents e"
  by (simp add: syncReady_def tablesStored_def)

lemma recoveryWrites_serves:
  assumes "serving e" "e_uploadedFiles e = []" "m_nextSeq (e_wal e) = 1" "\<forall>i. \<not> en_ctxDone (envs i)"
  shows "\<exists>e'. recoveryWrites st P J envs e = (None, e') \<and> serving e' \<and> steady e' = steady e \<and>
    view (the (e_db e')) = (view (the (e_db e)))(rawBytes ''k1'' \<mapsto> rawBytes ''v1'', rawBytes ''k2'' \<mapsto> rawBytes ''v2'', rawBytes ''k3'' \<mapsto> rawBytes ''v3'') \<and>
    contents (e_store e') (walPath (e_ns e) 3) \<noteq> None \<and> baseSeq J (contents (e_store e')) (e_ns e) < 3 \<and> contents (e_store e') (walPath (e_ns e) (- 1)) = None"
proof -
  obtain e1 where 1: "engine_Set st P (envs 0) (rawBytes ''k1'') (rawBytes ''v1'') e = (None, e1)" "serving e1" "steady e1 = steady e"
    "view (the (e_db e1)) = (view (the (e_db e)))(rawBytes ''k1'' \<mapsto> rawBytes ''v1'')" "m_nextSeq (e_wal e1) = 2" "e_uploadedFiles e1 = []"
    using Set_serves [OF assms(1) _ assms(4) [rule_format], of 0 "rawBytes ''k1''" "rawBytes ''v1''"] assms(2,3) by auto
  obtain e2 where 2: "engine_Set st P (envs 1) (rawBytes ''k2'') (rawBytes ''v2'') e1 = (None, e2)" "serving e2" "steady e2 = steady e1"
    "view (the (e_db e2)) = (view (the (e_db e1)))(rawBytes ''k2'' \<mapsto> rawBytes ''v2'')" "m_nextSeq (e_wal e2) = 3" "e_uploadedFiles e2 = []"
    using Set_serves [OF 1(2) _ assms(4) [rule_format], of 1 "rawBytes ''k2''" "rawBytes ''v2''"] 1(5,6) by auto
  obtain e3 where 3: "Sync st P J (envs 2) e2 = (None, e3)" "serving e3" "steady e3 = steady e2" "view (the (e_db e3)) = view (the (e_db e2))"
    "m_nextSeq (e_wal e3) = 3"
    using Sync_serves [OF 2(2) no_files_ready [OF 2(6)], of "envs 2"] 2(5) by auto
  obtain e4 where 4: "engine_Set st P (envs 3) (rawBytes ''k3'') (rawBytes ''v3'') e3 = (None, e4)" "serving e4" "steady e4 = steady e3"
    "view (the (e_db e4)) = (view (the (e_db e3)))(rawBytes ''k3'' \<mapsto> rawBytes ''v3'')" "m_nextSeq (e_wal e4) = 4"
    "contents (e_store e4) = (contents (e_store e3))(walPath (e_ns e3) 3 \<mapsto> pRepr P [OpSet (rawBytes ''k3'') (rawBytes ''v3'')])"
    using Set_serves [OF 3(2) _ assms(4) [rule_format], of 3 "rawBytes ''k3''" "rawBytes ''v3''"] 3(5) by auto
  have ns: "e_ns e3 = e_ns e" "e_ns e4 = e_ns e" using steadyD(1) 1(3) 2(3) 3(3) 4(3) by metis+
  have i3: "engineInv P view J contents ok e3" and i4: "engineInv P view J contents ok e4" using 3(2) 4(2) by (simp_all add: serving_def)
  have "baseSeq J (contents (e_store e4)) (e_ns e) = baseSeq J (contents (e_store e3)) (e_ns e)"
    using 4(6) ns(1) engineInvD(3) [OF i3] by (simp add: baseSeq_def)
  moreover have "baseSeq J (contents (e_store e3)) (e_ns e) < 3"
    using engineInvD(10,11) [OF i3] ns(1) 3(5) le_less_trans by metis
  ultimately have b: "baseSeq J (contents (e_store e4)) (e_ns e) < 3" by simp
  have w: "contents (e_store e4) (walPath (e_ns e) 3) \<noteq> None" using 4(6) ns(1) by simp
  have m: "contents (e_store e4) (walPath (e_ns e) (- 1)) = None"
  proof (rule ccontr)
    assume "contents (e_store e4) (walPath (e_ns e) (- 1)) \<noteq> None"
    then have "(- 1 :: uint64) < 4" using engineInvD(9) [OF i4, of "- 1"] engineInvD(11) [OF i4] ns(2) 4(5) le_less_trans by metis
    then show False by simp
  qed
  show ?thesis
    using 1 2 3 4 b w m by (intro exI [of _ e4]) (simp add: recoveryWrites_def)
qed

lemma printKeys_serves:
  assumes "serving e" "\<forall>k \<in> set ks. view (the (e_db e)) (rawBytes k) = Some (f k)"
  shows "\<exists>e'. printKeys P ks e out = (None, out @ map (\<lambda>k. (''%s = %s'', [FStr k, FBytes (f k)])) ks, e') \<and> serving e'"
  using assms
proof (induction ks arbitrary: e out)
  case (Cons k ks)
  obtain e1 where g: "engine_Get P (rawBytes k) e = (Inr (f k), e1)" "serving e1" "view (the (e_db e1)) = view (the (e_db e))"
    using Get_serves [OF Cons.prems(1), of "rawBytes k"] Cons.prems(2) by auto
  then show ?case using Cons.IH [OF g(2), of "out @ [(''%s = %s'', [FStr k, FBytes (f k)])]"] Cons.prems(2) by simp
qed simp

end

text \<open>A store can be opened where nothing is in the way; an engine makes its directory itself.\<close>

lemma New_usable:
  assumes "usable root f" "\<not> isFile f (Clean root)"
  shows "\<exists>f'. local_New root f = (Inr (), f') \<and> usable root f'"
proof -
  have n: "nextFault f = (None, f)" using assms(1) by (simp add: usable_def nextFault_none)
  have anc: "\<not> isFile f d" if "d \<in> set (ancestors (Clean root))" for d
    using that assms by (auto simp: usable_def ancestors_iff)
  let ?f = "f\<lparr>fs_dirs := List.union (ancestors (Clean root)) (fs_dirs f)\<rparr>"
  have m: "MkdirAll (Clean root) f = (Inr (), ?f)" using anc by (auto simp: MkdirAll_def n list_ex_iff)
  have "p \<notin> set (ancestors (Clean root))" if "p \<in> dom (map_of (fs_files f))" for p using that anc by (auto simp: isFile_def)
  then have "filesOK root (fs_files ?f) (fs_dirs ?f)" using assms(1) by (auto simp: usable_def filesOK_def)
  then show ?thesis using assms(1) m by (simp add: local_New_def usable_def isFile_def)
qed

lemma Open_mkdir:
  assumes "MkdirAll (Clean (o_dir opts)) f = (Inr (), f1)" "dirEmpty (o_dir opts) f1" "engine_Open st P J opts s f1 = (Inr e, s', f')"
  shows "engine_Open st P J opts s f = (Inr e, s', f')"
proof -
  have u: "local_up (o_dir opts) f1" using assms(2) by (simp add: dirEmpty_def)
  have sub: "set (ancestors (Clean (o_dir opts))) \<subseteq> set (fs_dirs f1)" and n: "nextFault f1 = (None, f1)"
    using u by (simp_all add: local_up_def nextFault_none)
  have "\<not> isFile f1 d" if "d \<in> set (ancestors (Clean (o_dir opts)))" for d
    using subsetD [OF sub that] u by (auto simp: local_up_def local_inv_def filesOK_def isFile_def dom_def)
  moreover have "List.union xs ds = ds" if "set xs \<subseteq> set ds" for xs ds :: "string list"
    using that by (induction xs arbitrary: ds) (simp_all add: List.union_def)
  ultimately have m: "MkdirAll (Clean (o_dir opts)) f1 = (Inr (), f1)" using sub by (auto simp: MkdirAll_def n list_ex_iff)
  have d: "o_dir (defaultOptions opts) = o_dir opts" by (simp add: defaultOptions_def)
  show ?thesis using assms(1,3) m by (simp add: engine_Open_def Let_def d split: if_splits prod.splits sum.splits)
qed

section \<open>test-recovery passes\<close>

lemma recovery_names: "plainElem ''cloudpebble-test-recovery''" "plainElem ''cloudpebble-test-recovery-obj''" "plainPath ''test''"
  by (simp_all add: plainElem_def plainPath_def sep_def)

lemma plain_fields:
  "o_hasStore (plainOptions dir ns)" "\<not> o_asyncWAL (plainOptions dir ns)" "o_consistency (plainOptions dir ns) = ConsistencyStrong"
  "o_dir (plainOptions dir ns) = dir" "ns \<noteq> [] \<Longrightarrow> o_namespace (defaultOptions (plainOptions dir ns)) = ns"
  by (simp_all add: plainOptions_def defaultOptions_def)

lemma recovery_step1:
  fixes P :: "'db pebble"
  assumes "working_engine (local_store (recoveryObjDir tmp)) (local_contents (recoveryObjDir tmp)) (local_inv (recoveryObjDir tmp)) P view flushed J
      (local_up (recoveryObjDir tmp)) (local_isDir (recoveryObjDir tmp)) fs_clock" (is "working_engine ?st ?c ?ok P view flushed J ?up ?isDir fs_clock")
    "goodRoot tmp" "usable (recoveryDir tmp) loc" "usable (recoveryObjDir tmp) obj" "\<forall>i. \<not> en_ctxDone (envs i)"
  shows "\<exists>e. recoveryStep1 P J envs tmp obj loc = (Exited, [(''step1 done: k1,k2 synced, k3 only in WAL'', [])], e_store e, e_fs e) \<and>
    working_engine.serving ?c ?ok P view J ?up ?isDir e \<and> e_ns e = ''test'' \<and> local_up (recoveryDir tmp) (e_fs e) \<and>
    view (the (e_db e)) = [rawBytes ''k1'' \<mapsto> rawBytes ''v1'', rawBytes ''k2'' \<mapsto> rawBytes ''v2'', rawBytes ''k3'' \<mapsto> rawBytes ''v3''] \<and>
    ?c (e_store e) (walPath ''test'' 3) \<noteq> None \<and> baseSeq J (?c (e_store e)) ''test'' < 3 \<and> ?c (e_store e) (walPath ''test'' (- 1)) = None"
proof -
  note W = assms(1)
  note d = subRoot [OF assms(2) recovery_names(1), folded recoveryDir_def] and o = subRoot [OF assms(2) recovery_names(2), folded recoveryObjDir_def]
  obtain loc2 where l2: "MkdirAll (recoveryDir tmp) (snd (RemoveAll (recoveryDir tmp) loc)) = (Inr (), loc2)" "dirEmpty (recoveryDir tmp) loc2"
    using remake [OF d(1) assms(3)] d(2) by auto
  obtain obj2 where o2: "local_New (recoveryObjDir tmp) (snd (RemoveAll (recoveryObjDir tmp) obj)) = (Inr (), obj2)" "dirEmpty (recoveryObjDir tmp) obj2"
    using remake [OF o(1) assms(4)] o(2) by (auto simp: local_New_def)
  let ?opts = "plainOptions (recoveryDir tmp) ''test''"
  obtain e s' f' where e: "engine_Open ?st P J ?opts obj2 loc2 = (Inr e, s', f')" "working_engine.serving ?c ?ok P view J ?up ?isDir e"
    "e_ns e = ''test''" "view (the (e_db e)) = Map.empty" "m_nextSeq (e_wal e) = 1" "e_uploadedFiles e = []" "local_up (recoveryDir tmp) (e_fs e)"
    using working_engine.fresh_opens [OF W, of obj2 ?opts loc2 "''test''"] o2(2) l2(2) d(1) recovery_names(3)
    by (auto simp: dirEmpty_def plain_fields)
  obtain e' where w: "recoveryWrites ?st P J envs e = (None, e')" "working_engine.serving ?c ?ok P view J ?up ?isDir e'" "steady e' = steady e"
    "view (the (e_db e')) = [rawBytes ''k1'' \<mapsto> rawBytes ''v1'', rawBytes ''k2'' \<mapsto> rawBytes ''v2'', rawBytes ''k3'' \<mapsto> rawBytes ''v3'']"
    "?c (e_store e') (walPath ''test'' 3) \<noteq> None" "baseSeq J (?c (e_store e')) ''test'' < 3" "?c (e_store e') (walPath ''test'' (- 1)) = None"
    using working_engine.recoveryWrites_serves [OF W e(2,6,5) assms(5)] e(3,4) by auto
  show ?thesis
    using l2(1) o2(1) e(1,3,7) w working_engine.steadyD [OF W w(3)] by (intro exI [of _ e']) (simp add: recoveryStep1_def Let_def)
qed

text \<open>C17: the recovery test passes. When Pebble, the codec and the two file systems work, \<open>step1\<close>
  ends normally, and \<open>step2\<close>, run on what \<open>step1\<close> left, prints the three values and ends normally.\<close>

theorem recovery_test_passes:
  fixes P :: "'db pebble"
  assumes "working_engine st contents ok P view flushed J up isDir clock" "goodRoot tmp"
    "usable (recoveryDir tmp) loc" "usable (recoveryObjDir tmp) obj" "\<forall>i. \<not> en_ctxDone (envs i)"
  shows "\<exists>obj1 loc1 obj2 loc2.
    recoveryMain P J envs tmp [''step1''] obj loc = (Exited, [(''step1 done: k1,k2 synced, k3 only in WAL'', [])], obj1, loc1) \<and>
    recoveryMain P J envs tmp [''step2''] obj1 loc1 =
      (Exited, [(''%s = %s'', [FStr ''k1'', FBytes (rawBytes ''v1'')]), (''%s = %s'', [FStr ''k2'', FBytes (rawBytes ''v2'')]),
        (''%s = %s'', [FStr ''k3'', FBytes (rawBytes ''v3'')]), (''recovery OK: k1,k2 from SSTs, k3 from WAL replay'', [])], obj2, loc2)"
proof -
  note d = subRoot [OF assms(2) recovery_names(1), folded recoveryDir_def] and o = subRoot [OF assms(2) recovery_names(2), folded recoveryObjDir_def]
  note W = local_working [OF o(1) assms(1)]
  let ?D = "recoveryObjDir tmp" and ?opts = "plainOptions (recoveryDir tmp) ''test''"
  let ?c = "local_contents ?D" and ?serving = "working_engine.serving (local_contents ?D) (local_inv ?D) P view J (local_up ?D) (local_isDir ?D)"
  obtain e where e: "recoveryStep1 P J envs tmp obj loc = (Exited, [(''step1 done: k1,k2 synced, k3 only in WAL'', [])], e_store e, e_fs e)"
    "?serving e" "e_ns e = ''test''" "local_up (recoveryDir tmp) (e_fs e)"
    "view (the (e_db e)) = [rawBytes ''k1'' \<mapsto> rawBytes ''v1'', rawBytes ''k2'' \<mapsto> rawBytes ''v2'', rawBytes ''k3'' \<mapsto> rawBytes ''v3'']"
    "?c (e_store e) (walPath ''test'' 3) \<noteq> None" "baseSeq J (?c (e_store e)) ''test'' < 3" "?c (e_store e) (walPath ''test'' (- 1)) = None"
    using recovery_step1 [OF W assms(2-5)] by blast
  obtain loc2 where l2: "MkdirAll (recoveryDir tmp) (snd (RemoveAll (recoveryDir tmp) (e_fs e))) = (Inr (), loc2)" "dirEmpty (recoveryDir tmp) loc2"
    using remake [OF d(1) up_usable [OF e(4)]] d(2) by auto
  have "local_up ?D (e_store e)" using e(2) by (simp add: working_engine.serving_def [OF W] working_engine.live_def [OF W])
  then obtain obj1 where o1: "local_New ?D (e_store e) = (Inr (), obj1)" "local_up ?D obj1" "?c obj1 = ?c (e_store e)"
    "local_isDir ?D obj1 = local_isDir ?D (e_store e)"
    using New_up by blast
  obtain e2 s' f' where e2: "engine_Open (local_store ?D) P J ?opts obj1 loc2 = (Inr e2, s', f')" "?serving e2" "view (the (e_db e2)) = view (the (e_db e))"
    using working_engine.reopens [OF W e(2) o1(2-4), of ?opts loc2 3] e(3,6-8) o1(3) l2(2) d(1) by (auto simp: plain_fields)
  have "\<forall>k \<in> set [''k1'', ''k2'', ''k3'']. view (the (e_db e2)) (rawBytes k) = Some (rawBytes (''v'' @ tl k))"
    using e2(3) e(5) by (simp add: rawBytes_def)
  then obtain e3 where p: "printKeys P [''k1'', ''k2'', ''k3''] e2 [] = (None, map (\<lambda>k. (''%s = %s'', [FStr k, FBytes (rawBytes (''v'' @ tl k))])) [''k1'', ''k2'', ''k3''], e3)"
    using working_engine.printKeys_serves [OF W e2(2), of "[''k1'', ''k2'', ''k3'']" "\<lambda>k. rawBytes (''v'' @ tl k)" "[]"] by auto
  show ?thesis
    using e(1) l2(1) o1(1) e2(1) p by (simp add: recoveryMain_def recoveryStep2_def Let_def del: printKeys.simps)
qed

definition diskFs :: fs where
  "diskFs = \<lparr>fs_files = [], fs_dirs = [[], ''/tmp''], fs_clock = 5, fs_faults = []\<rparr>"

lemma tmp_usable: "usable root diskFs" "goodRoot ''/tmp''" "\<forall>i :: nat. \<not> en_ctxDone exEnv"
  by (simp_all add: usable_def diskFs_def filesOK_def isFile_def goodRoot_def cleanElems_def rooted_def sep_def plainElem_def exEnv_def)

theorem recovery_test_passes_witness:
  "\<exists>obj1 loc1 obj2 loc2.
    recoveryMain refPebble refCodec (\<lambda>_. exEnv) ''/tmp'' [''step1''] diskFs diskFs = (Exited, [(''step1 done: k1,k2 synced, k3 only in WAL'', [])], obj1, loc1) \<and>
    recoveryMain refPebble refCodec (\<lambda>_. exEnv) ''/tmp'' [''step2''] obj1 loc1 =
      (Exited, [(''%s = %s'', [FStr ''k1'', FBytes (rawBytes ''v1'')]), (''%s = %s'', [FStr ''k2'', FBytes (rawBytes ''v2'')]),
        (''%s = %s'', [FStr ''k3'', FBytes (rawBytes ''v3'')]), (''recovery OK: k1,k2 from SSTs, k3 from WAL replay'', [])], obj2, loc2)"
  by (rule recovery_test_passes [OF exWorking.working_engine_axioms tmp_usable(2,1,1,3)])

section \<open>test-eventual passes\<close>

context working_engine
begin

lemma eventualWrites_serves:
  assumes "serving e" "e_uploadedFiles e = []" "m_nextSeq (e_wal e) = 1" "\<forall>i. \<not> en_ctxDone (envs i)" "view (the (e_db e)) = Map.empty"
  shows "\<exists>e' q0. eventualWrites st P J envs e = e' \<and> serving e' \<and> steady e' = steady e \<and>
    view (the (e_db e')) = [rawBytes ''k1'' \<mapsto> rawBytes ''synced'', rawBytes ''k2'' \<mapsto> rawBytes ''wal-only''] \<and>
    durableBase P view J (contents (e_store e')) (e_ns e) = Some (q0, [rawBytes ''k1'' \<mapsto> rawBytes ''synced'']) \<and>
    contents (e_store e') (walPath (e_ns e) (- 1)) = None"
proof -
  obtain e1 where 1: "engine_Set st P (envs 0) (rawBytes ''k1'') (rawBytes ''synced'') e = (None, e1)" "serving e1" "steady e1 = steady e"
    "view (the (e_db e1)) = [rawBytes ''k1'' \<mapsto> rawBytes ''synced'']" "m_nextSeq (e_wal e1) = 2" "e_uploadedFiles e1 = []"
    using Set_serves [OF assms(1) _ assms(4) [rule_format], of 0 "rawBytes ''k1''" "rawBytes ''synced''"] assms(2,3,5) by auto
  obtain e2 where 2: "Sync st P J (envs 1) e1 = (None, e2)" "serving e2" "steady e2 = steady e1" "view (the (e_db e2)) = view (the (e_db e1))"
    "m_nextSeq (e_wal e2) = 2" "\<forall>q. contents (e_store e2) (walPath (e_ns e1) q) = None"
    using Sync_serves [OF 1(2) no_files_ready [OF 1(6)], of "envs 1"] 1(5) by auto
  obtain e3 where 3: "engine_Set st P (envs 2) (rawBytes ''k2'') (rawBytes ''wal-only'') e2 = (None, e3)" "serving e3" "steady e3 = steady e2"
    "view (the (e_db e3)) = (view (the (e_db e2)))(rawBytes ''k2'' \<mapsto> rawBytes ''wal-only'')" "m_nextSeq (e_wal e3) = 3"
    "contents (e_store e3) = (contents (e_store e2))(walPath (e_ns e2) 2 \<mapsto> pRepr P [OpSet (rawBytes ''k2'') (rawBytes ''wal-only'')])"
    using Set_serves [OF 2(2) _ assms(4) [rule_format], of 2 "rawBytes ''k2''" "rawBytes ''wal-only''"] 2(5) by auto
  have ns: "e_ns e1 = e_ns e" "e_ns e2 = e_ns e" "e_ns e3 = e_ns e" using steadyD(1) 1(3) 2(3) 3(3) by metis+
  have i2: "engineInv P view J contents ok e2" and i3: "engineInv P view J contents ok e3" using 2(2) 3(2) by (simp_all add: serving_def)
  have "walSeqs (contents (e_store e2)) (e_ns e) = []" using 2(6) ns(1) by (simp add: walSeqs_def)
  then obtain q0 where "durableBase P view J (contents (e_store e2)) (e_ns e) = Some (q0, view (the (e_db e2)))"
    using engineInvD(8) [OF i2] ns(2) by (auto simp: durable_def split: option.splits)
  moreover have "durableBase P view J (contents (e_store e3)) (e_ns e) = durableBase P view J (contents (e_store e2)) (e_ns e)"
    using 3(6) ns(2) engineInvD(3) [OF i2] nsTidyD(3) [OF engineInvD(2) [OF i2]] by (intro durableBase_cong) auto
  moreover have "contents (e_store e3) (walPath (e_ns e) (- 1)) = None"
  proof (rule ccontr)
    assume "contents (e_store e3) (walPath (e_ns e) (- 1)) \<noteq> None"
    then have "(- 1 :: uint64) < 3" using engineInvD(9) [OF i3, of "- 1"] engineInvD(11) [OF i3] ns(3) 3(5) le_less_trans by metis
    then show False by simp
  qed
  ultimately show ?thesis using 1 2 3 by (intro exI [of _ e3] exI [of _ q0]) (simp add: eventualWrites_def)
qed

lemma eventualReads_pass:
  assumes "live (e_ns e) (e_store e)" "nsTidy J (contents (e_store e)) (e_ns e)" "e_db e = Some db"
    "durableBase P view J (contents (e_store e)) (e_ns e) = Some (e_maxWALSeq e, view db)" "durable P view J (contents (e_store e)) (e_ns e) = Some m"
    "view db (rawBytes ''k1'') = Some v1" "view db (rawBytes ''k2'') = None" "m (rawBytes ''k2'') = Some v2"
  shows "fst (eventualReads st P e) = [(''k1 = %q err=%v (should be from checkpoint)'', [FBytes v1, FErr None]),
    (''k2 NOT FOUND (correct - WAL not replayed in eventual mode)'', []), (''Waiting for WAL replay loop (5s)...'', []),
    (''k2 = %q (self-healing via WAL replay)'', [FBytes v2]), (''PASS: eventual consistency converges'', [])]"
proof -
  obtain mt n b where 1: "engine_Get P (rawBytes ''k1'') e = (Inr v1, e\<lparr>e_metrics := mt, e_coldMissCount := n, e_recovering := b\<rparr>)"
    using Get_answers [OF assms(3), of "rawBytes ''k1''"] assms(6) by auto
  let ?e1 = "e\<lparr>e_metrics := mt, e_coldMissCount := n, e_recovering := b\<rparr>"
  have "e_db ?e1 = Some db" using assms(3) by simp
  then obtain mt' n' b' where 2: "engine_Get P (rawBytes ''k2'') ?e1 = (Inl pebbleErrNotFound, ?e1\<lparr>e_metrics := mt', e_coldMissCount := n', e_recovering := b'\<rparr>)"
    using Get_answers [of ?e1 db "rawBytes ''k2''"] assms(7) by auto
  let ?e2 = "?e1\<lparr>e_metrics := mt', e_coldMissCount := n', e_recovering := b'\<rparr>"
  obtain e3 where 3: "replayWALs st P ?e2 = (None, e3)" "e_db e3 = Some (the (e_db e3))" "view (the (e_db e3)) = m"
    using replay_serves [of ?e2 db m] assms(1-5) by auto
  obtain mt'' n'' b'' where 4: "engine_Get P (rawBytes ''k2'') e3 = (Inr v2, e3\<lparr>e_metrics := mt'', e_coldMissCount := n'', e_recovering := b''\<rparr>)"
    using Get_answers [OF 3(2), of "rawBytes ''k2''"] 3(3) assms(8) by auto
  show ?thesis using 1 2 3(1) 4 by (simp add: eventualReads_def walReplayTick_def Let_def)
qed

end

lemma eventual_names: "plainElem ''cloudpebble-test-eventual''" "plainElem ''cloudpebble-test-eventual-obj''" "plainPath ''test-eventual''"
  by (simp_all add: plainElem_def plainPath_def sep_def)

lemma eventual_fields:
  fixes dir defines "o1 \<equiv> (plainOptions dir ''test-eventual'')\<lparr>o_syncInterval := 3600 * 10 ^ 9\<rparr>"
    and "o2 \<equiv> (plainOptions dir ''test-eventual'')\<lparr>o_consistency := ConsistencyEventual, o_syncInterval := 3600 * 10 ^ 9\<rparr>"
  shows "o_hasStore o1" "\<not> o_asyncWAL o1" "o_consistency o1 = ConsistencyStrong" "o_dir o1 = dir" "o_namespace (defaultOptions o1) = ''test-eventual''"
    "o_hasStore o2" "o_consistency o2 = ConsistencyEventual" "o_dir o2 = dir" "o_namespace (defaultOptions o2) = ''test-eventual''"
  by (simp_all add: o1_def o2_def plainOptions_def defaultOptions_def)

lemma eventual_step1:
  fixes P :: "'db pebble"
  assumes "working_engine (local_store (eventualObjDir tmp)) (local_contents (eventualObjDir tmp)) (local_inv (eventualObjDir tmp)) P view flushed J
      (local_up (eventualObjDir tmp)) (local_isDir (eventualObjDir tmp)) fs_clock" (is "working_engine ?st ?c ?ok P view flushed J ?up ?isDir fs_clock")
    "goodRoot tmp" "usable (eventualDir tmp) loc" "usable (eventualObjDir tmp) obj" "\<forall>i. \<not> en_ctxDone (envs i)"
  shows "\<exists>e q0. eventualStep1 P J envs tmp obj loc = (Exited, [(''step1 done: k1 synced, k2 in WAL only, crashed'', [])], e_store e, e_fs e) \<and>
    working_engine.serving ?c ?ok P view J ?up ?isDir e \<and> e_ns e = ''test-eventual'' \<and> local_up (eventualDir tmp) (e_fs e) \<and>
    view (the (e_db e)) = [rawBytes ''k1'' \<mapsto> rawBytes ''synced'', rawBytes ''k2'' \<mapsto> rawBytes ''wal-only''] \<and>
    durableBase P view J (?c (e_store e)) ''test-eventual'' = Some (q0, [rawBytes ''k1'' \<mapsto> rawBytes ''synced'']) \<and>
    ?c (e_store e) (walPath ''test-eventual'' (- 1)) = None"
proof -
  note W = assms(1)
  note d = subRoot [OF assms(2) eventual_names(1), folded eventualDir_def] and o = subRoot [OF assms(2) eventual_names(2), folded eventualObjDir_def]
  let ?opts = "(plainOptions (eventualDir tmp) ''test-eventual'')\<lparr>o_syncInterval := 3600 * 10 ^ 9\<rparr>" and ?loc = "snd (RemoveAll (eventualDir tmp) loc)"
  obtain loc2 where l2: "MkdirAll (Clean (eventualDir tmp)) ?loc = (Inr (), loc2)" "dirEmpty (eventualDir tmp) loc2"
    using remake [OF d(1) assms(3)] d(2) by auto
  obtain obj2 where o2: "local_New (eventualObjDir tmp) (snd (RemoveAll (eventualObjDir tmp) obj)) = (Inr (), obj2)" "dirEmpty (eventualObjDir tmp) obj2"
    using remake [OF o(1) assms(4)] o(2) by (auto simp: local_New_def)
  obtain e s' f' where e: "engine_Open ?st P J ?opts obj2 loc2 = (Inr e, s', f')" "working_engine.serving ?c ?ok P view J ?up ?isDir e"
    "e_ns e = ''test-eventual''" "view (the (e_db e)) = Map.empty" "m_nextSeq (e_wal e) = 1" "e_uploadedFiles e = []" "local_up (eventualDir tmp) (e_fs e)"
    using working_engine.fresh_opens [OF W _ _ _ eventual_fields(1-3), unfolded eventual_fields(4,5), OF _ _ _ d(1) l2(2) refl eventual_names(3), of obj2] o2(2)
    unfolding dirEmpty_def by blast
  have op: "engine_Open ?st P J ?opts obj2 ?loc = (Inr e, s', f')"
    using Open_mkdir [of ?opts ?loc loc2 ?st P J obj2 e s' f'] l2 e(1) unfolding eventual_fields by blast
  obtain e' q0 where w: "eventualWrites ?st P J envs e = e'" "working_engine.serving ?c ?ok P view J ?up ?isDir e'" "steady e' = steady e"
    "view (the (e_db e')) = [rawBytes ''k1'' \<mapsto> rawBytes ''synced'', rawBytes ''k2'' \<mapsto> rawBytes ''wal-only'']"
    "durableBase P view J (?c (e_store e')) ''test-eventual'' = Some (q0, [rawBytes ''k1'' \<mapsto> rawBytes ''synced''])"
    "?c (e_store e') (walPath ''test-eventual'' (- 1)) = None"
    using working_engine.eventualWrites_serves [OF W e(2,6,5) assms(5) e(4)] unfolding e(3) by blast
  show ?thesis
    using o2(1) op e(3,7) w working_engine.steadyD [OF W w(3)] by (intro exI [of _ e'] exI [of _ q0]) (simp add: eventualStep1_def Let_def)
qed

text \<open>C40: the test of eventual consistency passes. When Pebble, the codec and the two file systems
  work, \<open>step1\<close> ends normally, and \<open>step2\<close>, run on what it left, reads the synced key, does not find
  the other one, waits, finds it and prints that it passed.\<close>

theorem eventual_test_passes:
  fixes P :: "'db pebble"
  assumes "working_engine st contents ok P view flushed J up isDir clock" "goodRoot tmp" "usable (eventualDir tmp) loc"
    "usable (eventualObjDir tmp) obj" "\<not> isFile obj (Clean (eventualObjDir tmp))" "\<forall>i. \<not> en_ctxDone (envs i)"
  shows "\<exists>obj1 loc1 obj2 loc2 wals.
    eventualMain P J envs tmp [''step1''] obj loc = (Exited, [(''step1 done: k1 synced, k2 in WAL only, crashed'', [])], obj1, loc1) \<and>
    eventualMain P J envs tmp [''step2''] obj1 loc1 =
      (Exited, (''WAL files on disk: %d'', [FInt (int (length wals))]) # map (\<lambda>w. (''  %s'', [FStr w])) wals @
        [(''k1 = %q err=%v (should be from checkpoint)'', [FBytes (rawBytes ''synced''), FErr None]),
         (''k2 NOT FOUND (correct - WAL not replayed in eventual mode)'', []), (''Waiting for WAL replay loop (5s)...'', []),
         (''k2 = %q (self-healing via WAL replay)'', [FBytes (rawBytes ''wal-only'')]), (''PASS: eventual consistency converges'', [])], obj2, loc2)"
proof -
  note d = subRoot [OF assms(2) eventual_names(1), folded eventualDir_def] and o = subRoot [OF assms(2) eventual_names(2), folded eventualObjDir_def]
  note W = local_working [OF o(1) assms(1)]
  let ?D = "eventualObjDir tmp" and ?ns = "''test-eventual''"
  let ?opts = "(plainOptions (eventualDir tmp) ?ns)\<lparr>o_consistency := ConsistencyEventual, o_syncInterval := 3600 * 10 ^ 9\<rparr>"
  let ?st = "local_store ?D" and ?c = "local_contents ?D"
  let ?live = "working_engine.live (local_contents ?D) (local_up ?D) (local_isDir ?D)"
  note serving_def = working_engine.serving_def [OF W] and live_def = working_engine.live_def [OF W]
  obtain obj0 where n0: "local_New ?D obj = (Inr (), obj0)" "usable ?D obj0" using New_usable [OF assms(4,5)] by blast
  obtain e q0 where e: "eventualStep1 P J envs tmp obj0 loc = (Exited, [(''step1 done: k1 synced, k2 in WAL only, crashed'', [])], e_store e, e_fs e)"
    "working_engine.serving ?c (local_inv ?D) P view J (local_up ?D) (local_isDir ?D) e" "e_ns e = ?ns" "local_up (eventualDir tmp) (e_fs e)"
    "view (the (e_db e)) = [rawBytes ''k1'' \<mapsto> rawBytes ''synced'', rawBytes ''k2'' \<mapsto> rawBytes ''wal-only'']"
    "durableBase P view J (?c (e_store e)) ?ns = Some (q0, [rawBytes ''k1'' \<mapsto> rawBytes ''synced''])" "?c (e_store e) (walPath ?ns (- 1)) = None"
    using eventual_step1 [OF W assms(2,3) n0(2) assms(6)] by blast
  have s: "engineInv P view J ?c (local_inv ?D) e" "?live ?ns (e_store e)" "filesClear J (?c (e_store e)) ?ns"
    using e(2,3) by (simp_all add: serving_def)
  obtain loc2 where l2: "MkdirAll (eventualDir tmp) (snd (RemoveAll (eventualDir tmp) (e_fs e))) = (Inr (), loc2)" "dirEmpty (eventualDir tmp) loc2"
    using remake [OF d(1) up_usable [OF e(4)]] d(2) by auto
  obtain obj1 where o1: "local_New ?D (e_store e) = (Inr (), obj1)" "local_up ?D obj1" "?c obj1 = ?c (e_store e)" "local_isDir ?D obj1 = local_isDir ?D (e_store e)"
    using New_up s(2) by (auto simp: live_def)
  have tidy: "nsTidy J (?c (e_store e)) ?ns" and dur: "durable P view J (?c (e_store e)) ?ns = Some (view (the (e_db e)))"
    using engineInvD(2,8) [OF s(1)] e(3) by simp_all
  have "?live ?ns obj1" using s(2) o1(2-4) by (simp add: live_def)
  moreover have "?c obj1 (?ns @ sep # walDir) = None" using nsTidyD(2) [OF tidy] o1(3) by (simp add: walTidy_def)
  ultimately obtain ps obj2 where l: "sList ?st (?ns @ ''/wal/'') obj1 = (Inr ps, obj2)" "?live ?ns obj2" "?c obj2 = ?c (e_store e)"
    using working_engine.list_live [OF W, of ?ns obj1 walDir] o1(3) by (auto simp: walDir_def sep_def)
  obtain e2 s' f' where e2: "engine_Open ?st P J ?opts obj2 loc2 = (Inr e2, s', f')" "e_ns e2 = ?ns" "?c (e_store e2) = ?c (e_store e)" "?live ?ns (e_store e2)"
    "e_db e2 = Some (the (e_db e2))" "durableBase P view J (?c (e_store e)) ?ns = Some (e_maxWALSeq e2, view (the (e_db e2)))"
    using working_engine.eventual_opens [OF W eventual_fields(6,7), unfolded eventual_fields(8,9), OF d(1) l2(2) refl l(2), unfolded l(3), OF tidy s(3) _ e(7)] dur by auto
  have v: "view (the (e_db e2)) = [rawBytes ''k1'' \<mapsto> rawBytes ''synced'']" using e2(6) e(6) by simp
  have "fst (eventualReads ?st P e2) = [(''k1 = %q err=%v (should be from checkpoint)'', [FBytes (rawBytes ''synced''), FErr None]),
      (''k2 NOT FOUND (correct - WAL not replayed in eventual mode)'', []), (''Waiting for WAL replay loop (5s)...'', []),
      (''k2 = %q (self-healing via WAL replay)'', [FBytes (rawBytes ''wal-only'')]), (''PASS: eventual consistency converges'', [])]"
    by (rule working_engine.eventualReads_pass [OF W, unfolded e2(2), where db = "the (e_db e2)" and m = "view (the (e_db e))"])
      (use e2 v tidy dur e(5) in \<open>simp_all add: rawBytes_def\<close>)
  then show ?thesis
    using n0(1) e(1) o1(1) l(1) l2(1) e2(1) by (auto simp: eventualMain_def eventualStep2_def Let_def split: prod.split)
qed

theorem eventual_test_passes_witness:
  "\<exists>obj1 loc1 obj2 loc2 wals.
    eventualMain refPebble refCodec (\<lambda>_. exEnv) ''/tmp'' [''step1''] diskFs diskFs = (Exited, [(''step1 done: k1 synced, k2 in WAL only, crashed'', [])], obj1, loc1) \<and>
    eventualMain refPebble refCodec (\<lambda>_. exEnv) ''/tmp'' [''step2''] obj1 loc1 =
      (Exited, (''WAL files on disk: %d'', [FInt (int (length wals))]) # map (\<lambda>w. (''  %s'', [FStr w])) wals @
        [(''k1 = %q err=%v (should be from checkpoint)'', [FBytes (rawBytes ''synced''), FErr None]),
         (''k2 NOT FOUND (correct - WAL not replayed in eventual mode)'', []), (''Waiting for WAL replay loop (5s)...'', []),
         (''k2 = %q (self-healing via WAL replay)'', [FBytes (rawBytes ''wal-only'')]), (''PASS: eventual consistency converges'', [])], obj2, loc2)"
  by (rule eventual_test_passes [OF exWorking.working_engine_axioms tmp_usable(2,1,1) _ tmp_usable(3)]) (simp add: isFile_def diskFs_def)

section \<open>cloudpebble works\<close>

context working_engine
begin

lemma set_get_serves:
  assumes "serving e" "m_nextSeq (e_wal e) \<noteq> - 1" "\<not> en_ctxDone env"
  shows "\<exists>e1 e2. engine_Set st P env k v e = (None, e1) \<and> engine_Get P k e1 = (Inr v, e2)"
proof -
  obtain e1 where s: "engine_Set st P env k v e = (None, e1)" "serving e1" "view (the (e_db e1)) = (view (the (e_db e)))(k \<mapsto> v)"
    using Set_serves [OF assms] by blast
  obtain e2 where "engine_Get P k e1 = (case view (the (e_db e1)) k of Some v \<Rightarrow> Inr v | None \<Rightarrow> Inl pebbleErrNotFound, e2)"
    using Get_serves [OF s(2)] by blast
  then show ?thesis using s(1,3) by simp
qed

end

lemma cloudpebble_roots: "goodRoot ''testdata/cloudpebble''" "goodRoot ''testdata/objectstore''" "plainPath ''default''"
proof -
  have p: "plainPath ''testdata/cloudpebble''" "plainPath ''testdata/objectstore''" "plainPath ''default''" by (simp_all add: plainPath_def plainElem_def sep_def)
  then show "goodRoot ''testdata/cloudpebble''" "goodRoot ''testdata/objectstore''" "plainPath ''default''"
    using normal_goodRoot by (auto simp: normalPath_def)
qed

text \<open>On empty directories that exist, the command line tool sets its key, reads it back and says
  that it works.\<close>

theorem cloudpebble_works:
  fixes P :: "'db pebble"
  assumes "working_engine st contents ok P view flushed J up isDir clock" "dirEmpty ''testdata/cloudpebble'' loc" "dirEmpty ''testdata/objectstore'' obj"
    "\<forall>i. \<not> en_ctxDone (envs i)"
  shows "\<exists>obj1 loc1. cloudpebbleMain P J envs obj loc =
    (Exited, [(''Setting %q = %q'', [FBytes (rawBytes ''hello''), FBytes (rawBytes ''world'')]),
       (''Got %q = %q'', [FBytes (rawBytes ''hello''), FBytes (rawBytes ''world'')]), (''OK: cloudpebble is working'', [])], obj1, loc1)"
proof -
  define dir D where d: "dir = ''testdata/cloudpebble''" and D: "D = ''testdata/objectstore''"
  note g = cloudpebble_roots [folded d D] and W = local_working [OF cloudpebble_roots(2) [folded D] assms(1)]
  have emp: "local_up D obj" "local_contents D obj = Map.empty" "\<forall>q. \<not> local_isDir D obj q" using assms(3) unfolding dirEmpty_def D by blast+
  obtain obj1 where o1: "local_New D obj = (Inr (), obj1)" "local_up D obj1" "local_contents D obj1 = local_contents D obj" "local_isDir D obj1 = local_isDir D obj"
    using New_up [OF emp(1)] by blast
  have emp1: "local_contents D obj1 = Map.empty" "\<forall>q. \<not> local_isDir D obj1 q" using emp o1 by simp_all
  have ns: "o_namespace (defaultOptions (plainOptions dir ''default'')) = ''default''" by (rule plain_fields(5)) simp
  obtain e s' f' where e: "engine_Open (local_store D) P J (plainOptions dir ''default'') obj1 loc = (Inr e, s', f')"
    "working_engine.serving (local_contents D) (local_inv D) P view J (local_up D) (local_isDir D) e" "m_nextSeq (e_wal e) = 1"
    using working_engine.fresh_opens [OF W o1(2) emp1 plain_fields(1-3), unfolded plain_fields(4), OF g(1) assms(2) [folded d] ns g(3)] by blast
  have "m_nextSeq (e_wal e) \<noteq> - 1" using e(3) by simp
  then obtain e1 e2 where "engine_Set (local_store D) P (envs 0) (rawBytes ''hello'') (rawBytes ''world'') e = (None, e1)"
    "engine_Get P (rawBytes ''hello'') e1 = (Inr (rawBytes ''world''), e2)"
    using working_engine.set_get_serves [OF W e(2) _ assms(4) [rule_format]] by blast
  then show ?thesis unfolding cloudpebbleMain_def Let_def D [symmetric] d [symmetric] o1(1) by (simp add: e(1))
qed

definition cliFs :: fs where
  "cliFs = \<lparr>fs_files = [], fs_dirs = [''testdata'', ''testdata/cloudpebble'', ''testdata/objectstore''], fs_clock = 5, fs_faults = []\<rparr>"

lemma cliFs_empty: "dirEmpty ''testdata/cloudpebble'' cliFs" "dirEmpty ''testdata/objectstore'' cliFs"
proof -
  have c: "Clean ''testdata/cloudpebble'' = ''testdata/cloudpebble''" "Clean ''testdata/objectstore'' = ''testdata/objectstore''"
    by (rule Clean_normal; simp add: normalPath_def plainPath_def plainElem_def sep_def)+
  have a: "set (ancestors ''testdata/cloudpebble'') \<subseteq> set (fs_dirs cliFs)" "set (ancestors ''testdata/objectstore'') \<subseteq> set (fs_dirs cliFs)"
    by (code_simp)+
  have "dirEmpty d cliFs" if "Clean d = d" "set (ancestors d) \<subseteq> set (fs_dirs cliFs)" "list_all (\<lambda>x. \<not> HasPrefix x (d @ [sep])) (fs_dirs cliFs)" for d
    using that unfolding dirEmpty_def local_up_def local_isDir_def local_contents_def local_inv_def
    by (auto simp: filesView_def cliFs_def filesOK_def faultsOK_def isFile_def HasPrefix_iff fun_eq_iff list_all_iff) metis+
  moreover have "list_all (\<lambda>x. \<not> HasPrefix x (''testdata/cloudpebble'' @ [sep])) (fs_dirs cliFs)"
    "list_all (\<lambda>x. \<not> HasPrefix x (''testdata/objectstore'' @ [sep])) (fs_dirs cliFs)" by code_simp+
  ultimately show "dirEmpty ''testdata/cloudpebble'' cliFs" "dirEmpty ''testdata/objectstore'' cliFs" using c a by blast+
qed

theorem cloudpebble_works_witness:
  "\<exists>obj1 loc1. cloudpebbleMain refPebble refCodec (\<lambda>_. exEnv) cliFs cliFs =
    (Exited, [(''Setting %q = %q'', [FBytes (rawBytes ''hello''), FBytes (rawBytes ''world'')]),
       (''Got %q = %q'', [FBytes (rawBytes ''hello''), FBytes (rawBytes ''world'')]), (''OK: cloudpebble is working'', [])], obj1, loc1)"
  by (rule cloudpebble_works [OF exWorking.working_engine_axioms cliFs_empty tmp_usable(3)])

end
