(* ===== verification/FilteredReads.thy ===== *)
theory FilteredReads
  imports BigtableProperties
begin

text \<open>
  What \<open>ReadRows\<close> sends, with a filter of any kind and with the row status of every chunk. The
  scan is related in two steps to a list of rows: \<open>cellsOut\<close> is the loop over cells on the list
  of chunks sent so far, \<open>rowsStep\<close> is the same row by row, and \<open>rowsOut\<close> with \<open>frame\<close> is the result in
  sealed form: each row is filtered by an evaluator that was reset, its last chunk carries
  the commit, and the commit of every hundredth chunk is missing, because the buffer is sent
  before the row is known to have ended.
\<close>

section \<open>Rows and chunks\<close>

text \<open>The rows that a filter leaves of rows of cells; a missing filter leaves them as they are.\<close>

fun rowsOut :: "rowFilterEngine option \<Rightarrow> rng \<Rightarrow> cellInfo list list \<Rightarrow> cellInfo list list" where
  "rowsOut fe g [] = []"
| "rowsOut None g (r # rs) = r # rowsOut None g rs"
| "rowsOut (Some fe) g (r # rs) =
     (case evalCells (reset (fe_eval fe)) r g of
        (cs, ev, g') \<Rightarrow> map (stripped (fe_stripValue fe)) cs # rowsOut (Some (fe\<lparr>fe_eval := ev\<rparr>)) g' rs)"

definition committed :: "'v cellChunk \<Rightarrow> 'v cellChunk" where
  "committed c = c\<lparr>ck_status := Some (CommitRow True)\<rparr>"

definition rowChunks :: "cellInfo list \<Rightarrow> bytes cellChunk list" where
  "rowChunks r = (if r = [] then [] else map chunkOf (butlast r) @ [committed (chunkOf (last r))])"

definition frame :: "cellInfo list list \<Rightarrow> bytes cellChunk list" where
  "frame rows = concat (map rowChunks rows)"

definition dropCommits :: "nat \<Rightarrow> bytes cellChunk list \<Rightarrow> bytes cellChunk list" where
  "dropCommits n cs = map (\<lambda>(i, c). if i mod cellChunkBufferSize = 0 then plain c else c) (enumerate (Suc n) cs)"

section \<open>The scan on the chunks sent so far\<close>

text \<open>Committing the last chunk, unless it has been sent.\<close>

definition commitOut :: "bytes cellChunk list \<Rightarrow> bytes cellChunk list" where
  "commitOut cs = (if length cs mod cellChunkBufferSize = 0 then cs else butlast cs @ [committed (last cs)])"

type_synonym progress = "int \<times> rowFilterEngine option \<times> rng \<times> bytes cellChunk list"

fun emit :: "cellInfo \<Rightarrow> progress \<Rightarrow> progress" where
  "emit c (n, None, g, cs) = (n, None, g, cs @ [chunkOf c])"
| "emit c (n, Some fe, g, cs) =
     (case matchesCell fe c g of
        (b, fe', g') \<Rightarrow> (n, Some fe', g', if b then cs @ [chunkOf (stripped (fe_stripValue fe') c)] else cs))"

definition resetFilter :: "rowFilterEngine option \<Rightarrow> rowFilterEngine option" where
  "resetFilter fe = map_option (\<lambda>fe. fe\<lparr>fe_eval := reset (fe_eval fe)\<rparr>) fe"

fun cellsOut :: "int64 \<Rightarrow> cellInfo list \<Rightarrow> bytes \<Rightarrow> bool \<Rightarrow> progress \<Rightarrow> bytes \<times> bool \<times> progress" where
  "cellsOut l [] k b a = (k, b, a)"
| "cellsOut l (c # cs) k b (n, fe, g, out) =
     (if c_rowKey c = k then cellsOut l cs k b (emit c (n, fe, g, out))
      else
        (let out1 = (if b then commitOut out else out) in
         if sint l > 0 \<and> n + 1 > sint l then (k, b, (n + 1, fe, g, out1))
         else cellsOut l cs (c_rowKey c) True (emit c (n + 1, resetFilter fe, g, out1))))"

text \<open>A state of the scan that has sent or buffered \<open>out\<close> after \<open>pre\<close>.\<close>

definition tracks :: "bytes cellChunk list \<Rightarrow> scan \<Rightarrow> progress \<Rightarrow> bool" where
  "tracks pre s a \<longleftrightarrow>
     (case a of (n, fe, g, out) \<Rightarrow>
        sk_faults (s_stream s) = [] \<and> list_all owned (s_chunkBuf s) \<and> s_rowCount s = n \<and> s_filter s = fe \<and> s_rng s = g \<and>
        sentOn (s_stream s) @ map (readChunk []) (s_chunkBuf s) = pre @ out \<and>
        length (s_chunkBuf s) = length out mod cellChunkBufferSize)"

lemma tracks_simps: "tracks pre s (n, fe, g, out) \<longleftrightarrow>
  sk_faults (s_stream s) = [] \<and> list_all owned (s_chunkBuf s) \<and> s_rowCount s = n \<and> s_filter s = fe \<and> s_rng s = g \<and>
  sentOn (s_stream s) @ map (readChunk []) (s_chunkBuf s) = pre @ out \<and> length (s_chunkBuf s) = length out mod cellChunkBufferSize"
  by (simp add: tracks_def)

lemma tracks_cong:
  "s_stream s' = s_stream s \<Longrightarrow> s_chunkBuf s' = s_chunkBuf s \<Longrightarrow> s_rng s' = s_rng s \<Longrightarrow> s_rowCount s' = n' \<Longrightarrow> s_filter s' = fe' \<Longrightarrow>
   tracks pre s (n, fe, g, out) \<Longrightarrow> tracks pre s' (n', fe', g, out)"
  by (simp add: tracks_simps)

lemma fill_rng [simp]: "s_rng (fillValBuf g v s) = s_rng s"
  by (simp add: fillValBuf_def Let_def)

lemma commit_tracks:
  assumes "tracks pre s (n, fe, g, out)"
  shows "tracks pre (commitLastChunk s) (n, fe, g, commitOut out)"
proof (cases "s_chunkBuf s" rule: rev_cases)
  case Nil
  then show ?thesis using assms by (simp add: tracks_simps commitLastChunk_def commitOut_def)
next
  case (snoc cs c)
  have m: "length out mod cellChunkBufferSize \<noteq> 0" "out \<noteq> []" using assms snoc by (auto simp: tracks_simps)
  have o: "pre @ out = (sentOn (s_stream s) @ map (readChunk []) cs) @ [readChunk [] c]" using assms snoc by (simp add: tracks_simps)
  then have l: "last out = readChunk [] c" "pre @ butlast out = sentOn (s_stream s) @ map (readChunk []) cs"
    using m(2) by (metis last_append last_snoc, metis butlast_append butlast_snoc)
  have "readChunk [] (c\<lparr>ck_status := Some (CommitRow True)\<rparr>) = committed (readChunk [] c)" by (simp add: readChunk_def committed_def)
  moreover have "length (butlast out @ [committed (last out)]) = length out" using m(2) by simp
  moreover have "pre @ butlast out @ [committed (last out)] = sentOn (s_stream s) @ map (readChunk []) cs @ [committed (readChunk [] c)]"
    using l by (simp flip: append_assoc)
  moreover have "commitLastChunk s = s\<lparr>s_chunkBuf := cs @ [c\<lparr>ck_status := Some (CommitRow True)\<rparr>]\<rparr>"
    by (simp add: commitLastChunk_def snoc)
  ultimately show ?thesis
    using assms snoc m unfolding commitOut_def by (simp add: tracks_simps)
qed

lemma flush_sent:
  assumes "sk_faults (s_stream s) = []" "list_all owned (s_chunkBuf s)"
  shows "\<exists>sk. flush s = (None, s\<lparr>s_chunkBuf := [], s_stream := sk\<rparr>) \<and> sk_faults sk = [] \<and>
    sentOn sk = sentOn (s_stream s) @ map (readChunk []) (s_chunkBuf s)"
proof (cases "s_chunkBuf s = []")
  case True
  then show ?thesis using assms(1) by (intro exI [of _ "s_stream s"]) (simp add: flush_def)
next
  case False
  then show ?thesis using assms(1) map_readChunk_owned [OF assms(2), of "s_arrays s"] by (auto simp: flush_def Send_def Let_def sentOn_def)
qed

lemma emit_tracks:
  assumes "tracks pre s (n, fe, g, out)" "length v \<le> maxCellChunkValueSize" "b = cellChunk r f q t v []"
    "s4 = s\<lparr>s_chunkBuf := s_chunkBuf s @ [b]\<rparr>"
  shows "\<exists>s5. (if length (s_chunkBuf s4) \<ge> cellChunkBufferSize then flush s4 else (None, s4)) = (None, s5) \<and>
    tracks pre s5 (n, fe, g, out @ [chunkOf \<lparr>c_rowKey = r, c_family = f, c_qualifier = q, c_ts = t, c_value = v\<rparr>])"
proof -
  let ?c = "chunkOf \<lparr>c_rowKey = r, c_family = f, c_qualifier = q, c_ts = t, c_value = v\<rparr>"
  have b: "owned b" "readChunk [] b = ?c" using assms(3) by (simp_all add: chunkOf_def)
  have o: "list_all owned (s_chunkBuf s4)" "sentOn (s_stream s4) @ map (readChunk []) (s_chunkBuf s4) = pre @ out @ [?c]"
    using assms(1,4) b by (auto simp: tracks_simps simp flip: append_assoc)
  have m: "length (s_chunkBuf s4) = Suc (length out mod cellChunkBufferSize)" using assms(1,4) by (simp add: tracks_simps)
  show ?thesis
  proof (cases "length (s_chunkBuf s4) \<ge> cellChunkBufferSize")
    case True
    then have "Suc (length out) mod cellChunkBufferSize = 0"
      using m mod_less_divisor [of cellChunkBufferSize "length out"] by (simp add: mod_Suc cellChunkBufferSize_def)
    moreover have "sk_faults (s_stream s4) = []" using assms(1,4) by (simp add: tracks_simps)
    ultimately show ?thesis
      using True o(2) assms(1,4) flush_sent [of s4] o(1) by (auto simp: tracks_simps)
  next
    case False
    then have "length (s_chunkBuf s4) = Suc (length out) mod cellChunkBufferSize"
      using m by (simp add: mod_Suc)
    then show ?thesis using False o assms(1,4) by (simp add: tracks_simps)
  qed
qed

lemma boundary_tracks:
  assumes "tracks pre s (n, fe, g, out)" "rk \<noteq> k" "out1 = (if started then commitOut out else out)"
  shows "\<exists>s'. rowBoundary l rk k started s = (\<not> (sint l > 0 \<and> n + 1 > sint l), s') \<and>
    tracks pre s' (n + 1, if sint l > 0 \<and> n + 1 > sint l then fe else resetFilter fe, g, out1)"
proof -
  define s1 where "s1 = (if started then (commitLastChunk s)\<lparr>s_lastScanned := k\<rparr> else s)"
  have s1: "tracks pre s1 (n, fe, g, out1)"
    using assms(1,3) commit_tracks [OF assms(1)] by (simp add: s1_def tracks_simps)
  then have "s_rowCount s1 = n" by (simp add: tracks_simps)
  then show ?thesis
    using assms(2) tracks_cong [OF _ _ _ _ _ s1, of "s1\<lparr>s_rowCount := n + 1\<rparr>" "n + 1" fe]
      tracks_cong [OF _ _ _ _ _ s1, of "s1\<lparr>s_rowCount := n + 1, s_filter := resetFilter fe\<rparr>" "n + 1" "resetFilter fe"] s1
    by (auto simp: rowBoundary_def Let_def s1_def [symmetric] resetFilter_def tracks_simps)
qed

text \<open>One cell of an open row: filtering, the chunk, and the buffer sent when it is full.\<close>

lemma cell_tracks:
  assumes "tracks pre s (n, fe, g, out)" "length v \<le> maxCellChunkValueSize"
  shows "(\<exists>s3. filterCell (cell_of d v) s = (None, s3) \<and> tracks pre s3 (emit (cell_of d v) (n, fe, g, out))) \<or>
    (\<exists>val s3 s5. filterCell (cell_of d v) s = (Some val, s3) \<and>
      (let s4 = s3\<lparr>s_chunkBuf := appendCellChunks (s_chunkBuf s3) (d_rowKey d) (d_family d) (d_qualifier d) (d_ts d) (s_valBuf s3) val\<rparr>
       in (if length (s_chunkBuf s4) \<ge> cellChunkBufferSize then flush s4 else (None, s4)) = (None, s5)) \<and>
      tracks pre s5 (emit (cell_of d v) (n, fe, g, out)))"
proof (cases fe)
  case None
  then have f: "filterCell (cell_of d v) s = (Some v, s)" using assms(1) by (simp add: filterCell_def tracks_simps cell_of_def)
  show ?thesis
    using emit_tracks [OF assms refl refl, of "d_rowKey d" "d_family d" "d_qualifier d" "d_ts d"] assms(2) None f
    by (auto simp: appendCellChunks_def Let_def cell_of_def)
next
  case (Some x)
  obtain b x' g' where M: "matchesCell x (cell_of d v) g = (b, x', g')" by (metis prod_cases3)
  define s3 where "s3 = s\<lparr>s_filter := Some x', s_rng := g'\<rparr>"
  have t: "tracks pre s3 (n, Some x', g', out)" using assms(1) by (simp add: tracks_simps s3_def)
  let ?v = "if fe_stripValue x' then [] else v"
  have f: "filterCell (cell_of d v) s = (if b then Some ?v else None, s3)"
    using assms(1) M Some by (simp add: filterCell_def tracks_simps cell_of_def s3_def hasStripValue_def)
  have l: "length ?v \<le> maxCellChunkValueSize" using assms(2) by simp
  have e: "emit (cell_of d v) (n, fe, g, out) =
    (n, Some x', g', if b then out @ [chunkOf \<lparr>c_rowKey = d_rowKey d, c_family = d_family d, c_qualifier = d_qualifier d, c_ts = d_ts d, c_value = ?v\<rparr>] else out)"
    using M Some by (simp add: cell_of_def stripped_def)
  show ?thesis
    using emit_tracks [OF t l refl refl, of "d_rowKey d" "d_family d" "d_qualifier d" "d_ts d"] t f e l
    by (cases b) (auto simp: appendCellChunks_def Let_def)
qed

lemma cellLoop_open:
  assumes "Decode (s_dec s) key = (d, dec)" "d_ok d" "rowBoundary l (d_rowKey d) k started (s\<lparr>s_dec := dec\<rparr>) = (True, s1)"
    "tracks pre s1 a" "length v \<le> maxCellChunkValueSize"
  shows "\<exists>s5. cellLoop grow l ((key, v) # kvs) k started s = cellLoop grow l kvs (d_rowKey d) (started \<or> d_rowKey d \<noteq> k) s5 \<and>
    tracks pre s5 (emit (cell_of d v) a)"
proof -
  obtain n fe g out where a: "a = (n, fe, g, out)" by (cases a)
  define s2 where "s2 = (if length v > 0 then fillValBuf grow v s1 else s1)"
  have s2: "tracks pre s2 (n, fe, g, out)" using assms(4) by (simp add: a s2_def tracks_simps)
  have step: "cellLoop grow l ((key, v) # kvs) k started s =
      (case filterCell (cell_of d v) s2 of
         (None, s3) \<Rightarrow> cellLoop grow l kvs (d_rowKey d) (started \<or> d_rowKey d \<noteq> k) s3
       | (Some val, s3) \<Rightarrow>
           (let s4 = s3\<lparr>s_chunkBuf := appendCellChunks (s_chunkBuf s3) (d_rowKey d) (d_family d) (d_qualifier d) (d_ts d) (s_valBuf s3) val\<rparr>
            in if length (s_chunkBuf s4) \<ge> cellChunkBufferSize then
                 (case flush s4 of
                    (Some err, s5) \<Rightarrow> (Some err, d_rowKey d, started \<or> d_rowKey d \<noteq> k, s5)
                  | (None, s5) \<Rightarrow> cellLoop grow l kvs (d_rowKey d) (started \<or> d_rowKey d \<noteq> k) s5)
               else cellLoop grow l kvs (d_rowKey d) (started \<or> d_rowKey d \<noteq> k) s4))"
    using assms(1-3) unfolding s2_def by (simp add: Let_def)
  show ?thesis
    using cell_tracks [OF s2 assms(5), of d] unfolding a step
    by (elim disjE exE conjE) (auto simp: Let_def simp del: emit.simps split: if_splits)
qed

lemma cellLoop_tracks:
  assumes "tracks pre s a" "smallValues kvs" "cellsOut l (decodedCells kvs) k started a = (k', b, a')"
  shows "\<exists>s'. cellLoop grow l kvs k started s = (None, k', b, s') \<and> tracks pre s' a'"
  using assms
proof (induction kvs arbitrary: s k started a)
  case Nil
  then show ?case by simp
next
  case (Cons kv kvs)
  obtain key v where kv: "kv = (key, v)" by (cases kv)
  obtain d dec where D: "Decode (s_dec s) key = (d, dec)" by (cases "Decode (s_dec s) key")
  then have d: "d = DecodeCellKey key" using Decode_eq [of "s_dec s" key] by simp
  obtain n fe g out where a: "a = (n, fe, g, out)" by (cases a)
  have s0: "tracks pre (s\<lparr>s_dec := dec\<rparr>) a" using Cons.prems(1) by (simp add: a tracks_simps)
  have v: "length v \<le> maxCellChunkValueSize" "smallValues kvs" using Cons.prems(2) by (simp_all add: kv)
  show ?case
  proof (cases "d_ok d")
    case False
    then show ?thesis using Cons.IH [OF s0 v(2)] Cons.prems(3) d by (simp add: kv D)
  next
    case ok: True
    then have dc: "decodedCells (kv # kvs) = cell_of d v # decodedCells kvs" and rk: "c_rowKey (cell_of d v) = d_rowKey d"
      by (simp_all add: kv d cell_of_def)
    note O = Cons.prems(3) [unfolded dc a cellsOut.simps rk Let_def]
    show ?thesis
    proof (cases "d_rowKey d = k")
      case True
      then have "rowBoundary l (d_rowKey d) k started (s\<lparr>s_dec := dec\<rparr>) = (True, s\<lparr>s_dec := dec\<rparr>)" by (simp add: rowBoundary_def)
      then obtain s5 where "cellLoop grow l (kv # kvs) k started s = cellLoop grow l kvs k started s5" "tracks pre s5 (emit (cell_of d v) a)"
        using cellLoop_open [OF D ok _ s0 v(1)] True unfolding kv by fastforce
      then show ?thesis using Cons.IH [of s5 _ k started] v(2) O True a by simp
    next
      case False
      obtain s1 where R: "rowBoundary l (d_rowKey d) k started (s\<lparr>s_dec := dec\<rparr>) = (\<not> (sint l > 0 \<and> n + 1 > sint l), s1)"
        "tracks pre s1 (n + 1, if sint l > 0 \<and> n + 1 > sint l then fe else resetFilter fe, g, if started then commitOut out else out)"
        using boundary_tracks [OF s0 [unfolded a] False refl] by blast
      show ?thesis
      proof (cases "sint l > 0 \<and> n + 1 > sint l")
        case True
        then show ?thesis using R ok O False by (auto simp: kv D)
      next
        case lim: False
        have Rt: "rowBoundary l (d_rowKey d) k started (s\<lparr>s_dec := dec\<rparr>) = (True, s1)" using R(1) lim by simp
        obtain s5 where "cellLoop grow l (kv # kvs) k started s = cellLoop grow l kvs (d_rowKey d) True s5"
          "tracks pre s5 (emit (cell_of d v) (n + 1, resetFilter fe, g, if started then commitOut out else out))"
          using cellLoop_open [OF D ok Rt R(2) [unfolded if_not_P [OF lim]] v(1), of grow kvs] False by (auto simp: kv)
        then show ?thesis using Cons.IH [of s5 _ "d_rowKey d" True] v(2) O False lim by (simp split: if_splits)
      qed
    qed
  qed
qed

section \<open>Row by row\<close>

fun evalRow :: "rowFilterEngine option \<Rightarrow> rng \<Rightarrow> cellInfo list \<Rightarrow> cellInfo list \<times> rowFilterEngine option \<times> rng" where
  "evalRow None g r = (r, None, g)"
| "evalRow (Some fe) g r =
     (case evalCells (fe_eval fe) r g of
        (cs, ev, g') \<Rightarrow> (map (stripped (fe_stripValue fe)) cs, Some (fe\<lparr>fe_eval := ev\<rparr>), g'))"

fun rowsStep :: "int64 \<Rightarrow> cellInfo list list \<Rightarrow> progress \<Rightarrow> progress" where
  "rowsStep l [] a = a"
| "rowsStep l (r # rs) (n, fe, g, out) =
     (if sint l > 0 \<and> n + 1 > sint l then (n + 1, fe, g, out)
      else (case evalRow (resetFilter fe) g r of (cs, fe', g') \<Rightarrow> rowsStep l rs (n + 1, fe', g', commitOut (out @ map chunkOf cs))))"

lemma commitOut_idem [simp]: "commitOut (commitOut cs) = commitOut cs"
  by (cases cs rule: rev_cases) (auto simp: commitOut_def committed_def)

lemma evalRow_Nil [simp]: "evalRow fe g [] = ([], fe, g)"
  by (cases fe) simp_all

text \<open>The first cell of a row, then the others.\<close>

lemma emit_evalRow:
  assumes "emit c (n, fe, g, out) = (n1, fe1, g1, out1)" "evalRow fe1 g1 cs = (rs, fe2, g2)"
  shows "n1 = n \<and> (\<exists>xs. evalRow fe g (c # cs) = (xs, fe2, g2) \<and> out @ map chunkOf xs = out1 @ map chunkOf rs)"
  using assms by (cases fe) (auto simp: matchesCell_def split: prod.splits if_splits)

definition sealed :: "bytes \<times> bool \<times> progress \<Rightarrow> progress" where
  "sealed x = (case x of (k, b, n, fe, g, out) \<Rightarrow> (n, fe, g, if b then commitOut out else out))"

lemma cellsOut_open:
  assumes "evalRow fe g (takeWhile (\<lambda>c. c_rowKey c = k) cs) = (xs, fe', g')"
  shows "sealed (cellsOut l cs k True (n, fe, g, out)) =
    rowsStep l (rowGroups (dropWhile (\<lambda>c. c_rowKey c = k) cs)) (n, fe', g', commitOut (out @ map chunkOf xs))"
  using assms
proof (induction cs arbitrary: k n fe g out xs fe' g')
  case Nil
  then show ?case by (simp add: sealed_def)
next
  case (Cons c cs)
  show ?case
  proof (cases "c_rowKey c = k")
    case True
    obtain n1 fe1 g1 out1 where e: "emit c (n, fe, g, out) = (n1, fe1, g1, out1)" by (metis prod_cases4)
    obtain ys fe2 g2 where r: "evalRow fe1 g1 (takeWhile (\<lambda>c. c_rowKey c = k) cs) = (ys, fe2, g2)" by (metis prod_cases3)
    have "n1 = n" "fe2 = fe'" "g2 = g'" "out @ map chunkOf xs = out1 @ map chunkOf ys"
      using emit_evalRow [OF e r] Cons.prems True by auto
    then show ?thesis using Cons.IH [OF r, of n out1] True e by simp
  next
    case False
    then have x: "xs = []" "fe' = fe" "g' = g" using Cons.prems by auto
    let ?t = "takeWhile (\<lambda>d. c_rowKey d = c_rowKey c) cs"
    obtain n1 fe1 g1 out1 where e: "emit c (n + 1, resetFilter fe, g, commitOut out) = (n1, fe1, g1, out1)" by (metis prod_cases4)
    obtain ys fe2 g2 where r: "evalRow fe1 g1 ?t = (ys, fe2, g2)" by (metis prod_cases3)
    show ?thesis
      using emit_evalRow [OF e r] Cons.IH [OF r, of n1 out1] False x e by (auto simp: sealed_def)
  qed
qed

lemma cellsOut_rows:
  assumes "\<forall>c \<in> set cs. c_rowKey c \<noteq> []"
  shows "sealed (cellsOut l cs [] False a) = rowsStep l (rowGroups cs) a"
proof (cases cs)
  case (Cons c cs')
  obtain n fe g out where a: "a = (n, fe, g, out)" by (cases a)
  let ?t = "takeWhile (\<lambda>d. c_rowKey d = c_rowKey c) cs'"
  obtain n1 fe1 g1 out1 where e: "emit c (n + 1, resetFilter fe, g, out) = (n1, fe1, g1, out1)" by (metis prod_cases4)
  obtain ys fe2 g2 where r: "evalRow fe1 g1 ?t = (ys, fe2, g2)" by (metis prod_cases3)
  show ?thesis
    using emit_evalRow [OF e r] cellsOut_open [OF r, of l n1 out1] e assms Cons a by (auto simp: sealed_def)
qed (simp add: sealed_def split: prod.splits)

section \<open>All ranges\<close>

lemma rowsStep_append:
  assumes "rowsStep l gs (n, fe, g, out) = (n1, fe1, g1, out1)"
  shows "n1 \<ge> n" "rowsStep l (gs @ hs) (n, fe, g, out) = (n2, fe2, g2, out2) \<Longrightarrow>
    out2 = (if sint l > 0 \<and> n1 \<ge> sint l then out1 else snd (snd (snd (rowsStep l hs (n1, fe1, g1, out1)))))"
proof -
  show "n1 \<ge> n" using assms
  proof (induction l gs "(n, fe, g, out)" arbitrary: n fe g out rule: rowsStep.induct)
    case (2 l r rs n fe g out)
    obtain cs fe' g' where "evalRow (resetFilter fe) g r = (cs, fe', g')" by (metis prod_cases3)
    then show ?case using 2 by (fastforce split: if_splits)
  qed simp
  have stop: "snd (snd (snd (rowsStep l hs (n, fe, g, out)))) = out" if "sint l > 0" "n \<ge> sint l" for l :: int64 and n fe g out
    using that by (cases hs) simp_all
  show "out2 = (if sint l > 0 \<and> n1 \<ge> sint l then out1 else snd (snd (snd (rowsStep l hs (n1, fe1, g1, out1)))))"
    if "rowsStep l (gs @ hs) (n, fe, g, out) = (n2, fe2, g2, out2)"
    using assms that
  proof (induction l gs "(n, fe, g, out)" arbitrary: n fe g out rule: rowsStep.induct)
    case (1 l)
    then show ?case using stop [of l n1 fe1 g1 out1] by (cases hs) auto
  next
    case (2 l r rs n fe g out)
    obtain cs fe' g' where "evalRow (resetFilter fe) g r = (cs, fe', g')" by (metis prod_cases3)
    then show ?case using 2 by (fastforce split: if_splits)
  qed
qed

lemma rangeLoop_tracks:
  assumes "tracks pre s (n, fe, g, out)" "visits P db reversed krs kvss" "list_all smallValues kvss"
    "\<forall>c \<in> set (concat (map decodedCells kvss)). c_rowKey c \<noteq> []" "\<not> (sint l > 0 \<and> n \<ge> sint l)"
  shows "\<exists>s' n' fe' g'. rangeLoop P grow db reversed l krs s = (None, s') \<and>
    tracks pre s' (n', fe', g', snd (snd (snd (rowsStep l (concat (map (\<lambda>kvs. rowGroups (decodedCells kvs)) kvss)) (n, fe, g, out)))))"
  using assms
proof (induction P db reversed krs kvss arbitrary: s n fe g out rule: visits.induct)
  case (1 P db reversed)
  then show ?case by auto
next
  case (2 P db reversed lo hi krs kvs kvss)
  obtain xs where xs: "pNewIter P lo hi db = Inr xs" "kvs = (if reversed then rev xs else xs)" and vs: "visits P db reversed krs kvss"
    using "2.prems"(2) by auto
  let ?gs = "rowGroups (decodedCells kvs)" and ?hs = "concat (map (\<lambda>kvs. rowGroups (decodedCells kvs)) kvss)"
  obtain k b n1 fe1 g1 out1 where O: "cellsOut l (decodedCells kvs) [] False (n, fe, g, out) = (k, b, n1, fe1, g1, out1)" by (metis prod_cases6)
  obtain s1 where L: "cellLoop grow l kvs [] False s = (None, k, b, s1)" "tracks pre s1 (n1, fe1, g1, out1)"
    using cellLoop_tracks [OF "2.prems"(1) _ O] "2.prems"(3) by auto
  define s2 where "s2 = (if b then (commitLastChunk s1)\<lparr>s_lastScanned := k\<rparr> else s1)"
  define out2 where "out2 = (if b then commitOut out1 else out1)"
  have s2: "tracks pre s2 (n1, fe1, g1, out2)"
    using L(2) commit_tracks [OF L(2)] by (simp add: s2_def out2_def tracks_simps)
  have R: "rowsStep l ?gs (n, fe, g, out) = (n1, fe1, g1, out2)"
    using cellsOut_rows [of "decodedCells kvs" l "(n, fe, g, out)"] "2.prems"(4) O by (simp add: sealed_def out2_def)
  obtain n3 fe3 g3 out3 where A: "rowsStep l (?gs @ ?hs) (n, fe, g, out) = (n3, fe3, g3, out3)" by (metis prod_cases4)
  have o3: "out3 = (if sint l > 0 \<and> n1 \<ge> sint l then out2 else snd (snd (snd (rowsStep l ?hs (n1, fe1, g1, out2)))))"
    using rowsStep_append(2) [OF R A] .
  have n: "s_rowCount s2 = n1" using s2 by (simp add: tracks_simps)
  have step: "rangeLoop P grow db reversed l ((lo, hi) # krs) s =
      (if sint l > 0 \<and> s_rowCount s2 \<ge> sint l then (None, s2) else rangeLoop P grow db reversed l krs s2)"
    unfolding rangeLoop.simps xs(1) sum.case xs(2) [symmetric] L(1) prod.case option.case Let_def s2_def ..
  show ?case
  proof (cases "sint l > 0 \<and> n1 \<ge> sint l")
    case True
    then show ?thesis unfolding step using s2 o3 n A by auto
  next
    case False
    obtain s' n' fe' g' where "rangeLoop P grow db reversed l krs s2 = (None, s')" "tracks pre s' (n', fe', g', out3)"
      using "2.IH" [OF s2 vs _ _ False] "2.prems"(3,4) o3 False by auto
    then show ?thesis unfolding step using False n A by auto
  qed
qed simp_all

lemma rowsOut_eval: "rowsOut fe g (r # rs) = (case evalRow (resetFilter fe) g r of (cs, fe', g') \<Rightarrow> cs # rowsOut fe' g' rs)"
  by (cases fe) (simp_all add: resetFilter_def split: prod.split)

lemma rowsStep_out:
  assumes "rowsStep l gs (n, fe, g, out) = (n1, fe1, g1, out1)"
  shows "out1 = fold (\<lambda>r out. commitOut (out @ map chunkOf r)) (rowsOut fe g (takeRows l n gs)) out"
  using assms
proof (induction l gs "(n, fe, g, out)" arbitrary: n fe g out rule: rowsStep.induct)
  case (1 l)
  then show ?case by (simp add: takeRows_def)
next
  case (2 l r rs n fe g out)
  obtain cs fe' g' where "evalRow (resetFilter fe) g r = (cs, fe', g')" by (metis prod_cases3)
  then show ?case using 2 by (auto simp: takeRows_Cons rowsOut_eval split: if_splits)
qed

lemma dropCommits_simps [simp]:
  "dropCommits n [] = []" "length (dropCommits n cs) = length cs" "dropCommits n (cs @ ds) = dropCommits n cs @ dropCommits (n + length cs) ds"
  "dropCommits n [c] = [if Suc n mod cellChunkBufferSize = 0 then plain c else c]"
  by (simp_all add: dropCommits_def enumerate_append_eq)

lemma dropCommits_chunks [simp]: "dropCommits n (map chunkOf cs) = map chunkOf cs"
  by (induction cs rule: rev_induct) simp_all

lemma frame_snoc: "frame (rows @ [r]) = frame rows @ rowChunks r"
  by (simp add: frame_def)

lemma frame_last: "frame rows = [] \<or> (\<exists>cs c. frame rows = cs @ [committed c])"
proof (induction rows rule: rev_induct)
  case (snoc r rows)
  then show ?case by (cases "r = []") (auto simp: frame_snoc rowChunks_def)
qed (simp add: frame_def)

lemma commit_row: "commitOut (dropCommits 0 (frame rows) @ map chunkOf r) = dropCommits 0 (frame (rows @ [r]))"
proof (cases r rule: rev_cases)
  case Nil
  show ?thesis
    using frame_last [of rows] by (auto simp: Nil frame_snoc rowChunks_def commitOut_def committed_def)
next
  case (snoc ys y)
  have p: "plain (committed (chunkOf y)) = chunkOf y" using plain_simps(2) [of y] by (simp add: committed_def plain_def)
  show ?thesis
    by (simp add: snoc frame_snoc rowChunks_def commitOut_def p butlast_append flip: append_assoc)
qed

lemma fold_frame: "fold (\<lambda>r out. commitOut (out @ map chunkOf r)) rs (dropCommits 0 (frame rows)) = dropCommits 0 (frame (rows @ rs))"
proof (induction rs arbitrary: rows)
  case (Cons r rs)
  then show ?case using Cons [of "rows @ [r]"] by (simp add: commit_row)
qed simp

text \<open>A filter without samplers does not look at the random numbers, and each row meets it as it was built.\<close>

definition steadyRng :: "(rng \<Rightarrow> bool \<times> 'a \<times> rng) \<Rightarrow> bool" where
  "steadyRng f \<longleftrightarrow> (\<exists>b x. \<forall>g. f g = (b, x, g))"

lemma steadyRngE:
  assumes "steadyRng f" obtains b x where "\<And>g. f g = (b, x, g)"
  using assms unfolding steadyRng_def by blast

lemma steady_lists:
  assumes "\<forall>f \<in> set fs. steadyRng (evaluate f c)"
  shows "steadyRng (evaluateChain fs c)" "steadyRng (evaluateAny fs c)"
proof -
  show "steadyRng (evaluateChain fs c)" using assms
  proof (induction fs)
    case (Cons f fs)
    then obtain b e b' es where "\<forall>g. evaluate f c g = (b, e, g)" "\<forall>g. evaluateChain fs c g = (b', es, g)" by (auto simp: steadyRng_def)
    then show ?case by (cases b) (auto simp: steadyRng_def)
  qed (auto simp: steadyRng_def)
  show "steadyRng (evaluateAny fs c)" using assms
  proof (induction fs)
    case (Cons f fs)
    then obtain b e b' es where "\<forall>g. evaluate f c g = (b, e, g)" "\<forall>g. evaluateAny fs c g = (b', es, g)" by (auto simp: steadyRng_def)
    then show ?case by (cases b) (auto simp: steadyRng_def)
  qed (simp add: steadyRng_def, blast)
qed

lemma steady_branch: "(\<And>f. x = Some f \<Longrightarrow> steadyRng (evaluate f c)) \<Longrightarrow> steadyRng (evaluateBranch d x c)"
  by (cases x) (auto simp: steadyRng_def)

lemma evaluate_steady: "no_sample e \<Longrightarrow> steadyRng (evaluate e c)"
proof (induction e)
  case (chainFilter fs)
  then obtain b es where "\<forall>g. evaluateChain fs c g = (b, es, g)"
    using steady_lists(1) [of fs c] by (auto simp: list_all_iff steadyRng_def [of "evaluateChain fs c"])
  then show ?case by (auto simp: steadyRng_def)
next
  case (interleaveFilter fs seen)
  then obtain b es where "\<forall>g. evaluateAny fs c g = (b, es, g)"
    using steady_lists(2) [of fs c] by (auto simp: list_all_iff steadyRng_def [of "evaluateAny fs c"])
  then show ?case by (cases b; cases "identity c \<in> seen") (auto simp: steadyRng_def)
next
  case (conditionFilter p t f m e)
  have tf: "steadyRng (evaluateBranch True t c)" "steadyRng (evaluateBranch False f c)"
    using conditionFilter by (auto intro!: steady_branch)
  obtain b p' where p: "\<And>g. evaluate p c g = (b, p', g)" using conditionFilter by (auto elim!: steadyRngE)
  obtain b1 t' where t: "\<And>g. evaluateBranch True t c g = (b1, t', g)" using tf(1) by (auto elim: steadyRngE)
  obtain b2 f' where f: "\<And>g. evaluateBranch False f c g = (b2, f', g)" using tf(2) by (auto elim: steadyRngE)
  show ?case by (cases b) (auto simp: steadyRng_def p t f)
qed (auto simp: steadyRng_def Let_def)

lemma no_sample_evaluate: "no_sample e \<Longrightarrow> evaluate e c g = (b, e', g') \<Longrightarrow> no_sample e'"
  using shape_evaluate(1) [of e c g] no_sample_shape [of e] no_sample_shape [of e'] by simp

lemma evalCells_steady: "no_sample e \<Longrightarrow> \<exists>xs e'. \<forall>g. evalCells e cs g = (xs, e', g)"
proof (induction cs arbitrary: e)
  case (Cons c cs)
  obtain b e' where e: "\<And>g. evaluate e c g = (b, e', g)" using evaluate_steady [OF Cons.prems, of c] by (auto elim: steadyRngE)
  then have "no_sample e'" using no_sample_evaluate [OF Cons.prems] by blast
  from Cons.IH [OF this] obtain xs e'' where "\<And>g. evalCells e' cs g = (xs, e'', g)" by blast
  then show ?case by (cases b) (simp_all add: e)
qed simp

lemma rowsOut_built:
  assumes "no_sample ev" "reset ev = ev" "reset e = ev"
  shows "rowsOut (Some \<lparr>fe_eval = e, fe_stripValue = b, fe_labels = ls\<rparr>) g rs =
    map (\<lambda>r. map (stripped b) (fst (evalCells ev r h))) rs"
  using assms(3)
proof (induction rs arbitrary: e g)
  case (Cons r rs)
  obtain xs e' where e: "\<forall>g. evalCells ev r g = (xs, e', g)"
    using evalCells_steady [OF assms(1), of r] by blast
  have "reset e' = ev" using reset_evalCells [OF assms(1), of r g] e assms(2) by simp
  then show ?case using Cons.IH [of e' g] e Cons.prems by simp
qed simp

lemma ReadRows_sent:
  assumes "getEngine st P J (rd_tableName req) sv = (Inr eng, sv1)"
    "fe = None \<and> rd_filter req = None \<or> (\<exists>f x. rd_filter req = Some f \<and> newRowFilterEngine (rq_compile rq) (Some f) = Inr x \<and> fe = Some x)"
    "sk_faults sk = []" "visits P (the (e_db eng)) (rd_reversed req) (scanRanges (rd_rows req)) kvss" "list_all smallValues kvss"
    "\<forall>c \<in> set (concat (map decodedCells kvss)). c_rowKey c \<noteq> []"
  shows "\<exists>sk'. ReadRows st P J rq req sk sv = (None, sk', sv1) \<and>
    sentOn sk' = sentOn sk @ dropCommits 0 (frame (rowsOut fe (rq_rng rq)
      (takeRows (rd_rowsLimit req) 0 (concat (map (\<lambda>kvs. rowGroups (decodedCells kvs)) kvss)))))"
proof -
  let ?s = "scanStart fe (rq_rng rq) sk" and ?l = "rd_rowsLimit req" and ?gs = "concat (map (\<lambda>kvs. rowGroups (decodedCells kvs)) kvss)"
  have t: "tracks (sentOn sk) ?s (0, fe, rq_rng rq, [])" using assms(3) by (simp add: tracks_simps scanStart_def)
  obtain n1 fe1 g1 out1 where R: "rowsStep ?l ?gs (0, fe, rq_rng rq, []) = (n1, fe1, g1, out1)" by (metis prod_cases4)
  obtain s' n' fe' g' where s': "rangeLoop P (rq_grow rq) (the (e_db eng)) (rd_reversed req) ?l (scanRanges (rd_rows req)) ?s = (None, s')"
    "tracks (sentOn sk) s' (n', fe', g', out1)"
    using rangeLoop_tracks [OF t assms(4-6), of ?l "rq_grow rq"] R by auto
  obtain sk' where f: "flush s' = (None, s'\<lparr>s_chunkBuf := [], s_stream := sk'\<rparr>)" "sentOn sk' = sentOn sk @ out1"
    using flush_sent [of s'] s'(2) by (auto simp: tracks_simps)
  have "ReadRows st P J rq req sk sv = (None, sk', sv1)"
    using assms(1,2) s'(1) f(1) by (auto simp: ReadRows_def)
  moreover have "out1 = dropCommits 0 (frame (rowsOut fe (rq_rng rq) (takeRows ?l 0 ?gs)))"
    using rowsStep_out [OF R] fold_frame [of _ "[]"] by (simp add: frame_def)
  ultimately show ?thesis using f(2) by blast
qed

section \<open>Properties\<close>


text \<open>Two cells of a row, read with a limit of one cell per row.\<close>

definition exTwo :: "kv list" where
  "exTwo = [(EncodeCellKey [97] [102] [113] 5, [7]), (EncodeCellKey [97] [102] [113] 4, [8])]"


text \<open>A row of exactly a hundred cells is sent without its commit, and nothing follows.\<close>

theorem read_rows_commit_lost:
  assumes "getEngine st P J (rd_tableName req) sv = (Inr eng, sv1)" "rd_filter req = None" "rd_rows req = None"
    "\<not> rd_reversed req" "rd_rowsLimit req = 0" "sk_faults sk = []" "pNewIter P None None (the (e_db eng)) = Inr kvs" "smallValues kvs"
    "rowGroups (decodedCells kvs) = [r]" "length r = 100" "\<forall>c \<in> set (decodedCells kvs). c_rowKey c \<noteq> []"
  shows "\<exists>sk'. ReadRows st P J rq req sk sv = (None, sk', sv1) \<and> sentOn sk' = sentOn sk @ map chunkOf r"
proof -
  have "r \<noteq> []" using assms(10) by auto
  then have r: "map chunkOf r = map chunkOf (butlast r) @ [chunkOf (last r)]" by (metis append_butlast_last_id map_append list.simps(8,9))
  have p: "plain (committed (chunkOf (last r))) = chunkOf (last r)" using plain_simps(2) [of "last r"] by (simp add: committed_def plain_def)
  have "dropCommits 0 (frame [r]) = map chunkOf r"
    using assms(10) \<open>r \<noteq> []\<close> by (simp add: frame_def rowChunks_def p cellChunkBufferSize_def r)
  then show ?thesis
    using ReadRows_sent [of st P J req sv eng sv1 None rq sk "[kvs]"] assms by (simp add: scanRanges_def takeRows_def)
qed

end
