(* ===== verification/ServerLiveness.thy ===== *)
theory ServerLiveness
  imports FilteredReads ServerHistory Commands
begin

text \<open>
  A server whose environment works answers its requests. \<open>served\<close> says that a table of the server
  is open with certain cells and that its engine serves; every request keeps it, answers without
  error and changes the cells as its message says; and a read sends the cells of the table. The
  locale \<open>working_server\<close> adds to \<open>working_engine\<close> that the iterators of Pebble open.
\<close>

section \<open>Cells and keys\<close>

text \<open>Every key of the table is the key of an ordinary cell.\<close>

definition filled :: "(bytes \<Rightarrow> bytes option) \<Rightarrow> bool" where
  "filled m \<longleftrightarrow> (\<forall>k. m k \<noteq> None \<longrightarrow> (\<exists>r f q t. ordinary (r, f, q, t) \<and> k = EncodeCellKey r f q t))"

lemma filled_empty [simp]: "filled Map.empty"
  by (simp add: filled_def)

lemma filled_set: "filled m \<Longrightarrow> ordinary (r, f, q, t) \<Longrightarrow> filled (applyOp (OpSet (EncodeCellKey r f q t) v) m)"
  unfolding filled_def by (auto simp del: ordinary.simps)

lemma filled_tableWf: "filled m \<Longrightarrow> tableWf m"
  unfolding filled_def tableWf_def using DecodeCellKey_encoded ordinary_valid by fastforce

lemma filled_delete: "filled m \<Longrightarrow> filled (applyOp (OpDeleteRange a b) m)"
  by (simp add: filled_def)

lemma filled_mutation:
  assumes "filled (applyOps b m)" "wfMutation mut" "goodClock clk" "applyMutationToBatch r mut (b, clk) = (res, b', clk')"
  shows "filled (applyOps b' m)"
proof (cases mut)
  case (SetCell sc)
  have "ordinary (r, sc_family sc, sc_qualifier sc, if sc_ts sc = - 1 then clk 0 else sc_ts sc)"
    using assms(2,3) goodClock_ordinary(1) [of clk 0] by (simp add: SetCell)
  then show ?thesis using assms(1,4) filled_set [of "applyOps b m"]
    by (auto simp: SetCell applySetCell_def tick_def Let_def simp del: applyOp.simps ordinary.simps split: if_splits)
next
  case (DeleteFromColumn dc)
  then show ?thesis using assms
    by (auto simp: applyDeleteFromColumn_def Let_def simp del: applyOp.simps split: option.splits prod.splits intro!: filled_delete)
qed (use assms in \<open>auto simp: applyDeleteFromFamily_def applyDeleteFromRow_def Let_def simp del: applyOp.simps intro!: filled_delete\<close>)

lemma filled_mutations:
  assumes "filled (applyOps b m)" "list_all wfMutation muts" "goodClock clk" "applyMutationsToBatch r muts (b, clk) = (res, b', clk')"
  shows "filled (applyOps b' m)"
  using assms
proof (induction muts arbitrary: b clk)
  case (Cons mut muts)
  obtain b1 clk1 where 1: "applyMutationToBatch r mut (b, clk) = (None, b1, clk1)" "goodClock clk1"
    using applyMutation_refines [of mut clk r b m] Cons.prems(2,3) by auto
  have "filled (applyOps b1 m)" using filled_mutation [OF Cons.prems(1) _ Cons.prems(3) 1(1)] Cons.prems(2) by simp
  then show ?case using Cons.IH [of b1 clk1] Cons.prems(2,4) 1 by simp
qed simp

text \<open>A list of cells that holds the cells of \<open>C\<close> in the rows \<open>R\<close>, in table order.\<close>

definition cellAt :: "cellInfo \<Rightarrow> cellId" where
  "cellAt c = (c_rowKey c, c_family c, c_qualifier c, c_ts c)"

definition listing :: "(cellId \<Rightarrow> bytes option) \<Rightarrow> (bytes \<Rightarrow> bool) \<Rightarrow> cellInfo list \<Rightarrow> bool" where
  "listing C R cs \<longleftrightarrow> sorted_wrt (\<lambda>a b. cell_less (cellAt a) (cellAt b)) cs \<and>
     (\<forall>c. c \<in> set cs \<longleftrightarrow> R (c_rowKey c) \<and> C (cellAt c) = Some (c_value c))"

lemma iterates_decodes:
  assumes "filled m" "iterates m lo hi kvs" "(k, v) \<in> set kvs"
  shows "\<exists>r f q t. ordinary (r, f, q, t) \<and> k = EncodeCellKey r f q t \<and>
      DecodeCellKey k = \<lparr>d_rowKey = r, d_family = f, d_qualifier = q, d_ts = t, d_ok = True\<rparr>"
proof -
  have "m k \<noteq> None" using assms(2,3) by (auto simp: iterates_def)
  then obtain r f q t where "ordinary (r, f, q, t)" "k = EncodeCellKey r f q t" using assms(1) unfolding filled_def by blast
  then show ?thesis using DecodeCellKey_encoded [OF ordinary_valid] by blast
qed

lemma iterates_cells:
  assumes "filled m" "iterates m lo hi kvs" "\<And>r f q t. ordinary (r, f, q, t) \<Longrightarrow> inBounds lo hi (EncodeCellKey r f q t) \<longleftrightarrow> R r"
  shows "listing (cellsOf m) R (decodedCells kvs)"
proof -
  let ?cell = "\<lambda>(k, v). cell_of (DecodeCellKey k) v"
  note key = iterates_decodes [OF assms(1,2)]
  have dc: "decodedCells xs = map ?cell xs" if "set xs \<subseteq> set kvs" for xs
    using that
  proof (induction xs)
    case (Cons x xs)
    obtain k v where x: "x = (k, v)" by (cases x)
    have "d_ok (DecodeCellKey k)" using key [of k v] Cons.prems x by auto
    then show ?case using Cons x by simp
  qed simp
  have "sorted_wrt (\<lambda>a b. fst a < fst b) kvs"
  proof -
    have "sorted_wrt (<) (map fst kvs)" using assms(2) by (simp add: iterates_def strict_sorted_iff)
    then show ?thesis by (simp only: sorted_wrt_map)
  qed
  then have "sorted_wrt (\<lambda>a b. cell_less (cellAt (?cell a)) (cellAt (?cell b))) kvs"
  proof (rule sorted_wrt_mono_rel [rotated])
    fix a b assume ab: "a \<in> set kvs" "b \<in> set kvs" "fst a < fst b"
    show "cell_less (cellAt (?cell a)) (cellAt (?cell b))"
    proof -
      obtain r f q t where a: "ordinary (r, f, q, t)" "fst a = EncodeCellKey r f q t"
        "DecodeCellKey (fst a) = \<lparr>d_rowKey = r, d_family = f, d_qualifier = q, d_ts = t, d_ok = True\<rparr>"
        using key [of "fst a" "snd a"] ab(1) by auto
      obtain r' f' q' t' where b: "ordinary (r', f', q', t')" "fst b = EncodeCellKey r' f' q' t'"
        "DecodeCellKey (fst b) = \<lparr>d_rowKey = r', d_family = f', d_qualifier = q', d_ts = t', d_ok = True\<rparr>"
        using key [of "fst b" "snd b"] ab(2) by auto
      have "cell_less (r, f, q, t) (r', f', q', t')"
        using ab(3) EncodeCellKey_order [OF ordinary_valid [OF a(1)] ordinary_valid [OF b(1)]] unfolding a(2) b(2) by blast
      then show ?thesis using a(3) b(3) by (simp add: cellAt_def cell_of_def case_prod_unfold del: cell_less.simps)
    qed
  qed
  moreover have "c \<in> ?cell ` set kvs \<longleftrightarrow> R (c_rowKey c) \<and> cellsOf m (cellAt c) = Some (c_value c)" for c
  proof
    assume "c \<in> ?cell ` set kvs"
    then obtain k v where kv: "(k, v) \<in> set kvs" "c = cell_of (DecodeCellKey k) v" by auto
    with key [OF kv(1)] assms(2,3) show "R (c_rowKey c) \<and> cellsOf m (cellAt c) = Some (c_value c)"
      by (auto simp: iterates_def cellAt_def cell_of_def simp del: ordinary.simps)
  next
    assume c: "R (c_rowKey c) \<and> cellsOf m (cellAt c) = Some (c_value c)"
    obtain r f q t v where cc: "c = \<lparr>c_rowKey = r, c_family = f, c_qualifier = q, c_ts = t, c_value = v\<rparr>" by (cases c)
    then have o: "ordinary (r, f, q, t)" "m (EncodeCellKey r f q t) = Some v" "R r" using c by (auto simp: cellAt_def simp del: ordinary.simps split: if_splits)
    then have "(EncodeCellKey r f q t, v) \<in> set kvs" using assms(2,3) by (simp add: iterates_def del: ordinary.simps)
    moreover have "?cell (EncodeCellKey r f q t, v) = c" using DecodeCellKey_encoded [OF ordinary_valid [OF o(1)]] by (simp add: cell_of_def cc)
    ultimately show "c \<in> ?cell ` set kvs" by (metis image_eqI)
  qed
  ultimately show ?thesis unfolding listing_def using dc [of kvs] by (simp add: sorted_wrt_map)
qed

lemma cell_less_asym: "cell_less a b \<Longrightarrow> \<not> cell_less b a"
  by (cases a; cases b) (auto simp: name_less_def)

lemma listing_unique:
  assumes "listing C R xs" "listing C R ys"
  shows "xs = ys"
proof -
  have "xs = ys" if "sorted_wrt (\<lambda>a b. cell_less (cellAt a) (cellAt b)) xs" "sorted_wrt (\<lambda>a b. cell_less (cellAt a) (cellAt b)) ys" "set xs = set ys" for xs ys
    using that
  proof (induction xs arbitrary: ys)
    case (Cons x xs)
    then obtain y zs where ys: "ys = y # zs" by (cases ys) auto
    have "x = y"
    proof (rule ccontr)
      assume "x \<noteq> y"
      then have "y \<in> set xs" "x \<in> set zs" using Cons.prems(3) ys by auto
      then show False using Cons.prems(1,2) ys cell_less_asym [of "cellAt x" "cellAt y"] by simp
    qed
    moreover have "x \<notin> set xs" "x \<notin> set zs" using Cons.prems(1,2) ys \<open>x = y\<close> cell_less_asym [of "cellAt x" "cellAt x"] by auto
    ultimately have "set xs = set zs" using Cons.prems(3) ys by auto
    then show ?case using Cons.IH [of zs] Cons.prems(1,2) ys \<open>x = y\<close> by simp
  qed simp
  then show ?thesis using assms by (auto simp: listing_def)
qed

lemma row_bounds_cells:
  "ordinary (r', f, q, t) \<Longrightarrow> inBounds (Some (fst (rowKeyRangeBounds r))) (Some (snd (rowKeyRangeBounds r))) (EncodeCellKey r' f q t) \<longleftrightarrow> r = r'"
  using in_row_bounds [OF ordinary_valid, of r' f q t r] by (auto simp: inBounds_def in_range_def)

lemma getEngine_stable:
  assumes "getEngine st P J n sv = (Inr e, sv1)"
  shows "getEngine st P J n sv1 = (Inr e, sv1)"
  using getEngine_again [OF assms] assms
  by (cases e) (auto simp: getEngine_def loadEngine_def saveEngine_tables split: option.splits prod.splits sum.splits)

section \<open>Requests that write\<close>

text \<open>A request that is not cancelled, with a clock after 1970.\<close>

definition proper :: "request \<Rightarrow> bool" where
  "proper rq \<longleftrightarrow> \<not> en_ctxDone (rq_env rq) \<and> goodClock (rq_clock rq)"

text \<open>What the entries of a \<open>MutateRows\<close> request mean, which branch a conditional mutation takes, and
  tables without empty row keys and long values.\<close>

definition specEntries :: "mutateRowsEntry list \<Rightarrow> (cellId \<Rightarrow> bytes option) \<times> clock \<Rightarrow> (cellId \<Rightarrow> bytes option) \<times> clock" where
  "specEntries = fold (\<lambda>en. fold (specMutation (en_rowKey en)) (en_mutations en))"

definition predicate :: "request \<Rightarrow> rowFilter option \<Rightarrow> cellInfo list \<Rightarrow> bool" where
  "predicate rq rf cs =
    (case rf of None \<Rightarrow> cs \<noteq> []
     | Some f \<Rightarrow> (case newRowFilterEngine (rq_compile rq) (Some f) of Inl _ \<Rightarrow> cs \<noteq> []
        | Inr fe \<Rightarrow> fst (evalCells (reset (fe_eval fe)) cs (rq_rng rq)) \<noteq> []))"

definition tidyCells :: "(cellId \<Rightarrow> bytes option) \<Rightarrow> bool" where
  "tidyCells C \<longleftrightarrow> (\<forall>r f q t v. C (r, f, q, t) = Some v \<longrightarrow> r \<noteq> [] \<and> length v \<le> maxCellChunkValueSize)"

locale working_server = working_engine st contents ok P view flushed J up isDir clock
  for st :: "'s store" and contents ok and P :: "'db pebble" and view flushed J up isDir clock +
  assumes iter_total: "\<exists>kvs. pNewIter P lo hi db = Inr kvs"
    and batch_iter_total: "\<exists>kvs. pBatchIter P b lo hi db = Inr kvs"
begin

text \<open>The table \<open>n\<close> is open or opens, with the cells \<open>C\<close>, and \<open>k\<close> more batches can be numbered.\<close>

definition served :: "string \<Rightarrow> ('s, 'db) server \<Rightarrow> nat \<Rightarrow> (cellId \<Rightarrow> bytes option) \<Rightarrow> bool" where
  "served n sv k C \<longleftrightarrow>
     (\<exists>eng sv1. getEngine st P J n sv = (Inr eng, sv1) \<and> serving eng \<and> unat (m_nextSeq (e_wal eng)) + k < 2 ^ 64 \<and>
        filled (view (the (e_db eng))) \<and> cellsOf (view (the (e_db eng))) = C)"

lemma served_less: "served n sv k C \<Longrightarrow> j \<le> k \<Longrightarrow> served n sv j C"
  unfolding served_def by (elim exE, intro exI) auto

lemma servedI:
  assumes "getEngine st P J n sv = (Inr eng, sv1)" "serving eng" "unat (m_nextSeq (e_wal eng)) + k < 2 ^ 64" "filled (view (the (e_db eng)))"
  shows "served n sv k (cellsOf (view (the (e_db eng))))"
  unfolding served_def using assms by blast

lemma Apply_serves:
  assumes "getEngine st P J n sv = (Inr eng, sv1)" "serving eng" "unat (m_nextSeq (e_wal eng)) + Suc k < 2 ^ 64" "\<not> en_ctxDone env"
    "filled (applyOps b (view (the (e_db eng))))"
  shows "\<exists>eng'. engine_Apply st P env b eng = (None, eng') \<and> served n (saveEngine n eng' sv2) k (cellsOf (applyOps b (view (the (e_db eng)))))"
proof -
  let ?q = "m_nextSeq (e_wal eng)"
  have "unat ?q < 2 ^ 64 - 1" using assms(3) by simp
  then have q: "?q \<noteq> - 1" by (auto simp: unsigned_minus_1_eq_mask mask_eq_exp_minus_1)
  then obtain e' where e': "writeWALAndApply st P env b eng = (Inr ?q, e')" "serving e'" "view (the (e_db e')) = applyOps b (view (the (e_db eng)))"
    "m_nextSeq (e_wal e') = ?q + 1"
    using write_serves [OF assms(2) _ assms(4)] by blast
  have "unat (?q + 1) = unat ?q + 1" using assms(3) by (simp add: unat_word_ariths)
  then show ?thesis using e' assms(3,5) by (auto simp: engine_Apply_def served_def)
qed

lemma MutateRow_serves:
  assumes "served (mr_tableName req) sv (Suc k) C" "mr_rowKey req \<noteq> []" "mr_mutations req \<noteq> []" "list_all wfMutation (mr_mutations req)" "proper rq"
  shows "\<exists>sv'. MutateRow st P J rq req sv = (Inr (), sv') \<and>
    served (mr_tableName req) sv' k (fst (fold (specMutation (mr_rowKey req)) (mr_mutations req) (C, rq_clock rq)))"
proof -
  obtain eng sv1 where e: "getEngine st P J (mr_tableName req) sv = (Inr eng, sv1)" "serving eng" "unat (m_nextSeq (e_wal eng)) + Suc k < 2 ^ 64"
    "filled (view (the (e_db eng)))" "cellsOf (view (the (e_db eng))) = C"
    using assms(1) unfolding served_def by blast
  have rq: "\<not> en_ctxDone (rq_env rq)" "goodClock (rq_clock rq)" using assms(5) by (simp_all add: proper_def)
  let ?m = "view (the (e_db eng))"
  obtain b clk where b: "applyMutationsToBatch (mr_rowKey req) (mr_mutations req) ([], rq_clock rq) = (None, b, clk)"
    "(cellsOf (applyOps b ?m), clk) = fold (specMutation (mr_rowKey req)) (mr_mutations req) (C, rq_clock rq)"
    using applyMutations_refines [OF assms(4) rq(2), of "mr_rowKey req" "[]" ?m] e(5) by auto
  have "filled (applyOps b ?m)" using filled_mutations [OF _ assms(4) rq(2) b(1), of ?m] e(4) by simp
  from Apply_serves [OF e(1-3) rq(1) this, of sv1] obtain eng' where
    "engine_Apply st P (rq_env rq) b eng = (None, eng')" "served (mr_tableName req) (saveEngine (mr_tableName req) eng' sv1) k (cellsOf (applyOps b ?m))" by blast
  then show ?thesis using assms(2,3) e(1) b by (auto simp: MutateRow_def simp flip: b(2))
qed

lemma entryLoop_refines:
  assumes "list_all (\<lambda>en. list_all wfMutation (en_mutations en)) es" "goodClock clk" "filled (applyOps b m)"
  shows "\<exists>b' clk'. entryLoop es i (b, clk) acc = (acc, b', clk') \<and> filled (applyOps b' m) \<and>
    (cellsOf (applyOps b' m), clk') = specEntries es (cellsOf (applyOps b m), clk)"
  using assms
proof (induction es arbitrary: i b clk)
  case (Cons en es)
  have w: "list_all wfMutation (en_mutations en)" using Cons.prems(1) by simp
  obtain b1 clk1 where 1: "applyMutationsToBatch (en_rowKey en) (en_mutations en) (b, clk) = (None, b1, clk1)" "goodClock clk1"
    "(cellsOf (applyOps b1 m), clk1) = fold (specMutation (en_rowKey en)) (en_mutations en) (cellsOf (applyOps b m), clk)"
    using applyMutations_refines [OF w Cons.prems(2), of "en_rowKey en" b m] by auto
  have "filled (applyOps b1 m)" using filled_mutations [OF Cons.prems(3) w Cons.prems(2) 1(1)] .
  then show ?case using Cons.IH [of clk1 b1 "i + 1"] Cons.prems(1) 1 by (simp add: specEntries_def)
qed (simp add: specEntries_def)

lemma MutateRows_serves:
  assumes "served (ms_tableName req) sv (Suc k) C" "ms_entries req \<noteq> []" "list_all (\<lambda>en. list_all wfMutation (en_mutations en)) (ms_entries req)"
    "proper rq" "sk_faults sk = []"
  shows "\<exists>sv'. MutateRows st P J rq req sk sv =
      (None, sk\<lparr>sk_sent := sk_sent sk @ [mutateRowsReply (map (\<lambda>i. \<lparr>re_index = i, re_status = okStatus\<rparr>) (indices (ms_entries req)))]\<rparr>, sv') \<and>
    served (ms_tableName req) sv' k (fst (specEntries (ms_entries req) (C, rq_clock rq)))"
proof -
  obtain eng sv1 where e: "getEngine st P J (ms_tableName req) sv = (Inr eng, sv1)" "serving eng" "unat (m_nextSeq (e_wal eng)) + Suc k < 2 ^ 64"
    "filled (view (the (e_db eng)))" "cellsOf (view (the (e_db eng))) = C"
    using assms(1) unfolding served_def by blast
  have rq: "\<not> en_ctxDone (rq_env rq)" "goodClock (rq_clock rq)" using assms(4) by (simp_all add: proper_def)
  let ?m = "view (the (e_db eng))"
  obtain b clk where b: "entryLoop (ms_entries req) 0 ([], rq_clock rq) [] = ([], b, clk)" "filled (applyOps b ?m)"
    "(cellsOf (applyOps b ?m), clk) = specEntries (ms_entries req) (C, rq_clock rq)"
    using entryLoop_refines [OF assms(3) rq(2), of "[]" ?m 0 "[]"] e(4,5) by auto
  obtain eng' where "engine_Apply st P (rq_env rq) b eng = (None, eng')"
    "served (ms_tableName req) (saveEngine (ms_tableName req) eng' sv1) k (cellsOf (applyOps b ?m))"
    using Apply_serves [OF e(1-3) rq(1) b(2), of sv1] by blast
  then show ?thesis using assms(2,5) e(1) b(1) by (auto simp: MutateRows_def Let_def Send_def simp flip: b(3))
qed

text \<open>Whether a predicate selects a cell of the row, as the server evaluates it.\<close>

lemma rowHasCells_listed:
  assumes "filled (view db)" "listing (cellsOf (view db)) ((=) r) cs"
  shows "rowHasCells P rq db r rf =
    (case rf of None \<Rightarrow> cs \<noteq> []
     | Some f \<Rightarrow> (case newRowFilterEngine (rq_compile rq) (Some f) of Inl _ \<Rightarrow> cs \<noteq> []
        | Inr fe \<Rightarrow> fst (evalCells (reset (fe_eval fe)) cs (rq_rng rq)) \<noteq> []))"
proof -
  obtain kvs where k: "pNewIter P (Some (fst (rowKeyRangeBounds r))) (Some (snd (rowKeyRangeBounds r))) db = Inr kvs" using iter_total by blast
  have "decodedCells kvs = cs"
    by (rule listing_unique [OF iterates_cells [OF assms(1) iter_view [OF k] row_bounds_cells] assms(2)])
  moreover have "kvs \<noteq> [] \<longleftrightarrow> decodedCells kvs \<noteq> []"
  proof (cases kvs)
    case (Cons kv rest)
    then have "d_ok (DecodeCellKey (fst kv))" using iterates_decodes [OF assms(1) iter_view [OF k], of "fst kv" "snd kv"] by auto
    then show ?thesis using Cons by (cases kv) simp
  qed simp
  ultimately show ?thesis
    using k by (auto simp: rowHasCells_def hasMatch_def matchLoop_evalCells case_prod_unfold split: option.split sum.split)
qed

lemma CheckAndMutateRow_serves:
  assumes "served (cm_tableName req) sv (Suc k) C" "cm_rowKey req \<noteq> []" "list_all wfMutation (cm_true req @ cm_false req)" "proper rq"
    "listing C ((=) (cm_rowKey req)) cs" "b = predicate rq (cm_predicate req) cs" "muts = (if b then cm_true req else cm_false req)"
  shows "\<exists>sv'. CheckAndMutateRow st P J rq req sv = (Inr b, sv') \<and>
    served (cm_tableName req) sv' k (fst (fold (specMutation (cm_rowKey req)) muts (C, rq_clock rq)))"
proof -
  let ?n = "cm_tableName req" and ?r = "cm_rowKey req"
  obtain eng sv1 where e: "getEngine st P J ?n sv = (Inr eng, sv1)" "serving eng" "unat (m_nextSeq (e_wal eng)) + Suc k < 2 ^ 64"
    "filled (view (the (e_db eng)))" "cellsOf (view (the (e_db eng))) = C"
    using assms(1) unfolding served_def by blast
  have rq: "\<not> en_ctxDone (rq_env rq)" "goodClock (rq_clock rq)" using assms(4) by (simp_all add: proper_def)
  let ?m = "view (the (e_db eng))"
  have p: "rowHasCells P rq (the (e_db eng)) ?r (cm_predicate req) = b"
    using rowHasCells_listed [OF e(4), of ?r cs] assms(5,6) e(5) by (simp add: predicate_def)
  have w: "list_all wfMutation muts" using assms(3,7) by simp
  show ?thesis
  proof (cases "muts = []")
    case True
    then show ?thesis
      using assms(1,2,7) e(1,5) p getEngine_table [OF e(1)] servedI [OF getEngine_locked [OF e(1)] e(2) _ e(4), of k] e(3)
      by (auto simp: CheckAndMutateRow_def Let_def)
  next
    case False
    obtain b1 clk where b: "applyMutationsToBatch ?r muts ([], rq_clock rq) = (None, b1, clk)"
      "(cellsOf (applyOps b1 ?m), clk) = fold (specMutation ?r) muts (C, rq_clock rq)"
      using applyMutations_refines [OF w rq(2), of ?r "[]" ?m] e(5) by auto
    have "filled (applyOps b1 ?m)" using filled_mutations [OF _ w rq(2) b(1), of ?m] e(4) by simp
    from Apply_serves [OF e(1-3) rq(1) this, of "lockRow ?n ?r sv1"] obtain eng' where
      "engine_Apply st P (rq_env rq) b1 eng = (None, eng')" "served ?n (saveEngine ?n eng' (lockRow ?n ?r sv1)) k (cellsOf (applyOps b1 ?m))" by blast
    moreover have "cellsOf (applyOps b1 ?m) = fst (fold (specMutation ?r) muts (C, rq_clock rq))" using b(2) by (metis fst_conv)
    ultimately show ?thesis using assms(2,7) e(1) b(1) p False getEngine_table [OF e(1)] by (auto simp: CheckAndMutateRow_def Let_def)
  qed
qed

text \<open>A read-modify-write of one rule that can be applied to the newest cell of its column.\<close>

lemma ReadModifyWriteRow_serves:
  assumes "served (rm_tableName req) sv (Suc k) C" "rm_rowKey req \<noteq> []" "rm_rules req = [rule]" "wfRule rule" "proper rq"
    "isLatest C (rm_rowKey req) (ru_family rule) (ru_qualifier rule) cur" "applyRule (ru_rule rule) cur = Inr v"
  shows "\<exists>sv'. ReadModifyWriteRow st P J rq req sv =
      (Inr \<lparr>rw_key = rm_rowKey req, rw_ts = rq_clock rq 0, rw_families = [ru_family rule \<mapsto> [ru_qualifier rule \<mapsto> v]]\<rparr>, sv') \<and>
    served (rm_tableName req) sv' k (C((rm_rowKey req, ru_family rule, ru_qualifier rule, rq_clock rq 0) \<mapsto> v))"
proof -
  let ?n = "rm_tableName req" and ?r = "rm_rowKey req" and ?f = "ru_family rule" and ?q = "ru_qualifier rule" and ?ts = "rq_clock rq 0"
  obtain eng sv1 where e: "getEngine st P J ?n sv = (Inr eng, sv1)" "serving eng" "unat (m_nextSeq (e_wal eng)) + Suc k < 2 ^ 64"
    "filled (view (the (e_db eng)))" "cellsOf (view (the (e_db eng))) = C"
    using assms(1) unfolding served_def by blast
  have rq: "\<not> en_ctxDone (rq_env rq)" "goodClock (rq_clock rq)" using assms(5) by (simp_all add: proper_def)
  let ?m = "view (the (e_db eng))" and ?b = "[OpSet (EncodeCellKey ?r ?f ?q ?ts) v]"
  have w: "length ?f < 255" "length ?q < 65280" using assms(4) by (simp_all add: wfRule_def)
  have o: "ordinary (?r, ?f, ?q, ?ts)" using w goodClock_ordinary(1) [OF rq(2), of 0] by simp
  have "isLatest C ?r ?f ?q (readCellValue P [] (the (e_db eng)) ?r ?f ?q)"
    using readCellValue_latest [of "[]" "the (e_db eng)" ?f ?q ?r] filled_tableWf [OF e(4)] w batch_iter_total e(5) by simp
  then have c: "readCellValue P [] (the (e_db eng)) ?r ?f ?q = cur" using isLatest_unique assms(6) by blast
  have fl: "filled (applyOps ?b ?m)" using filled_set [OF e(4) o, of v] by simp
  have T: "cellsOf (applyOps ?b ?m) = C((?r, ?f, ?q, ?ts) \<mapsto> v)" using cells_set [OF o, of v ?m] e(5) by simp
  from Apply_serves [OF e(1-3) rq(1) fl, of sv1] obtain eng' where
    "engine_Apply st P (rq_env rq) ?b eng = (None, eng')" "served ?n (saveEngine ?n eng' sv1) k (C((?r, ?f, ?q, ?ts) \<mapsto> v))" unfolding T by blast
  then show ?thesis using assms(2,3,7) e(1) c by (auto simp: ReadModifyWriteRow_def tick_def Let_def)
qed

section \<open>Requests that read\<close>

text \<open>A read of the rows \<open>R\<close> in one range, without filter or with one.\<close>

lemma ReadRows_serves:
  assumes "served (rd_tableName req) sv k C" "tidyCells C" "scanRanges (rd_rows req) = [(lo, hi)]"
    "\<And>r f q t. ordinary (r, f, q, t) \<Longrightarrow> inBounds lo hi (EncodeCellKey r f q t) \<longleftrightarrow> R r"
    "fe = None \<and> rd_filter req = None \<or> (\<exists>f x. rd_filter req = Some f \<and> newRowFilterEngine (rq_compile rq) (Some f) = Inr x \<and> fe = Some x)"
    "sk_faults sk = []"
  shows "\<exists>cs sk' sv'. listing C R cs \<and> ReadRows st P J rq req sk sv = (None, sk', sv') \<and> served (rd_tableName req) sv' k C \<and>
    sentOn sk' = sentOn sk @ dropCommits 0 (frame (rowsOut fe (rq_rng rq)
      (takeRows (rd_rowsLimit req) 0 (rowGroups (if rd_reversed req then rev cs else cs)))))"
proof -
  obtain eng sv1 where e: "getEngine st P J (rd_tableName req) sv = (Inr eng, sv1)" "filled (view (the (e_db eng)))" "cellsOf (view (the (e_db eng))) = C"
    "serving eng" "unat (m_nextSeq (e_wal eng)) + k < 2 ^ 64"
    using assms(1) unfolding served_def by blast
  obtain kvs where k: "pNewIter P lo hi (the (e_db eng)) = Inr kvs" using iter_total by blast
  let ?kvs = "if rd_reversed req then rev kvs else kvs"
  have L: "listing C R (decodedCells kvs)" using iterates_cells [OF e(2) iter_view [OF k] assms(4)] e(3) by simp
  have dr: "decodedCells (rev xs) = rev (decodedCells xs)" for xs by (simp add: decodedCells_def rev_map rev_filter)
  have v: "visits P (the (e_db eng)) (rd_reversed req) (scanRanges (rd_rows req)) [?kvs]" using k assms(3) by simp
  have cell: "cellsOf (view (the (e_db eng))) (cellAt (cell_of (DecodeCellKey x) y)) = Some y \<and> d_ok (DecodeCellKey x)" if "(x, y) \<in> set kvs" for x y
    using iterates_decodes [OF e(2) iter_view [OF k] that] iter_view [OF k] that
    by (auto simp: iterates_def cellAt_def cell_of_def)
  have s: "smallValues kvs"
    using cell assms(2) e(3) unfolding smallValues_def tidyCells_def cellAt_def by fastforce
  have ne: "\<forall>c \<in> set (decodedCells kvs). c_rowKey c \<noteq> []"
    using L assms(2) unfolding listing_def tidyCells_def cellAt_def by blast
  have "smallValues ?kvs" "\<forall>c \<in> set (concat (map decodedCells [?kvs])). c_rowKey c \<noteq> []" using s ne by (simp_all add: smallValues_def dr)
  then show ?thesis
    using ReadRows_sent [OF e(1) assms(5,6) v] L servedI [OF getEngine_stable [OF e(1)] e(4,5,2)] e(3)
    by (intro exI [of _ "decodedCells kvs"]) (auto simp: dr)
qed

text \<open>A server that has just started, on an empty store and with room for the directory of the table.\<close>

lemma fresh_served:
  assumes "up s" "contents s = Map.empty" "\<forall>q. \<not> isDir s q" "goodRoot (dir @ ''/'' @ n)" "plainPath (''bigtable/'' @ n)"
    "MkdirAll (Clean (dir @ ''/'' @ n)) f = (Inr (), f2)" "dirEmpty (dir @ ''/'' @ n) f2" "k < 2 ^ 64 - 1"
  shows "served n (NewServer dir s f) k Map.empty"
proof -
  define sv :: "('s, 'db) server" where "sv = NewServer dir s f"
  let ?opts = "engineOptions sv n"
  have o: "o_hasStore ?opts" "\<not> o_asyncWAL ?opts" "o_consistency ?opts = ConsistencyStrong" "o_dir ?opts = dir @ ''/'' @ n"
    "o_namespace (defaultOptions ?opts) = ''bigtable/'' @ n"
    by (simp_all add: engineOptions_def defaultOptions_def tableNamespace_def NewServer_def sv_def)
  obtain e s' f' where e: "engine_Open st P J ?opts s f2 = (Inr e, s', f')" "serving e" "view (the (e_db e)) = Map.empty" "m_nextSeq (e_wal e) = 1"
    using fresh_opens [OF assms(1-3) o(1-3), of f2, unfolded o(4,5)] assms(4,5,7) by blast
  have "engine_Open st P J ?opts s f = (Inr e, s', f')"
    using Open_mkdir [of ?opts f f2 st P J s e s' f'] assms(6,7) e(1) unfolding o by blast
  then have g: "getEngine st P J n sv = (Inr e, saveEngine n e sv)" by (simp add: getEngine_def sv_def NewServer_def)
  have "cellsOf Map.empty = Map.empty" by (auto simp: fun_eq_iff)
  then show ?thesis using servedI [OF g e(2), of k] e(3,4) assms(8) by (simp add: sv_def)
qed

end

section \<open>Reading back what was written\<close>

fun smallMutation :: "mutation \<Rightarrow> bool" where
  "smallMutation (SetCell sc) \<longleftrightarrow> length (sc_value sc) \<le> maxCellChunkValueSize"
| "smallMutation mut \<longleftrightarrow> True"

lemma tidy_mutation:
  assumes "tidyCells C" "r \<noteq> []" "smallMutation mut"
  shows "tidyCells (fst (specMutation r mut (C, clk)))"
proof (cases mut)
  case (DeleteFromColumn dc)
  then show ?thesis using assms by (cases "dc_timeRange dc") (auto simp: tidyCells_def split: if_splits)
qed (use assms in \<open>auto simp: tidyCells_def split: if_splits\<close>)

lemma tidy_mutations:
  assumes "tidyCells C" "r \<noteq> []" "list_all smallMutation muts"
  shows "tidyCells (fst (fold (specMutation r) muts (C, clk)))"
  using assms(1,3)
proof (induction muts arbitrary: C clk)
  case (Cons mut muts)
  then show ?case using tidy_mutation [OF Cons.prems(1) assms(2), of mut clk]
    by (cases "specMutation r mut (C, clk)") simp
qed simp

text \<open>Reading one row.\<close>

definition rowRequest :: "string \<Rightarrow> bytes \<Rightarrow> int64 \<Rightarrow> rowFilter option \<Rightarrow> readRowsRequest" where
  "rowRequest n r l f = \<lparr>rd_tableName = n, rd_rowsLimit = l, rd_filter = f, rd_rows = Some \<lparr>rs_rowKeys = [r], rs_rowRanges = []\<rparr>, rd_reversed = False\<rparr>"

lemma rowGroups_row: "\<forall>c \<in> set cs. c_rowKey c = r \<Longrightarrow> rowGroups cs = (if cs = [] then [] else [cs])"
proof (cases cs)
  case (Cons c cs')
  assume "\<forall>c \<in> set cs. c_rowKey c = r"
  then have "takeWhile (\<lambda>d. c_rowKey d = c_rowKey c) cs' = cs'" "dropWhile (\<lambda>d. c_rowKey d = c_rowKey c) cs' = []"
    using Cons by (simp_all add: takeWhile_eq_all_conv dropWhile_eq_Nil_conv)
  then show ?thesis unfolding Cons rowGroups.simps by (simp only: rowGroups.simps) simp
qed simp

context working_server
begin

lemma ReadRow_serves:
  assumes "served n sv k C" "tidyCells C" "l = 0 \<or> l = 1" "sk_faults sk = []"
  shows "\<exists>cs sk' sv'. listing C ((=) r) cs \<and> ReadRows st P J rq (rowRequest n r l None) sk sv = (None, sk', sv') \<and> served n sv' k C \<and>
    sentOn sk' = sentOn sk @ dropCommits 0 (rowChunks cs)"
proof -
  let ?req = "rowRequest n r l None" and ?b = "rowKeyRangeBounds r"
  have s: "scanRanges (rd_rows ?req) = [(Some (fst ?b), Some (snd ?b))]" by (simp add: rowRequest_def scanRanges_def case_prod_unfold)
  have q: "rd_tableName ?req = n" "rd_filter ?req = None" "rd_rowsLimit ?req = l" "\<not> rd_reversed ?req" by (simp_all add: rowRequest_def)
  obtain cs sk' sv' where r: "listing C ((=) r) cs" "ReadRows st P J rq ?req sk sv = (None, sk', sv')" "served n sv' k C"
    "sentOn sk' = sentOn sk @ dropCommits 0 (frame (rowsOut None (rq_rng rq) (takeRows l 0 (rowGroups cs))))"
    using ReadRows_serves [of ?req sv k C, OF _ assms(2) s row_bounds_cells _ assms(4), of None rq] assms(1) q by auto
  have "\<forall>c \<in> set cs. c_rowKey c = r" using r(1) by (auto simp: listing_def)
  then have "frame (rowsOut None (rq_rng rq) (takeRows l 0 (rowGroups cs))) = rowChunks cs"
    using rowGroups_row [of cs r] assms(3) by (auto simp: takeRows_def frame_def rowChunks_def)
  then show ?thesis using r by auto
qed

lemma write_read_serves:
  assumes "served (mr_tableName req) sv (Suc k) C" "tidyCells C" "mr_rowKey req \<noteq> []" "mr_mutations req \<noteq> []"
    "list_all wfMutation (mr_mutations req)" "list_all smallMutation (mr_mutations req)" "proper rq" "sk_faults sk = []"
  shows "\<exists>sv1 sv2 sk' cs. MutateRow st P J rq req sv = (Inr (), sv1) \<and>
    ReadRows st P J rq' (rowRequest (mr_tableName req) (mr_rowKey req) 0 None) sk sv1 = (None, sk', sv2) \<and>
    sentOn sk' = sentOn sk @ dropCommits 0 (rowChunks cs) \<and>
    listing (fst (fold (specMutation (mr_rowKey req)) (mr_mutations req) (C, rq_clock rq))) ((=) (mr_rowKey req)) cs"
proof -
  obtain sv1 where m: "MutateRow st P J rq req sv = (Inr (), sv1)"
    "served (mr_tableName req) sv1 k (fst (fold (specMutation (mr_rowKey req)) (mr_mutations req) (C, rq_clock rq)))"
    using MutateRow_serves [OF assms(1,3-5,7)] by blast
  show ?thesis
    using ReadRow_serves [OF m(2) tidy_mutations [OF assms(2,3,6)] _ assms(8), of 0 "mr_rowKey req" rq'] m(1) by blast
qed

end

interpretation exServing: working_server exStore exContents "\<lambda>_. True" refPebble exView "map_of \<circ> r_flushed" refCodec "\<lambda>_. True" "\<lambda>_ _. False" "\<lambda>_. 0"
  by unfold_locales (simp_all add: refPebble_def)

text \<open>Pebble's iterators do not depend on the store either.\<close>

lemma local_serving:
  assumes "goodRoot dir" "working_server st contents ok P view flushed J up isDir clock"
  shows "working_server (local_store dir) (local_contents dir) (local_inv dir) P view flushed J (local_up dir) (local_isDir dir) fs_clock"
  using local_working [OF assms(1) working_server.axioms(1) [OF assms(2)]] working_server.axioms(2) [OF assms(2)] by (rule working_server.intro)

text \<open>An example: a server in \<open>/srv\<close> that has just started.\<close>

definition exNew :: "((string \<times> bytes) list, refDB) server" where
  "exNew = NewServer ''/srv'' [] (snd (RemoveAll ''/srv/t'' diskFs))"

lemma exNew_served:
  assumes "k < 2 ^ 64 - 1"
  shows "exServing.served ''t'' exNew k Map.empty"
proof -
  have p: "plainPath ''srv/t''" "plainPath (''bigtable/'' @ ''t'')" by (simp_all add: plainPath_def plainElem_def sep_def)
  then have n: "normalPath (''/srv'' @ ''/'' @ ''t'')" by (auto simp: normalPath_def sep_def)
  have g: "goodRoot (''/srv'' @ ''/'' @ ''t'')" "Clean (''/srv'' @ ''/'' @ ''t'') = ''/srv/t''" using normal_goodRoot [OF n] Clean_normal [OF n] by simp_all
  have "usable (''/srv'' @ ''/'' @ ''t'') diskFs" by (rule tmp_usable)
  then obtain f' where "MkdirAll (Clean (''/srv'' @ ''/'' @ ''t'')) (snd (RemoveAll ''/srv/t'' diskFs)) = (Inr (), f')" "dirEmpty (''/srv'' @ ''/'' @ ''t'') f'"
    using remake [OF g(1), of diskFs] unfolding g(2) by blast
  from exServing.fresh_served [OF TrueI _ _ g(1) p(2) this assms, of "[]"] show ?thesis unfolding exNew_def by (simp add: exContents)
qed

section \<open>Properties\<close>

text \<open>C6: on a server whose store, file system and database work, a \<open>MutateRow\<close> request with well-formed
  mutations is answered without error, and a read of its row that follows sends exactly the
  cells that the mutations make of the row, in table order and, up to a hundredth chunk, with its commit.\<close>

theorem read_your_writes:
  fixes P :: "'db pebble"
  assumes "working_server st contents ok P view flushed J up isDir clock"
    "working_server.served st contents ok P view J up isDir (mr_tableName req) sv (Suc k) C" "tidyCells C" "mr_rowKey req \<noteq> []"
    "mr_mutations req \<noteq> []" "list_all wfMutation (mr_mutations req)" "list_all smallMutation (mr_mutations req)" "proper rq" "sk_faults sk = []"
  shows "\<exists>sv1 sv2 sk' cs. MutateRow st P J rq req sv = (Inr (), sv1) \<and>
    ReadRows st P J rq' (rowRequest (mr_tableName req) (mr_rowKey req) 0 None) sk sv1 = (None, sk', sv2) \<and>
    sentOn sk' = sentOn sk @ dropCommits 0 (rowChunks cs) \<and>
    listing (fst (fold (specMutation (mr_rowKey req)) (mr_mutations req) (C, rq_clock rq))) ((=) (mr_rowKey req)) cs"
  by (rule working_server.write_read_serves [OF assms])

theorem read_your_writes_witness:
  "\<exists>sv1 sv2 sk'. MutateRow exStore refPebble refCodec exRequest \<lparr>mr_tableName = ''t'', mr_rowKey = [97], mr_mutations = [exSet]\<rparr> exNew = (Inr (), sv1) \<and>
    ReadRows exStore refPebble refCodec exRequest (rowRequest ''t'' [97] 0 None) exSink sv1 = (None, sk', sv2) \<and>
    sentOn sk' = [committed (chunkOf \<lparr>c_rowKey = [97], c_family = [102], c_qualifier = [113], c_ts = 1000, c_value = [7]\<rparr>)]"
proof -
  let ?req = "\<lparr>mr_tableName = ''t'', mr_rowKey = [97], mr_mutations = [exSet]\<rparr>" and ?c = "\<lparr>c_rowKey = [97], c_family = [102], c_qualifier = [113], c_ts = 1000, c_value = [7 :: byte]\<rparr>"
  let ?C = "[([97], [102], [113], 1000) \<mapsto> [7 :: byte]] :: cellId \<Rightarrow> bytes option"
  have s: "exServing.served (mr_tableName ?req) exNew (Suc 8) Map.empty" by (simp add: exNew_served)
  have m: "list_all wfMutation (mr_mutations ?req)" "list_all smallMutation (mr_mutations ?req)" "proper exRequest" "sk_faults (exSink :: readRowsResponse sink) = []"
    "tidyCells Map.empty" "mr_rowKey ?req \<noteq> []" "mr_mutations ?req \<noteq> []"
    by (simp_all add: exSet_def maxCellChunkValueSize_def proper_def exEnv_def exSink_def tidyCells_def)
  have C: "fst (fold (specMutation (mr_rowKey ?req)) (mr_mutations ?req) (Map.empty, rq_clock exRequest)) = ?C" by (simp add: exSet_def)
  have "x \<in> set [?c] \<longleftrightarrow> [97] = c_rowKey x \<and> ?C (cellAt x) = Some (c_value x)" for x
    by (cases x) (auto simp: cellAt_def split: if_splits)
  then have "listing ?C ((=) [97]) [?c]" by (simp add: listing_def)
  then have L: "listing ?C ((=) [97]) cs \<Longrightarrow> cs = [?c]" for cs using listing_unique by blast
  obtain sv1 sv2 sk' cs where "MutateRow exStore refPebble refCodec exRequest ?req exNew = (Inr (), sv1)"
    "ReadRows exStore refPebble refCodec exRequest (rowRequest ''t'' [97] 0 None) exSink sv1 = (None, sk', sv2)"
    "sentOn sk' = sentOn exSink @ dropCommits 0 (rowChunks cs)" "listing ?C ((=) [97]) cs"
    using read_your_writes [OF exServing.working_server_axioms s m(5-7,1-4), of exRequest] unfolding C by auto
  moreover have "sentOn (exSink :: readRowsResponse sink) = []" by (simp add: sentOn_def exSink_def)
  ultimately show ?thesis using L [of cs] by (auto simp: rowChunks_def cellChunkBufferSize_def)
qed

end
