(* ===== verification/BigtableClient.thy ===== *)
theory BigtableClient
  imports ServerLiveness
begin

text \<open>
  The client library that \<open>cmd/test-bigtable-client\<close> uses. Its code is not part of the repository, so
  its operations are the fields of a record over a state, and what its documentation promises is the
  locale \<open>bigtable_client\<close>: a call sends one request to the server, and when the server answers it
  without error the call returns what the answer says. The state is the server with the number of
  requests made so far; \<open>rqs\<close> gives what each request observes.

  From the contract and the behaviour of the server follow the laws that the tests rely on: what a
  call returns and what it leaves of the cells of the table.
\<close>

section \<open>Values of the library\<close>

text \<open>The operations collected in a \<open>Mutation\<close>, and a mutation with a condition.\<close>

datatype clientOp =
    MSet bytes bytes int64 bytes
  | MDeleteCellsInColumn bytes bytes
  | MDeleteTimestampRange bytes bytes int64 int64
  | MDeleteCellsInFamily bytes
  | MDeleteRow

datatype clientMutation = Mutation "clientOp list" | CondMutation rowFilter "clientOp list option" "clientOp list option"

text \<open>A row maps families to items; the column of an item is the family, a colon and the qualifier.\<close>

record readItem =
  ri_row :: bytes
  ri_column :: bytes
  ri_ts :: int64
  ri_value :: bytes

type_synonym clientRow = "(bytes \<times> readItem list) list"

definition famItems :: "clientRow \<Rightarrow> bytes \<Rightarrow> readItem list" where
  "famItems x f = (case map_of x f of None \<Rightarrow> [] | Some items \<Rightarrow> items)"

text \<open>\<open>Row.Key\<close>.\<close>

fun Row_Key :: "clientRow \<Rightarrow> bytes" where
  "Row_Key [] = []"
| "Row_Key ((f, []) # x) = Row_Key x"
| "Row_Key ((f, item # items) # x) = ri_row item"

datatype clientRowSet = AllRows | InfiniteRange bytes | SingleRow bytes | RowList "bytes list" | PrefixRange bytes

record readArgs =
  ra_rows :: clientRowSet
  ra_filter :: "rowFilter option"
  ra_limit :: int64
  ra_reversed :: bool

record 't btTable =
  t_Apply :: "bytes \<Rightarrow> clientMutation \<Rightarrow> 't \<Rightarrow> (goerror + bool) \<times> 't"
  t_ApplyBulk :: "bytes list \<Rightarrow> clientMutation list \<Rightarrow> 't \<Rightarrow> (goerror + goerror option list) \<times> 't"
  t_ApplyReadModifyWrite :: "bytes \<Rightarrow> rmwRule list \<Rightarrow> 't \<Rightarrow> (goerror + clientRow) \<times> 't"
  t_ReadRow :: "bytes \<Rightarrow> 't \<Rightarrow> (goerror + clientRow option) \<times> 't"
  t_ReadRows :: "readArgs \<Rightarrow> 't \<Rightarrow> (goerror option \<times> clientRow list) \<times> 't"
  t_SampleRowKeys :: "'t \<Rightarrow> (goerror + bytes list) \<times> 't"
  t_Time :: "int \<Rightarrow> int64"

section \<open>What is sent\<close>

text \<open>Timestamps are truncated to milliseconds; \<open>-1\<close> asks for the time of the server.\<close>

definition millis :: "int64 \<Rightarrow> int64" where
  "millis ts = (if ts = - 1 then - 1 else if 0 \<le> sint ts then ts - word_of_int (sint ts mod 1000) else ts + word_of_int (- sint ts mod 1000))"

fun wireOp :: "clientOp \<Rightarrow> mutation" where
  "wireOp (MSet f q ts v) = SetCell \<lparr>sc_family = f, sc_qualifier = q, sc_ts = millis ts, sc_value = v\<rparr>"
| "wireOp (MDeleteCellsInColumn f q) = DeleteFromColumn \<lparr>dc_family = f, dc_qualifier = q, dc_timeRange = None\<rparr>"
| "wireOp (MDeleteTimestampRange f q a b) =
     DeleteFromColumn \<lparr>dc_family = f, dc_qualifier = q, dc_timeRange = Some \<lparr>tr_start = millis a, tr_end = millis b\<rparr>\<rparr>"
| "wireOp (MDeleteCellsInFamily f) = DeleteFromFamily f"
| "wireOp MDeleteRow = DeleteFromRow"

definition wireOps :: "clientOp list option \<Rightarrow> mutation list" where
  "wireOps ops = (case ops of None \<Rightarrow> [] | Some xs \<Rightarrow> map wireOp xs)"

text \<open>The rows of a row set, and the messages that select them. Row sets of one key or one range.\<close>

fun covers :: "clientRowSet \<Rightarrow> bytes \<Rightarrow> bool" where
  "covers AllRows r = True"
| "covers (InfiniteRange s) r = (s \<le> r)"
| "covers (SingleRow k) r = (k = r)"
| "covers (RowList ks) r = (r \<in> set ks)"
| "covers (PrefixRange p) r = (take (length p) r = p)"

fun oneRange :: "clientRowSet \<Rightarrow> bool" where
  "oneRange (RowList ks) \<longleftrightarrow> length ks = 1"
| "oneRange (PrefixRange p) \<longleftrightarrow> p \<noteq> [] \<and> last p \<noteq> 0xFF"
| "oneRange rs \<longleftrightarrow> True"

definition selects :: "rowSet \<Rightarrow> (bytes \<Rightarrow> bool) \<Rightarrow> bool" where
  "selects rows R \<longleftrightarrow> (\<exists>k. rows = \<lparr>rs_rowKeys = [k], rs_rowRanges = []\<rparr> \<and> R = (=) k) \<or>
     (\<exists>rr. rows = \<lparr>rs_rowKeys = [], rs_rowRanges = [rr]\<rparr> \<and> R = (\<lambda>r. afterStart (rr_start rr) r \<and> beforeEnd (rr_end rr) r))"

section \<open>What is received\<close>

definition itemOf :: "cellInfo \<Rightarrow> readItem" where
  "itemOf c = \<lparr>ri_row = c_rowKey c, ri_column = c_family c @ [58] @ c_qualifier c, ri_ts = c_ts c, ri_value = c_value c\<rparr>"

definition itemAt :: "bytes \<Rightarrow> bytes \<Rightarrow> bytes \<Rightarrow> int64 \<Rightarrow> bytes \<Rightarrow> readItem" where
  "itemAt r f q t v = \<lparr>ri_row = r, ri_column = f @ [58] @ q, ri_ts = t, ri_value = v\<rparr>"

definition rowIs :: "cellInfo list \<Rightarrow> clientRow \<Rightarrow> bool" where
  "rowIs cs x \<longleftrightarrow> distinct (map fst x) \<and> (\<forall>(f, items) \<in> set x. items \<noteq> []) \<and>
     (\<forall>f. famItems x f = map itemOf (filter (\<lambda>c. c_family c = f) cs))"

text \<open>A stream that a client accepts: named cells, one key in each row, keys in the order of the scan.\<close>

definition namedCell :: "cellInfo \<Rightarrow> bool" where
  "namedCell c \<longleftrightarrow> c_rowKey c \<noteq> [] \<and> c_family c \<noteq> [] \<and> c_qualifier c \<noteq> []"

definition wellFramed :: "bool \<Rightarrow> cellInfo list list \<Rightarrow> bool" where
  "wellFramed reversed rows \<longleftrightarrow> list_all (list_all namedCell) rows \<and>
     list_all (\<lambda>r. \<forall>c \<in> set r. c_rowKey c = c_rowKey (hd r)) rows \<and>
     sorted_wrt (\<lambda>a b. if reversed then b < a else a < b) (map (\<lambda>r. c_rowKey (hd r)) (filter (\<lambda>r. r \<noteq> []) rows))"

text \<open>A cell in several chunks: the first names it, the others carry only more of its value, all but the last announce
  its size, and the last one is committed.\<close>

definition splitRow :: "cellInfo \<Rightarrow> bytes cellChunk list \<Rightarrow> bool" where
  "splitRow c cks \<longleftrightarrow> (\<exists>u us. cks = u # us \<and> concat (map ck_value cks) = c_value c \<and>
     ck_rowKey u = c_rowKey c \<and> ck_family u = Some (c_family c) \<and> ck_qualifier u = Some (c_qualifier c) \<and> ck_ts u = c_ts c \<and>
     list_all (\<lambda>k. ck_rowKey k = [] \<and> ck_family k = None \<and> ck_qualifier k = None \<and> ck_ts k = 0) us \<and>
     list_all (\<lambda>k. ck_labels k = []) cks \<and>
     list_all (\<lambda>k. ck_valueSize k = of_nat (length (c_value c)) \<and> ck_status k = None) (butlast cks) \<and>
     ck_valueSize (last cks) = 0 \<and> ck_status (last cks) = Some (CommitRow True))"

definition newStream :: "readRowsResponse sink" where
  "newStream = \<lparr>sk_sent = [], sk_faults = []\<rparr>"

section \<open>Reading a long value\<close>

lemma split_scan:
  assumes "d_ok (DecodeCellKey key)" "d_rowKey (DecodeCellKey key) = r" "r \<noteq> []" "l = 0 \<or> l = 1"
    "maxCellChunkValueSize < length v" "length v \<le> 2 * maxCellChunkValueSize" "pNewIter P lo hi db = Inr [(key, v)]"
    "d_family (DecodeCellKey key) \<noteq> []" "d_qualifier (DecodeCellKey key) \<noteq> []" "sk_faults sk = []" "sk_sent sk = []"
  shows "\<exists>s s'. rangeLoop P g db False l [(lo, hi)] (scanStart None h sk) = (None, s) \<and> flush s = (None, s') \<and>
    splitRow (cell_of (DecodeCellKey key) v) (sentOn (s_stream s'))"
proof -
  let ?m = maxCellChunkValueSize and ?d = "DecodeCellKey key" and ?s0 = "scanStart None h sk"
  have nz: "length v > 0" "v \<noteq> []" using assms(5) by auto
  let ?cap = "max (length v) (g 0 (length v))"
  have a: "copy_at (make_bytes ?cap) 0 v = v @ make_bytes (?cap - length v)"
    using copy_prefix [of v "?cap - length v"] by simp
  define s1 where "s1 = ?s0\<lparr>s_dec := snd (Decode (s_dec ?s0) key), s_rowCount := 1\<rparr>"
  define s2 where "s2 = (if length v > 0 then fillValBuf g v s1 else s1)"
  define s4 where "s4 = s2\<lparr>s_chunkBuf := appendCellChunks (s_chunkBuf s2) (d_rowKey ?d) (d_family ?d) (d_qualifier ?d) (d_ts ?d) (s_valBuf s2) v\<rparr>"
  have b: "rowBoundary l (d_rowKey ?d) [] False (?s0\<lparr>s_dec := snd (Decode (s_dec ?s0) key)\<rparr>) = (True, s1)"
    using assms(2-4) by (auto simp: rowBoundary_def s1_def scanStart_def)
  have s2: "s2 = s1\<lparr>s_arrays := [[], v @ make_bytes (?cap - length v)], s_valBuf := 1\<rparr>"
    using nz by (simp add: s2_def s1_def fillValBuf_def scanStart_def a)
  have c4: "s_chunkBuf s4 = [(cellChunk r (d_family ?d) (d_qualifier ?d) (d_ts ?d) (take ?m v) [])\<lparr>ck_valueSize := of_nat (length v)\<rparr>,
      emptyChunk\<lparr>ck_value := View 1 ?m (length v)\<rparr>]" "s_filter s2 = None"
    using assms(2,5,6) by (simp_all add: s4_def two_chunks s2 s1_def scanStart_def)
  have cell: "cellLoop g l [(key, v)] [] False ?s0 = (None, r, True, s4)"
    using cellLoop_step [OF assms(1) refl b s2_def c4(2) s4_def, of "[]"] c4(1) assms(2,3) by (simp add: cellChunkBufferSize_def)
  define s where "s = (commitLastChunk s4)\<lparr>s_lastScanned := r\<rparr>"
  have range: "rangeLoop P g db False l [(lo, hi)] ?s0 = (None, s)"
    using assms(4,7) cell by (auto simp: s_def Let_def)
  have e: "s_arrays s = [[], v @ make_bytes (?cap - length v)]" "s_stream s = sk"
    "s_chunkBuf s = [(cellChunk r (d_family ?d) (d_qualifier ?d) (d_ts ?d) (take ?m v) [])\<lparr>ck_valueSize := of_nat (length v)\<rparr>,
      emptyChunk\<lparr>ck_value := View 1 ?m (length v), ck_status := Some (CommitRow True)\<rparr>]"
    by (simp_all add: s_def commitLastChunk_def c4(1)) (simp_all add: s4_def s2 s1_def scanStart_def)
  obtain sk' where f: "flush s = (None, s\<lparr>s_chunkBuf := [], s_stream := sk'\<rparr>)" "sentOn sk' = map (readChunk (s_arrays s)) (s_chunkBuf s)"
    using assms(10,11) by (auto simp: flush_def Send_def Let_def sentOn_def e(2) e(3))
  have "slice (v @ make_bytes (?cap - length v)) ?m (length v) = drop ?m v"
    using slice_prefix [of v "v @ make_bytes (?cap - length v)" "length v" ?m] by (simp add: slice_def)
  then have "splitRow (cell_of ?d v) (map (readChunk (s_arrays s)) (s_chunkBuf s))"
    using assms(2,3,5,8,9) nz unfolding e
    by (simp add: splitRow_def readChunk_def readSlice_def cellChunk_def emptyChunk_def cell_of_def maxCellChunkValueSize_def)
  then show ?thesis using range f by auto
qed

context working_server
begin

lemma ReadRow_split_serves:
  assumes "served n sv k C" "listing C ((=) r) [c]" "l = 0 \<or> l = 1" "namedCell c"
    "maxCellChunkValueSize < length (c_value c)" "length (c_value c) \<le> 2 * maxCellChunkValueSize"
  shows "\<exists>sk' sv'. ReadRows st P J rq (rowRequest n r l None) newStream sv = (None, sk', sv') \<and> served n sv' k C \<and> splitRow c (sentOn sk')"
proof -
  obtain eng sv1 where e: "getEngine st P J n sv = (Inr eng, sv1)" "serving eng" "unat (m_nextSeq (e_wal eng)) + k < 2 ^ 64"
    "filled (view (the (e_db eng)))" "cellsOf (view (the (e_db eng))) = C"
    using assms(1) unfolding served_def by blast
  let ?b = "rowKeyRangeBounds r"
  obtain kvs where k: "pNewIter P (Some (fst ?b)) (Some (snd ?b)) (the (e_db eng)) = Inr kvs" using iter_total by blast
  have L: "listing (cellsOf (view (the (e_db eng)))) ((=) r) (decodedCells kvs)"
    by (rule iterates_cells [OF e(4) iter_view [OF k] row_bounds_cells])
  have d: "decodedCells kvs = [c]" by (rule listing_unique [OF L]) (simp add: e(5) assms(2))
  have ok: "d_ok (DecodeCellKey x)" if "(x, y) \<in> set kvs" for x y
    using iterates_decodes [OF e(4) iter_view [OF k] that] by auto
  have "filter (\<lambda>(k, v). d_ok (DecodeCellKey k)) kvs = kvs" using ok by (auto simp: filter_id_conv)
  then have m: "decodedCells kvs = map (\<lambda>(k, v). cell_of (DecodeCellKey k) v) kvs" by (simp add: decodedCells_def)
  then obtain key v where kv: "kvs = [(key, v)]" "c = cell_of (DecodeCellKey key) v" using d by auto
  have row: "c_rowKey c = r" using assms(2) unfolding listing_def by (metis list.set_intros(1))
  have r: "d_rowKey (DecodeCellKey key) = r" "r \<noteq> []" "d_family (DecodeCellKey key) \<noteq> []" "d_qualifier (DecodeCellKey key) \<noteq> []"
    using row assms(4) by (simp_all add: kv(2) cell_of_def namedCell_def)
  have v: "maxCellChunkValueSize < length v" "length v \<le> 2 * maxCellChunkValueSize" using assms(5,6) by (simp_all add: kv(2) cell_of_def)
  obtain s s' where s: "rangeLoop P (rq_grow rq) (the (e_db eng)) False l [(Some (fst ?b), Some (snd ?b))] (scanStart None (rq_rng rq) newStream) = (None, s)"
    "flush s = (None, s')" "splitRow c (sentOn (s_stream s'))"
    using split_scan [OF _ r(1,2) assms(3) v k [unfolded kv(1)] r(3,4), of newStream "rq_grow rq" "rq_rng rq"] ok kv
    by (auto simp: newStream_def)
  have q: "scanRanges (rd_rows (rowRequest n r l None)) = [(Some (fst ?b), Some (snd ?b))]" by (simp add: rowRequest_def scanRanges_def case_prod_unfold)
  have "ReadRows st P J rq (rowRequest n r l None) newStream sv = (None, s_stream s', sv1)"
    unfolding ReadRows_def q using e(1) s(1,2) by (simp add: rowRequest_def)
  then show ?thesis using s(3) servedI [OF getEngine_stable [OF e(1)] e(2,3,4)] e(5) by auto
qed

end

section \<open>The contract\<close>

text \<open>Letters and digits match themselves in Go's regular expressions.\<close>

definition alphanumeric :: "byte \<Rightarrow> bool" where
  "alphanumeric b \<longleftrightarrow> 48 \<le> b \<and> b \<le> 57 \<or> 65 \<le> b \<and> b \<le> 90 \<or> 97 \<le> b \<and> b \<le> 122"

locale bigtable_client = working_server st contents ok P view flushed J up isDir clock
  for st :: "'s store" and contents ok and P :: "'db pebble" and view flushed J up isDir clock +
  fixes T :: "(('s, 'db) server \<times> nat) btTable" and name :: string and rqs :: "nat \<Rightarrow> request"
  assumes requests: "proper (rqs i)"
    and literals: "list_all alphanumeric p \<Longrightarrow> \<exists>re. rq_compile (rqs i) p = Inr re \<and> (\<forall>s. re s \<longleftrightarrow> (\<exists>a b. s = a @ p @ b))"
    and clock_forward: "i \<le> j \<Longrightarrow> sint (rq_clock (rqs i) 0) \<le> sint (rq_clock (rqs j) 0)"
    and apply_sends: "MutateRow st P J (rqs i) \<lparr>mr_tableName = name, mr_rowKey = key, mr_mutations = map wireOp ops\<rparr> sv = (Inr (), sv') \<Longrightarrow>
      t_Apply T key (Mutation ops) (sv, i) = (Inr False, (sv', Suc i))"
    and cond_sends: "CheckAndMutateRow st P J (rqs i) \<lparr>cm_tableName = name, cm_rowKey = key, cm_predicate = Some f,
        cm_true = wireOps tops, cm_false = wireOps fops\<rparr> sv = (Inr b, sv') \<Longrightarrow>
      t_Apply T key (CondMutation f tops fops) (sv, i) = (Inr b, (sv', Suc i))"
    and bulk_sends: "length keys = length opss \<Longrightarrow> keys \<noteq> [] \<Longrightarrow>
      MutateRows st P J (rqs i) \<lparr>ms_tableName = name, ms_entries = map2 (\<lambda>k ops. \<lparr>en_rowKey = k, en_mutations = map wireOp ops\<rparr>) keys opss\<rparr>
        \<lparr>sk_sent = [], sk_faults = []\<rparr> sv = (None, sk', sv') \<Longrightarrow>
      (\<forall>resp \<in> set (sk_sent sk'). \<forall>e \<in> set (mp_entries resp). rs_code (re_status e) = 0) \<Longrightarrow>
      t_ApplyBulk T keys (map Mutation opss) (sv, i) = (Inr [], (sv', Suc i))"
    and bulk_empty: "t_ApplyBulk T [] [] (sv, i) = (Inr [], (sv, i))"
    and rmw_sends: "ReadModifyWriteRow st P J (rqs i) \<lparr>rm_tableName = name, rm_rowKey = key, rm_rules = [\<lparr>ru_family = fm, ru_qualifier = q, ru_rule = op\<rparr>]\<rparr> sv =
        (Inr \<lparr>rw_key = key, rw_ts = ts, rw_families = [fm \<mapsto> [q \<mapsto> v]]\<rparr>, sv') \<Longrightarrow>
      \<exists>row. t_ApplyReadModifyWrite T key [\<lparr>ru_family = fm, ru_qualifier = q, ru_rule = op\<rparr>] (sv, i) = (Inr row, (sv', Suc i)) \<and> famItems row fm = [itemAt key fm q ts v]"
    and row_sends: "\<exists>l. (l = 0 \<or> l = 1) \<and> (\<forall>sk' sv' cs.
      ReadRows st P J (rqs i) (rowRequest name key l None) newStream sv = (None, sk', sv') \<longrightarrow>
      sentOn sk' = rowChunks cs \<or> (\<exists>c. cs = [c] \<and> c_value c \<noteq> [] \<and> length (c_value c) < 2 ^ 31 \<and> splitRow c (sentOn sk')) \<longrightarrow> wellFramed False [cs] \<longrightarrow>
      (\<exists>row. t_ReadRow T key (sv, i) = (Inr row, (sv', Suc i)) \<and> (case row of None \<Rightarrow> cs = [] | Some x \<Rightarrow> cs \<noteq> [] \<and> rowIs cs x)))"
    and rows_send: "oneRange (ra_rows a) \<Longrightarrow> \<exists>rows. selects rows (covers (ra_rows a)) \<and> (\<forall>sk' sv' rws.
      ReadRows st P J (rqs i) \<lparr>rd_tableName = name, rd_rowsLimit = ra_limit a, rd_filter = ra_filter a, rd_rows = Some rows, rd_reversed = ra_reversed a\<rparr>
        newStream sv = (None, sk', sv') \<longrightarrow> sentOn sk' = frame rws \<longrightarrow> wellFramed (ra_reversed a) rws \<longrightarrow>
      (\<exists>rs. t_ReadRows T a (sv, i) = ((None, rs), (sv', Suc i)) \<and> list_all2 rowIs (filter (\<lambda>r. r \<noteq> []) rws) rs))"
    and sample_sends: "SampleRowKeys st P J name \<lparr>sk_sent = [], sk_faults = []\<rparr> sv = (None, sm, sv') \<Longrightarrow>
      \<exists>keys. t_SampleRowKeys T (sv, i) = (Inr keys, (sv', Suc i))"
    and sstables_total: "\<exists>levels. pSSTables P db = Inr levels"
    and time_micros: "0 \<le> ns \<Longrightarrow> ns < 2 ^ 63 \<Longrightarrow> sint (t_Time T ns) = ns div 1000"

section \<open>Effects on the cells\<close>

text \<open>What an operation does to the row \<open>r\<close>, and the operations this is claimed for.\<close>

fun effect :: "bytes \<Rightarrow> clientOp \<Rightarrow> (cellId \<Rightarrow> bytes option) \<Rightarrow> cellId \<Rightarrow> bytes option" where
  "effect r (MSet f q ts v) C = C((r, f, q, millis ts) \<mapsto> v)"
| "effect r (MDeleteCellsInColumn f q) C = (\<lambda>(r', f', q', t). if r' = r \<and> f' = f \<and> q' = q then None else C (r', f', q', t))"
| "effect r (MDeleteTimestampRange f q a b) C =
     (\<lambda>(r', f', q', t). if r' = r \<and> f' = f \<and> q' = q \<and> sint (millis a) \<le> sint t \<and> sint t < sint (millis b) then None else C (r', f', q', t))"
| "effect r (MDeleteCellsInFamily f) C = (\<lambda>(r', f', q', t). if r' = r \<and> f' = f then None else C (r', f', q', t))"
| "effect r MDeleteRow C = (\<lambda>(r', f', q', t). if r' = r then None else C (r', f', q', t))"

definition effects :: "bytes \<Rightarrow> clientOp list \<Rightarrow> (cellId \<Rightarrow> bytes option) \<Rightarrow> cellId \<Rightarrow> bytes option" where
  "effects r ops = fold (effect r) ops"

lemma effects_simps [simp]: "effects r [] C = C" "effects r (op # ops) C = effects r ops (effect r op C)" "effects r (xs @ ys) C = effects r ys (effects r xs C)"
  by (simp_all add: effects_def)

fun fitOp :: "clientOp \<Rightarrow> bool" where
  "fitOp (MSet f q ts v) \<longleftrightarrow> f \<noteq> [] \<and> length f < 255 \<and> q \<noteq> [] \<and> length q < 65280 \<and> 0 \<le> sint ts"
| "fitOp (MDeleteCellsInColumn f q) \<longleftrightarrow> length f < 255 \<and> length q < 65280"
| "fitOp (MDeleteTimestampRange f q a b) \<longleftrightarrow> length f < 255 \<and> length q < 65280 \<and> 0 \<le> sint a \<and> 1000 \<le> sint b"
| "fitOp (MDeleteCellsInFamily f) \<longleftrightarrow> length f < 255"
| "fitOp MDeleteRow \<longleftrightarrow> True"

fun smallOp :: "clientOp \<Rightarrow> bool" where
  "smallOp (MSet f q ts v) \<longleftrightarrow> length v \<le> maxCellChunkValueSize"
| "smallOp op \<longleftrightarrow> True"

lemma sint_millis: "0 \<le> sint ts \<Longrightarrow> sint (millis ts) = sint ts div 1000 * 1000"
proof -
  assume ts: "0 \<le> sint ts"
  then have n: "ts \<noteq> - 1" by auto
  have "sint ts - sint ts mod 1000 = sint ts div 1000 * 1000" by (simp add: minus_mod_eq_div_mult)
  moreover have "sint ts div 1000 * 1000 \<le> sint ts" "0 \<le> sint ts div 1000 * 1000" using ts by (simp_all add: div_times_less_eq_dividend)
  moreover have "sint ts < 2 ^ 63" using sint_lt [of ts] by simp
  moreover have "millis ts = word_of_int (sint ts - sint ts mod 1000)" using n ts by (simp add: millis_def)
  ultimately show ?thesis by (simp add: sint_sbintrunc' signed_take_bit_int_eq_self del: of_int_diff of_int_mult)
qed

lemma millis_word:
  assumes "0 \<le> sint ts"
  shows "millis ts \<noteq> - 1" "0 \<le> sint (millis ts)" "1000 \<le> sint ts \<Longrightarrow> millis ts \<noteq> 0" "millis ts \<noteq> MinInt64" "2 ^ 56 - 2 ^ 63 \<le> sint (millis ts)"
proof -
  have "sint (millis ts) = sint ts div 1000 * 1000" using sint_millis [OF assms] .
  then show n: "0 \<le> sint (millis ts)" using assms by simp
  then show "millis ts \<noteq> - 1" by auto
  show "millis ts \<noteq> MinInt64" using n by (auto simp: MinInt64_def)
  show "1000 \<le> sint ts \<Longrightarrow> millis ts \<noteq> 0" using sint_millis [OF assms] by auto
  show "2 ^ 56 - 2 ^ 63 \<le> sint (millis ts)" using n by simp
qed

lemma fit_wire: "fitOp op \<Longrightarrow> wfMutation (wireOp op)"
  using millis_word(4,5) by (cases op) auto

lemma fit_effect: "fitOp op \<Longrightarrow> specMutation r (wireOp op) (C, clk) = (effect r op C, clk)"
  using millis_word(1,3) by (cases op) (auto simp: fun_eq_iff)

lemma fit_effects: "list_all fitOp ops \<Longrightarrow> fold (specMutation r) (map wireOp ops) (C, clk) = (effects r ops C, clk)"
  by (induction ops arbitrary: C) (simp_all add: fit_effect)

text \<open>Tables whose cells all have a name and are not long.\<close>

definition cleanTable :: "(cellId \<Rightarrow> bytes option) \<Rightarrow> bool" where
  "cleanTable C \<longleftrightarrow> (\<forall>r f q t v. C (r, f, q, t) = Some v \<longrightarrow> r \<noteq> [] \<and> f \<noteq> [] \<and> q \<noteq> [] \<and> length v \<le> maxCellChunkValueSize)"

lemma clean_empty [simp]: "cleanTable Map.empty"
  by (simp add: cleanTable_def)

lemma clean_tidy: "cleanTable C \<Longrightarrow> tidyCells C"
  unfolding cleanTable_def tidyCells_def by blast

lemma clean_set: "cleanTable C \<Longrightarrow> r \<noteq> [] \<Longrightarrow> f \<noteq> [] \<Longrightarrow> q \<noteq> [] \<Longrightarrow> length v \<le> maxCellChunkValueSize \<Longrightarrow> cleanTable (C((r, f, q, t) \<mapsto> v))"
  unfolding cleanTable_def by auto

lemma clean_effect: "cleanTable C \<Longrightarrow> r \<noteq> [] \<Longrightarrow> fitOp op \<Longrightarrow> smallOp op \<Longrightarrow> cleanTable (effect r op C)"
  by (cases op) (simp_all add: clean_set, (simp add: cleanTable_def)+)

lemma clean_effects: "cleanTable C \<Longrightarrow> r \<noteq> [] \<Longrightarrow> list_all fitOp ops \<Longrightarrow> list_all smallOp ops \<Longrightarrow> cleanTable (effects r ops C)"
  by (induction ops arbitrary: C) (simp_all add: clean_effect)

section \<open>Programs of a client\<close>

text \<open>A program that uses the library returns an error (a formatted text, or an error passed on) or a value.\<close>

datatype clientFailure = Errorf string "fmtArg list" | Returned goerror

type_synonym ('t, 'a) check = "'t \<Rightarrow> (clientFailure + 'a) \<times> 't"

definition pass :: "'a \<Rightarrow> ('t, 'a) check" where
  "pass x s = (Inr x, s)"

definition andThen :: "('t, 'a) check \<Rightarrow> ('a \<Rightarrow> ('t, 'b) check) \<Rightarrow> ('t, 'b) check" where
  "andThen m f s = (case m s of (Inl e, s1) \<Rightarrow> (Inl e, s1) | (Inr x, s1) \<Rightarrow> f x s1)"

text \<open>\<open>if b { return e }\<close>, and a call whose error is returned as \<open>w\<close> makes it.\<close>

definition failIf :: "bool \<Rightarrow> clientFailure \<Rightarrow> ('t, unit) check" where
  "failIf b e s = (if b then Inl e else Inr (), s)"

definition calling :: "('t \<Rightarrow> (goerror + 'a) \<times> 't) \<Rightarrow> (goerror \<Rightarrow> clientFailure) \<Rightarrow> ('t, 'a) check" where
  "calling m w s = (case m s of (Inl e, s1) \<Rightarrow> (Inl (w e), s1) | (Inr x, s1) \<Rightarrow> (Inr x, s1))"

text \<open>A loop whose body may return from the function with an error.\<close>

fun forEach :: "'x list \<Rightarrow> ('x \<Rightarrow> ('t, unit) check) \<Rightarrow> ('t, unit) check" where
  "forEach [] f = pass ()"
| "forEach (x # xs) f = andThen (f x) (\<lambda>_. forEach xs f)"

text \<open>Reading a row of the library; a missing row is an empty map.\<close>

definition itemsOf :: "clientRow option \<Rightarrow> bytes \<Rightarrow> readItem list" where
  "itemsOf row f = (case row of None \<Rightarrow> [] | Some x \<Rightarrow> famItems x f)"

definition allItems :: "clientRow option \<Rightarrow> readItem list" where
  "allItems row = (case row of None \<Rightarrow> [] | Some x \<Rightarrow> concat (map snd x))"

section \<open>The row that a read returns\<close>

definition rowCells :: "(cellId \<Rightarrow> bytes option) \<Rightarrow> bytes \<Rightarrow> (bytes \<times> bytes \<times> int64) set" where
  "rowCells C r = {(f, q, t). C (r, f, q, t) \<noteq> None}"

definition familyCells :: "(cellId \<Rightarrow> bytes option) \<Rightarrow> bytes \<Rightarrow> bytes \<Rightarrow> (bytes \<times> int64) set" where
  "familyCells C r f = {(q, t). C (r, f, q, t) \<noteq> None}"

definition rowShows :: "(cellId \<Rightarrow> bytes option) \<Rightarrow> bytes \<Rightarrow> clientRow option \<Rightarrow> bool" where
  "rowShows C r row \<longleftrightarrow> (\<exists>cs. listing C ((=) r) cs \<and> (case row of None \<Rightarrow> cs = [] | Some x \<Rightarrow> cs \<noteq> [] \<and> rowIs cs x))"

lemma listing_distinct: "listing C R cs \<Longrightarrow> distinct (map cellAt cs)"
proof -
  have "sorted_wrt (\<lambda>a b. cell_less (cellAt a) (cellAt b)) cs \<Longrightarrow> distinct (map cellAt cs)"
  proof (induction cs)
    case (Cons c cs)
    have "cellAt c \<notin> cellAt ` set cs"
    proof
      assume "cellAt c \<in> cellAt ` set cs"
      then have "cell_less (cellAt c) (cellAt c)" using Cons.prems by auto
      then show False using cell_less_asym by blast
    qed
    then show ?case using Cons by simp
  qed simp
  then show "listing C R cs \<Longrightarrow> distinct (map cellAt cs)" by (simp add: listing_def)
qed

lemma listing_mem: "listing C ((=) r) cs \<Longrightarrow> c \<in> set cs \<longleftrightarrow> c_rowKey c = r \<and> C (r, c_family c, c_qualifier c, c_ts c) = Some (c_value c)"
proof -
  assume "listing C ((=) r) cs"
  then have "c \<in> set cs \<longleftrightarrow> r = c_rowKey c \<and> C (cellAt c) = Some (c_value c)" unfolding listing_def by blast
  then show ?thesis by (auto simp: cellAt_def)
qed

lemma count_cells: "distinct (map cellAt xs) \<Longrightarrow> cellAt ` set xs = g ` S \<Longrightarrow> inj_on g S \<Longrightarrow> length xs = card S"
  using distinct_card [of "map cellAt xs"] card_image [of g S] by simp

lemma listing_length:
  assumes "listing C ((=) r) cs"
  shows "length cs = card (rowCells C r)"
proof -
  let ?g = "\<lambda>(f, q, t). (r, f, q, t)"
  have "cellAt ` set cs = ?g ` rowCells C r"
  proof -
    have "cellAt ` set cs \<subseteq> ?g ` rowCells C r" using listing_mem [OF assms] by (auto simp: cellAt_def rowCells_def)
    moreover have "?g x \<in> cellAt ` set cs" if x: "x \<in> rowCells C r" for x
    proof -
      obtain f q t v where "x = (f, q, t)" "C (r, f, q, t) = Some v" using x unfolding rowCells_def by (cases x) auto
      then have "\<lparr>c_rowKey = r, c_family = f, c_qualifier = q, c_ts = t, c_value = v\<rparr> \<in> set cs" "x = (f, q, t)" using listing_mem [OF assms] by simp_all
      then show ?thesis by (force simp: cellAt_def)
    qed
    ultimately show ?thesis by blast
  qed
  moreover have "inj_on ?g (rowCells C r)" by (auto simp: inj_on_def)
  ultimately show ?thesis using count_cells [OF listing_distinct [OF assms]] by blast
qed

lemma items_listing:
  "rowShows C r row \<Longrightarrow> \<exists>cs. listing C ((=) r) cs \<and> (row = None \<longleftrightarrow> cs = []) \<and> (\<forall>f. itemsOf row f = map itemOf (filter (\<lambda>c. c_family c = f) cs))"
  unfolding rowShows_def rowIs_def itemsOf_def by (cases row) auto

lemma shows_items:
  assumes "rowShows C r row"
  shows "x \<in> set (itemsOf row f) \<longleftrightarrow> (\<exists>q t v. C (r, f, q, t) = Some v \<and> x = itemAt r f q t v)"
proof -
  obtain cs where cs: "listing C ((=) r) cs" "itemsOf row f = map itemOf (filter (\<lambda>c. c_family c = f) cs)"
    using items_listing [OF assms] by blast
  have "\<exists>c \<in> set cs. c_family c = f \<and> x = itemOf c" if "C (r, f, q, t) = Some v" "x = itemAt r f q t v" for q t v
    using that listing_mem [OF cs(1), of "\<lparr>c_rowKey = r, c_family = f, c_qualifier = q, c_ts = t, c_value = v\<rparr>"] by (force simp: itemOf_def itemAt_def)
  then show ?thesis using listing_mem [OF cs(1)] unfolding cs(2) by (force simp: itemOf_def itemAt_def)
qed

lemma shows_count:
  assumes "rowShows C r row"
  shows "length (itemsOf row f) = card (familyCells C r f)"
proof -
  obtain cs where cs: "listing C ((=) r) cs" "itemsOf row f = map itemOf (filter (\<lambda>c. c_family c = f) cs)"
    using items_listing [OF assms] by blast
  let ?fs = "filter (\<lambda>c. c_family c = f) cs" and ?g = "\<lambda>(q, t). (r, f, q, t)"
  have "distinct (map cellAt ?fs)" using listing_distinct [OF cs(1)] by (simp add: distinct_map_filter)
  moreover have "cellAt ` set ?fs = ?g ` familyCells C r f"
  proof -
    have "cellAt ` set ?fs \<subseteq> ?g ` familyCells C r f" using listing_mem [OF cs(1)] by (auto simp: cellAt_def familyCells_def)
    moreover have "?g x \<in> cellAt ` set ?fs" if x: "x \<in> familyCells C r f" for x
    proof -
      obtain q t v where "x = (q, t)" "C (r, f, q, t) = Some v" using x unfolding familyCells_def by (cases x) auto
      then have "\<lparr>c_rowKey = r, c_family = f, c_qualifier = q, c_ts = t, c_value = v\<rparr> \<in> set ?fs" "x = (q, t)" using listing_mem [OF cs(1)] by simp_all
      then show ?thesis by (force simp: cellAt_def)
    qed
    ultimately show ?thesis by blast
  qed
  moreover have "inj_on ?g (familyCells C r f)" by (auto simp: inj_on_def)
  ultimately show ?thesis using count_cells [of ?fs ?g] unfolding cs(2) by simp
qed

lemma shows_nil: "rowShows C r row \<Longrightarrow> row = None \<longleftrightarrow> (\<forall>f q t. C (r, f, q, t) = None)"
proof -
  assume "rowShows C r row"
  then obtain cs where cs: "listing C ((=) r) cs" "row = None \<longleftrightarrow> cs = []" using items_listing by blast
  have "cs = [] \<longleftrightarrow> (\<forall>f q t. C (r, f, q, t) = None)"
  proof
    assume "cs = []"
    show "\<forall>f q t. C (r, f, q, t) = None"
    proof (intro allI)
      fix f q t
      show "C (r, f, q, t) = None"
      proof (cases "C (r, f, q, t)")
        case (Some v)
        then show ?thesis using listing_mem [OF cs(1), of "\<lparr>c_rowKey = r, c_family = f, c_qualifier = q, c_ts = t, c_value = v\<rparr>"] \<open>cs = []\<close> by simp
      qed
    qed
  next
    assume "\<forall>f q t. C (r, f, q, t) = None"
    then show "cs = []" using listing_mem [OF cs(1), of "hd cs"] by (cases cs) auto
  qed
  then show ?thesis using cs(2) by simp
qed

lemma shows_all:
  assumes "rowShows C r row"
  shows "x \<in> set (allItems row) \<longleftrightarrow> (\<exists>f q t v. C (r, f, q, t) = Some v \<and> x = itemAt r f q t v)"
proof -
  have "set (allItems row) = (\<Union>f. set (itemsOf row f))"
  proof (cases row)
    case (Some y)
    then have d: "distinct (map fst y)" using assms by (auto simp: rowShows_def rowIs_def)
    have "\<exists>f. x \<in> set (famItems y f)" if "(g, items) \<in> set y" "x \<in> set items" for x g items
      using that d by (intro exI [of _ g]) (simp add: famItems_def)
    then have "set (concat (map snd y)) \<subseteq> (\<Union>f. set (famItems y f))" by force
    moreover have "set (famItems y f) \<subseteq> set (concat (map snd y))" for f
      using map_of_SomeD [of y f] by (cases "map_of y f") (force simp: famItems_def)+
    ultimately have "set (concat (map snd y)) = (\<Union>f. set (famItems y f))" by blast
    then show ?thesis by (simp add: allItems_def itemsOf_def Some)
  qed (simp add: allItems_def itemsOf_def)
  then show ?thesis using shows_items [OF assms] by auto
qed

text \<open>The first cell of a family with one column is the newest.\<close>

lemma shows_newest:
  assumes "rowShows C r row" "\<forall>q' t. C (r, f, q', t) \<noteq> None \<longrightarrow> q' = q" "isLatest C r f q v" "\<exists>t. C (r, f, q, t) \<noteq> None"
  shows "\<exists>t xs. itemsOf row f = itemAt r f q t v # xs"
proof -
  obtain cs where cs: "listing C ((=) r) cs" "itemsOf row f = map itemOf (filter (\<lambda>c. c_family c = f) cs)"
    using items_listing [OF assms(1)] by blast
  have "familyCells C r f \<noteq> {}" using assms(4) by (auto simp: familyCells_def)
  show ?thesis
  proof (cases "filter (\<lambda>c. c_family c = f) cs")
    case Nil
    obtain t w where "C (r, f, q, t) = Some w" using assms(4) by blast
    then show ?thesis using shows_items [OF assms(1), of "itemAt r f q t w" f] cs(2) Nil by auto
  next
    case (Cons c xs)
    have "sorted_wrt (\<lambda>a b. cell_less (cellAt a) (cellAt b)) cs" using cs(1) by (simp add: listing_def)
    then have s: "sorted_wrt (\<lambda>a b. cell_less (cellAt a) (cellAt b)) (c # xs)"
      using sorted_wrt_filter [of _ cs "\<lambda>c. c_family c = f"] unfolding Cons by blast
    have mem: "d \<in> set (c # xs) \<longleftrightarrow> c_rowKey d = r \<and> c_family d = f \<and> C (r, f, c_qualifier d, c_ts d) = Some (c_value d)" for d
      using listing_mem [OF cs(1), of d] unfolding Cons [symmetric] by auto
    have c: "c_rowKey c = r" "c_family c = f" "C (r, f, c_qualifier c, c_ts c) = Some (c_value c)" using mem [of c] by simp_all
    then have q: "c_qualifier c = q" using assms(2) by blast
    have le: "sint t \<le> sint (c_ts c)" if w: "C (r, f, q, t) = Some w" for t w
    proof -
      let ?d = "\<lparr>c_rowKey = r, c_family = f, c_qualifier = q, c_ts = t, c_value = w\<rparr>"
      have "?d \<in> set (c # xs)" using mem [of ?d] w by simp
      then have "?d = c \<or> cell_less (cellAt c) (cellAt ?d)" using s by auto
      then show ?thesis
      proof
        assume "?d = c"
        then have "c_ts ?d = c_ts c" by (rule arg_cong)
        then show ?thesis by simp
      next
        assume "cell_less (cellAt c) (cellAt ?d)"
        then show ?thesis using c q by (auto simp: cellAt_def name_less_def)
      qed
    qed
    have "c_value c = v"
      using assms(3) c(3) q le unfolding isLatest_def by (metis option.distinct(1) option.inject order_antisym signed_word_eqI)
    then show ?thesis using cs(2) Cons c q by (auto simp: itemOf_def itemAt_def)
  qed
qed

lemma length_rowChunks: "length (rowChunks cs) = length cs"
  by (simp add: rowChunks_def)

lemma dropCommits_short: "length xs < 100 \<Longrightarrow> dropCommits 0 xs = xs"
proof (rule nth_equalityI)
  fix i assume "length xs < 100" "i < length (dropCommits 0 xs)"
  then show "dropCommits 0 xs ! i = xs ! i" by (simp add: dropCommits_def nth_enumerate_eq cellChunkBufferSize_def)
qed simp

section \<open>What a program does\<close>

text \<open>Several rows mutated one after the other.\<close>

definition bulkEffects :: "bytes list \<Rightarrow> clientOp list list \<Rightarrow> (cellId \<Rightarrow> bytes option) \<Rightarrow> cellId \<Rightarrow> bytes option" where
  "bulkEffects keys opss = fold (\<lambda>(r, ops). effects r ops) (zip keys opss)"

definition fitOps :: "clientOp list \<Rightarrow> bool" where
  "fitOps ops \<longleftrightarrow> list_all fitOp ops \<and> list_all smallOp ops"

lemma bulk_spec:
  assumes "length keys = length opss" "list_all fitOps opss"
  shows "specEntries (map2 (\<lambda>k ops. \<lparr>en_rowKey = k, en_mutations = map wireOp ops\<rparr>) keys opss) (C, clk) = (bulkEffects keys opss C, clk)"
  using assms
proof (induction keys opss arbitrary: C rule: list_induct2)
  case (Cons k keys ops opss)
  then show ?case using fit_effects [of ops k C clk] by (simp add: specEntries_def bulkEffects_def fitOps_def)
qed (simp add: specEntries_def bulkEffects_def)

lemma clean_bulk:
  assumes "length keys = length opss" "list_all fitOps opss" "[] \<notin> set keys" "cleanTable C"
  shows "cleanTable (bulkEffects keys opss C)"
  using assms
proof (induction keys opss arbitrary: C rule: list_induct2)
  case (Cons k keys ops opss)
  have "cleanTable (effects k ops C)" using Cons.prems clean_effects [of C k ops] by (auto simp: fitOps_def)
  then show ?case using Cons by (simp add: bulkEffects_def)
qed (simp add: bulkEffects_def)

lemma clean_named:
  assumes "cleanTable C" "listing C R cs"
  shows "list_all namedCell cs"
  unfolding list_all_iff
proof
  fix c assume "c \<in> set cs"
  then have "C (cellAt c) = Some (c_value c)" using assms(2) unfolding listing_def by blast
  then have "C (c_rowKey c, c_family c, c_qualifier c, c_ts c) = Some (c_value c)" unfolding cellAt_def .
  from assms(1) [unfolded cleanTable_def, rule_format, OF this] show "namedCell c" unfolding namedCell_def by (elim conjE) (intro conjI)
qed

lemma row_framed:
  assumes "cleanTable C" "listing C ((=) r) cs"
  shows "wellFramed False [cs]"
proof -
  have "\<forall>c \<in> set cs. c_rowKey c = r" using listing_mem [OF assms(2)] by simp
  then show ?thesis using clean_named [OF assms] by (cases cs) (simp_all add: wellFramed_def)
qed

lemma sampleLoop_sends: "sk_faults sk = [] \<Longrightarrow> \<exists>off' dec' sk'. sampleLoop ssts off dec sk = (None, off', dec', sk') \<and> sk_faults sk' = []"
  by (induction ssts off dec sk rule: sampleLoop.induct) (auto simp: Send_def Let_def split: prod.splits)

lemma levelLoop_sends: "sk_faults sk = [] \<Longrightarrow> \<exists>sk'. levelLoop levels off dec sk = (None, sk')"
proof (induction levels arbitrary: off dec sk)
  case (Cons level levels)
  then show ?case using sampleLoop_sends [OF Cons.prems, of level off dec] by fastforce
qed simp

lemma selects_scan:
  assumes "selects rows R"
  shows "\<exists>lo hi. scanRanges (Some rows) = [(lo, hi)] \<and> (\<forall>r f q t. ordinary (r, f, q, t) \<longrightarrow> (inBounds lo hi (EncodeCellKey r f q t) \<longleftrightarrow> R r))"
  using assms unfolding selects_def
proof (elim disjE exE conjE)
  fix k assume "rows = \<lparr>rs_rowKeys = [k], rs_rowRanges = []\<rparr>" "R = (=) k"
  then show ?thesis using row_bounds_cells [of _ _ _ _ k] by (auto simp: scanRanges_def case_prod_unfold simp del: ordinary.simps)
next
  fix rr assume r: "rows = \<lparr>rs_rowKeys = [], rs_rowRanges = [rr]\<rparr>" "R = (\<lambda>r. afterStart (rr_start rr) r \<and> beforeEnd (rr_end rr) r)"
  obtain lo hi where b: "rowRangeToBounds rr = (lo, hi)" by (cases "rowRangeToBounds rr")
  then show ?thesis using r rowRange_bounds [OF _ _ b] by (intro exI [of _ lo] exI [of _ hi]) (simp add: scanRanges_def)
qed

context bigtable_client
begin

text \<open>
  \<open>runs k C i m Q\<close>: on a server that serves the table with the cells \<open>C\<close>, at request \<open>i\<close>, the program \<open>m\<close>
  returns without error, and the value, the cells and the number of requests then satisfy \<open>Q\<close>. It
  numbers at most \<open>k\<close> batches.
\<close>

definition runs :: "nat \<Rightarrow> (cellId \<Rightarrow> bytes option) \<Rightarrow> nat \<Rightarrow> (('s, 'db) server \<times> nat, 'a) check \<Rightarrow>
    ('a \<Rightarrow> (cellId \<Rightarrow> bytes option) \<Rightarrow> nat \<Rightarrow> bool) \<Rightarrow> bool" where
  "runs k C i m Q \<longleftrightarrow> (\<forall>sv n. cleanTable C \<longrightarrow> served name sv (n + k) C \<longrightarrow>
     (\<exists>x sv' C' j. m (sv, i) = (Inr x, (sv', j)) \<and> served name sv' n C' \<and> cleanTable C' \<and> Q x C' j))"

lemma runs_pass [intro]: "Q x C i \<Longrightarrow> runs 0 C i (pass x) Q"
  unfolding runs_def pass_def by auto

lemma runs_more: "runs k C i m Q \<Longrightarrow> k \<le> l \<Longrightarrow> runs l C i m Q"
  unfolding runs_def by (meson add_left_mono served_less)

lemma runs_weaken: "runs k C i m Q \<Longrightarrow> (\<And>x C' j. Q x C' j \<Longrightarrow> R x C' j) \<Longrightarrow> runs k C i m R"
  unfolding runs_def by meson

lemma runs_then:
  assumes "runs k C i m Q" "\<And>x C' j. Q x C' j \<Longrightarrow> runs l C' j (f x) R"
  shows "runs (k + l) C i (andThen m f) R"
  unfolding runs_def
proof (intro allI impI)
  fix sv n assume c: "cleanTable C" "served name sv (n + (k + l)) C"
  then have "served name sv ((n + l) + k) C" by (simp add: ac_simps)
  then obtain x sv1 C1 j where 1: "m (sv, i) = (Inr x, (sv1, j))" "served name sv1 (n + l) C1" "cleanTable C1" "Q x C1 j"
    using assms(1) c(1) unfolding runs_def by blast
  then obtain y sv2 C2 j2 where "f x (sv1, j) = (Inr y, (sv2, j2))" "served name sv2 n C2" "cleanTable C2" "R y C2 j2"
    using assms(2) [OF 1(4)] unfolding runs_def by blast
  then show "\<exists>x sv' C' j. andThen m f (sv, i) = (Inr x, sv', j) \<and> served name sv' n C' \<and> cleanTable C' \<and> R x C' j"
    using 1(1) unfolding andThen_def by (intro exI [of _ y] exI [of _ sv2] exI [of _ C2] exI [of _ j2]) simp
qed

lemma failIf_then: "\<not> b \<Longrightarrow> runs k C i (f ()) R \<Longrightarrow> runs k C i (andThen (failIf b e) f) R"
  unfolding runs_def andThen_def failIf_def by simp

lemma apply_then:
  assumes "r \<noteq> []" "ops \<noteq> []" "fitOps ops" "runs k (effects r ops C) (Suc i) (f False) R"
  shows "runs (Suc k) C i (andThen (calling (t_Apply T r (Mutation ops)) w) f) R"
proof -
  have "runs 1 C i (calling (t_Apply T r (Mutation ops)) w) (\<lambda>x C' j. x = False \<and> C' = effects r ops C \<and> j = Suc i)"
    unfolding runs_def
  proof (intro allI impI)
    fix sv n assume c: "cleanTable C" "served name sv (n + 1) C"
    let ?req = "\<lparr>mr_tableName = name, mr_rowKey = r, mr_mutations = map wireOp ops\<rparr>"
    have w: "list_all wfMutation (mr_mutations ?req)" using assms(3) fit_wire by (auto simp: list_all_iff fitOps_def)
    obtain sv' where "MutateRow st P J (rqs i) ?req sv = (Inr (), sv')" "served name sv' n (effects r ops C)"
      using MutateRow_serves [of ?req sv n C, OF _ _ _ w requests [of i]] c(2) assms(1-3) fit_effects [of ops r C] by (auto simp: fitOps_def)
    then show "\<exists>x sv' C' j. calling (t_Apply T r (Mutation ops)) w (sv, i) = (Inr x, sv', j) \<and> served name sv' n C' \<and>
        cleanTable C' \<and> (x = False \<and> C' = effects r ops C \<and> j = Suc i)"
      using apply_sends clean_effects [OF c(1) assms(1)] assms(3) by (auto simp: calling_def fitOps_def)
  qed
  then show ?thesis using runs_then [of 1 C i _ _ k f R] assms(4) by auto
qed

lemma readRow_then:
  assumes "card (rowCells C r) < 100" "\<And>row. rowShows C r row \<Longrightarrow> runs k C (Suc i) (f row) R"
  shows "runs k C i (andThen (calling (t_ReadRow T r) w) f) R"
proof -
  have "runs 0 C i (calling (t_ReadRow T r) w) (\<lambda>row C' j. rowShows C r row \<and> C' = C \<and> j = Suc i)"
    unfolding runs_def
  proof (intro allI impI)
    fix sv n assume c: "cleanTable C" "served name sv (n + 0) C"
    obtain l where l: "l = 0 \<or> l = 1" "\<And>sk' sv' cs. ReadRows st P J (rqs i) (rowRequest name r l None) newStream sv = (None, sk', sv') \<Longrightarrow>
        sentOn sk' = rowChunks cs \<or> (\<exists>c. cs = [c] \<and> c_value c \<noteq> [] \<and> length (c_value c) < 2 ^ 31 \<and> splitRow c (sentOn sk')) \<Longrightarrow> wellFramed False [cs] \<Longrightarrow> \<exists>row. t_ReadRow T r (sv, i) = (Inr row, (sv', Suc i)) \<and> (case row of None \<Rightarrow> cs = [] | Some x \<Rightarrow> cs \<noteq> [] \<and> rowIs cs x)"
      using row_sends [of i r sv] by blast
    obtain cs sk' sv' where 1: "listing C ((=) r) cs" "ReadRows st P J (rqs i) (rowRequest name r l None) newStream sv = (None, sk', sv')" "served name sv' n C"
      "sentOn sk' = dropCommits 0 (rowChunks cs)"
      using ReadRow_serves [of name sv n C l newStream r "rqs i", OF _ clean_tidy [OF c(1)] l(1)] c(2) by (auto simp: newStream_def sentOn_def)
    have "sentOn sk' = rowChunks cs \<or> (\<exists>c. cs = [c] \<and> c_value c \<noteq> [] \<and> length (c_value c) < 2 ^ 31 \<and> splitRow c (sentOn sk'))" using listing_length [OF 1(1)] assms(1) dropCommits_short [of "rowChunks cs"] 1(4) by (simp add: length_rowChunks)
    then obtain row where "t_ReadRow T r (sv, i) = (Inr row, (sv', Suc i))" "case row of None \<Rightarrow> cs = [] | Some x \<Rightarrow> cs \<noteq> [] \<and> rowIs cs x"
      using l(2) [OF 1(2) _ row_framed [OF c(1) 1(1)]] by blast
    then show "\<exists>x sv' C' j. calling (t_ReadRow T r) w (sv, i) = (Inr x, sv', j) \<and> served name sv' n C' \<and> cleanTable C' \<and> (rowShows C r x \<and> C' = C \<and> j = Suc i)"
      using 1(1,3) c(1) by (auto simp: calling_def rowShows_def)
  qed
  then show ?thesis using runs_then [of 0 C i _ _ k f R] assms(2) by auto
qed

lemma cond_then:
  assumes "r \<noteq> []" "fitOps (case_option [] id tops)" "fitOps (case_option [] id fops)"
    "\<And>cs. listing C ((=) r) cs \<Longrightarrow> predicate (rqs i) (Some g) cs = b"
    "runs k (effects r (case_option [] id (if b then tops else fops)) C) (Suc i) (f b) R"
  shows "runs (Suc k) C i (andThen (calling (t_Apply T r (CondMutation g tops fops)) w) f) R"
proof -
  let ?ops = "case_option [] id (if b then tops else fops)"
  have wire: "wireOps x = map wireOp (case_option [] id x)" for x by (cases x) (simp_all add: wireOps_def)
  have "runs 1 C i (calling (t_Apply T r (CondMutation g tops fops)) w) (\<lambda>x C' j. x = b \<and> C' = effects r ?ops C \<and> j = Suc i)"
    unfolding runs_def
  proof (intro allI impI)
    fix sv n assume c: "cleanTable C" "served name sv (n + 1) C"
    let ?req = "\<lparr>cm_tableName = name, cm_rowKey = r, cm_predicate = Some g, cm_true = wireOps tops, cm_false = wireOps fops\<rparr>"
    have w: "list_all wfMutation (cm_true ?req @ cm_false ?req)" using assms(2,3) fit_wire by (auto simp: list_all_iff fitOps_def wire)
    obtain cs where cs: "listing C ((=) r) cs"
      using ReadRow_serves [of name sv "n + 1" C 0 newStream r "rqs i", OF c(2) clean_tidy [OF c(1)]] by (auto simp: newStream_def)
    have f: "list_all fitOp ?ops" "list_all smallOp ?ops" using assms(2,3) by (simp_all add: fitOps_def)
    define muts where "muts = (if b then cm_true ?req else cm_false ?req)"
    have e: "fst (fold (specMutation r) muts (C, rq_clock (rqs i))) = effects r ?ops C"
      using fit_effects [OF f(1), of r C] unfolding muts_def by (cases b) (simp_all add: wire)
    obtain sv' where "CheckAndMutateRow st P J (rqs i) ?req sv = (Inr b, sv')" "served name sv' n (effects r ?ops C)"
      using CheckAndMutateRow_serves [of ?req sv n C "rqs i" cs b muts, OF _ _ w requests _ _ muts_def] c(2) assms(1) assms(4) [OF cs] cs e by auto
    then show "\<exists>x sv' C' j. calling (t_Apply T r (CondMutation g tops fops)) w (sv, i) = (Inr x, sv', j) \<and> served name sv' n C' \<and>
        cleanTable C' \<and> (x = b \<and> C' = effects r ?ops C \<and> j = Suc i)"
      using cond_sends clean_effects [OF c(1) assms(1) f] by (auto simp: calling_def)
  qed
  then show ?thesis using runs_then [of 1 C i _ _ k f R] assms(5) by auto
qed

lemma bulk_then:
  assumes "length keys = length opss" "keys \<noteq> []" "[] \<notin> set keys" "list_all fitOps opss"
    "runs k (bulkEffects keys opss C) (Suc i) (f []) R"
  shows "runs (Suc k) C i (andThen (calling (t_ApplyBulk T keys (map Mutation opss)) w) f) R"
proof -
  have "runs 1 C i (calling (t_ApplyBulk T keys (map Mutation opss)) w) (\<lambda>x C' j. x = [] \<and> C' = bulkEffects keys opss C \<and> j = Suc i)"
    unfolding runs_def
  proof (intro allI impI)
    fix sv n assume c: "cleanTable C" "served name sv (n + 1) C"
    let ?es = "map2 (\<lambda>k ops. \<lparr>en_rowKey = k, en_mutations = map wireOp ops\<rparr>) keys opss" and ?sk = "\<lparr>sk_sent = [], sk_faults = []\<rparr>"
    let ?req = "\<lparr>ms_tableName = name, ms_entries = ?es\<rparr>"
    have ne: "?es \<noteq> []" using assms(1,2) by (cases keys; cases opss) simp_all
    have "list_all wfMutation (map wireOp ops)" if "ops \<in> set opss" for ops
      using assms(4) that fit_wire by (auto simp: list_all_iff fitOps_def)
    then have w: "list_all (\<lambda>en. list_all wfMutation (en_mutations en)) ?es" by (auto simp: list_all_iff dest!: set_zip_rightD)
    let ?resp = "mutateRowsReply (map (\<lambda>i. \<lparr>re_index = i, re_status = okStatus\<rparr>) (indices ?es))"
    obtain sv' where sv': "MutateRows st P J (rqs i) ?req ?sk sv = (None, \<lparr>sk_sent = [?resp], sk_faults = []\<rparr>, sv')"
      "served name sv' n (bulkEffects keys opss C)"
      using MutateRows_serves [of ?req sv n C "rqs i" ?sk, OF _ _ _ requests] c(2) ne w bulk_spec [OF assms(1,4), of C "rq_clock (rqs i)"] by auto
    have "\<forall>e \<in> set (mp_entries ?resp). rs_code (re_status e) = 0" by (auto simp: mutateRowsReply_def okStatus_def statusCodeInt32_def)
    then have "t_ApplyBulk T keys (map Mutation opss) (sv, i) = (Inr [], (sv', Suc i))" using bulk_sends [OF assms(1,2) sv'(1)] by simp
    then show "\<exists>x sv' C' j. calling (t_ApplyBulk T keys (map Mutation opss)) w (sv, i) = (Inr x, sv', j) \<and> served name sv' n C' \<and>
        cleanTable C' \<and> (x = [] \<and> C' = bulkEffects keys opss C \<and> j = Suc i)"
      using sv'(2) clean_bulk [OF assms(1,4,3) c(1)] by (auto simp: calling_def)
  qed
  then show ?thesis using runs_then [of 1 C i _ _ k f R] assms(5) by auto
qed

lemma bulk_none_then: "runs k C i (f []) R \<Longrightarrow> runs k C i (andThen (calling (t_ApplyBulk T [] []) w) f) R"
  unfolding runs_def andThen_def calling_def by (simp add: bulk_empty)

lemma sample_then:
  assumes "\<And>keys. runs k C (Suc i) (f keys) R"
  shows "runs k C i (andThen (calling (t_SampleRowKeys T) w) f) R"
proof -
  have "runs 0 C i (calling (t_SampleRowKeys T) w) (\<lambda>x C' j. C' = C \<and> j = Suc i)"
    unfolding runs_def
  proof (intro allI impI)
    fix sv n assume c: "cleanTable C" "served name sv (n + 0) C"
    obtain eng sv1 where e: "getEngine st P J name sv = (Inr eng, sv1)" "serving eng" "unat (m_nextSeq (e_wal eng)) + n < 2 ^ 64"
      "filled (view (the (e_db eng)))" "cellsOf (view (the (e_db eng))) = C"
      using c(2) unfolding served_def by auto
    obtain levels where l: "pSSTables P (the (e_db eng)) = Inr levels" using sstables_total by blast
    obtain sk' where "levelLoop levels 0 emptyDecoder \<lparr>sk_sent = [], sk_faults = []\<rparr> = (None, sk')" using levelLoop_sends by fastforce
    then have "SampleRowKeys st P J name \<lparr>sk_sent = [], sk_faults = []\<rparr> sv = (None, sk', sv1)" using e(1) l by (simp add: SampleRowKeys_def)
    from sample_sends [OF this] obtain keys where "t_SampleRowKeys T (sv, i) = (Inr keys, (sv1, Suc i))" by blast
    then show "\<exists>x sv' C' j. calling (t_SampleRowKeys T) w (sv, i) = (Inr x, sv', j) \<and> served name sv' n C' \<and> cleanTable C' \<and> (C' = C \<and> j = Suc i)"
      using servedI [OF getEngine_stable [OF e(1)] e(2,3,4)] e(5) c(1) by (auto simp: calling_def)
  qed
  then show ?thesis using runs_then [of 0 C i _ _ k f R] assms by auto
qed

lemma rmw_then:
  assumes "r \<noteq> []" "fm \<noteq> []" "q \<noteq> []" "length fm < 255" "length q < 65280" "isLatest C r fm q cur" "applyRule op cur = Inr v" "length v \<le> maxCellChunkValueSize"
    "\<And>row. length (famItems row fm) = 1 \<Longrightarrow> runs k (C((r, fm, q, rq_clock (rqs i) 0) \<mapsto> v)) (Suc i) (f row) R"
  shows "runs (Suc k) C i (andThen (calling (t_ApplyReadModifyWrite T r [\<lparr>ru_family = fm, ru_qualifier = q, ru_rule = op\<rparr>]) w) f) R"
proof -
  let ?rule = "\<lparr>ru_family = fm, ru_qualifier = q, ru_rule = op\<rparr>" and ?C = "C((r, fm, q, rq_clock (rqs i) 0) \<mapsto> v)"
  have "runs 1 C i (calling (t_ApplyReadModifyWrite T r [?rule]) w) (\<lambda>row C' j. length (famItems row fm) = 1 \<and> C' = ?C \<and> j = Suc i)"
    unfolding runs_def
  proof (intro allI impI)
    fix sv n assume c: "cleanTable C" "served name sv (n + 1) C"
    let ?req = "\<lparr>rm_tableName = name, rm_rowKey = r, rm_rules = [?rule]\<rparr>"
    let ?resp = "\<lparr>rw_key = r, rw_ts = rq_clock (rqs i) 0, rw_families = [fm \<mapsto> [q \<mapsto> v]]\<rparr>"
    obtain sv' where sv': "ReadModifyWriteRow st P J (rqs i) ?req sv = (Inr ?resp, sv')" "served name sv' n ?C"
      using ReadModifyWriteRow_serves [of ?req sv n C ?rule "rqs i" cur v, OF _ _ _ _ requests] c(2) assms(1-7) by (auto simp: wfRule_def)
    then obtain row where row: "t_ApplyReadModifyWrite T r [?rule] (sv, i) = (Inr row, (sv', Suc i))" "length (famItems row fm) = 1"
      using rmw_sends [OF sv'(1)] by auto
    then show "\<exists>x sv' C' j. calling (t_ApplyReadModifyWrite T r [?rule]) w (sv, i) = (Inr x, sv', j) \<and> served name sv' n C' \<and>
        cleanTable C' \<and> (length (famItems x fm) = 1 \<and> C' = ?C \<and> j = Suc i)"
      using sv'(2) row(1) clean_set [OF c(1) assms(1-3,8)] by (auto simp: calling_def)
  qed
  then show ?thesis using runs_then [of 1 C i _ _ k f R] assms(9) by auto
qed

text \<open>A scan of the rows \<open>covers\<close>: the rows that the filter leaves, those without cells dropped.\<close>

definition scanFilter :: "nat \<Rightarrow> rowFilter option \<Rightarrow> rowFilterEngine option \<Rightarrow> bool" where
  "scanFilter i g fe \<longleftrightarrow> g = None \<and> fe = None \<or> (\<exists>f x. g = Some f \<and> newRowFilterEngine (rq_compile (rqs i)) (Some f) = Inr x \<and> fe = Some x)"

lemma scan_serves:
  assumes "oneRange (ra_rows a)" "listing C (covers (ra_rows a)) cs" "scanFilter i (ra_filter a) fe"
    "rws = rowsOut fe (rq_rng (rqs i)) (takeRows (ra_limit a) 0 (rowGroups (if ra_reversed a then rev cs else cs)))"
    "wellFramed (ra_reversed a) rws" "length (frame rws) < 100" "cleanTable C" "served name sv n C"
  shows "\<exists>rs sv'. t_ReadRows T a (sv, i) = ((None, rs), (sv', Suc i)) \<and> list_all2 rowIs (filter (\<lambda>r. r \<noteq> []) rws) rs \<and> served name sv' n C"
proof -
  obtain rows where rows: "selects rows (covers (ra_rows a))" "\<And>sk' sv' rws.
    ReadRows st P J (rqs i) \<lparr>rd_tableName = name, rd_rowsLimit = ra_limit a, rd_filter = ra_filter a, rd_rows = Some rows, rd_reversed = ra_reversed a\<rparr>
      newStream sv = (None, sk', sv') \<Longrightarrow> sentOn sk' = frame rws \<Longrightarrow> wellFramed (ra_reversed a) rws \<Longrightarrow>
    \<exists>rs. t_ReadRows T a (sv, i) = ((None, rs), (sv', Suc i)) \<and> list_all2 rowIs (filter (\<lambda>r. r \<noteq> []) rws) rs"
    using rows_send [OF assms(1), of i sv] by blast
  let ?req = "\<lparr>rd_tableName = name, rd_rowsLimit = ra_limit a, rd_filter = ra_filter a, rd_rows = Some rows, rd_reversed = ra_reversed a\<rparr>"
  obtain lo hi where s: "scanRanges (rd_rows ?req) = [(lo, hi)]"
    "\<And>r f q t. ordinary (r, f, q, t) \<Longrightarrow> inBounds lo hi (EncodeCellKey r f q t) \<longleftrightarrow> covers (ra_rows a) r"
    using selects_scan [OF rows(1)] by auto
  obtain cs' sk' sv' where 1: "listing C (covers (ra_rows a)) cs'" "ReadRows st P J (rqs i) ?req newStream sv = (None, sk', sv')" "served name sv' n C"
    "sentOn sk' = dropCommits 0 (frame (rowsOut fe (rq_rng (rqs i)) (takeRows (ra_limit a) 0 (rowGroups (if ra_reversed a then rev cs' else cs')))))"
    using ReadRows_serves [of ?req sv n C lo hi "covers (ra_rows a)" fe "rqs i" newStream, OF _ clean_tidy [OF assms(7)] s] assms(3,8)
    by (auto simp: newStream_def sentOn_def scanFilter_def)
  have "cs' = cs" by (rule listing_unique [OF 1(1) assms(2)])
  then have "sentOn sk' = frame rws" unfolding 1(4) using assms(4) dropCommits_short [OF assms(6)] by (simp only:)
  from rows(2) [OF 1(2) this assms(5)] show ?thesis using 1(3) by blast
qed

end

end
