(* ===== verification/ClientTests.thy ===== *)
theory ClientTests
  imports BigtableClient
begin

text \<open>
  The tests of \<open>cmd/test-bigtable-client\<close> as programs over the client library of \<open>BigtableClient\<close>: the tests
  of mutations, reads of rows and range scans, the random round trip with its generator of
  pseudo-random numbers, and the loop that runs them. Starting and killing the server process and
  dialling it are not modelled. \<open>bigtable.Now()\<close> is \<open>now k\<close> at its \<open>k\<close>th reading in a test, \<open>time.Now()\<close> a
  number of nanoseconds, and the requests of goroutines are made in an order that is an argument.
  Strings are bytes; \<open>lit\<close> is a literal.
\<close>

section \<open>Helpers\<close>

abbreviation lit :: "string \<Rightarrow> bytes" where
  "lit \<equiv> rawBytes"

abbreviation cell :: "string \<Rightarrow> string \<Rightarrow> int64 \<Rightarrow> bytes \<Rightarrow> clientOp" where
  "cell f q ts v \<equiv> MSet (lit f) (lit q) ts v"

definition trimPrefix :: "bytes \<Rightarrow> bytes \<Rightarrow> bytes" where
  "trimPrefix s p = (if take (length p) s = p then drop (length p) s else s)"

definition wrapped :: "string \<Rightarrow> goerror \<Rightarrow> clientFailure" where
  "wrapped s e = Errorf s [FErr (Some e)]"

definition expected :: "string \<Rightarrow> nat \<Rightarrow> clientFailure" where
  "expected s n = Errorf s [FInt (int n)]"

definition newError :: "string \<Rightarrow> clientFailure" where
  "newError s = Errorf s []"

text \<open>\<open>tbl.Apply\<close> with an error that is wrapped or passed on, and \<open>return tbl.Apply(...)\<close> of a deletion.\<close>

definition applying :: "'t btTable \<Rightarrow> bytes \<Rightarrow> clientOp list \<Rightarrow> (goerror \<Rightarrow> clientFailure) \<Rightarrow> ('t, unit) check \<Rightarrow> ('t, unit) check" where
  "applying T key ops w m = andThen (calling (t_Apply T key (Mutation ops)) w) (\<lambda>_. m)"

definition deleting :: "'t btTable \<Rightarrow> bytes \<Rightarrow> ('t, unit) check" where
  "deleting T key = applying T key [MDeleteRow] Returned (pass ())"

text \<open>The decimal digits of an integer, and \<open>fmt.Sprintf("%08x", x)\<close>.\<close>

definition decimalInt :: "int \<Rightarrow> string" where
  "decimalInt n = (if n < 0 then CHR ''-'' # decimal (nat (- n)) else decimal (nat n))"

definition hexDigit :: "nat \<Rightarrow> char" where
  "hexDigit n = (if n < 10 then digit n else char_of (87 + n))"

fun hexadecimal :: "nat \<Rightarrow> string" where
  "hexadecimal n = (if n < 16 then [hexDigit n] else hexadecimal (n div 16) @ [hexDigit (n mod 16)])"

declare hexadecimal.simps [simp del]

definition padHex :: "nat \<Rightarrow> nat \<Rightarrow> string" where
  "padHex w n = replicate (w - length (hexadecimal n)) (digit 0) @ hexadecimal n"

section \<open>Mutations and reads of a row\<close>

definition testSetCell :: "'t btTable \<Rightarrow> (nat \<Rightarrow> int64) \<Rightarrow> ('t, unit) check" where
  "testSetCell T now =
     applying T (lit ''user1'')
       [cell ''cf1'' ''name'' (now 0) (lit ''Alice''), cell ''cf1'' ''email'' (now 1) (lit ''alice@example.com''),
        cell ''cf2'' ''score'' (now 2) (lit ''42'')] Returned (pass ())"

definition testReadRow :: "'t btTable \<Rightarrow> ('t, unit) check" where
  "testReadRow T =
     andThen (calling (t_ReadRow T (lit ''user1'')) (wrapped ''ReadRow: %w'')) (\<lambda>row.
     andThen (failIf (row = None) (newError ''row is nil'')) (\<lambda>_.
     andThen (failIf (length (itemsOf row (lit ''cf1'')) \<noteq> 2) (expected ''expected 2 cells in cf1, got %d'' (length (itemsOf row (lit ''cf1''))))) (\<lambda>_.
     failIf (length (itemsOf row (lit ''cf2'')) \<noteq> 1) (expected ''expected 1 cell in cf2, got %d'' (length (itemsOf row (lit ''cf2'')))))))"

definition binaryKey :: bytes where
  "binaryKey = [0x00, 0xFF, 0xAB, 0xCD]"

definition testReadRowsBinaryKey :: "'t btTable \<Rightarrow> (nat \<Rightarrow> int64) \<Rightarrow> ('t, unit) check" where
  "testReadRowsBinaryKey T now =
     applying T binaryKey [cell ''cf1'' ''val'' (now 0) (lit ''binary-key-value'')] Returned (
     andThen (calling (t_ReadRow T binaryKey) (wrapped ''ReadRow for binary key: %w'')) (\<lambda>row.
     andThen (failIf (row = None) (newError ''row with binary key is nil'')) (\<lambda>_.
     andThen (failIf (length (itemsOf row (lit ''cf1'')) \<noteq> 1) (expected ''expected 1 cell, got %d'' (length (itemsOf row (lit ''cf1''))))) (\<lambda>_.
     andThen (failIf (ri_value (hd (itemsOf row (lit ''cf1''))) \<noteq> lit ''binary-key-value'')
       (Errorf ''value mismatch: got %q'' [FBytes (ri_value (hd (itemsOf row (lit ''cf1''))))])) (\<lambda>_.
     deleting T binaryKey)))))"

definition largeByte :: "nat \<Rightarrow> byte" where
  "largeByte i = of_nat (i mod 251)"

definition testReadRowsLargeValue :: "'t btTable \<Rightarrow> (nat \<Rightarrow> int64) \<Rightarrow> ('t, unit) check" where
  "testReadRowsLargeValue T now =
     (let key = lit ''large-val-test''; size' = 100 * 1024 in
      applying T key [cell ''cf1'' ''big'' (now 0) (map largeByte [0..<size'])] Returned (
      andThen (calling (t_ReadRow T key) (wrapped ''ReadRow for large value: %w'')) (\<lambda>row.
      andThen (failIf (row = None) (newError ''row with large value is nil'')) (\<lambda>_.
      andThen (failIf (length (itemsOf row (lit ''cf1'')) \<noteq> 1) (expected ''expected 1 cell, got %d'' (length (itemsOf row (lit ''cf1''))))) (\<lambda>_.
      (let v = ri_value (hd (itemsOf row (lit ''cf1''))) in
       andThen (failIf (length v \<noteq> size') (Errorf ''value size mismatch: got %d, want %d'' [FInt (int (length v)), FInt (int size')])) (\<lambda>_.
       andThen (forEach [0..<length v] (\<lambda>i. failIf (v ! i \<noteq> largeByte i)
         (Errorf ''value corruption at byte %d: got %02x, want %02x'' [FInt (int i), FInt (uint (v ! i)), FInt (uint (largeByte i))]))) (\<lambda>_.
       deleting T key))))))))"

definition testReadRowsManyCellsSingleRow :: "'t btTable \<Rightarrow> (nat \<Rightarrow> int64) \<Rightarrow> ('t, unit) check" where
  "testReadRowsManyCellsSingleRow T now =
     (let key = lit ''many-cells-row'' in
      applying T key (map (\<lambda>i. cell ''cf1'' (''q'' @ padDecimal 3 i) (now i) (lit (''val-'' @ decimal i))) [0..<50]) Returned (
      andThen (calling (t_ReadRow T key) (wrapped ''ReadRow for many cells: %w'')) (\<lambda>row.
      andThen (failIf (row = None) (newError ''many-cells row is nil'')) (\<lambda>_.
      andThen (failIf (length (itemsOf row (lit ''cf1'')) \<noteq> 50) (expected ''expected 50 cells, got %d'' (length (itemsOf row (lit ''cf1''))))) (\<lambda>_.
      deleting T key)))))"

section \<open>Conditional mutations\<close>

definition testCheckAndMutateTrue :: "'t btTable \<Rightarrow> (nat \<Rightarrow> int64) \<Rightarrow> ('t, unit) check" where
  "testCheckAndMutateTrue T now =
     andThen (calling (t_Apply T (lit ''user1'') (CondMutation (PassAllFilter True) (Some [cell ''cf1'' ''checked'' (now 0) (lit ''true'')]) None))
       (wrapped ''CheckAndMutateRow: %w'')) (\<lambda>matched.
     andThen (failIf (\<not> matched) (newError ''expected predicate matched=true'')) (\<lambda>_.
     andThen (calling (t_ReadRow T (lit ''user1'')) Returned) (\<lambda>row.
     failIf (\<not> list_ex (\<lambda>c. trimPrefix (ri_column c) (lit ''cf1:'') = lit ''checked'' \<and> ri_value c = lit ''true'') (itemsOf row (lit ''cf1'')))
       (newError ''expected cf1:checked=true cell''))))"

definition testCheckAndMutateFalse :: "'t btTable \<Rightarrow> (nat \<Rightarrow> int64) \<Rightarrow> ('t, unit) check" where
  "testCheckAndMutateFalse T now =
     (let falseMut = [cell ''cf1'' ''fallback'' (now 0) (lit ''false-branch'')];
          trueMut = [cell ''cf1'' ''should-not-appear'' (now 1) (lit ''nope'')] in
      andThen (calling (t_Apply T (lit ''no-such-row'') (CondMutation (BlockAllFilter True) (Some trueMut) (Some falseMut)))
        (wrapped ''CheckAndMutateRow false branch: %w'')) (\<lambda>matched.
      andThen (failIf matched (newError ''expected predicate matched=false for nonexistent row'')) (\<lambda>_.
      andThen (calling (t_ReadRow T (lit ''no-such-row'')) Returned) (\<lambda>row.
      andThen (failIf (row = None) (newError ''expected false branch to create the row'')) (\<lambda>_.
      failIf (\<not> list_ex (\<lambda>c. trimPrefix (ri_column c) (lit ''cf1:'') = lit ''fallback'') (itemsOf row (lit ''cf1'')))
        (newError ''expected cf1:fallback=false-branch cell from false branch''))))))"

definition testCheckAndMutateValuePredicate :: "'t btTable \<Rightarrow> (nat \<Rightarrow> int64) \<Rightarrow> ('t, unit) check" where
  "testCheckAndMutateValuePredicate T now =
     (let key = lit ''check-value-pred'' in
      applying T key [cell ''cf1'' ''status'' (now 0) (lit ''active'')] (wrapped ''setup: %w'') (
      andThen (calling (t_Apply T key (CondMutation (ValueRegexFilter (lit ''active'')) (Some [cell ''cf1'' ''result'' (now 1) (lit ''matched'')]) None))
        (wrapped ''CheckAndMutateRow value predicate: %w'')) (\<lambda>matched.
      andThen (failIf (\<not> matched) (newError (''expected predicate matched=true for value '' @ [CHR 0x27] @ ''active'' @ [CHR 0x27]))) (\<lambda>_.
      andThen (calling (t_ReadRow T key) Returned) (\<lambda>row.
      andThen (failIf (row = None) (newError ''row not found'')) (\<lambda>_.
      andThen (failIf (\<not> list_ex (\<lambda>item. ri_value item = lit ''matched'') (allItems row))
        (newError ''expected cf1:result=matched cell from true mutation'')) (\<lambda>_.
      deleting T key)))))))"

section \<open>Read-modify-write\<close>

definition increment :: "string \<Rightarrow> string \<Rightarrow> int64 \<Rightarrow> rmwRule list" where
  "increment f q n = [\<lparr>ru_family = lit f, ru_qualifier = lit q, ru_rule = IncrementAmount n\<rparr>]"

definition appendValue :: "string \<Rightarrow> string \<Rightarrow> bytes \<Rightarrow> rmwRule list" where
  "appendValue f q v = [\<lparr>ru_family = lit f, ru_qualifier = lit q, ru_rule = AppendValue v\<rparr>]"

definition testIncrement :: "'t btTable \<Rightarrow> ('t, unit) check" where
  "testIncrement T =
     andThen (forEach [1, 2, 3] (\<lambda>i.
       andThen (calling (t_ApplyReadModifyWrite T (lit ''counter-row'') (increment ''stats'' ''counter'' 1))
         (\<lambda>e. Errorf ''ApplyReadModifyWrite (inc %d): %w'' [FInt i, FErr (Some e)])) (\<lambda>row.
       failIf (length (famItems row (lit ''stats'')) \<noteq> 1)
         (Errorf ''iteration %d: expected 1 cell, got %d'' [FInt i, FInt (int (length (famItems row (lit ''stats''))))])))) (\<lambda>_.
     andThen (calling (t_ReadRow T (lit ''counter-row'')) Returned) (\<lambda>row.
     failIf (length (itemsOf row (lit ''stats'')) = 0) (newError ''expected stats:counter cell'')))"

definition testNegativeIncrement :: "'t btTable \<Rightarrow> ('t, unit) check" where
  "testNegativeIncrement T =
     (let key = lit ''neg-inc-test'' in
      andThen (calling (t_ApplyReadModifyWrite T key (increment ''stats'' ''counter'' 100)) (wrapped ''initial increment: %w'')) (\<lambda>row.
      andThen (failIf (length (famItems row (lit ''stats'')) \<noteq> 1) (expected ''expected 1 cell, got %d'' (length (famItems row (lit ''stats''))))) (\<lambda>_.
      andThen (calling (t_ApplyReadModifyWrite T key (increment ''stats'' ''counter'' (- 30))) (wrapped ''negative increment: %w'')) (\<lambda>_.
      andThen (calling (t_ReadRow T key) Returned) (\<lambda>row.
      failIf (length (itemsOf row (lit ''stats'')) = 0) (newError ''expected stats:counter cell''))))))"

definition testAppend :: "'t btTable \<Rightarrow> ('t, unit) check" where
  "testAppend T =
     andThen (calling (t_ApplyReadModifyWrite T (lit ''append-row'') (appendValue ''log'' ''events'' (lit ''hello'')))
       (wrapped ''ApplyReadModifyWrite (append): %w'')) (\<lambda>row.
     andThen (failIf (length (famItems row (lit ''log'')) \<noteq> 1) (expected ''expected 1 log cell, got %d'' (length (famItems row (lit ''log''))))) (\<lambda>_.
     andThen (calling (t_ApplyReadModifyWrite T (lit ''append-row'') (appendValue ''log'' ''events'' (lit '' world'')))
       (wrapped ''ApplyReadModifyWrite (append 2): %w'')) (\<lambda>_.
     andThen (calling (t_ReadRow T (lit ''append-row'')) Returned) (\<lambda>row.
     (case find (\<lambda>c. trimPrefix (ri_column c) (lit ''log:'') = lit ''events'') (itemsOf row (lit ''log'')) of
        None \<Rightarrow> failIf True (newError ''expected log:events cell'')
      | Some c \<Rightarrow> failIf (ri_value c \<noteq> lit ''hello world'')
          (Errorf (''expected '' @ [CHR 0x27] @ ''hello world'' @ [CHR 0x27] @ '', got %q'') [FBytes (ri_value c)]))))))"

section \<open>Bulk mutations\<close>

definition testApplyBulk :: "'t btTable \<Rightarrow> (nat \<Rightarrow> int64) \<Rightarrow> ('t, unit) check" where
  "testApplyBulk T now =
     (let keys = [''bulk1'', ''bulk2'', ''bulk3''];
          muts = map (\<lambda>i. Mutation [cell ''cf1'' ''val'' (now i) (lit (''bulk-'' @ decimal i))]) [0..<3] in
      andThen (calling (t_ApplyBulk T (map lit keys) muts) (wrapped ''ApplyBulk: %w'')) (\<lambda>errs.
      andThen (forEach (enumerate 0 errs) (\<lambda>(i, e). failIf (e \<noteq> None) (Errorf ''ApplyBulk entry %d: %w'' [FInt (int i), FErr e]))) (\<lambda>_.
      forEach keys (\<lambda>key.
        andThen (calling (t_ReadRow T (lit key)) (\<lambda>e. Errorf ''reading %q after bulk: %w'' [FStr key, FErr (Some e)])) (\<lambda>row.
        failIf (row = None) (Errorf ''row %q is nil after bulk write'' [FStr key]))))))"

definition testApplyBulkEmpty :: "'t btTable \<Rightarrow> ('t, unit) check" where
  "testApplyBulkEmpty T =
     andThen (calling (t_ApplyBulk T [] []) (wrapped ''ApplyBulk with nil args should not error: %w'')) (\<lambda>_.
     andThen (calling (t_ApplyBulk T [] []) (wrapped ''ApplyBulk with empty args should not error: %w'')) (\<lambda>_.
     pass ()))"

section \<open>Deletions\<close>

definition testDeleteFromColumn :: "'t btTable \<Rightarrow> (nat \<Rightarrow> int64) \<Rightarrow> ('t, unit) check" where
  "testDeleteFromColumn T now =
     (let key = lit ''delete-col-test'' in
      applying T key [cell ''cf1'' ''keep'' (now 0) (lit ''stay''), cell ''cf1'' ''remove'' (now 1) (lit ''go'')] Returned (
      applying T key [MDeleteCellsInColumn (lit ''cf1'') (lit ''remove'')] Returned (
      andThen (calling (t_ReadRow T key) Returned) (\<lambda>row.
      andThen (failIf (length (itemsOf row (lit ''cf1'')) \<noteq> 1)
        (expected ''expected 1 cell after column delete, got %d'' (length (itemsOf row (lit ''cf1''))))) (\<lambda>_.
      failIf (ri_value (hd (itemsOf row (lit ''cf1''))) \<noteq> lit ''stay'')
        (Errorf (''expected '' @ [CHR 0x27] @ ''stay'' @ [CHR 0x27] @ '', got %q'') [FBytes (ri_value (hd (itemsOf row (lit ''cf1''))))]))))))"

definition testDeleteFromFamily :: "'t btTable \<Rightarrow> (nat \<Rightarrow> int64) \<Rightarrow> ('t, unit) check" where
  "testDeleteFromFamily T now =
     (let key = lit ''delete-fam-test'' in
      applying T key [cell ''cf1'' ''a'' (now 0) (lit ''keep''), cell ''cf2'' ''b'' (now 1) (lit ''delete'')] Returned (
      applying T key [MDeleteCellsInFamily (lit ''cf2'')] Returned (
      andThen (calling (t_ReadRow T key) Returned) (\<lambda>row.
      andThen (failIf (length (itemsOf row (lit ''cf2'')) \<noteq> 0) (newError ''expected cf2 to be empty after family delete'')) (\<lambda>_.
      failIf (length (itemsOf row (lit ''cf1'')) = 0) (newError ''expected cf1 to still have cells''))))))"

definition testDeleteFromRow :: "'t btTable \<Rightarrow> (nat \<Rightarrow> int64) \<Rightarrow> ('t, unit) check" where
  "testDeleteFromRow T now =
     (let key = lit ''delete-row-test'' in
      applying T key [cell ''cf1'' ''a'' (now 0) (lit ''delete-me''), cell ''cf2'' ''b'' (now 1) (lit ''delete-me-too'')] Returned (
      applying T key [MDeleteRow] Returned (
      andThen (calling (t_ReadRow T key) Returned) (\<lambda>row.
      failIf (row \<noteq> None) (newError ''expected nil row after DeleteRow'')))))"

text \<open>\<open>d\<close> minutes in nanoseconds.\<close>

definition minutes :: "int \<Rightarrow> int" where
  "minutes d = d * 60 * 10 ^ 9"

definition testDeleteTimestampRange :: "'t btTable \<Rightarrow> int \<Rightarrow> ('t, unit) check" where
  "testDeleteTimestampRange T t =
     (let key = lit ''delete-ts-test'' in
      andThen (forEach [0..<5] (\<lambda>i.
        applying T key [cell ''cf1'' ''val'' (t_Time T (t + minutes (int i))) (lit (''v'' @ decimal i))] Returned (pass ()))) (\<lambda>_.
      applying T key [MDeleteTimestampRange (lit ''cf1'') (lit ''val'') (t_Time T (t + minutes 1)) (t_Time T (t + minutes 3))] Returned (
      andThen (calling (t_ReadRow T key) Returned) (\<lambda>row.
      andThen (failIf (length (itemsOf row (lit ''cf1'')) \<noteq> 3)
        (expected ''expected 3 cells (0, 3, 4 min) after timestamp range delete, got %d'' (length (itemsOf row (lit ''cf1''))))) (\<lambda>_.
      deleting T key)))))"

section \<open>Sampling, and concurrent requests\<close>

definition testSampleRowKeys :: "'t btTable \<Rightarrow> ('t, unit) check" where
  "testSampleRowKeys T = andThen (calling (t_SampleRowKeys T) (wrapped ''SampleRowKeys: %w'')) (\<lambda>_. pass ())"

text \<open>Goroutines that make one request each: all are waited for, then the first error is returned.\<close>

fun collecting :: "'x list \<Rightarrow> ('x \<Rightarrow> ('t, unit) check) \<Rightarrow> 't \<Rightarrow> clientFailure list \<times> 't" where
  "collecting [] f s = ([], s)"
| "collecting (x # xs) f s =
     (case f x s of
        (Inl e, s1) \<Rightarrow> (case collecting xs f s1 of (es, s2) \<Rightarrow> (e # es, s2))
      | (Inr _, s1) \<Rightarrow> collecting xs f s1)"

definition waiting :: "'x list \<Rightarrow> ('x \<Rightarrow> ('t, unit) check) \<Rightarrow> ('t, unit) check" where
  "waiting xs f s = (case collecting xs f s of ([], s1) \<Rightarrow> (Inr (), s1) | (e # es, s1) \<Rightarrow> (Inl e, s1))"

text \<open>A call whose error is ignored.\<close>

definition ignoring :: "('t, unit) check \<Rightarrow> ('t, unit) check" where
  "ignoring m s = (Inr (), snd (m s))"

definition testConcurrentWrites :: "'t btTable \<Rightarrow> (nat \<Rightarrow> int64) \<Rightarrow> nat list \<Rightarrow> ('t, unit) check" where
  "testConcurrentWrites T now order =
     andThen (waiting order (\<lambda>n.
       applying T (lit (''concurrent-'' @ decimal n)) [cell ''cf1'' ''data'' (now n) (lit (''concurrent-'' @ decimal n))]
         (\<lambda>e. Errorf ''concurrent write %d: %w'' [FInt (int n), FErr (Some e)]) (pass ()))) (\<lambda>_.
     forEach [0..<10] (\<lambda>i.
       (let key = ''concurrent-'' @ decimal i in
        andThen (calling (t_ReadRow T (lit key)) (\<lambda>e. Errorf ''reading concurrent row %q: %w'' [FStr key, FErr (Some e)])) (\<lambda>row.
        andThen (failIf (row = None) (Errorf ''concurrent row %q not found'' [FStr key])) (\<lambda>_.
        ignoring (deleting T (lit key)))))))"

definition testCheckAndMutateConcurrentSameRow :: "'t btTable \<Rightarrow> (nat \<Rightarrow> int64) \<Rightarrow> nat list \<Rightarrow> ('t, unit) check" where
  "testCheckAndMutateConcurrentSameRow T now order =
     (let key = lit ''concurrent-check-row'' in
      applying T key [cell ''cf1'' ''data'' (now 0) (lit ''initial'')] (wrapped ''setup: %w'') (
      andThen (waiting order (\<lambda>n.
        andThen (calling (t_Apply T key (CondMutation (PassAllFilter True) (Some [cell ''cf1'' (''marker-'' @ decimal n) (now (Suc n)) (lit ''done'')]) None))
          (\<lambda>e. Errorf ''concurrent %d: %w'' [FInt (int n), FErr (Some e)])) (\<lambda>_. pass ()))) (\<lambda>_.
      andThen (calling (t_ReadRow T key) Returned) (\<lambda>row.
      andThen (failIf (row = None) (newError ''row not found after concurrent CheckAndMutateRow'')) (\<lambda>_.
      andThen (forEach [0..<5] (\<lambda>i.
        failIf (\<not> list_ex (\<lambda>item. ri_column item = lit (''cf1:marker-'' @ decimal i)) (allItems row))
          (Errorf (''marker-%d not found '' @ [CHR 0xE2, CHR 0x80, CHR 0x94] @ '' CheckAndMutateRow may have lost an update'') [FInt (int i)]))) (\<lambda>_.
      deleting T key))))))"

section \<open>The random round trip\<close>

text \<open>The generator: its state is a word, and each operation returns the new state.\<close>

definition newRNG :: "int64 \<Rightarrow> uint64" where
  "newRNG seed = seed * 6364136223846793005 + 1442695040888963407"

definition stepState :: "uint64 \<Rightarrow> uint64" where
  "stepState s =
     (let s1 = xor s (drop_bit 12 s); s2 = xor s1 (push_bit 25 s1)
      in xor s2 (drop_bit 27 s2))"

definition rng_uint64 :: "uint64 \<Rightarrow> uint64 \<times> uint64" where
  "rng_uint64 s = (stepState s * 2685821657736338717, stepState s)"

definition rng_intn :: "int64 \<Rightarrow> uint64 \<Rightarrow> int64 \<times> uint64" where
  "rng_intn n s = (case rng_uint64 s of (x, s1) \<Rightarrow> (x mod n, s1))"

definition rng_int63n :: "int64 \<Rightarrow> uint64 \<Rightarrow> int64 \<times> uint64" where
  "rng_int63n n s = (case rng_uint64 s of (x, s1) \<Rightarrow> (x mod n, s1))"

fun rng_read :: "nat \<Rightarrow> uint64 \<Rightarrow> bytes \<times> uint64" where
  "rng_read 0 s = ([], s)"
| "rng_read (Suc k) s = (case rng_uint64 s of (x, s1) \<Rightarrow> (case rng_read k s1 of (bs, s2) \<Rightarrow> (ucast x # bs, s2)))"

definition hourNanos :: int64 where
  "hourNanos = 3600000000000"

text \<open>The random cell of a seed.\<close>

definition fuzzCell :: "'t btTable \<Rightarrow> int64 \<Rightarrow> int64 \<Rightarrow> bytes \<times> bytes \<times> bytes \<times> int64 \<times> bytes" where
  "fuzzCell T now seed =
     (case rng_uint64 (newRNG seed) of (x, g1) \<Rightarrow>
      case rng_intn 5 g1 of (fam, g2) \<Rightarrow>
      case rng_intn 20 g2 of (ql, g3) \<Rightarrow>
      case rng_read (unat (ql + 1)) g3 of (qual, g4) \<Rightarrow>
      case rng_intn 256 g4 of (vl, g5) \<Rightarrow>
      case rng_read (unat vl) g5 of (val, g6) \<Rightarrow>
      case rng_intn 2 g6 of (b, g7) \<Rightarrow>
      (lit (''fuzz-row-'' @ padHex 8 (unat x)), lit (CHR ''f'' # padDecimal 2 (unat fam)), qual,
       if b = 0 then t_Time T (sint (fst (rng_int63n hourNanos g7))) else now, val))"

definition fuzzRoundTrip :: "'t btTable \<Rightarrow> int64 \<Rightarrow> int64 \<Rightarrow> ('t, unit) check" where
  "fuzzRoundTrip T now seed =
     (case fuzzCell T now seed of (rowKey, family, qual, ts, val) \<Rightarrow>
      applying T rowKey [MSet family qual ts val] (wrapped ''write: %w'') (
      andThen (calling (t_ReadRow T rowKey) (wrapped ''read: %w'')) (\<lambda>row.
      andThen (failIf (row = None) (newError ''row not found after write'')) (\<lambda>_.
      (let hits = filter (\<lambda>item. trimPrefix (ri_column item) (family @ [58]) = qual) (allItems row) in
       andThen (forEach hits (\<lambda>item. failIf (ri_value item \<noteq> val)
         (Errorf ''value mismatch: got %q, want %q (key=%s fam=%s qual=%q)''
           [FBytes (ri_value item), FBytes val, FBytes rowKey, FBytes family, FBytes qual]))) (\<lambda>_.
       andThen (failIf (hits = []) (Errorf ''cell (fam=%s qual=%q) not found in row %s'' [FBytes family, FBytes qual, FBytes rowKey])) (\<lambda>_.
       deleting T rowKey)))))))"

section \<open>Range scans\<close>

text \<open>\<open>tbl.ReadRows\<close> with a callback on a variable: it gets the rows in turn until it returns false, and then
  the scan ends without an error.\<close>

fun deliverRows :: "('a \<Rightarrow> clientRow \<Rightarrow> bool \<times> 'a) \<Rightarrow> 'a \<Rightarrow> clientRow list \<Rightarrow> bool \<times> 'a" where
  "deliverRows f acc [] = (True, acc)"
| "deliverRows f acc (r # rs) = (case f acc r of (True, acc1) \<Rightarrow> deliverRows f acc1 rs | (False, acc1) \<Rightarrow> (False, acc1))"

definition scanning :: "'t btTable \<Rightarrow> readArgs \<Rightarrow> ('a \<Rightarrow> clientRow \<Rightarrow> bool \<times> 'a) \<Rightarrow> 'a \<Rightarrow> 't \<Rightarrow> (goerror + 'a) \<times> 't" where
  "scanning T args f acc s =
     (case t_ReadRows T args s of
        ((err, rows), s1) \<Rightarrow>
          (case deliverRows f acc rows of
             (False, a) \<Rightarrow> (Inr a, s1)
           | (True, a) \<Rightarrow> (case err of Some e \<Rightarrow> (Inl e, s1) | None \<Rightarrow> (Inr a, s1))))"

abbreviation rowsOf :: "clientRowSet \<Rightarrow> readArgs" where
  "rowsOf rs \<equiv> \<lparr>ra_rows = rs, ra_filter = None, ra_limit = 0, ra_reversed = False\<rparr>"

abbreviation filtered :: "clientRowSet \<Rightarrow> rowFilter \<Rightarrow> readArgs" where
  "filtered rs g \<equiv> \<lparr>ra_rows = rs, ra_filter = Some g, ra_limit = 0, ra_reversed = False\<rparr>"

text \<open>Callbacks that count rows, the cells of some families, and all cells.\<close>

definition countRows :: "nat \<Rightarrow> clientRow \<Rightarrow> bool \<times> nat" where
  "countRows n r = (True, n + 1)"

definition countFamilies :: "string list \<Rightarrow> nat \<Rightarrow> clientRow \<Rightarrow> bool \<times> nat" where
  "countFamilies fs n r = (True, n + sum_list (map (\<lambda>f. length (famItems r (lit f))) fs))"

definition countCells :: "nat \<Rightarrow> clientRow \<Rightarrow> bool \<times> nat" where
  "countCells n r = (True, n + sum_list (map (\<lambda>(f, items). length items) r))"

definition testReadRowsFullScan :: "'t btTable \<Rightarrow> ('t, unit) check" where
  "testReadRowsFullScan T =
     andThen (calling (scanning T (rowsOf AllRows) countRows 0) (wrapped ''ReadRows: %w'')) (\<lambda>rows.
     failIf (rows < 1) (newError ''expected at least 1 row''))"

definition testReadRowsRowKeyFilter :: "'t btTable \<Rightarrow> ('t, unit) check" where
  "testReadRowsRowKeyFilter T =
     andThen (calling (scanning T (filtered AllRows (RowKeyRegexFilter (lit ''user1''))) countRows 0) (wrapped ''ReadRows: %w'')) (\<lambda>rows.
     failIf (rows \<noteq> 1) (expected ''expected 1 row, got %d'' rows))"

definition testReadRowsFamilyFilter :: "'t btTable \<Rightarrow> ('t, unit) check" where
  "testReadRowsFamilyFilter T =
     andThen (calling (scanning T (filtered (InfiniteRange []) (FamilyNameRegexFilter (lit ''cf1''))) (countFamilies [''cf1'']) 0)
       (wrapped ''ReadRows: %w'')) (\<lambda>cells.
     failIf (cells \<noteq> 2) (expected ''expected 2 cells in cf1, got %d'' cells))"

definition testReadRowsColumnFilter :: "'t btTable \<Rightarrow> ('t, unit) check" where
  "testReadRowsColumnFilter T =
     andThen (calling (scanning T (filtered (InfiniteRange []) (ColumnQualifierRegexFilter (lit ''name''))) (countFamilies [''cf1'', ''cf2'']) 0)
       (wrapped ''ReadRows with column filter: %w'')) (\<lambda>cells.
     failIf (cells \<noteq> 1) (expected (''expected 1 cell matching column '' @ [CHR 0x27] @ ''name'' @ [CHR 0x27] @ '', got %d'') cells))"

definition testReadRowsValueFilter :: "'t btTable \<Rightarrow> ('t, unit) check" where
  "testReadRowsValueFilter T =
     andThen (calling (scanning T (filtered (InfiniteRange []) (ValueRegexFilter (lit ''42''))) countCells 0)
       (wrapped ''ReadRows with value filter: %w'')) (\<lambda>cells.
     failIf (cells \<noteq> 1) (expected (''expected 1 cell with value '' @ [CHR 0x27] @ ''42'' @ [CHR 0x27] @ '', got %d'') cells))"

definition testReadRowsChainFilters :: "'t btTable \<Rightarrow> ('t, unit) check" where
  "testReadRowsChainFilters T =
     andThen (calling (scanning T (filtered (InfiniteRange []) (Chain [FamilyNameRegexFilter (lit ''cf1''), ColumnQualifierRegexFilter (lit ''name'')])) countCells 0)
       (wrapped ''ReadRows with chain filters: %w'')) (\<lambda>cells.
     failIf (cells \<noteq> 1) (expected ''expected 1 cell matching cf1 AND name, got %d'' cells))"

definition testReadRowsInterleaveFilters :: "'t btTable \<Rightarrow> ('t, unit) check" where
  "testReadRowsInterleaveFilters T =
     andThen (calling (scanning T (filtered (InfiniteRange []) (Interleave [FamilyNameRegexFilter (lit ''cf1''), FamilyNameRegexFilter (lit ''cf2'')])) countCells 0)
       (wrapped ''ReadRows with interleave filters: %w'')) (\<lambda>cells.
     failIf (cells \<noteq> 3) (expected ''expected 3 cells across cf1 OR cf2, got %d'' cells))"

text \<open>The variables of the callback: the first error, and the cells counted.\<close>

definition stripItems :: "clientFailure option \<times> nat \<Rightarrow> clientRow \<Rightarrow> bool \<times> clientFailure option \<times> nat" where
  "stripItems acc r =
     (case acc of (err, n) \<Rightarrow>
       (let items = concat (map snd r) in
        case dropWhile (\<lambda>item. ri_value item = []) items of
          [] \<Rightarrow> (True, err, n + length items)
        | item # rest \<Rightarrow> (False, Some (Errorf ''expected empty value with strip value filter, got %q'' [FBytes (ri_value item)]),
            n + length (takeWhile (\<lambda>item. ri_value item = []) items))))"

definition testReadRowsStripValue :: "'t btTable \<Rightarrow> ('t, unit) check" where
  "testReadRowsStripValue T =
     andThen (calling (scanning T (filtered (InfiniteRange []) (StripValueTransformer True)) stripItems (None, 0)) Returned) (\<lambda>(stripErr, cells).
     (case stripErr of
        Some e \<Rightarrow> failIf True e
      | None \<Rightarrow> failIf (cells < 1) (newError ''expected at least 1 cell with stripped value'')))"

definition testReadRowsLatestNFilter :: "'t btTable \<Rightarrow> ('t, unit) check" where
  "testReadRowsLatestNFilter T =
     (let key = lit ''latest-n-test'' in
      andThen (forEach [1..<6] (\<lambda>i.
        applying T key [cell ''cf1'' ''ver'' (t_Time T (int i * 10 ^ 6)) (lit (''v'' @ decimal i))] Returned (pass ()))) (\<lambda>_.
      andThen (calling (scanning T (filtered (SingleRow key) (CellsPerColumnLimitFilter 2)) (countFamilies [''cf1'']) 0)
        (wrapped ''ReadRows with LatestNFilter: %w'')) (\<lambda>cells.
      andThen (failIf (cells \<noteq> 2) (expected ''expected 2 cells with LatestNFilter(2), got %d'' cells)) (\<lambda>_.
      deleting T key))))"

definition testReadRowsTimestampRange :: "'t btTable \<Rightarrow> int \<Rightarrow> ('t, unit) check" where
  "testReadRowsTimestampRange T t =
     (let key = lit ''ts-range-test'' in
      andThen (forEach [- 2, - 1, 0, 1, 2] (\<lambda>d.
        applying T key [cell ''cf1'' ''val'' (t_Time T (t + minutes (60 * d))) (lit (''val-'' @ decimalInt d))] Returned (pass ()))) (\<lambda>_.
      (let range = \<lparr>tr_start = millis (t_Time T (t - minutes 30)), tr_end = millis (t_Time T (t + minutes 30))\<rparr> in
       andThen (calling (scanning T (filtered (SingleRow key) (TimestampRangeFilter range)) (countFamilies [''cf1'']) 0)
         (wrapped ''ReadRows with TimestampRangeFilter: %w'')) (\<lambda>cells.
       andThen (failIf (cells \<noteq> 1) (expected ''expected 1 cell in timestamp range, got %d'' cells)) (\<lambda>_.
       deleting T key)))))"

definition testReadRowsRowList :: "'t btTable \<Rightarrow> ('t, unit) check" where
  "testReadRowsRowList T =
     andThen (calling (scanning T (rowsOf (RowList [lit ''user1''])) countRows 0) (wrapped ''ReadRows with RowList: %w'')) (\<lambda>rows.
     failIf (rows \<noteq> 1) (expected ''expected 1 row via RowList, got %d'' rows))"

definition testReadRowsPrefixRange :: "'t btTable \<Rightarrow> ('t, unit) check" where
  "testReadRowsPrefixRange T =
     andThen (calling (scanning T (rowsOf (PrefixRange (lit ''user''))) countRows 0) (wrapped ''ReadRows with PrefixRange: %w'')) (\<lambda>rows.
     failIf (rows < 3) (expected (''expected at least 3 rows with prefix '' @ [CHR 0x27] @ ''user'' @ [CHR 0x27] @ '', got %d'') rows))"

definition testReadRowsReversed :: "'t btTable \<Rightarrow> ('t, unit) check" where
  "testReadRowsReversed T =
     andThen (calling (scanning T ((rowsOf AllRows)\<lparr>ra_reversed := True\<rparr>) (\<lambda>ks r. (True, ks @ [Row_Key r])) []) (wrapped ''ReadRows reversed: %w'')) (\<lambda>rowKeys.
     andThen (failIf (length rowKeys < 2) (newError ''expected at least 2 rows in reversed order'')) (\<lambda>_.
     failIf (hd rowKeys \<le> last rowKeys) (newError ''expected reversed order (first key > last key)'')))"

definition testReadRowsRowLimit :: "'t btTable \<Rightarrow> (nat \<Rightarrow> int64) \<Rightarrow> ('t, unit) check" where
  "testReadRowsRowLimit T now =
     andThen (forEach [(0, ''user2''), (1, ''user3'')] (\<lambda>(k, key).
       applying T (lit key) [cell ''cf1'' ''name'' (now k) (lit key)] Returned (pass ()))) (\<lambda>_.
     andThen (calling (scanning T ((rowsOf AllRows)\<lparr>ra_limit := 2\<rparr>) countRows 0) (wrapped ''ReadRows with limit: %w'')) (\<lambda>rows.
     failIf (rows \<noteq> 2) (expected ''expected 2 rows, got %d'' rows)))"

text \<open>The rows seen, and all cells counted. The error of the number of rows leaves out the set of rows.\<close>

definition countSeen :: "nat \<times> bytes set \<Rightarrow> clientRow \<Rightarrow> bool \<times> nat \<times> bytes set" where
  "countSeen acc r = (case acc of (n, seen) \<Rightarrow> (True, snd (countCells n r), insert (Row_Key r) seen))"

definition testReadRowsCellsPerRowLimitMultiRow :: "'t btTable \<Rightarrow> (nat \<Rightarrow> int64) \<Rightarrow> ('t, unit) check" where
  "testReadRowsCellsPerRowLimitMultiRow T now =
     andThen (forEach [(0, ''cpr-row1''), (2, ''cpr-row2'')] (\<lambda>(k, key).
       applying T (lit key) [cell ''cf1'' ''a'' (now k) (lit (key @ ''-a'')), cell ''cf1'' ''b'' (now (k + 1)) (lit (key @ ''-b''))]
         (\<lambda>e. Errorf ''setup write %s: %w'' [FStr key, FErr (Some e)]) (pass ()))) (\<lambda>_.
     andThen (calling (scanning T (filtered (PrefixRange (lit ''cpr'')) (CellsPerRowLimitFilter 1)) countSeen (0, {})) (wrapped ''ReadRows: %w'')) (\<lambda>(totalCells, seenRows).
     andThen (failIf (totalCells \<noteq> 2) (expected ''expected 2 cells (1 per row), got %d'' totalCells)) (\<lambda>_.
     failIf (card seenRows \<noteq> 2) (expected ''expected 2 rows, got %d: %v'' (card seenRows)))))"

definition testReadRowsCellsPerRowOffsetMultiRow :: "'t btTable \<Rightarrow> (nat \<Rightarrow> int64) \<Rightarrow> ('t, unit) check" where
  "testReadRowsCellsPerRowOffsetMultiRow T now =
     andThen (forEach [(0, ''cpo-row1''), (3, ''cpo-row2'')] (\<lambda>(k, key).
       applying T (lit key) [cell ''cf1'' ''a'' (now k) (lit (key @ ''-a'')), cell ''cf1'' ''b'' (now (k + 1)) (lit (key @ ''-b'')),
           cell ''cf1'' ''c'' (now (k + 2)) (lit (key @ ''-c''))]
         (\<lambda>e. Errorf ''setup write %s: %w'' [FStr key, FErr (Some e)]) (pass ()))) (\<lambda>_.
     andThen (calling (scanning T (filtered (PrefixRange (lit ''cpo'')) (CellsPerRowOffsetFilter 1)) countSeen (0, {})) (wrapped ''ReadRows: %w'')) (\<lambda>(totalCells, seenRows).
     andThen (failIf (totalCells \<noteq> 4) (expected ''expected 4 cells (3-1 per row x 2 rows), got %d'' totalCells)) (\<lambda>_.
     failIf (card seenRows \<noteq> 2) (expected ''expected 2 rows, got %d: %v'' (card seenRows)))))"

section \<open>The command\<close>

text \<open>What the tests read of clocks and schedulers: \<open>bigtable.Now()\<close> in each test, \<open>time.Now()\<close>, and the orders of the
  goroutines.\<close>

record clientEnv =
  ce_now :: "nat \<Rightarrow> nat \<Rightarrow> int64"
  ce_time :: "nat \<Rightarrow> int"
  ce_order :: "nat \<Rightarrow> nat list"

definition clientTests :: "'t btTable \<Rightarrow> clientEnv \<Rightarrow> (string \<times> ('t, unit) check) list" where
  "clientTests T E =
     [(''SetCell'', testSetCell T (ce_now E 0)),
      (''ReadRow'', testReadRow T),
      (''ReadRows/FullScan'', testReadRowsFullScan T),
      (''ReadRows/RowKeyFilter'', testReadRowsRowKeyFilter T),
      (''ReadRows/FamilyFilter'', testReadRowsFamilyFilter T),
      (''ReadRows/ColumnFilter'', testReadRowsColumnFilter T),
      (''ReadRows/ValueFilter'', testReadRowsValueFilter T),
      (''ReadRows/ChainFilters'', testReadRowsChainFilters T),
      (''ReadRows/InterleaveFilters'', testReadRowsInterleaveFilters T),
      (''ReadRows/StripValue'', testReadRowsStripValue T),
      (''ReadRows/LatestNFilter'', testReadRowsLatestNFilter T),
      (''ReadRows/TimestampRangeFilter'', testReadRowsTimestampRange T (ce_time E 0)),
      (''ReadRows/RowLimit'', testReadRowsRowLimit T (ce_now E 1)),
      (''ReadRows/Reversed'', testReadRowsReversed T),
      (''ReadRows/RowList'', testReadRowsRowList T),
      (''ReadRows/PrefixRange'', testReadRowsPrefixRange T),
      (''ReadRows/BinaryKey'', testReadRowsBinaryKey T (ce_now E 2)),
      (''ReadRows/LargeValue'', testReadRowsLargeValue T (ce_now E 3)),
      (''ReadRows/ManyCellsSingleRow'', testReadRowsManyCellsSingleRow T (ce_now E 4)),
      (''CheckAndMutateRow/TrueBranch'', testCheckAndMutateTrue T (ce_now E 5)),
      (''CheckAndMutateRow/FalseBranch'', testCheckAndMutateFalse T (ce_now E 6)),
      (''ReadModifyWrite/Increment'', testIncrement T),
      (''ReadModifyWrite/NegativeIncrement'', testNegativeIncrement T),
      (''ReadModifyWrite/Append'', testAppend T),
      (''ApplyBulk'', testApplyBulk T (ce_now E 7)),
      (''ApplyBulk/Empty'', testApplyBulkEmpty T),
      (''DeleteFromColumn'', testDeleteFromColumn T (ce_now E 8)),
      (''DeleteFromFamily'', testDeleteFromFamily T (ce_now E 9)),
      (''DeleteFromRow'', testDeleteFromRow T (ce_now E 10)),
      (''DeleteTimestampRange'', testDeleteTimestampRange T (ce_time E 1)),
      (''SampleRowKeys'', testSampleRowKeys T),
      (''ConcurrentWrites'', testConcurrentWrites T (ce_now E 11) (ce_order E 0)),
      (''CheckAndMutateRow/ValuePredicate'', testCheckAndMutateValuePredicate T (ce_now E 12)),
      (''CheckAndMutateRow/ConcurrentSameRow'', testCheckAndMutateConcurrentSameRow T (ce_now E 13) (ce_order E 1)),
      (''ReadRows/CellsPerRowLimitMultiRow'', testReadRowsCellsPerRowLimitMultiRow T (ce_now E 14)),
      (''ReadRows/CellsPerRowOffsetMultiRow'', testReadRowsCellsPerRowOffsetMultiRow T (ce_now E 15))]"

datatype verdict = PASS string | FAIL string clientFailure | FuzzTest nat | FuzzFAIL nat clientFailure | FuzzPASS | SomeFailed nat | AllPassed

fun runTests :: "(string \<times> ('t, unit) check) list \<Rightarrow> 't \<Rightarrow> (verdict list \<times> nat) \<times> 't" where
  "runTests [] s = (([], 0), s)"
| "runTests ((n, test) # tests) s =
     (case test s of
        (Inl e, s1) \<Rightarrow> (case runTests tests s1 of ((out, failures), s2) \<Rightarrow> ((FAIL n e # out, Suc failures), s2))
      | (Inr _, s1) \<Rightarrow> (case runTests tests s1 of ((out, failures), s2) \<Rightarrow> ((PASS n # out, failures), s2)))"

fun fuzzLoop :: "'t btTable \<Rightarrow> (nat \<Rightarrow> int64) \<Rightarrow> nat list \<Rightarrow> 't \<Rightarrow> (verdict list \<times> nat) \<times> 't" where
  "fuzzLoop T now [] s = (([], 0), s)"
| "fuzzLoop T now (i # is) s =
     (case fuzzRoundTrip T (now i) (of_nat i) s of
        (Inl e, s1) \<Rightarrow> (case fuzzLoop T now is s1 of ((out, failures), s2) \<Rightarrow> ((FuzzFAIL i e # out, Suc failures), s2))
      | (Inr _, s1) \<Rightarrow> fuzzLoop T now is s1)"

text \<open>The part of \<open>main\<close> after the client is connected: the verdicts it prints and the exit code.\<close>

definition clientMain :: "'t btTable \<Rightarrow> clientEnv \<Rightarrow> nat \<Rightarrow> 't \<Rightarrow> verdict list \<times> nat" where
  "clientMain T E fuzz s =
     (case runTests (clientTests T E) s of
        ((out1, failures1), s1) \<Rightarrow>
          (let ((out2, failures2), s2) = fuzzLoop T (ce_now E 16) [0..<fuzz] s1;
               failures = failures1 + failures2;
               out = out1 @ (if fuzz > 0 then FuzzTest fuzz # out2 @ (if failures = 0 then [FuzzPASS] else []) else [])
           in if failures > 0 then (out @ [SomeFailed failures], 1) else (out @ [AllPassed], 0)))"

end
