(* ===== verification/ClientRuns.thy ===== *)
theory ClientRuns
  imports ClientTests
begin

text \<open>
  The tests of \<open>cmd/test-bigtable-client\<close> pass on a server that works.
\<close>

section \<open>Cells of a row\<close>

lemma rawBytes_eq [simp]: "rawBytes a = rawBytes b \<longleftrightarrow> a = b"
proof -
  have "inj (\<lambda>c. of_nat (of_char c) :: byte)"
  proof (rule injI)
    fix c d :: char assume "(of_nat (of_char c) :: byte) = of_nat (of_char d)"
    then have "unat (of_nat (of_char c) :: byte) = unat (of_nat (of_char d) :: byte)" by (rule arg_cong)
    then have "(of_char c :: nat) = of_char d" by (simp add: unsigned_of_nat take_bit_eq_mod)
    then show "c = d" by simp
  qed
  then show ?thesis by (simp add: rawBytes_def inj_map_eq_map)
qed

lemma rawBytes_simps [simp]: "rawBytes s = [] \<longleftrightarrow> s = []" "[] = rawBytes s \<longleftrightarrow> s = []" "length (rawBytes s) = length s"
  by (auto simp: rawBytes_def)


definition rowSize :: "(cellId \<Rightarrow> bytes option) \<Rightarrow> bytes \<Rightarrow> nat \<Rightarrow> bool" where
  "rowSize C r n \<longleftrightarrow> finite (rowCells C r) \<and> card (rowCells C r) \<le> n"

lemma rowCells_set: "rowCells (C((r', f, q, t) \<mapsto> v)) r = (if r' = r then insert (f, q, t) (rowCells C r) else rowCells C r)"
  by (auto simp: rowCells_def)

lemma familyCells_set [simp]:
  "familyCells (C((r', f', q, t) \<mapsto> v)) r f = (if r' = r \<and> f' = f then insert (q, t) (familyCells C r f) else familyCells C r f)"
  by (auto simp: familyCells_def)

lemma empty_family [simp]: "rowCells C r = {} \<Longrightarrow> familyCells C r f = {}"
  by (auto simp: rowCells_def familyCells_def)

lemma empty_row: "rowCells C r = {} \<longleftrightarrow> (\<forall>f q t. C (r, f, q, t) = None)"
  by (auto simp: rowCells_def)

lemma rowSize_effect: "rowSize C r n \<Longrightarrow> rowSize (effect r op C) r (Suc n)"
proof -
  assume C: "rowSize C r n"
  have sub: "rowSize D r (Suc n)" if "rowCells D r \<subseteq> rowCells C r" for D
    using C that card_mono [of "rowCells C r" "rowCells D r"] finite_subset unfolding rowSize_def by fastforce
  show ?thesis
  proof (cases op)
    case (MSet f q t v)
    have "card (insert (f, q, millis t) (rowCells C r)) \<le> Suc (card (rowCells C r))" by (rule card_insert_le_m1) simp_all
    then show ?thesis using C by (simp add: MSet rowSize_def rowCells_set)
  qed (rule sub, auto simp: rowCells_def split: if_splits)+
qed

lemma rowSize_effects: "rowSize C r n \<Longrightarrow> rowSize (effects r ops C) r (length ops + n)"
proof (induction ops arbitrary: C n)
  case (Cons op ops)
  from Cons.IH [OF rowSize_effect [OF Cons.prems, of op]] show ?case by simp
qed simp

lemma rowSize_small: "rowSize C r n \<Longrightarrow> n < 100 \<Longrightarrow> card (rowCells C r) < 100"
  by (simp add: rowSize_def)

lemma rowSize_empty: "rowCells C r = {} \<Longrightarrow> rowSize C r 0"
  by (simp add: rowSize_def)

text \<open>Operations stay in their row, and deleting a row that was empty before restores the table.\<close>

definition sameOutside :: "bytes set \<Rightarrow> (cellId \<Rightarrow> bytes option) \<Rightarrow> (cellId \<Rightarrow> bytes option) \<Rightarrow> bool" where
  "sameOutside R C D \<longleftrightarrow> (\<forall>r f q t. r \<notin> R \<longrightarrow> D (r, f, q, t) = C (r, f, q, t))"

lemma sameOutside_effect: "sameOutside R C D \<Longrightarrow> r \<in> R \<Longrightarrow> sameOutside R C (effect r op D)"
  by (cases op) (auto simp: sameOutside_def)

lemma sameOutside_effects: "sameOutside R C D \<Longrightarrow> r \<in> R \<Longrightarrow> sameOutside R C (effects r ops D)"
  by (induction ops arbitrary: D) (simp_all add: sameOutside_effect)

lemma sameOutside_refl: "sameOutside R C C"
  by (simp add: sameOutside_def)

lemma delete_restores: "rowCells C r = {} \<Longrightarrow> sameOutside {r} C D \<Longrightarrow> effect r MDeleteRow D = C"
  by (auto simp: fun_eq_iff sameOutside_def empty_row)

lemma large_limit [simp]: "n \<le> 65535 \<Longrightarrow> n \<le> maxCellChunkValueSize"
  by (simp add: maxCellChunkValueSize_def)

lemma fitOps_cell [simp]: "fitOps (MSet f q t v # ops) \<longleftrightarrow>
    f \<noteq> [] \<and> length f < 255 \<and> q \<noteq> [] \<and> length q < 65280 \<and> 0 \<le> sint t \<and> length v \<le> maxCellChunkValueSize \<and> fitOps ops"
  by (auto simp: fitOps_def)

lemma fitOps_simps [simp]: "fitOps []" "fitOps (MDeleteRow # ops) = fitOps ops"
  "fitOps (MDeleteCellsInFamily f # ops) \<longleftrightarrow> length f < 255 \<and> fitOps ops"
  "fitOps (MDeleteCellsInColumn f q # ops) \<longleftrightarrow> length f < 255 \<and> length q < 65280 \<and> fitOps ops"
  by (auto simp: fitOps_def)

lemma goodClock_now [simp]: "goodClock now \<Longrightarrow> 0 \<le> sint (now k)"
  by (simp add: goodClock_def)

section \<open>The random cell\<close>

text \<open>The random numbers are in range.\<close>

lemma uint_small: "0 < sint (n :: 64 word) \<Longrightarrow> uint n = sint n"
  using uint_lt2p [of n] by (auto simp: sint_wrap split: if_splits)

lemma intn_bounds:
  assumes "0 < sint n" "rng_intn n s = (x, s')"
  shows "0 \<le> sint x" "sint x < sint n" "unat x < unat n" "uint x = sint x"
proof -
  have "n \<noteq> 0" using assms(1) by auto
  then have "0 < unat n" by (simp add: unat_gt_0)
  then show u: "unat x < unat n" using assms(2) by (auto simp: rng_intn_def unat_mod split: prod.splits)
  then have "uint x < uint n" unfolding unat_eq_nat_uint by linarith
  moreover have "sint n < 2 ^ 63" using sint_lt [of n] by simp
  ultimately have x: "uint x < 2 ^ 63" "uint x < sint n" unfolding uint_small [OF assms(1)] by linarith+
  then show s: "uint x = sint x" unfolding sint_wrap by simp
  show "0 \<le> sint x" "sint x < sint n" using x(2) unfolding s [symmetric] by simp_all
qed

lemma length_read [simp]: "length (fst (rng_read k s)) = k"
  by (induction k arbitrary: s) (auto split: prod.split simp: prod.case_eq_if rng_uint64_def)

lemma hexadecimal_not_Nil [simp]: "hexadecimal n \<noteq> []"
  by (subst hexadecimal.simps) simp

lemma fuzzCell_fits:
  assumes "fuzzCell T now seed = (k, f, q, ts, v)" "0 \<le> sint now" "\<And>ns. 0 \<le> ns \<Longrightarrow> ns < 2 ^ 63 \<Longrightarrow> sint (t_Time T ns) = ns div 1000"
  shows "\<exists>x. k = lit (''fuzz-row-'' @ padHex 8 x)" "fitOps [MSet f q ts v]"
proof -
  obtain x g1 where 1: "rng_uint64 (newRNG seed) = (x, g1)" by (cases "rng_uint64 (newRNG seed)")
  obtain fam g2 where 2: "rng_intn 5 g1 = (fam, g2)" by (cases "rng_intn 5 g1")
  obtain ql g3 where 3: "rng_intn 20 g2 = (ql, g3)" by (cases "rng_intn 20 g2")
  obtain qual g4 where 4: "rng_read (unat (ql + 1)) g3 = (qual, g4)" by (cases "rng_read (unat (ql + 1)) g3")
  obtain vl g5 where 5: "rng_intn 256 g4 = (vl, g5)" by (cases "rng_intn 256 g4")
  obtain val g6 where 6: "rng_read (unat vl) g5 = (val, g6)" by (cases "rng_read (unat vl) g5")
  obtain b g7 where 7: "rng_intn 2 g6 = (b, g7)" by (cases "rng_intn 2 g6")
  have e: "k = lit (''fuzz-row-'' @ padHex 8 (unat x))" "f = lit (CHR ''f'' # padDecimal 2 (unat fam))" "q = qual" "v = val"
    "ts = (if b = 0 then t_Time T (sint (fst (rng_int63n hourNanos g7))) else now)"
    using assms(1) unfolding fuzzCell_def 1 2 3 4 5 6 7 prod.case by simp_all
  show "\<exists>x. k = lit (''fuzz-row-'' @ padHex 8 x)" using e(1) by blast
  have "unat fam < 5" using intn_bounds(3) [OF _ 2] by simp
  then have "length (decimal (unat fam)) \<le> 1" by (intro length_decimal) simp_all
  then have f: "f \<noteq> []" "length f < 255" unfolding e(2) by (simp_all add: padDecimal_def)
  have "unat ql < 20" using intn_bounds(3) [OF _ 3] by simp
  then have "unat (ql + 1) = Suc (unat ql)" by (simp add: unat_word_ariths)
  then have q: "length q = Suc (unat ql)" using length_read [of "unat (ql + 1)" g3] unfolding 4 e(3) by simp
  have v: "length v < 256" using length_read [of "unat vl" g5] intn_bounds(3) [OF _ 5] unfolding 6 e(4) by simp
  have n: "0 \<le> sint (fst (rng_int63n hourNanos g7))" 
    using intn_bounds(1) [of hourNanos g7] by (cases "rng_intn hourNanos g7") (simp add: rng_int63n_def rng_intn_def hourNanos_def split: prod.splits)
  have "sint (fst (rng_int63n hourNanos g7)) < 2 ^ 63" using sint_lt [of "fst (rng_int63n hourNanos g7)"] by simp
  then have "0 \<le> sint ts" using n assms(2) assms(3) [OF n] unfolding e(5) by (simp add: pos_imp_zdiv_nonneg_iff)
  then show "fitOps [MSet f q ts v]" using f q v \<open>unat ql < 20\<close> by auto
qed

section \<open>Running the tests\<close>

lemma failIf_pass: "\<not> b \<Longrightarrow> failIf b e = pass ()"
  by (simp add: failIf_def pass_def fun_eq_iff)

lemma pass_andThen [simp]: "andThen (pass x) f = f x"
  by (simp add: andThen_def pass_def fun_eq_iff)

lemma andThen_assoc: "andThen (andThen m f) g = andThen m (\<lambda>x. andThen (f x) g)"
  by (auto simp: andThen_def fun_eq_iff split: prod.split sum.split)

lemma applying_andThen: "andThen (applying T r ops w m) f = applying T r ops w (andThen m f)"
  unfolding applying_def andThen_assoc ..

lemma forEach_pass: "(\<And>x. x \<in> set xs \<Longrightarrow> f x = pass ()) \<Longrightarrow> forEach xs f = pass ()"
  by (induction xs) simp_all

lemma predicate_all [simp]: "predicate rq (Some (PassAllFilter b)) cs \<longleftrightarrow> cs \<noteq> []"
proof -
  have "fst (evalCells passAllFilter cs g) = cs" for g by (induction cs) (auto split: prod.splits)
  then show ?thesis by (simp add: predicate_def newRowFilterEngine_def)
qed

lemma predicate_block [simp]: "\<not> predicate rq (Some (BlockAllFilter b)) cs"
proof -
  have "fst (evalCells blockAllFilter cs g) = []" for g by (induction cs) (auto split: prod.splits)
  then show ?thesis by (simp add: predicate_def newRowFilterEngine_def)
qed

lemma predicate_value:
  assumes "rq_compile rq p = Inr re"
  shows "predicate rq (Some (ValueRegexFilter p)) cs \<longleftrightarrow> (\<exists>c \<in> set cs. re (c_value c))"
proof -
  have "fst (evalCells (valueRegexFilter re) cs g) = filter (\<lambda>c. re (c_value c)) cs" for g by (induction cs) (auto split: prod.splits)
  then show ?thesis using assms by (simp add: predicate_def newRowFilterEngine_def buildRegex_def filter_empty_conv)
qed

lemma listing_some: "listing C ((=) r) cs \<Longrightarrow> C (r, f, q, t) = Some v \<Longrightarrow> cs \<noteq> []"
  using listing_mem [of C r cs "\<lparr>c_rowKey = r, c_family = f, c_qualifier = q, c_ts = t, c_value = v\<rparr>"] by auto

lemma rowCells_other: "r' \<noteq> r \<Longrightarrow> rowCells (effects r' ops C) r = rowCells C r"
  using sameOutside_effects [OF sameOutside_refl, of r' "{r'}" C ops] by (simp add: rowCells_def sameOutside_def)

lemma familyCells_delete [simp]:
  "familyCells (effect r (MDeleteCellsInColumn f' q) C) r f = (if f' = f then {(q', t) \<in> familyCells C r f. q' \<noteq> q} else familyCells C r f)"
  "familyCells (effect r (MDeleteCellsInFamily f') C) r f = (if f' = f then {} else familyCells C r f)"
  "familyCells (effect r (MDeleteTimestampRange f' q a b) C) r f =
     (if f' = f then {(q', t) \<in> familyCells C r f. \<not> (q' = q \<and> sint (millis a) \<le> sint t \<and> sint t < sint (millis b))} else familyCells C r f)"
  by (auto simp: familyCells_def)

lemma fitOps_append [simp]: "fitOps (xs @ ys) \<longleftrightarrow> fitOps xs \<and> fitOps ys"
  by (auto simp: fitOps_def)

context bigtable_client
begin

lemma failIf_runs: "\<not> b \<Longrightarrow> R () C i \<Longrightarrow> runs 0 C i (failIf b e) R"
  unfolding runs_def failIf_def by auto

lemma applying_runs:
  "r \<noteq> [] \<Longrightarrow> ops \<noteq> [] \<Longrightarrow> fitOps ops \<Longrightarrow> runs k (effects r ops C) (Suc i) m R \<Longrightarrow> runs (Suc k) C i (applying T r ops w m) R"
  unfolding applying_def by (rule apply_then)

lemma deleting_runs:
  assumes "rowCells C r = {}" "r \<noteq> []" "sameOutside {r} C D" "R () C (Suc i)"
  shows "runs (Suc 0) D i (deleting T r) R"
  unfolding deleting_def using assms delete_restores [OF assms(1,3)]
  by (intro applying_runs) (auto intro!: runs_pass)

lemma reading_runs:
  assumes "rowSize C r n" "n < 100" "\<And>row. rowShows C r row \<Longrightarrow> runs k C (Suc i) (f row) R"
  shows "runs k C i (andThen (calling (t_ReadRow T r) w) f) R"
  using readRow_then [OF rowSize_small [OF assms(1,2)] assms(3)] .

lemmas test_rules = applying_runs deleting_runs failIf_then failIf_runs runs_pass

lemma testSetCell_runs:
  assumes "goodClock now"
  shows "runs 1 C i (testSetCell T now) (\<lambda>_ C' j. j = i + 1 \<and> C' = effects (lit ''user1'')
    [cell ''cf1'' ''name'' (now 0) (lit ''Alice''), cell ''cf1'' ''email'' (now 1) (lit ''alice@example.com''), cell ''cf2'' ''score'' (now 2) (lit ''42'')] C)"
  unfolding testSetCell_def One_nat_def by (intro test_rules) (use assms in simp_all)

lemma testReadRow_runs:
  assumes "rowSize C (lit ''user1'') 3" "card (familyCells C (lit ''user1'') (lit ''cf1'')) = 2" "card (familyCells C (lit ''user1'') (lit ''cf2'')) = 1"
  shows "runs 0 C i (testReadRow T) (\<lambda>_ C' j. j = i + 1 \<and> C' = C)"
  unfolding testReadRow_def
proof (rule reading_runs [OF assms(1)], goal_cases)
  case (2 row)
  then have "row \<noteq> None" using shows_nil [OF 2] assms(3) by (auto simp: familyCells_def)
  then show ?case using shows_count [OF 2] assms by (intro test_rules) simp_all
qed simp

lemma fuzzRoundTrip_runs:
  assumes "0 \<le> sint now" "rowCells C (fst (fuzzCell T now seed)) = {}"
  shows "runs 2 C i (fuzzRoundTrip T now seed) (\<lambda>_ C' j. j = i + 3 \<and> C' = C)"
proof -
  obtain k f q ts v where c: "fuzzCell T now seed = (k, f, q, ts, v)" by (metis prod_cases5)
  note fits = fuzzCell_fits [OF c assms(1) time_micros]
  have k: "k \<noteq> []" "rowCells C k = {}" using fits(1) assms(2) c by auto
  let ?D = "effects k [MSet f q ts v] C"
  have D: "?D (k, f', q', t) = (if f' = f \<and> q' = q \<and> t = millis ts then Some v else None)" for f' q' t
    using k(2) by (auto simp: empty_row)
  show ?thesis
    unfolding fuzzRoundTrip_def c prod.case numeral_2_eq_2
  proof (intro applying_runs reading_runs [OF rowSize_effects [OF rowSize_empty [OF k(2)]]], goal_cases)
    case (5 row)
    have all: "x \<in> set (allItems row) \<longleftrightarrow> x = itemAt k f q (millis ts) v" for x
      unfolding shows_all [OF 5] D by auto
    have row: "row \<noteq> None" using shows_nil [OF 5] D by auto
    have t: "trimPrefix (ri_column (itemAt k f q (millis ts) v)) (f @ [58]) = q" by (simp add: trimPrefix_def itemAt_def)
    define hits where "hits = filter (\<lambda>item. trimPrefix (ri_column item) (f @ [58]) = q) (allItems row)"
    have "set hits = {itemAt k f q (millis ts) v}" using all t unfolding hits_def by auto
    moreover from this have "hits \<noteq> []" by (metis insert_not_empty set_empty)
    ultimately have h: "hits \<noteq> []" "\<forall>x \<in> set hits. ri_value x = v" by (simp_all add: itemAt_def)
    have loop: "forEach hits (\<lambda>item. failIf (ri_value item \<noteq> v) (w item)) = pass ()" for w
      by (intro forEach_pass failIf_pass) (use h(2) in simp)
    show ?case unfolding Let_def hits_def [symmetric] loop pass_andThen
      by (intro failIf_then deleting_runs [OF k(2)]) (use row h(1) k(1) sameOutside_effects [OF sameOutside_refl] in \<open>simp_all del: effects_simps\<close>)
  qed (use k fits(2) in simp_all)
qed

text \<open>The items of a row that was written.\<close>

lemma item_member: "rowShows C r row \<Longrightarrow> C (r, f, q, t) = Some v \<Longrightarrow> itemAt r f q t v \<in> set (itemsOf row f)"
  using shows_items by blast

lemma all_member: "rowShows C r row \<Longrightarrow> C (r, f, q, t) = Some v \<Longrightarrow> itemAt r f q t v \<in> set (allItems row)"
  using shows_all by blast

lemma row_present: "rowShows C r row \<Longrightarrow> C (r, f, q, t) = Some v \<Longrightarrow> row \<noteq> None"
  using shows_nil by fastforce

lemma single_item:
  assumes "rowShows C r row" "familyCells C r f = {(q, t)}" "C (r, f, q, t) = Some v"
  shows "itemsOf row f = [itemAt r f q t v]"
proof -
  have "length (itemsOf row f) = 1" using shows_count [OF assms(1), of f] assms(2) by simp
  then obtain x where "itemsOf row f = [x]" by (auto simp: length_Suc_conv)
  then show ?thesis using item_member [OF assms(1,3)] by simp
qed

lemma testReadRowsBinaryKey_runs:
  assumes "goodClock now" "rowCells C binaryKey = {}"
  shows "runs 2 C i (testReadRowsBinaryKey T now) (\<lambda>_ C' j. j = i + 3 \<and> C' = C)"
  unfolding testReadRowsBinaryKey_def numeral_2_eq_2
proof (intro applying_runs reading_runs [OF rowSize_effects [OF rowSize_empty [OF assms(2)]]], goal_cases)
  case (5 row)
  have "itemsOf row (lit ''cf1'') = [itemAt binaryKey (lit ''cf1'') (lit ''val'') (millis (now 0)) (lit ''binary-key-value'')]"
    using assms(2) by (intro single_item [OF 5]) simp_all
  moreover have "row \<noteq> None" using row_present [OF 5] by fastforce
  ultimately show ?case
    by (intro failIf_then deleting_runs [OF assms(2)]) (simp_all add: itemAt_def binaryKey_def sameOutside_effects sameOutside_refl del: effects_simps)
qed (use assms in \<open>simp_all add: binaryKey_def\<close>)

lemma familyCells_many:
  "familyCells (effects r (map (\<lambda>i. MSet f (q i) (ts i) (v i)) xs) C) r f = familyCells C r f \<union> (\<lambda>i. (q i, millis (ts i))) ` set xs"
  by (induction xs arbitrary: C) auto

lemma padDecimal_inj: "padDecimal w m = padDecimal w n \<Longrightarrow> m = n"
  by (metis digitsValue_pad)

lemma testReadRowsManyCells_runs:
  assumes "goodClock now" "rowCells C (lit ''many-cells-row'') = {}"
  shows "runs 2 C i (testReadRowsManyCellsSingleRow T now) (\<lambda>_ C' j. j = i + 3 \<and> C' = C)"
  unfolding testReadRowsManyCellsSingleRow_def Let_def numeral_2_eq_2
proof (intro applying_runs reading_runs [OF rowSize_effects [OF rowSize_empty [OF assms(2)]]], goal_cases)
  case (5 row)
  let ?r = "lit ''many-cells-row''" and ?g = "\<lambda>i. (lit (''q'' @ padDecimal 3 i), millis (now i))"
  have "inj_on ?g {0..<50}" by (auto simp: inj_on_def dest: padDecimal_inj)
  then have "card (?g ` {0..<50}) = 50" by (simp add: card_image)
  then have "length (itemsOf row (lit ''cf1'')) = 50" unfolding shows_count [OF 5] familyCells_many using assms(2) by simp
  moreover from this have "row \<noteq> None" by (cases row) (simp_all add: itemsOf_def)
  ultimately show ?case
    by (intro failIf_then deleting_runs [OF assms(2)]) (simp_all add: sameOutside_effects sameOutside_refl del: effects_simps)
next
  case 3
  have "length (decimal i) \<le> 2" if "i < 50" for i using length_decimal [of 2 i] that by simp
  then have "length (padDecimal 3 i) = 3" "length (decimal i) \<le> 65532" if "i < 50" for i using that by (fastforce simp: padDecimal_def)+
  then show ?case using assms(1) by (auto simp: fitOps_def list_all_iff maxCellChunkValueSize_def)
qed simp_all

lemma testCheckAndMutateTrue_runs:
  assumes "goodClock now" "rowSize C (lit ''user1'') 98" "C (lit ''user1'', f, q, t) = Some v"
  shows "runs 1 C i (testCheckAndMutateTrue T now) (\<lambda>_ C' j. j = i + 2 \<and> C' = effects (lit ''user1'') [cell ''cf1'' ''checked'' (now 0) (lit ''true'')] C)"
  unfolding testCheckAndMutateTrue_def One_nat_def
proof (intro cond_then [where b = True] failIf_then, goal_cases)
  case (4 cs)
  then show ?case using listing_some [OF 4 assms(3)] by simp
next
  case 6
  show ?case
  proof (rule reading_runs [OF rowSize_effects [OF assms(2)]], goal_cases)
    case (2 row)
    have "itemAt (lit ''user1'') (lit ''cf1'') (lit ''checked'') (millis (now 0)) (lit ''true'') \<in> set (itemsOf row (lit ''cf1''))"
      by (intro item_member [OF 2]) simp
    then show ?case by (intro failIf_runs) (auto simp: list_ex_iff itemAt_def trimPrefix_def rawBytes_def intro!: bexI)
  qed simp
qed (use assms(1) in simp_all)

lemma testCheckAndMutateFalse_runs:
  assumes "goodClock now" "rowSize C (lit ''no-such-row'') 98"
  shows "runs 1 C i (testCheckAndMutateFalse T now)
    (\<lambda>_ C' j. j = i + 2 \<and> C' = effects (lit ''no-such-row'') [cell ''cf1'' ''fallback'' (now 0) (lit ''false-branch'')] C)"
  unfolding testCheckAndMutateFalse_def One_nat_def Let_def
proof (intro cond_then [where b = False] failIf_then, goal_cases)
  case 6
  show ?case
  proof (rule reading_runs [OF rowSize_effects [OF assms(2)]], goal_cases)
    case (2 row)
    have "itemAt (lit ''no-such-row'') (lit ''cf1'') (lit ''fallback'') (millis (now 0)) (lit ''false-branch'') \<in> set (itemsOf row (lit ''cf1''))"
      by (intro item_member [OF 2]) simp
    moreover have "row \<noteq> None" using row_present [OF 2] by fastforce
    ultimately show ?case by (intro failIf_then failIf_runs) (auto simp: list_ex_iff itemAt_def trimPrefix_def rawBytes_def intro!: bexI)
  qed simp
qed (use assms(1) in simp_all)

lemma testCheckAndMutateValuePredicate_runs:
  assumes "goodClock now" "rowCells C (lit ''check-value-pred'') = {}"
  shows "runs 3 C i (testCheckAndMutateValuePredicate T now) (\<lambda>_ C' j. j = i + 4 \<and> C' = C)"
  unfolding testCheckAndMutateValuePredicate_def numeral_3_eq_3 Let_def
proof (intro applying_runs cond_then [where b = True] failIf_then, goal_cases)
  case (7 cs)
  let ?r = "lit ''check-value-pred''" and ?p = "lit ''active''"
  have "list_all alphanumeric ?p" by (simp add: rawBytes_def alphanumeric_def)
  then obtain re where re: "rq_compile (rqs (Suc i)) ?p = Inr re" "\<forall>s. re s \<longleftrightarrow> (\<exists>a b. s = a @ ?p @ b)" using literals [of ?p "Suc i"] by blast
  have "re ([] @ ?p @ [])" unfolding re(2) [rule_format] by (rule exI [of _ "[]"], rule exI [of _ "[]"]) (rule refl)
  let ?c = "\<lparr>c_rowKey = ?r, c_family = lit ''cf1'', c_qualifier = lit ''status'', c_ts = millis (now 0), c_value = ?p\<rparr>"
  have "?c \<in> set cs" using listing_mem [OF 7, of ?c] by simp
  moreover have "re (c_value ?c)" using \<open>re ([] @ ?p @ [])\<close> by simp
  ultimately have "\<exists>c \<in> set cs. re (c_value c)" by (rule bexI [rotated])
  then show ?case unfolding predicate_value [OF re(1)] by simp
next
  case 9
  show ?case
  proof (simp only: if_True option.case id_apply, rule reading_runs [OF rowSize_effects [OF rowSize_effects [OF rowSize_empty [OF assms(2)]]]], goal_cases)
    case (2 row)
    have m: "itemAt (lit ''check-value-pred'') (lit ''cf1'') (lit ''result'') (millis (now 1)) (lit ''matched'') \<in> set (allItems row)"
      by (intro all_member [OF 2]) simp
    have "row \<noteq> None" using row_present [OF 2] by fastforce
    then show ?case
      using m by (intro failIf_then deleting_runs [OF assms(2)]) (auto simp: list_ex_iff itemAt_def sameOutside_effects sameOutside_refl simp del: effects_simps intro!: bexI)
  qed simp
qed (use assms(1) in simp_all)

text \<open>The newest cell of a column, written before request \<open>i\<close>.\<close>

definition latestAt :: "(cellId \<Rightarrow> bytes option) \<Rightarrow> bytes \<Rightarrow> bytes \<Rightarrow> bytes \<Rightarrow> bytes \<Rightarrow> nat \<Rightarrow> bool" where
  "latestAt C r f q v i \<longleftrightarrow> isLatest C r f q v \<and> (\<forall>t. C (r, f, q, t) \<noteq> None \<longrightarrow> sint t \<le> sint (rq_clock (rqs i) 0))"

lemma latestAt_empty: "rowCells C r = {} \<Longrightarrow> latestAt C r f q [] i"
  by (simp add: latestAt_def isLatest_def empty_row)

lemma latestAt_set:
  assumes "latestAt C r f q cur i"
  shows "latestAt (C((r, f, q, rq_clock (rqs i) 0) \<mapsto> v)) r f q v (Suc i)"
proof -
  have "sint (rq_clock (rqs i) 0) \<le> sint (rq_clock (rqs (Suc i)) 0)" by (rule clock_forward) simp
  then show ?thesis using assms unfolding latestAt_def isLatest_def by (fastforce split: if_splits)
qed

lemma updating_then:
  assumes "latestAt C r f q cur i" "applyRule op cur = Inr v" "r \<noteq> [] \<and> f \<noteq> [] \<and> q \<noteq> [] \<and> length f < 255 \<and> length q < 65280 \<and> length v \<le> 65535"
    "\<And>row t. length (famItems row f) = 1 \<Longrightarrow> latestAt (C((r, f, q, t) \<mapsto> v)) r f q v (Suc i) \<Longrightarrow> runs k (C((r, f, q, t) \<mapsto> v)) (Suc i) (g row) R"
  shows "runs (Suc k) C i (andThen (calling (t_ApplyReadModifyWrite T r [\<lparr>ru_family = f, ru_qualifier = q, ru_rule = op\<rparr>]) w) g) R"
  using assms(2,3) latestAt_set [OF assms(1), of v] assms(1,4) unfolding latestAt_def [of C]
  by (intro rmw_then [where cur = cur and v = v]) simp_all

lemma counter_number [simp]: "0 \<le> n \<Longrightarrow> n < 2 ^ 63 \<Longrightarrow> counter (PutUint64 (word_of_int n)) = n"
  using length_PutUint64 [of "word_of_int n"] by (auto simp: counter_def unsigned_of_int take_bit_int_eq_self simp del: length_PutUint64)

lemma counter_Nil [simp]: "counter [] = 0"
  by (simp add: counter_def)

text \<open>A counter of eight bytes, missing when it is zero.\<close>

definition countsTo :: "(cellId \<Rightarrow> bytes option) \<Rightarrow> bytes \<Rightarrow> bytes \<Rightarrow> bytes \<Rightarrow> int \<Rightarrow> nat \<Rightarrow> bool" where
  "countsTo C r f q n i \<longleftrightarrow> (\<exists>cur. latestAt C r f q cur i \<and> (cur = [] \<or> length cur = 8) \<and> counter cur = n)"

lemma countsTo_empty: "rowCells C r = {} \<Longrightarrow> countsTo C r f q 0 i"
  unfolding countsTo_def using latestAt_empty [of C r f q i] by (intro exI [of _ "[]"]) simp

lemma incrementing_then:
  assumes "countsTo C r (lit f) (lit q) m i" "0 \<le> m" "m < 2 ^ 63" "0 \<le> m + sint n" "m + sint n < 2 ^ 63"
    "r \<noteq> [] \<and> f \<noteq> [] \<and> q \<noteq> [] \<and> length f < 255 \<and> length q < 65280"
    "\<And>row t v. length (famItems row (lit f)) = 1 \<Longrightarrow> countsTo (C((r, lit f, lit q, t) \<mapsto> v)) r (lit f) (lit q) (m + sint n) (Suc i) \<Longrightarrow>
       runs k (C((r, lit f, lit q, t) \<mapsto> v)) (Suc i) (g row) R"
  shows "runs (Suc k) C i (andThen (calling (t_ApplyReadModifyWrite T r (increment f q n)) w) g) R"
proof -
  obtain cur where cur: "latestAt C r (lit f) (lit q) cur i" "cur = [] \<or> length cur = 8" "counter cur = m"
    using assms(1) unfolding countsTo_def by blast
  define v where "v = PutUint64 (word_of_int (m + sint n))"
  have v: "length v = 8" "counter v = m + sint n" using assms(4,5) unfolding v_def by (simp_all del: of_int_add)
  have rule: "applyRule (IncrementAmount n) cur = Inr v" unfolding increment_iff cur(3) v_def using cur(2) assms(2-5) by blast
  show ?thesis unfolding increment_def
  proof (rule updating_then [OF cur(1) rule])
    fix row t assume "length (famItems row (lit f)) = 1" "latestAt (C((r, lit f, lit q, t) \<mapsto> v)) r (lit f) (lit q) v (Suc i)"
    then show "runs k (C((r, lit f, lit q, t) \<mapsto> v)) (Suc i) (g row) R"
      using v by (intro assms(7)) (auto simp: countsTo_def)
  qed (use assms(6) v(1) in simp)
qed

lemma rowSize_set: "rowSize C r n \<Longrightarrow> rowSize (C((r, f, q, t) \<mapsto> v)) r (Suc n)"
proof -
  assume "rowSize C r n"
  moreover have "card (insert (f, q, t) (rowCells C r)) \<le> Suc (card (rowCells C r))" by (rule card_insert_le_m1) simp_all
  ultimately show ?thesis by (simp add: rowSize_def rowCells_set)
qed

lemma sameOutside_set: "sameOutside R C D \<Longrightarrow> r \<in> R \<Longrightarrow> sameOutside R C (D((r, f, q, t) \<mapsto> v))"
  by (auto simp: sameOutside_def)

lemmas own_row = sameOutside_set sameOutside_effects sameOutside_refl rowSize_set rowSize_empty

lemma counter_read:
  assumes "rowSize C r 90" "R () (C((r, lit f, q, t) \<mapsto> v)) (Suc i)"
  shows "runs 0 (C((r, lit f, q, t) \<mapsto> v)) i (andThen (calling (t_ReadRow T r) w) (\<lambda>row. failIf (length (itemsOf row (lit f)) = 0) e)) R"
proof (rule reading_runs [OF rowSize_set [OF assms(1)]])
  fix row assume "rowShows (C((r, lit f, q, t) \<mapsto> v)) r row"
  from item_member [OF this fun_upd_same] have "length (itemsOf row (lit f)) \<noteq> 0" by auto
  then show "runs 0 (C((r, lit f, q, t) \<mapsto> v)) (Suc i) (failIf (length (itemsOf row (lit f)) = 0) e) R" using assms(2) by (intro failIf_runs)
qed simp

lemma rowSize_le: "rowSize C r m \<Longrightarrow> m \<le> n \<Longrightarrow> rowSize C r n"
  by (simp add: rowSize_def)

lemma testIncrement_runs:
  assumes "rowCells C (lit ''counter-row'') = {}"
  shows "runs 3 C i (testIncrement T) (\<lambda>_ C' j. j = i + 4 \<and> rowSize C' (lit ''counter-row'') 3 \<and> sameOutside {lit ''counter-row''} C C')"
  unfolding testIncrement_def numeral_3_eq_3 forEach.simps andThen_assoc pass_andThen
  apply (rule incrementing_then [OF countsTo_empty [OF assms]]; (simp; fail)?)
  apply (rule failIf_then, simp)
  apply (rule incrementing_then, assumption; (simp; fail)?)
  apply (rule failIf_then, simp)
  apply (rule incrementing_then, assumption; (simp; fail)?)
  apply (rule failIf_then, simp)
  apply (rule counter_read)
   apply (rule rowSize_le [of _ _ 2])
    apply (simp_all add: own_row numeral_2_eq_2 assms)
  done

lemma testNegativeIncrement_runs:
  assumes "rowCells C (lit ''neg-inc-test'') = {}"
  shows "runs 2 C i (testNegativeIncrement T) (\<lambda>_ C' j. j = i + 3 \<and> rowSize C' (lit ''neg-inc-test'') 2 \<and> sameOutside {lit ''neg-inc-test''} C C')"
  unfolding testNegativeIncrement_def numeral_2_eq_2 Let_def
  apply (rule incrementing_then [OF countsTo_empty [OF assms]]; (simp; fail)?)
  apply (rule failIf_then, simp)
  apply (rule incrementing_then, assumption; (simp; fail)?)
  apply (rule counter_read)
   apply (rule rowSize_le [of _ _ 1])
    apply (simp_all add: own_row assms)
  done

lemma testAppend_runs:
  assumes "rowCells C (lit ''append-row'') = {}"
  shows "runs 2 C i (testAppend T) (\<lambda>_ C' j. j = i + 3 \<and> rowSize C' (lit ''append-row'') 2 \<and> sameOutside {lit ''append-row''} C C')"
  unfolding testAppend_def appendValue_def numeral_2_eq_2
proof (rule updating_then [OF latestAt_empty [OF assms], where v = "lit ''hello''"], goal_cases)
  case (3 row t)
  let ?r = "lit ''append-row''" and ?f = "lit ''log''" and ?q = "lit ''events''"
  show ?case
  proof (intro failIf_then updating_then [OF 3(2), where v = "lit ''hello world''"], goal_cases)
    case (4 row' t')
    let ?D = "C((?r, ?f, ?q, t) \<mapsto> lit ''hello'', (?r, ?f, ?q, t') \<mapsto> lit ''hello world'')"
    show ?case
    proof (rule reading_runs [of _ _ 2], goal_cases)
      case (3 row)
      have L: "isLatest ?D ?r ?f ?q (lit ''hello world'')" using 4(2) by (simp add: latestAt_def)
      have "\<forall>q' t. ?D (?r, ?f, q', t) \<noteq> None \<longrightarrow> q' = ?q" using assms by (auto simp: empty_row split: if_splits)
      moreover have "\<exists>t. ?D (?r, ?f, ?q, t) \<noteq> None" by (rule exI [of _ t']) simp
      ultimately obtain u xs where "itemsOf row ?f = itemAt ?r ?f ?q u (lit ''hello world'') # xs" using shows_newest [OF 3 _ L] by blast
      moreover have "trimPrefix (ri_column (itemAt ?r ?f ?q u v)) (lit ''log:'') = ?q" for v by (simp add: itemAt_def trimPrefix_def rawBytes_def)
      ultimately show ?case by (auto simp: itemAt_def own_row assms numeral_2_eq_2 intro!: failIf_runs)
    qed (simp_all add: own_row assms numeral_2_eq_2)
  qed (use 3(1) in \<open>simp_all add: applyRule_def rawBytes_def\<close>)
qed (simp_all add: applyRule_def)

section \<open>Loops\<close>

lemma runs_seq:
  assumes "runs k C i m (\<lambda>_ C' j. j = i' \<and> C' = D)" "\<And>x. runs l D i' (f x) R"
  shows "runs (k + l) C i (andThen m f) R"
  using assms by (intro runs_then [OF assms(1)]) auto

lemma forEach_applies:
  assumes "r \<noteq> []" "\<And>x. x \<in> set xs \<Longrightarrow> ops x \<noteq> [] \<and> fitOps (ops x)"
  shows "runs (length xs) C i (forEach xs (\<lambda>x. applying T r (ops x) (w x) (pass ()))) (\<lambda>_ C' j. j = i + length xs \<and> C' = effects r (concat (map ops xs)) C)"
  using assms(2)
proof (induction xs arbitrary: C i)
  case (Cons x xs)
  have "runs (Suc 0) C i (applying T r (ops x) (w x) (pass ())) (\<lambda>_ C' j. j = Suc i \<and> C' = effects r (ops x) C)"
    using Cons.prems assms(1) by (intro applying_runs runs_pass) auto
  moreover have "runs (length xs) (effects r (ops x) C) (Suc i) (forEach xs (\<lambda>x. applying T r (ops x) (w x) (pass ())))
      (\<lambda>_ C' j. j = i + length (x # xs) \<and> C' = effects r (concat (map ops (x # xs))) C)"
    using Cons.IH [of "effects r (ops x) C" "Suc i"] Cons.prems by simp
  ultimately show ?case using runs_seq [of "Suc 0" C i _ "Suc i" _ "length xs"] by simp
qed (simp add: runs_pass)

lemma forEach_reads:
  assumes "\<And>x j. x \<in> set xs \<Longrightarrow> runs 0 D j (f x) (\<lambda>_ C' j'. j' = Suc j \<and> C' = D)"
  shows "runs 0 D i (forEach xs f) (\<lambda>_ C' j. j = i + length xs \<and> C' = D)"
  using assms
proof (induction xs arbitrary: i)
  case (Cons x xs)
  have "runs 0 D (Suc i) (forEach xs f) (\<lambda>_ C' j. j = i + length (x # xs) \<and> C' = D)" using Cons.IH [of "Suc i"] Cons.prems by simp
  moreover have "runs 0 D i (f x) (\<lambda>_ C' j'. j' = Suc i \<and> C' = D)" using Cons.prems by simp
  ultimately show ?case using runs_seq [of 0 D i "f x" "Suc i" D 0] by simp
qed (simp add: runs_pass)

text \<open>Requests that all succeed are like a loop.\<close>

lemma collecting_passes: "forEach xs f s = (Inr (), s') \<Longrightarrow> collecting xs f s = ([], s')"
  by (induction xs arbitrary: s) (auto simp: pass_def andThen_def split: prod.splits sum.splits)

lemma waiting_runs: "runs k C i (forEach xs f) R \<Longrightarrow> runs k C i (waiting xs f) R"
  unfolding runs_def waiting_def using collecting_passes by fastforce

lemma ignoring_runs: "runs k C i m R \<Longrightarrow> runs k C i (ignoring m) R"
  unfolding runs_def ignoring_def
proof (intro allI impI)
  fix sv n assume "\<forall>sv n. cleanTable C \<longrightarrow> served name sv (n + k) C \<longrightarrow>
      (\<exists>x sv' C' j. m (sv, i) = (Inr x, sv', j) \<and> served name sv' n C' \<and> cleanTable C' \<and> R x C' j)" "cleanTable C" "served name sv (n + k) C"
  then obtain x sv' C' j where "m (sv, i) = (Inr x, sv', j)" "served name sv' n C'" "cleanTable C'" "R x C' j" by blast
  then show "\<exists>x sv' C' j. (Inr (), snd (m (sv, i))) = (Inr x, sv', j) \<and> served name sv' n C' \<and> cleanTable C' \<and> R x C' j" by auto
qed

lemma testApplyBulk_runs:
  assumes "goodClock now" "\<And>r. r \<in> {lit ''bulk1'', lit ''bulk2'', lit ''bulk3''} \<Longrightarrow> rowSize C r 90"
  shows "runs 1 C i (testApplyBulk T now) (\<lambda>_ C' j. j = i + 4 \<and> sameOutside {lit ''bulk1'', lit ''bulk2'', lit ''bulk3''} C C')"
proof -
  define opss where "opss = map (\<lambda>i. [cell ''cf1'' ''val'' (now i) (lit (''bulk-'' @ decimal i))]) [0..<3]"
  define D where "D = bulkEffects [lit ''bulk1'', lit ''bulk2'', lit ''bulk3''] opss C"
  have u: "[0..<3] = [0, 1, 2 :: nat]" by (simp add: upt_rec)
  have d: "length (decimal i) \<le> 65531" if "i < 3" for i using length_decimal [of 1 i] that by simp
  have D3: "D = C((lit ''bulk1'', lit ''cf1'', lit ''val'', millis (now 0)) \<mapsto> lit (''bulk-'' @ decimal 0),
      (lit ''bulk2'', lit ''cf1'', lit ''val'', millis (now 1)) \<mapsto> lit (''bulk-'' @ decimal 1),
      (lit ''bulk3'', lit ''cf1'', lit ''val'', millis (now 2)) \<mapsto> lit (''bulk-'' @ decimal 2))"
    by (simp add: D_def opss_def bulkEffects_def u)
  have size: "rowSize D r 93" if "r \<in> {lit ''bulk1'', lit ''bulk2'', lit ''bulk3''}" for r
  proof -
    have "rowSize (E((r', f, q, t) \<mapsto> v)) r (Suc n)" if "rowSize E r n" for E r' f q t v n
      using rowSize_set [OF that] that rowSize_le [of E r n "Suc n"] by (cases "r' = r") (auto simp: rowSize_def rowCells_set)
    from this [OF this [OF this [OF assms(2) [OF that]]]] show ?thesis unfolding D3 by simp
  qed
  have present: "\<exists>f q t. D (r, f, q, t) \<noteq> None" if "r \<in> {lit ''bulk1'', lit ''bulk2'', lit ''bulk3''}" for r
    using that unfolding D3 by auto
  have read: "runs 0 D j (andThen (calling (t_ReadRow T (lit key)) w) (\<lambda>row. failIf (row = None) e)) (\<lambda>_ C' j'. j' = Suc j \<and> C' = D)"
    if "key \<in> set [''bulk1'', ''bulk2'', ''bulk3'']" for key j w e
  proof (rule reading_runs [of _ _ 93])
    show "rowSize D (lit key) 93" using size that by auto
    fix row assume "rowShows D (lit key) row"
    then have "row \<noteq> None" using shows_nil present [of "lit key"] that by fastforce
    then show "runs 0 D (Suc j) (failIf (row = None) e) (\<lambda>_ C' j'. j' = Suc j \<and> C' = D)" by (intro failIf_runs) simp_all
  qed simp
  have so: "sameOutside {lit ''bulk1'', lit ''bulk2'', lit ''bulk3''} C D" unfolding D3 by (simp add: own_row)
  have rd: "runs 0 D (Suc i) (forEach [''bulk1'', ''bulk2'', ''bulk3''] (\<lambda>key. andThen (calling (t_ReadRow T (lit key)) (w key)) (\<lambda>row. failIf (row = None) (e key))))
      (\<lambda>_ C' j. j = i + 4 \<and> C' = D)" for w e
    using forEach_reads [where xs = "[''bulk1'', ''bulk2'', ''bulk3'']" and i = "Suc i", OF read] by (simp add: numeral_eq_Suc)
  have loop: "runs 0 D (Suc i) (forEach [''bulk1'', ''bulk2'', ''bulk3''] (\<lambda>key. andThen (calling (t_ReadRow T (lit key)) (w key)) (\<lambda>row. failIf (row = None) (e key))))
      (\<lambda>_ C' j. j = i + 4 \<and> sameOutside {lit ''bulk1'', lit ''bulk2'', lit ''bulk3''} C C')" for w e
    by (rule runs_weaken [OF rd]) (use so in simp)
  have m: "map (\<lambda>i. Mutation [cell ''cf1'' ''val'' (now i) (lit (''bulk-'' @ decimal i))]) [0..<3] = map Mutation opss" by (simp add: opss_def)
  have "list_all fitOps opss" "length opss = 3" using assms(1) d by (auto simp: opss_def list_all_iff maxCellChunkValueSize_def)
  then show ?thesis
    unfolding testApplyBulk_def Let_def One_nat_def m
    using loop [unfolded D_def] by (intro bulk_then) simp_all
qed

lemma testApplyBulkEmpty_runs: "runs 0 C i (testApplyBulkEmpty T) (\<lambda>_ C' j. j = i \<and> C' = C)"
  unfolding testApplyBulkEmpty_def by (intro bulk_none_then runs_pass) simp

lemma testSampleRowKeys_runs: "runs 0 C i (testSampleRowKeys T) (\<lambda>_ C' j. j = i + 1 \<and> C' = C)"
  unfolding testSampleRowKeys_def by (intro sample_then runs_pass) simp

lemma testDeleteFromColumn_runs:
  assumes "goodClock now" "rowCells C (lit ''delete-col-test'') = {}"
  shows "runs 2 C i (testDeleteFromColumn T now) (\<lambda>_ C' j. j = i + 3 \<and> sameOutside {lit ''delete-col-test''} C C')"
  unfolding testDeleteFromColumn_def Let_def numeral_2_eq_2
proof (intro applying_runs reading_runs [OF rowSize_effects [OF rowSize_effects [OF rowSize_empty [OF assms(2)]]]], goal_cases)
  case (8 row)
  have "itemsOf row (lit ''cf1'') = [itemAt (lit ''delete-col-test'') (lit ''cf1'') (lit ''keep'') (millis (now 0)) (lit ''stay'')]"
    using assms(2) by (intro single_item [OF 8]) (auto simp del: effect.simps(2), simp)
  then show ?case by (intro failIf_then failIf_runs) (simp_all add: itemAt_def own_row del: effects_simps)
qed (use assms in simp_all)

lemma testDeleteFromFamily_runs:
  assumes "goodClock now" "rowCells C (lit ''delete-fam-test'') = {}"
  shows "runs 2 C i (testDeleteFromFamily T now) (\<lambda>_ C' j. j = i + 3 \<and> sameOutside {lit ''delete-fam-test''} C C')"
  unfolding testDeleteFromFamily_def Let_def numeral_2_eq_2
proof (intro applying_runs reading_runs [OF rowSize_effects [OF rowSize_effects [OF rowSize_empty [OF assms(2)]]]], goal_cases)
  case (8 row)
  have "length (itemsOf row (lit ''cf2'')) = 0" "length (itemsOf row (lit ''cf1'')) = 1"
    unfolding shows_count [OF 8] using assms(2) by (simp_all del: effect.simps(4))
  then show ?case by (intro failIf_then failIf_runs) (simp_all add: own_row del: effects_simps)
qed (use assms in simp_all)

lemma testDeleteFromRow_runs:
  assumes "goodClock now" "rowCells C (lit ''delete-row-test'') = {}"
  shows "runs 2 C i (testDeleteFromRow T now) (\<lambda>_ C' j. j = i + 3 \<and> C' = C)"
  unfolding testDeleteFromRow_def Let_def numeral_2_eq_2
proof (intro applying_runs, goal_cases)
  case 7
  have D: "effects (lit ''delete-row-test'') [MDeleteRow] (effects (lit ''delete-row-test'')
      [cell ''cf1'' ''a'' (now 0) (lit ''delete-me''), cell ''cf2'' ''b'' (now 1) (lit ''delete-me-too'')] C) = C"
    unfolding effects_simps(2) [of _ MDeleteRow "[]"] effects_simps(1) by (intro delete_restores [OF assms(2)] own_row) simp
  show ?case unfolding D
  proof (rule reading_runs [OF rowSize_empty [OF assms(2)]])
    fix row assume "rowShows C (lit ''delete-row-test'') row"
    then have "row = None" using shows_nil assms(2) by (simp add: empty_row)
    then show "runs 0 C (Suc (Suc (Suc i))) (failIf (row \<noteq> None) (newError ''expected nil row after DeleteRow'')) (\<lambda>_ C' j. j = i + 3 \<and> C' = C)"
      by (intro failIf_runs) simp_all
  qed simp
qed (use assms(1) in simp_all)

text \<open>Cells a minute apart.\<close>

lemma sint_minutes:
  assumes "0 \<le> ns" "ns < 2 ^ 63"
  shows "sint (millis (t_Time T ns)) = ns div 10 ^ 6 * 1000" "0 \<le> sint (t_Time T ns)"
proof -
  have t: "sint (t_Time T ns) = ns div 1000" by (rule time_micros [OF assms])
  then show n: "0 \<le> sint (t_Time T ns)" using assms(1) by (simp add: pos_imp_zdiv_nonneg_iff)
  show "sint (millis (t_Time T ns)) = ns div 10 ^ 6 * 1000" using sint_millis [OF n] t by (simp flip: zdiv_zmult2_eq)
qed

lemma sint_minute:
  assumes "0 \<le> t + minutes m" "t + minutes m < 2 ^ 63"
  shows "sint (millis (t_Time T (t + minutes m))) = t div 10 ^ 6 * 1000 + m * 60000000" "0 \<le> sint (t_Time T (t + minutes m))"
proof -
  have "t + minutes m = t + (m * 60000) * 10 ^ 6" by (simp add: minutes_def)
  then have "(t + minutes m) div 10 ^ 6 = t div 10 ^ 6 + m * 60000" by (simp del: mult.assoc)
  then show "sint (millis (t_Time T (t + minutes m))) = t div 10 ^ 6 * 1000 + m * 60000000" "0 \<le> sint (t_Time T (t + minutes m))"
    using sint_minutes [OF assms] by (simp_all add: algebra_simps)
qed

lemma testDeleteTimestampRange_runs:
  assumes "0 \<le> t" "t + minutes 4 < 2 ^ 63" "rowCells C (lit ''delete-ts-test'') = {}" "1000000 \<le> t"
  shows "runs 7 C i (testDeleteTimestampRange T t) (\<lambda>_ C' j. j = i + 8 \<and> C' = C)"
proof -
  let ?r = "lit ''delete-ts-test''" and ?op = "\<lambda>i. cell ''cf1'' ''val'' (t_Time T (t + minutes (int i))) (lit (''v'' @ decimal i))"
  let ?D = "effects ?r (concat (map (\<lambda>i. [?op i]) [0..<5])) C"
  let ?w = "\<lambda>m. millis (t_Time T (t + minutes m))"
  have w: "sint (?w m) = t div 10 ^ 6 * 1000 + m * 60000000" "0 \<le> sint (t_Time T (t + minutes m))" if "0 \<le> m" "m \<le> 4" for m
    using that assms(1,2) sint_minute [of t m] by (simp_all add: minutes_def)
  have d: "length (decimal k) \<le> 65535" if "k < 5" for k using length_decimal [of 1 k] that by simp
  have loop: "runs 5 C i (forEach [0..<5] (\<lambda>i. applying T ?r [?op i] Returned (pass ()))) (\<lambda>_ C' j. j = i + 5 \<and> C' = ?D)"
    using forEach_applies [of ?r "[0..<5]" "\<lambda>i. [?op i]" C i "\<lambda>_. Returned"] w(2) d by (simp add: maxCellChunkValueSize_def)
  let ?E = "effects ?r [MDeleteTimestampRange (lit ''cf1'') (lit ''val'') (t_Time T (t + minutes 1)) (t_Time T (t + minutes 3))] ?D"
  have u: "[0..<5] = [0, 1, 2, 3, 4 :: nat]" by (simp add: upt_rec)
  have "familyCells ?E ?r (lit ''cf1'') = {(lit ''val'', ?w 0), (lit ''val'', ?w 3), (lit ''val'', ?w 4)}"
    using w(1) [of 0] w(1) [of 1] w(1) [of 2] w(1) [of 3] w(1) [of 4] assms(3) unfolding u by (auto simp del: effect.simps(3))
  moreover have "?w 0 \<noteq> ?w 3" "?w 0 \<noteq> ?w 4" "?w 3 \<noteq> ?w 4" using w(1) [of 0] w(1) [of 3] w(1) [of 4] by auto
  ultimately have c: "card (familyCells ?E ?r (lit ''cf1'')) = 3" by simp
  have "runs 2 ?D (i + 5) (applying T ?r [MDeleteTimestampRange (lit ''cf1'') (lit ''val'') (t_Time T (t + minutes 1)) (t_Time T (t + minutes 3))] Returned (
      andThen (calling (t_ReadRow T ?r) Returned) (\<lambda>row.
      andThen (failIf (length (itemsOf row (lit ''cf1'')) \<noteq> 3) (expected ''expected 3 cells (0, 3, 4 min) after timestamp range delete, got %d'' (length (itemsOf row (lit ''cf1''))))) (\<lambda>_.
      deleting T ?r)))) (\<lambda>_ C' j. j = i + 8 \<and> C' = C)"
    unfolding numeral_2_eq_2
  proof (intro applying_runs reading_runs [OF rowSize_effects [OF rowSize_effects [OF rowSize_empty [OF assms(3)]]]] failIf_then deleting_runs [OF assms(3)], goal_cases)
    case (3 )
    have "1000 \<le> sint (t_Time T (t + minutes 3))" using time_micros [of "t + minutes 3"] assms(1,2,4) by (simp add: minutes_def)
    then show ?case using w(2) [of 1] by (simp add: fitOps_def)
  next
    case (5 row)
    then show ?case using shows_count [OF 5] c by simp
  qed (simp_all add: own_row del: effects_simps)
  from runs_seq [OF loop this] show ?thesis unfolding testDeleteTimestampRange_def Let_def by simp
qed

section \<open>Concurrent requests\<close>

lemma testCheckAndMutateConcurrentSameRow_runs:
  assumes "goodClock now" "rowCells C (lit ''concurrent-check-row'') = {}" "distinct order" "set order = {0..<5}"
  shows "runs 7 C i (testCheckAndMutateConcurrentSameRow T now order) (\<lambda>_ C' j. j = i + 8 \<and> C' = C)"
proof -
  let ?r = "lit ''concurrent-check-row''" and ?f = "lit ''cf1''"
  let ?seed = "cell ''cf1'' ''data'' (now 0) (lit ''initial'')" and ?mark = "\<lambda>n. cell ''cf1'' (''marker-'' @ decimal n) (now (Suc n)) (lit ''done'')"
  let ?C1 = "effects ?r [?seed] C"
  have d: "length (decimal n) \<le> 10" if "n < 5" for n using length_decimal [of 1 n] that by simp
  have loop: "runs (length ns) D j (forEach ns (\<lambda>n. andThen (calling (t_Apply T ?r (CondMutation (PassAllFilter True) (Some [?mark n]) None)) (w n)) (\<lambda>_. pass ())))
      (\<lambda>_ C' j'. j' = j + length ns \<and> C' = effects ?r (map ?mark ns) D)" if "set ns \<subseteq> {0..<5}" "D (?r, ?f, lit ''data'', millis (now 0)) = Some v" for ns D j w v
    using that
  proof (induction ns arbitrary: D j v)
    case (Cons n ns)
    let ?D = "effects ?r [?mark n] D"
    have "n < 5" using Cons.prems(1) by simp
    then have "fitOps [?mark n]" using assms(1) d [of n] by simp
    then have 1: "runs (Suc 0) D j (andThen (calling (t_Apply T ?r (CondMutation (PassAllFilter True) (Some [?mark n]) None)) (w n)) (\<lambda>_. pass ()))
        (\<lambda>_ C' j'. j' = Suc j \<and> C' = ?D)"
      using listing_some [where C = D and r = ?r and v = v] Cons.prems(2) by (intro cond_then [where b = True] runs_pass) auto
    have "\<exists>v. ?D (?r, ?f, lit ''data'', millis (now 0)) = Some v" using Cons.prems(2) by simp
    then obtain v' where "?D (?r, ?f, lit ''data'', millis (now 0)) = Some v'" ..
    then have "runs (length ns) ?D (Suc j) (forEach ns (\<lambda>n. andThen (calling (t_Apply T ?r (CondMutation (PassAllFilter True) (Some [?mark n]) None)) (w n)) (\<lambda>_. pass ())))
        (\<lambda>_ C' j'. j' = Suc j + length ns \<and> C' = effects ?r (map ?mark ns) ?D)"
      using Cons.prems(1) by (intro Cons.IH) (simp, assumption)
    from runs_seq [OF 1 this] show ?case by simp
  qed (simp add: runs_pass)
  let ?D = "effects ?r (map ?mark order) ?C1"
  have n: "length order = 5" using distinct_card [OF assms(3)] assms(4) by simp
  have w: "runs 5 ?C1 (Suc i) (waiting order (\<lambda>n. andThen (calling (t_Apply T ?r (CondMutation (PassAllFilter True) (Some [?mark n]) None)) (w n)) (\<lambda>_. pass ())))
      (\<lambda>_ C' j. j = i + 6 \<and> C' = ?D)" for w
    using waiting_runs [OF loop [of order ?C1 "lit ''initial''" "Suc i"]] assms(4) n by (simp add: numeral_eq_Suc)
  have mark: "effects r (map ?mark ns) E (r, ?f, lit (''marker-'' @ decimal n), millis (now (Suc n))) = Some (lit ''done'')"
    if "n \<in> set ns \<or> E (r, ?f, lit (''marker-'' @ decimal n), millis (now (Suc n))) = Some (lit ''done'')" for ns E r n
    using that by (induction ns arbitrary: E) auto
  have rest: "runs 1 ?D (i + 6) (andThen (calling (t_ReadRow T ?r) Returned) (\<lambda>row.
      andThen (failIf (row = None) (newError ''row not found after concurrent CheckAndMutateRow'')) (\<lambda>_.
      andThen (forEach [0..<5] (\<lambda>i. failIf (\<not> list_ex (\<lambda>item. ri_column item = lit (''cf1:marker-'' @ decimal i)) (allItems row)) (w i))) (\<lambda>_.
      deleting T ?r)))) (\<lambda>_ C' j. j = i + 8 \<and> C' = C)" for w
  proof (rule reading_runs [OF rowSize_effects [OF rowSize_effects [OF rowSize_empty [OF assms(2)]]]])
    fix row assume r: "rowShows ?D ?r row"
    have m: "itemAt ?r ?f (lit (''marker-'' @ decimal k)) (millis (now (Suc k))) (lit ''done'') \<in> set (allItems row)" if "k < 5" for k
      using that assms(4) by (intro all_member [OF r] mark) simp
    have c: "ri_column (itemAt ?r ?f (lit (''marker-'' @ decimal k)) ts v) = lit (''cf1:marker-'' @ decimal k)" for k ts v
      by (simp add: itemAt_def rawBytes_def)
    have "list_ex (\<lambda>item. ri_column item = lit (''cf1:marker-'' @ decimal k)) (allItems row)" if "k < 5" for k
      unfolding list_ex_iff using m [OF that] c by blast
    then have loop: "forEach [0..<5] (\<lambda>i. failIf (\<not> list_ex (\<lambda>item. ri_column item = lit (''cf1:marker-'' @ decimal i)) (allItems row)) (w i)) = pass ()"
      by (intro forEach_pass failIf_pass) simp
    have "row \<noteq> None" using row_present [OF r mark [of 0 order]] assms(4) by simp
    then show "runs 1 ?D (Suc (i + 6)) (andThen (failIf (row = None) (newError ''row not found after concurrent CheckAndMutateRow'')) (\<lambda>_.
      andThen (forEach [0..<5] (\<lambda>i. failIf (\<not> list_ex (\<lambda>item. ri_column item = lit (''cf1:marker-'' @ decimal i)) (allItems row)) (w i))) (\<lambda>_.
      deleting T ?r))) (\<lambda>_ C' j. j = i + 8 \<and> C' = C)"
      unfolding loop pass_andThen One_nat_def by (intro failIf_then deleting_runs [OF assms(2)]) (simp_all add: own_row del: effects_simps)
  qed (simp add: n)
  have "runs (Suc (5 + 1)) C i (testCheckAndMutateConcurrentSameRow T now order) (\<lambda>_ C' j. j = i + 8 \<and> C' = C)"
    unfolding testCheckAndMutateConcurrentSameRow_def Let_def using assms(1)
    by (intro applying_runs runs_seq [OF w rest]) simp_all
  then show ?thesis by simp
qed

text \<open>The rows of goroutines: \<open>K n\<close> is the row of \<open>n\<close>. After the rows \<open>S\<close> are restored, only the others differ.\<close>

lemma visit_rows:
  assumes "inj K" "\<And>n. n \<in> S \<Longrightarrow> rowCells C (K n) = {}" "\<And>n. n \<in> S \<Longrightarrow> K n \<noteq> [] \<and> rowSize D (K n) 90 \<and> D (K n, f, q, t n) \<noteq> None"
    "distinct ns" "set ns = S" "sameOutside (K ` S) C D"
  shows "runs (length ns) D i (forEach ns (\<lambda>n. andThen (calling (t_ReadRow T (K n)) (w n)) (\<lambda>row. andThen (failIf (row = None) (e n)) (\<lambda>_.
      ignoring (deleting T (K n)))))) (\<lambda>_ C' j. j = i + 2 * length ns \<and> C' = C)"
  using assms(2-)
proof (induction ns arbitrary: D S i)
  case Nil
  then have "D = C" by (auto simp: sameOutside_def fun_eq_iff)
  then show ?case by (auto intro: runs_pass)
next
  case (Cons n ns)
  let ?D = "effect (K n) MDeleteRow D"
  have n: "n \<in> S" "S = insert n (set ns)" "n \<notin> set ns" using Cons.prems(3,4) by auto
  have other: "?D (K m, f', q', t') = D (K m, f', q', t')" if "m \<noteq> n" for m f' q' t' using that inj_eq [OF assms(1)] by simp
  have 1: "runs (Suc 0) D i (andThen (calling (t_ReadRow T (K n)) (w n)) (\<lambda>row. andThen (failIf (row = None) (e n)) (\<lambda>_. ignoring (deleting T (K n)))))
      (\<lambda>_ C' j. j = i + 2 \<and> C' = ?D)"
  proof (rule reading_runs [of _ _ 90])
    fix row assume r: "rowShows D (K n) row"
    have "row \<noteq> None" using shows_nil [OF r] Cons.prems(2) [OF n(1)] by metis
    moreover have "runs (Suc 0) D (Suc i) (deleting T (K n)) (\<lambda>_ C' j. j = i + 2 \<and> C' = ?D)"
      unfolding deleting_def using Cons.prems(2) [OF n(1)] by (intro applying_runs runs_pass) simp_all
    ultimately show "runs (Suc 0) D (Suc i) (andThen (failIf (row = None) (e n)) (\<lambda>_. ignoring (deleting T (K n)))) (\<lambda>_ C' j. j = i + 2 \<and> C' = ?D)"
      by (intro failIf_then ignoring_runs) simp_all
  qed (use Cons.prems(2) [OF n(1)] in simp_all)
  have "runs (length ns) ?D (i + 2) (forEach ns (\<lambda>n. andThen (calling (t_ReadRow T (K n)) (w n)) (\<lambda>row. andThen (failIf (row = None) (e n)) (\<lambda>_.
      ignoring (deleting T (K n)))))) (\<lambda>_ C' j. j = i + 2 + 2 * length ns \<and> C' = C)"
  proof (rule Cons.IH [of "set ns"])
    fix m assume m: "m \<in> set ns"
    then have "m \<in> S" "m \<noteq> n" using n by auto
    then show "rowCells C (K m) = {}" "K m \<noteq> [] \<and> rowSize ?D (K m) 90 \<and> ?D (K m, f, q, t m) \<noteq> None"
      using Cons.prems(1,2) other [of m] by (auto simp: rowSize_def rowCells_def simp del: effect.simps)
  next
    show "sameOutside (K ` set ns) C ?D"
      using Cons.prems(5) Cons.prems(1) [OF n(1)] n(2) by (auto simp: sameOutside_def empty_row)
  qed (use Cons.prems(3) in simp_all)
  from runs_seq [OF 1 this] show ?case by (simp add: algebra_simps)
qed

lemma decimal_inj: "decimal m = decimal n \<longleftrightarrow> m = n"
  by (metis digitsValue_decimal)

lemma concurrent_writes:
  assumes "goodClock now" "set ns \<subseteq> {0..<10}"
  defines "K \<equiv> \<lambda>n. lit (''concurrent-'' @ decimal n)"
  defines "op \<equiv> \<lambda>n. cell ''cf1'' ''data'' (now n) (lit (''concurrent-'' @ decimal n))"
  shows "\<exists>D. runs (length ns) C i (forEach ns (\<lambda>n. applying T (K n) [op n] (w n) (pass ()))) (\<lambda>_ C' j. j = i + length ns \<and> C' = D) \<and>
    sameOutside (K ` set ns) C D \<and> (\<forall>n. rowSize C (K n) m \<longrightarrow> rowSize D (K n) (m + length ns)) \<and>
    (\<forall>n. n \<in> set ns \<or> C (K n, lit ''cf1'', lit ''data'', millis (now n)) \<noteq> None \<longrightarrow> D (K n, lit ''cf1'', lit ''data'', millis (now n)) \<noteq> None)"
  using assms(2)
proof (induction ns arbitrary: C i m)
  case Nil
  show ?case by (rule exI [of _ C]) (auto intro: runs_pass own_row)
next
  case (Cons n ns)
  let ?C = "effects (K n) [op n] C"
  have "length (decimal n) \<le> 2" using length_decimal [of 2 n] Cons.prems by simp
  then have "fitOps [op n]" "K n \<noteq> []" using assms(1) by (simp_all add: op_def K_def)
  then have 1: "runs (Suc 0) C i (applying T (K n) [op n] (w n) (pass ())) (\<lambda>_ C' j. j = Suc i \<and> C' = ?C)"
    by (intro applying_runs runs_pass) simp_all
  from Cons.IH [of ?C "Suc i" "Suc m"] Cons.prems obtain D where
    D: "runs (length ns) ?C (Suc i) (forEach ns (\<lambda>n. applying T (K n) [op n] (w n) (pass ()))) (\<lambda>_ C' j. j = Suc i + length ns \<and> C' = D)"
    "sameOutside (K ` set ns) ?C D" "\<forall>n. rowSize ?C (K n) (Suc m) \<longrightarrow> rowSize D (K n) (Suc m + length ns)"
    "\<forall>n. n \<in> set ns \<or> ?C (K n, lit ''cf1'', lit ''data'', millis (now n)) \<noteq> None \<longrightarrow> D (K n, lit ''cf1'', lit ''data'', millis (now n)) \<noteq> None"
    by auto
  have size: "rowSize ?C (K n') (Suc m)" if "rowSize C (K n') m" for n'
    using that rowSize_set [OF that] rowSize_le [OF that, of "Suc m"] rowCells_other [of "K n" "K n'" "[op n]" C]
    by (cases "K n = K n'") (simp_all add: rowSize_def op_def rowCells_set)
  show ?case
  proof (intro exI [of _ D] conjI allI impI)
    show "runs (length (n # ns)) C i (forEach (n # ns) (\<lambda>n. applying T (K n) [op n] (w n) (pass ()))) (\<lambda>_ C' j. j = i + length (n # ns) \<and> C' = D)"
      using runs_seq [OF 1 D(1)] by simp
    show "sameOutside (K ` set (n # ns)) C D" using D(2) by (auto simp: sameOutside_def op_def)
    show "rowSize D (K n') (m + length (n # ns))" if "rowSize C (K n') m" for n' using D(3) size [OF that] by simp
    show "D (K n', lit ''cf1'', lit ''data'', millis (now n')) \<noteq> None"
      if "n' \<in> set (n # ns) \<or> C (K n', lit ''cf1'', lit ''data'', millis (now n')) \<noteq> None" for n'
      using that D(4) [rule_format, of n'] by (cases "n' = n") (auto simp: op_def)
  qed
qed

lemma testConcurrentWrites_runs:
  assumes "goodClock now" "distinct order" "set order = {0..<10}" "\<And>n. n < 10 \<Longrightarrow> rowCells C (lit (''concurrent-'' @ decimal n)) = {}"
  shows "runs 20 C i (testConcurrentWrites T now order) (\<lambda>_ C' j. j = i + 30 \<and> C' = C)"
proof -
  let ?K = "\<lambda>n. lit (''concurrent-'' @ decimal n)"
  have n: "length order = 10" using distinct_card [OF assms(2)] assms(3) by simp
  obtain D where D: "runs (length order) C i (forEach order (\<lambda>n. applying T (?K n) [cell ''cf1'' ''data'' (now n) (lit (''concurrent-'' @ decimal n))]
      (\<lambda>e. Errorf ''concurrent write %d: %w'' [FInt (int n), FErr (Some e)]) (pass ()))) (\<lambda>_ C' j. j = i + length order \<and> C' = D)"
    "sameOutside (?K ` set order) C D" "\<forall>n. rowSize C (?K n) 0 \<longrightarrow> rowSize D (?K n) (0 + length order)"
    "\<forall>n. n \<in> set order \<or> C (?K n, lit ''cf1'', lit ''data'', millis (now n)) \<noteq> None \<longrightarrow> D (?K n, lit ''cf1'', lit ''data'', millis (now n)) \<noteq> None"
    using concurrent_writes [OF assms(1), of order C i "\<lambda>n e. Errorf ''concurrent write %d: %w'' [FInt (int n), FErr (Some e)]" 0] assms(3) by auto
  have "runs (length [0..<10]) D (i + 10) (forEach [0..<10] (\<lambda>n. andThen (calling (t_ReadRow T (?K n)) (w n)) (\<lambda>row. andThen (failIf (row = None) (e n)) (\<lambda>_.
      ignoring (deleting T (?K n)))))) (\<lambda>_ C' j. j = i + 10 + 2 * length [0..<10] \<and> C' = C)" for w e
  proof (rule visit_rows [where S = "{0..<10}"])
    show "inj ?K" by (auto simp: inj_def decimal_inj)
    fix m :: nat assume m: "m \<in> {0..<10}"
    then show "rowCells C (?K m) = {}" using assms(4) by simp
    from rowSize_empty [OF this] have "rowSize D (?K m) 10" using D(3) n by simp
    then show "?K m \<noteq> [] \<and> rowSize D (?K m) 90 \<and> D (?K m, lit ''cf1'', lit ''data'', millis (now m)) \<noteq> None"
      using D(4) m assms(3) rowSize_le [of D "?K m" 10 90] by simp
  qed (use D(2) assms(3) in simp_all)
  from this [simplified] have "runs 10 D (i + 10) (forEach [0..<10] (\<lambda>n. andThen (calling (t_ReadRow T (?K n)) (w n)) (\<lambda>row. andThen (failIf (row = None) (e n)) (\<lambda>_.
      ignoring (deleting T (?K n)))))) (\<lambda>_ C' j. j = i + 30 \<and> C' = C)" for w e by (simp add: add.commute)
  then have "runs (10 + 10) C i (testConcurrentWrites T now order) (\<lambda>_ C' j. j = i + 30 \<and> C' = C)"
    unfolding testConcurrentWrites_def Let_def
    by (intro runs_seq [OF waiting_runs [OF D(1) [unfolded n]]]) simp
  then show ?thesis by simp
qed

section \<open>A long value\<close>

text \<open>The steps of a program whose cells need not all be short: a mutation, and a read of a row of one cell.\<close>

lemma apply_serves:
  assumes "served name sv (Suc n) C" "r \<noteq> []" "ops \<noteq> []" "list_all fitOp ops"
  shows "\<exists>sv'. t_Apply T r (Mutation ops) (sv, i) = (Inr False, (sv', Suc i)) \<and> served name sv' n (effects r ops C)"
proof -
  let ?req = "\<lparr>mr_tableName = name, mr_rowKey = r, mr_mutations = map wireOp ops\<rparr>"
  have w: "list_all wfMutation (mr_mutations ?req)" using assms(4) fit_wire by (auto simp: list_all_iff)
  obtain sv' where "MutateRow st P J (rqs i) ?req sv = (Inr (), sv')" "served name sv' n (effects r ops C)"
    using MutateRow_serves [of ?req sv n C, OF _ _ _ w requests [of i]] assms fit_effects [OF assms(4), of r C] by auto
  then show ?thesis using apply_sends by blast
qed

lemma readRow_split:
  assumes "served name sv n C" "listing C ((=) r) [c]" "namedCell c"
    "maxCellChunkValueSize < length (c_value c)" "length (c_value c) \<le> 2 * maxCellChunkValueSize"
  shows "\<exists>x sv'. t_ReadRow T r (sv, i) = (Inr (Some x), (sv', Suc i)) \<and> rowIs [c] x \<and> served name sv' n C"
proof -
  obtain l where l: "l = 0 \<or> l = 1" "\<And>sk' sv' cs. ReadRows st P J (rqs i) (rowRequest name r l None) newStream sv = (None, sk', sv') \<Longrightarrow>
      sentOn sk' = rowChunks cs \<or> (\<exists>c. cs = [c] \<and> c_value c \<noteq> [] \<and> length (c_value c) < 2 ^ 31 \<and> splitRow c (sentOn sk')) \<Longrightarrow> wellFramed False [cs] \<Longrightarrow>
      \<exists>row. t_ReadRow T r (sv, i) = (Inr row, (sv', Suc i)) \<and> (case row of None \<Rightarrow> cs = [] | Some x \<Rightarrow> cs \<noteq> [] \<and> rowIs cs x)"
    using row_sends [of i r sv] by blast
  obtain sk' sv' where "ReadRows st P J (rqs i) (rowRequest name r l None) newStream sv = (None, sk', sv')" "served name sv' n C" "splitRow c (sentOn sk')"
    using ReadRow_split_serves [OF assms(1,2) l(1) assms(3-5)] by blast
  moreover have "c_value c \<noteq> [] \<and> length (c_value c) < 2 ^ 31" using assms(4,5) by (auto simp: maxCellChunkValueSize_def)
  moreover have "wellFramed False [[c]]" using assms(3) by (simp add: wellFramed_def)
  ultimately obtain row where "t_ReadRow T r (sv, i) = (Inr row, (sv', Suc i))" "case row of None \<Rightarrow> [c] = [] | Some x \<Rightarrow> [c] \<noteq> [] \<and> rowIs [c] x"
    using l(2) [of sk' sv' "[c]"] by blast
  then show ?thesis using \<open>served name sv' n C\<close> by (cases row) auto
qed

lemma testReadRowsLargeValue_runs:
  assumes "goodClock now" "rowCells C (lit ''large-val-test'') = {}"
  shows "runs 2 C i (testReadRowsLargeValue T now) (\<lambda>_ C' j. j = i + 3 \<and> C' = C)"
  unfolding runs_def
proof (intro allI impI)
  fix sv n assume c: "cleanTable C" "served name sv (n + 2) C"
  define val where "val = map largeByte [0..<100 * 1024]"
  have val: "length val = 102400" "\<And>i. i < 102400 \<Longrightarrow> val ! i = largeByte i" by (simp_all add: val_def)
  let ?r = "lit ''large-val-test''" and ?op = "MSet (lit ''cf1'') (lit ''big'') (now 0) val"
  let ?c = "\<lparr>c_rowKey = ?r, c_family = lit ''cf1'', c_qualifier = lit ''big'', c_ts = millis (now 0), c_value = val\<rparr>"
  let ?D = "effects ?r [?op] C"
  obtain sv1 where 1: "t_Apply T ?r (Mutation [?op]) (sv, i) = (Inr False, (sv1, Suc i))" "served name sv1 (Suc n) ?D"
    using apply_serves [of sv "Suc n" C ?r "[?op]" i] c(2) assms(1) by auto
  have L: "listing ?D ((=) ?r) [?c]"
  proof -
    have "c' = ?c \<longleftrightarrow> ?r = c_rowKey c' \<and> ?D (cellAt c') = Some (c_value c')" for c'
      using assms(2) by (cases c') (auto simp: cellAt_def empty_row split: if_splits)
    then show ?thesis by (simp add: listing_def)
  qed
  obtain x sv2 where 2: "t_ReadRow T ?r (sv1, Suc i) = (Inr (Some x), (sv2, Suc (Suc i)))" "rowIs [?c] x" "served name sv2 (Suc n) ?D"
    using readRow_split [OF 1(2) L, of "Suc i"] val(1) by (auto simp: namedCell_def maxCellChunkValueSize_def)
  have D: "effects ?r [MDeleteRow] ?D = C"
    unfolding effects_simps(2) [of _ MDeleteRow "[]"] effects_simps(1) by (intro delete_restores [OF assms(2)] own_row) simp
  obtain sv3 where 3: "t_Apply T ?r (Mutation [MDeleteRow]) (sv2, Suc (Suc i)) = (Inr False, (sv3, i + 3))" "served name sv3 n C"
    using apply_serves [OF 2(3), of ?r "[MDeleteRow]" "Suc (Suc i)"] D by (auto simp: numeral_3_eq_3)
  have items: "itemsOf (Some x) (lit ''cf1'') = [itemOf ?c]" using 2(2) by (simp add: itemsOf_def rowIs_def)
  have v: "ri_value (itemOf ?c) = val" by (simp add: itemOf_def)
  have loop: "forEach [0..<length val] (\<lambda>i. failIf (val ! i \<noteq> largeByte i) (w i)) = pass ()" for w
    by (intro forEach_pass failIf_pass) (use val in simp)
  have "testReadRowsLargeValue T now (sv, i) = (Inr (), (sv3, i + 3))"
    unfolding testReadRowsLargeValue_def Let_def val_def [symmetric] applying_def andThen_def [of "calling (t_Apply T ?r (Mutation [?op])) Returned"]
    using 1(1) 2(1) 3(1) by (simp add: calling_def andThen_def failIf_pass items v loop [unfolded val(1)] val(1) deleting_def applying_def pass_def failIf_def)
  then show "\<exists>x sv' C' j. testReadRowsLargeValue T now (sv, i) = (Inr x, sv', j) \<and> served name sv' n C' \<and> cleanTable C' \<and> (j = i + 3 \<and> C' = C)"
    using 3(2) c(1) by auto
qed

end

end
