(* ===== verification/ClientScans.thy ===== *)
theory ClientScans
  imports ClientRuns
begin

text \<open>
  The range scans of \<open>cmd/test-bigtable-client\<close> on tables whose cells are known, and the run of the whole
  command on a server that has just started.
\<close>

section \<open>Known tables\<close>

definition tableOf :: "cellInfo list \<Rightarrow> cellId \<Rightarrow> bytes option" where
  "tableOf cs = map_of (map (\<lambda>c. (cellAt c, c_value c)) cs)"

lemma tableOf_simps [simp]: "tableOf [] x = None" "tableOf (c # cs) x = (if x = cellAt c then Some (c_value c) else tableOf cs x)"
  by (auto simp: tableOf_def)

lemma cellAt_eq: "cellAt c = cellAt d \<Longrightarrow> c_value c = c_value d \<Longrightarrow> c = d"
  by (cases c; cases d) (simp add: cellAt_def)

lemma listing_known:
  assumes "sorted_wrt (\<lambda>a b. cell_less (cellAt a) (cellAt b)) cs" "\<And>r f q t. R r \<Longrightarrow> C (r, f, q, t) = tableOf cs (r, f, q, t)"
    "\<forall>c \<in> set cs. R (c_rowKey c)"
  shows "listing C R cs"
proof -
  have member: "c \<in> set cs \<longleftrightarrow> tableOf cs (cellAt c) = Some (c_value c)" for c
    using assms(1)
  proof (induction cs)
    case (Cons d cs)
    have "c \<noteq> d \<Longrightarrow> c \<in> set cs \<Longrightarrow> cellAt c \<noteq> cellAt d" using Cons.prems cell_less_asym [of "cellAt d" "cellAt c"] by auto
    then show ?case using Cons cellAt_eq [of c d] by (cases "c = d") auto
  qed simp
  have "c \<in> set cs \<longleftrightarrow> R (c_rowKey c) \<and> C (cellAt c) = Some (c_value c)" for c
    using member [of c] assms(2) [of "c_rowKey c" "c_family c" "c_qualifier c" "c_ts c"] assms(3) by (auto simp: cellAt_def)
  then show ?thesis using assms(1) by (simp add: listing_def)
qed

text \<open>Whether a string contains a literal.\<close>

fun contains :: "bytes \<Rightarrow> bytes \<Rightarrow> bool" where
  "contains p [] \<longleftrightarrow> p = []"
| "contains p (x # s) \<longleftrightarrow> take (length p) (x # s) = p \<or> contains p s"

lemma contains_iff: "contains p s \<longleftrightarrow> (\<exists>a b. s = a @ p @ b)"
proof (induction s)
  case (Cons x s)
  have "(\<exists>a b. x # s = a @ p @ b) \<longleftrightarrow> (\<exists>b. x # s = p @ b) \<or> (\<exists>a b. s = a @ p @ b)"
  proof
    assume "\<exists>a b. x # s = a @ p @ b"
    then obtain a b where "x # s = a @ p @ b" by blast
    then show "(\<exists>b. x # s = p @ b) \<or> (\<exists>a b. s = a @ p @ b)" by (cases a) auto
  next
    assume "(\<exists>b. x # s = p @ b) \<or> (\<exists>a b. s = a @ p @ b)"
    then show "\<exists>a b. x # s = a @ p @ b"
    proof
      assume "\<exists>b. x # s = p @ b" then show ?thesis by (metis append_Nil)
    next
      assume "\<exists>a b. s = a @ p @ b" then show ?thesis by (metis append_Cons)
    qed
  qed
  moreover have "take (length p) (x # s) = p \<longleftrightarrow> (\<exists>b. x # s = p @ b)"
    by (metis append_eq_conv_conj append_take_drop_id)
  ultimately show ?case using Cons by simp
qed simp

section \<open>The rows delivered\<close>

lemma rowIs_total: "rowIs cs x \<Longrightarrow> sum_list (map (\<lambda>(f, items). length items) x) = length cs"
proof (induction x arbitrary: cs)
  case Nil
  have "cs = []"
  proof (rule ccontr)
    assume "cs \<noteq> []"
    then have "filter (\<lambda>c. c_family c = c_family (hd cs)) cs \<noteq> []" by (cases cs) simp_all
    then show False using Nil by (simp add: rowIs_def famItems_def)
  qed
  then show ?case by simp
next
  case (Cons p x)
  obtain f items where p: "p = (f, items)" by (cases p)
  let ?cs = "filter (\<lambda>c. c_family c \<noteq> f) cs"
  have fresh: "map_of x f = None" using Cons.prems by (auto simp: rowIs_def p map_of_eq_None_iff)
  have i: "items = map itemOf (filter (\<lambda>c. c_family c = f) cs)" using Cons.prems by (auto simp: rowIs_def p famItems_def dest: spec [of _ f])
  have "famItems x g = map itemOf (filter (\<lambda>c. c_family c = g) ?cs)" for g
  proof (cases "g = f")
    case True
    then show ?thesis using fresh by (simp add: famItems_def)
  next
    case False
    then have "filter (\<lambda>c. c_family c = g) ?cs = filter (\<lambda>c. c_family c = g) cs" by (auto intro: filter_cong)
    moreover have "famItems x g = famItems ((f, items) # x) g" using False by (simp add: famItems_def)
    ultimately show ?thesis using Cons.prems by (simp add: rowIs_def p)
  qed
  then have "rowIs ?cs x" using Cons.prems by (simp add: rowIs_def p)
  then have "sum_list (map (\<lambda>(f, items). length items) x) = length ?cs" by (rule Cons.IH)
  moreover have "length items + length ?cs = length cs" unfolding i by (simp add: sum_length_filter_compl)
  ultimately show ?case by (simp add: p)
qed

lemma rowIs_key:
  assumes "rowIs cs x" "\<forall>c \<in> set cs. c_rowKey c = r" "cs \<noteq> []"
  shows "Row_Key x = r"
proof -
  have items: "items \<noteq> [] \<and> (\<forall>item \<in> set items. ri_row item = r)" if "(f, items) \<in> set x" for f items
  proof -
    have "famItems x f = items" using that assms(1) by (simp add: rowIs_def famItems_def)
    then show ?thesis using that assms(1,2) unfolding rowIs_def by (fastforce simp: itemOf_def)
  qed
  moreover have "x \<noteq> []" using rowIs_total [OF assms(1)] assms(3) by auto
  ultimately show ?thesis by (cases x rule: Row_Key.cases) force+
qed

lemma rowIs_families: "rowIs cs x \<Longrightarrow> length (famItems x f) = length (filter (\<lambda>c. c_family c = f) cs)"
  by (simp add: rowIs_def)

lemma rowIs_items:
  assumes "rowIs cs x" "item \<in> set (concat (map snd x))"
  shows "\<exists>c \<in> set cs. item = itemOf c"
proof -
  obtain f items where "(f, items) \<in> set x" "item \<in> set items" using assms(2) by auto
  moreover from this have "famItems x f = items" using assms(1) by (simp add: rowIs_def famItems_def)
  ultimately show ?thesis using assms(1) unfolding rowIs_def by force
qed

text \<open>The cells that \<open>testSetCell\<close> writes, in table order.\<close>

definition userCell :: "string \<Rightarrow> string \<Rightarrow> string \<Rightarrow> int64 \<Rightarrow> string \<Rightarrow> cellInfo" where
  "userCell r f q t v = \<lparr>c_rowKey = lit r, c_family = lit f, c_qualifier = lit q, c_ts = millis t, c_value = lit v\<rparr>"

lemma userCell_simps [simp]:
  "c_rowKey (userCell r f q t v) = lit r" "c_family (userCell r f q t v) = lit f" "c_qualifier (userCell r f q t v) = lit q"
  "c_value (userCell r f q t v) = lit v" "c_ts (userCell r f q t v) = millis t"
  "cellAt (userCell r f q t v) = (lit r, lit f, lit q, millis t)"
  by (simp_all add: userCell_def cellAt_def)

definition user1Cells :: "(nat \<Rightarrow> int64) \<Rightarrow> cellInfo list" where
  "user1Cells now = [userCell ''user1'' ''cf1'' ''name'' (now 0) ''Alice'', userCell ''user1'' ''cf1'' ''email'' (now 1) ''alice@example.com'',
     userCell ''user1'' ''cf2'' ''score'' (now 2) ''42'']"

definition user1Table :: "(nat \<Rightarrow> int64) \<Rightarrow> cellId \<Rightarrow> bytes option" where
  "user1Table now = effects (lit ''user1'') [cell ''cf1'' ''name'' (now 0) (lit ''Alice''), cell ''cf1'' ''email'' (now 1) (lit ''alice@example.com''),
     cell ''cf2'' ''score'' (now 2) (lit ''42'')] Map.empty"

lemma user1_listing: "R (lit ''user1'') \<Longrightarrow> listing (user1Table now) R (user1Cells now)"
  by (rule listing_known) (auto simp: user1Cells_def user1Table_def name_less_def rawBytes_def)

lemma user1_groups: "rowGroups (user1Cells now) = [user1Cells now]"
  by (rule rowGroups_row [THEN trans, of _ "lit ''user1''"]) (auto simp: user1Cells_def)

text \<open>The table with three users.\<close>

definition usersTable :: "(nat \<Rightarrow> int64) \<Rightarrow> (nat \<Rightarrow> int64) \<Rightarrow> cellId \<Rightarrow> bytes option" where
  "usersTable now now' = effects (lit ''user3'') [cell ''cf1'' ''name'' (now' 1) (lit ''user3'')]
     (effects (lit ''user2'') [cell ''cf1'' ''name'' (now' 0) (lit ''user2'')] (user1Table now))"

definition usersCells :: "(nat \<Rightarrow> int64) \<Rightarrow> (nat \<Rightarrow> int64) \<Rightarrow> cellInfo list" where
  "usersCells now now' = user1Cells now @ [userCell ''user2'' ''cf1'' ''name'' (now' 0) ''user2'', userCell ''user3'' ''cf1'' ''name'' (now' 1) ''user3'']"

lemma users_listing: "R (lit ''user1'') \<Longrightarrow> R (lit ''user2'') \<Longrightarrow> R (lit ''user3'') \<Longrightarrow> listing (usersTable now now') R (usersCells now now')"
  by (rule listing_known) (auto simp: usersCells_def user1Cells_def usersTable_def user1Table_def name_less_def rawBytes_def)

lemma users_groups:
  "rowGroups (usersCells now now') = [user1Cells now, [userCell ''user2'' ''cf1'' ''name'' (now' 0) ''user2''], [userCell ''user3'' ''cf1'' ''name'' (now' 1) ''user3'']]"
  "rowGroups (rev (usersCells now now')) =
     [[userCell ''user3'' ''cf1'' ''name'' (now' 1) ''user3''], [userCell ''user2'' ''cf1'' ''name'' (now' 0) ''user2''], rev (user1Cells now)]"
  by (simp_all add: usersCells_def user1Cells_def)

lemma user_order: "lit ''user1'' < lit ''user2''" "lit ''user1'' < lit ''user3''" "lit ''user2'' < lit ''user3''"
  by (simp_all add: rawBytes_def)

context bigtable_client
begin

lemma scanning_then:
  assumes "listing C (covers (ra_rows a)) cs" "scanFilter i (ra_filter a) fe"
    "rowsOut fe (rq_rng (rqs i)) (takeRows (ra_limit a) 0 (rowGroups (if ra_reversed a then rev cs else cs))) = rws"
    "oneRange (ra_rows a)" "wellFramed (ra_reversed a) rws" "length (frame rws) < 100"
    "\<And>rs. list_all2 rowIs (filter (\<lambda>r. r \<noteq> []) rws) rs \<Longrightarrow> runs k C (Suc i) (f (snd (deliverRows g acc rs))) R"
  shows "runs k C i (andThen (calling (scanning T a g acc) w) f) R"
proof -
  have "runs 0 C i (calling (scanning T a g acc) w) (\<lambda>x C' j. (\<exists>rs. list_all2 rowIs (filter (\<lambda>r. r \<noteq> []) rws) rs \<and> x = snd (deliverRows g acc rs)) \<and> C' = C \<and> j = Suc i)"
    unfolding runs_def
  proof (intro allI impI)
    fix sv n assume c: "cleanTable C" "served name sv (n + 0) C"
    then have "served name sv n C" by simp
    from scan_serves [OF assms(4,1,2) assms(3) [symmetric] assms(5,6) c(1) this] obtain rs sv' where
      rs: "t_ReadRows T a (sv, i) = ((None, rs), (sv', Suc i))" "list_all2 rowIs (filter (\<lambda>r. r \<noteq> []) rws) rs" "served name sv' n C" by blast
    have "calling (scanning T a g acc) w (sv, i) = (Inr (snd (deliverRows g acc rs)), sv', Suc i)"
      by (cases "deliverRows g acc rs") (auto simp: calling_def scanning_def rs(1) split: bool.split)
    then show "\<exists>x sv' C' j. calling (scanning T a g acc) w (sv, i) = (Inr x, sv', j) \<and> served name sv' n C' \<and> cleanTable C' \<and>
        ((\<exists>rs. list_all2 rowIs (filter (\<lambda>r. r \<noteq> []) rws) rs \<and> x = snd (deliverRows g acc rs)) \<and> C' = C \<and> j = Suc i)"
      using rs(2,3) c(1) by blast
  qed
  then show ?thesis using runs_then [of 0 C i _ _ k f R] assms(7) by auto
qed

lemma testReadRowsFullScan_runs: "runs 0 (user1Table now) i (testReadRowsFullScan T) (\<lambda>_ C' j. j = i + 1 \<and> C' = user1Table now)"
  unfolding testReadRowsFullScan_def
proof (rule scanning_then [where cs = "user1Cells now" and fe = None and rws = "[user1Cells now]"], goal_cases)
  case (7 rs)
  then show ?case by (intro failIf_runs) (auto simp: list_all2_Cons1 user1Cells_def countRows_def)
qed (simp_all add: user1_listing scanFilter_def user1_groups takeRows_def, simp_all add: user1Cells_def wellFramed_def namedCell_def frame_def rowChunks_def)

lemma literal_regex: "list_all alphanumeric p \<Longrightarrow> \<exists>re. rq_compile (rqs i) p = Inr re \<and> (\<forall>s. re s \<longleftrightarrow> contains p s)"
  using literals [of p i] unfolding contains_iff by blast

text \<open>A scan of the table with one row, by a filter that leaves the cells \<open>out\<close>.\<close>

lemma user1_scan:
  assumes "newRowFilterEngine (rq_compile (rqs i)) (Some f) = Inr fe" "rows = AllRows \<or> rows = InfiniteRange []"
    "map (stripped (fe_stripValue fe)) (fst (evalCells (reset (fe_eval fe)) (user1Cells now) (rq_rng (rqs i)))) = out" "out \<noteq> []"
    "set out \<subseteq> set (user1Cells now) \<or> set out \<subseteq> stripped True ` set (user1Cells now)" "length out < 100"
    "\<And>x. rowIs out x \<Longrightarrow> runs k (user1Table now) (Suc i) (m (snd (deliverRows g acc [x]))) R"
  shows "runs k (user1Table now) i (andThen (calling (scanning T (filtered rows f) g acc) w) m) R"
proof (rule scanning_then [where cs = "user1Cells now" and fe = "Some fe" and rws = "[out]"], goal_cases)
  case 1
  show ?case using assms(2) by (auto intro: user1_listing)
next
  case 3
  show ?case using assms(3) by (simp add: user1_groups takeRows_def case_prod_unfold)
next
  case 5
  have "\<forall>c \<in> set out. namedCell c \<and> c_rowKey c = lit ''user1''"
    using assms(5) by (auto simp: user1Cells_def namedCell_def stripped_def)
  then show ?case by (cases out) (simp_all add: wellFramed_def list_all_iff)
next
  case (7 rs)
  then show ?case using assms(4,7) by (auto simp: list_all2_Cons1)
qed (use assms(1,2,6) in \<open>auto simp: scanFilter_def frame_def length_rowChunks\<close>)

lemma alphanumeric_literals: "list_all alphanumeric (lit ''user1'')" "list_all alphanumeric (lit ''cf1'')" "list_all alphanumeric (lit ''cf2'')"
  "list_all alphanumeric (lit ''name'')" "list_all alphanumeric (lit ''42'')"
  by (simp_all add: rawBytes_def alphanumeric_def)

lemma testReadRowsRowKeyFilter_runs: "runs 0 (user1Table now) i (testReadRowsRowKeyFilter T) (\<lambda>_ C' j. j = i + 1 \<and> C' = user1Table now)"
proof -
  obtain re where re: "rq_compile (rqs i) (lit ''user1'') = Inr re" "\<And>s. re s \<longleftrightarrow> contains (lit ''user1'') s"
    using literal_regex [OF alphanumeric_literals(1), of i] by blast
  have "re (lit ''user1'')" by (simp add: re(2) rawBytes_def)
  then show ?thesis unfolding testReadRowsRowKeyFilter_def
    by (intro user1_scan [where out = "user1Cells now"] failIf_runs)
      (auto simp: newRowFilterEngine_def buildRegex_def re(1) user1Cells_def countRows_def stripped_def)
qed

lemma testReadRowsFamilyFilter_runs: "runs 0 (user1Table now) i (testReadRowsFamilyFilter T) (\<lambda>_ C' j. j = i + 1 \<and> C' = user1Table now)"
proof -
  obtain re where re: "rq_compile (rqs i) (lit ''cf1'') = Inr re" "\<And>s. re s \<longleftrightarrow> contains (lit ''cf1'') s"
    using literal_regex [OF alphanumeric_literals(2), of i] by blast
  have "re (lit ''cf1'')" "\<not> re (lit ''cf2'')" by (simp_all add: re(2) rawBytes_def)
  then show ?thesis unfolding testReadRowsFamilyFilter_def
    by (intro user1_scan [where out = "take 2 (user1Cells now)"] failIf_runs)
      (auto simp: newRowFilterEngine_def buildRegex_def re(1) user1Cells_def countFamilies_def stripped_def rowIs_families)
qed

lemma testReadRowsColumnFilter_runs: "runs 0 (user1Table now) i (testReadRowsColumnFilter T) (\<lambda>_ C' j. j = i + 1 \<and> C' = user1Table now)"
proof -
  obtain re where re: "rq_compile (rqs i) (lit ''name'') = Inr re" "\<And>s. re s \<longleftrightarrow> contains (lit ''name'') s"
    using literal_regex [OF alphanumeric_literals(4), of i] by blast
  have "re (lit ''name'')" "\<not> re (lit ''email'')" "\<not> re (lit ''score'')" by (simp_all add: re(2) rawBytes_def)
  then show ?thesis unfolding testReadRowsColumnFilter_def
    by (intro user1_scan [where out = "take 1 (user1Cells now)"] failIf_runs)
      (auto simp: newRowFilterEngine_def buildRegex_def re(1) user1Cells_def countFamilies_def stripped_def rowIs_families)
qed

lemma testReadRowsValueFilter_runs: "runs 0 (user1Table now) i (testReadRowsValueFilter T) (\<lambda>_ C' j. j = i + 1 \<and> C' = user1Table now)"
proof -
  obtain re where re: "rq_compile (rqs i) (lit ''42'') = Inr re" "\<And>s. re s \<longleftrightarrow> contains (lit ''42'') s"
    using literal_regex [OF alphanumeric_literals(5), of i] by blast
  have "re (lit ''42'')" "\<not> re (lit ''Alice'')" "\<not> re (lit ''alice@example.com'')" by (simp_all add: re(2) rawBytes_def)
  then show ?thesis unfolding testReadRowsValueFilter_def
    by (intro user1_scan [where out = "drop 2 (user1Cells now)"] failIf_runs)
      (auto simp: newRowFilterEngine_def buildRegex_def re(1) user1Cells_def countCells_def stripped_def rowIs_total)
qed

lemma testReadRowsChainFilters_runs: "runs 0 (user1Table now) i (testReadRowsChainFilters T) (\<lambda>_ C' j. j = i + 1 \<and> C' = user1Table now)"
proof -
  obtain re where re: "rq_compile (rqs i) (lit ''cf1'') = Inr re" "\<And>s. re s \<longleftrightarrow> contains (lit ''cf1'') s"
    using literal_regex [OF alphanumeric_literals(2), of i] by blast
  obtain rn where rn: "rq_compile (rqs i) (lit ''name'') = Inr rn" "\<And>s. rn s \<longleftrightarrow> contains (lit ''name'') s"
    using literal_regex [OF alphanumeric_literals(4), of i] by blast
  have "re (lit ''cf1'')" "\<not> re (lit ''cf2'')" "rn (lit ''name'')" "\<not> rn (lit ''email'')" by (simp_all add: re(2) rn(2) rawBytes_def)
  then show ?thesis unfolding testReadRowsChainFilters_def
    by (intro user1_scan [where out = "take 1 (user1Cells now)"] failIf_runs)
      (auto simp: newRowFilterEngine_def buildRegex_def re(1) rn(1) user1Cells_def countCells_def stripped_def rowIs_total)
qed

lemma testReadRowsInterleaveFilters_runs: "runs 0 (user1Table now) i (testReadRowsInterleaveFilters T) (\<lambda>_ C' j. j = i + 1 \<and> C' = user1Table now)"
proof -
  obtain re where re: "rq_compile (rqs i) (lit ''cf1'') = Inr re" "\<And>s. re s \<longleftrightarrow> contains (lit ''cf1'') s"
    using literal_regex [OF alphanumeric_literals(2), of i] by blast
  obtain rn where rn: "rq_compile (rqs i) (lit ''cf2'') = Inr rn" "\<And>s. rn s \<longleftrightarrow> contains (lit ''cf2'') s"
    using literal_regex [OF alphanumeric_literals(3), of i] by blast
  have "re (lit ''cf1'')" "\<not> re (lit ''cf2'')" "rn (lit ''cf2'')" by (simp_all add: re(2) rn(2) rawBytes_def)
  then show ?thesis unfolding testReadRowsInterleaveFilters_def
    by (intro user1_scan [where out = "user1Cells now"] failIf_runs)
      (auto simp: newRowFilterEngine_def buildRegex_def re(1) rn(1) user1Cells_def countCells_def stripped_def rowIs_total identity_def)
qed

lemma testReadRowsStripValue_runs: "runs 0 (user1Table now) i (testReadRowsStripValue T) (\<lambda>_ C' j. j = i + 1 \<and> C' = user1Table now)"
  unfolding testReadRowsStripValue_def
proof (rule user1_scan [where out = "map (stripped True) (user1Cells now)" and fe = "\<lparr>fe_eval = stripValueFilter, fe_stripValue = True, fe_labels = []\<rparr>"],
    goal_cases)
  case (7 x)
  have "ri_value item = []" if "item \<in> set (concat (map snd x))" for item
    using rowIs_items [OF 7 that] by (auto simp: itemOf_def stripped_def)
  then have "dropWhile (\<lambda>item. ri_value item = []) (concat (map snd x)) = []" by (simp add: dropWhile_eq_Nil_conv)
  moreover have "length (concat (map snd x)) = 3"
    using rowIs_total [OF 7] by (simp add: length_concat case_prod_unfold comp_def user1Cells_def)
  ultimately have "deliverRows stripItems (None, 0) [x] = (True, None, 3)" by (simp add: stripItems_def Let_def del: length_concat concat_eq_Nil_conv dropWhile_eq_Nil_conv)
  then show ?case by (auto intro: failIf_runs)
qed (simp_all add: newRowFilterEngine_def user1Cells_def)

text \<open>Versions of a cell, newest first.\<close>

definition versionCell :: "string \<Rightarrow> string \<Rightarrow> int64 \<Rightarrow> string \<Rightarrow> cellInfo" where
  "versionCell r q t v = userCell r ''cf1'' q t v"

lemma testReadRowsLatestNFilter_runs:
  assumes "rowCells C (lit ''latest-n-test'') = {}"
  shows "runs 6 C i (testReadRowsLatestNFilter T) (\<lambda>_ C' j. j = i + 7 \<and> C' = C)"
proof -
  let ?r = "lit ''latest-n-test''" and ?op = "\<lambda>i. cell ''cf1'' ''ver'' (t_Time T (int i * 10 ^ 6)) (lit (''v'' @ decimal i))"
  let ?c = "\<lambda>i. userCell ''latest-n-test'' ''cf1'' ''ver'' (t_Time T (int i * 10 ^ 6)) (''v'' @ decimal i)"
  let ?D = "effects ?r (concat (map (\<lambda>i. [?op i]) [1..<6])) C"
  let ?fe = "\<lparr>fe_eval = cellsPerColumnLimitFilter 2 (\<lambda>_. 0), fe_stripValue = False, fe_labels = []\<rparr>"
  have ts: "sint (millis (t_Time T (int k * 10 ^ 6))) = int k * 1000" "0 \<le> sint (t_Time T (int k * 10 ^ 6))" if "k < 6" for k
    using sint_minutes [of "int k * 10 ^ 6"] that by simp_all
  have d: "length (decimal k) \<le> 65535" if "k < 6" for k using length_decimal [of 1 k] that by simp
  have loop: "runs 5 C i (forEach [1..<6] (\<lambda>i. applying T ?r [?op i] Returned (pass ()))) (\<lambda>_ C' j. j = i + 5 \<and> C' = ?D)"
    using forEach_applies [of ?r "[1..<6]" "\<lambda>i. [?op i]" C i "\<lambda>_. Returned"] ts(2) d by (simp add: maxCellChunkValueSize_def)
  have u: "[1..<6] = [1, 2, 3, 4, 5 :: nat]" by (simp add: upt_rec)
  note tss = ts(1) [of 1] ts(1) [of 2] ts(1) [of 3] ts(1) [of 4] ts(1) [of 5]
  have L: "listing ?D (covers (SingleRow ?r)) [?c 5, ?c 4, ?c 3, ?c 2, ?c 1]"
    using tss assms unfolding u by (intro listing_known) (auto simp: empty_row)
  have "runs 1 ?D (i + 5) (andThen (calling (scanning T (filtered (SingleRow ?r) (CellsPerColumnLimitFilter 2)) (countFamilies [''cf1'']) 0) w) (\<lambda>cells.
      andThen (failIf (cells \<noteq> 2) (expected ''expected 2 cells with LatestNFilter(2), got %d'' cells)) (\<lambda>_. deleting T ?r))) (\<lambda>_ C' j. j = i + 7 \<and> C' = C)" for w
    unfolding One_nat_def
  proof (rule scanning_then [where cs = "[?c 5, ?c 4, ?c 3, ?c 2, ?c 1]" and fe = "Some ?fe" and rws = "[[?c 5, ?c 4]]"], goal_cases)
    case 1
    show ?case using L by simp
  next
    case (7 rs)
    then show ?case
      by (intro failIf_then deleting_runs [OF assms]) (auto simp: list_all2_Cons1 countFamilies_def rowIs_families own_row simp del: effects_simps)
  qed (simp_all add: scanFilter_def newRowFilterEngine_def takeRows_def stripped_def Let_def wellFramed_def namedCell_def frame_def rowChunks_def)
  from runs_seq [OF loop this] show ?thesis unfolding testReadRowsLatestNFilter_def Let_def by simp
qed

lemma testReadRowsTimestampRange_runs:
  assumes "rowCells C (lit ''ts-range-test'') = {}" "minutes 180 \<le> t" "t + minutes 120 < 2 ^ 63"
  shows "runs 6 C i (testReadRowsTimestampRange T t) (\<lambda>_ C' j. j = i + 7 \<and> C' = C)"
proof -
  let ?r = "lit ''ts-range-test''" and ?op = "\<lambda>d. cell ''cf1'' ''val'' (t_Time T (t + minutes (60 * d))) (lit (''val-'' @ decimalInt d))"
  let ?c = "\<lambda>d. userCell ''ts-range-test'' ''cf1'' ''val'' (t_Time T (t + minutes (60 * d))) (''val-'' @ decimalInt d)"
  let ?ds = "[- 2, - 1, 0, 1, 2 :: int]"
  let ?D = "effects ?r (concat (map (\<lambda>d. [?op d]) ?ds)) C"
  let ?w = "\<lambda>m. millis (t_Time T (t + minutes m))"
  let ?fe = "\<lparr>fe_eval = timestampRangeFilter (?w (- 30)) (?w 30), fe_stripValue = False, fe_labels = []\<rparr>"
  have ts: "sint (?w m) = t div 10 ^ 6 * 1000 + m * 60000000" "0 \<le> sint (t_Time T (t + minutes m))" if "- 120 \<le> m" "m \<le> 120" for m
    using that assms(2,3) sint_minute [of t m] by (simp_all add: minutes_def)
  have start: "60000000 * 180 \<le> t div 10 ^ 6 * 1000"
  proof -
    have "minutes 180 div 10 ^ 6 \<le> t div 10 ^ 6" using assms(2) by (intro zdiv_mono1) simp_all
    then show ?thesis by (simp add: minutes_def)
  qed
  have m30: "t - minutes 30 = t + minutes (- 30)" by (simp add: minutes_def)
  have d: "length (decimalInt k) \<le> 65530" if "k \<in> set ?ds" for k
    using that length_decimal [of 1 "nat k"] length_decimal [of 1 "nat (- k)"] by (auto simp: decimalInt_def)
  have loop: "runs 5 C i (forEach ?ds (\<lambda>d. applying T ?r [?op d] Returned (pass ()))) (\<lambda>_ C' j. j = i + 5 \<and> C' = ?D)"
  proof -
    have "[?op x] \<noteq> [] \<and> fitOps [?op x]" if "x \<in> set ?ds" for x using that ts(2) [of "60 * x"] d [OF that] by auto
    then have "runs (length ?ds) C i (forEach ?ds (\<lambda>d. applying T ?r [?op d] Returned (pass ()))) (\<lambda>_ C' j. j = i + length ?ds \<and> C' = ?D)"
      by (intro forEach_applies) simp_all
    moreover have "length ?ds = 5" by simp
    ultimately show ?thesis by (simp only:)
  qed
  note tss = ts(1) [of "- 120"] ts(1) [of "- 60"] ts(1) [of 0] ts(1) [of 60] ts(1) [of 120]
  have L: "listing ?D (covers (SingleRow ?r)) [?c 2, ?c 1, ?c 0, ?c (- 1), ?c (- 2)]"
    using tss assms(1) by (intro listing_known) (auto simp: empty_row)
  have "runs 1 ?D (i + 5) (andThen (calling (scanning T (filtered (SingleRow ?r) (TimestampRangeFilter \<lparr>tr_start = ?w (- 30), tr_end = ?w 30\<rparr>)) (countFamilies [''cf1'']) 0) w) (\<lambda>cells.
      andThen (failIf (cells \<noteq> 1) (expected ''expected 1 cell in timestamp range, got %d'' cells)) (\<lambda>_. deleting T ?r))) (\<lambda>_ C' j. j = i + 7 \<and> C' = C)" for w
    unfolding One_nat_def
  proof (rule scanning_then [where cs = "[?c 2, ?c 1, ?c 0, ?c (- 1), ?c (- 2)]" and fe = "Some ?fe" and rws = "[[?c 0]]"], goal_cases)
    case 1
    show ?case using L by simp
  next
    case 3
    show ?case using tss ts(1) [of 30] ts(1) [of "- 30"] start by (simp add: takeRows_def stripped_def timestampRangeMatch_def)
  next
    case (7 rs)
    then show ?case
      by (intro failIf_then deleting_runs [OF assms(1)]) (auto simp: list_all2_Cons1 countFamilies_def rowIs_families own_row simp del: effects_simps)
  qed (simp_all add: scanFilter_def newRowFilterEngine_def buildTimestampRangeFilter_def wellFramed_def namedCell_def frame_def rowChunks_def)
  from runs_seq [OF loop this] show ?thesis unfolding testReadRowsTimestampRange_def Let_def m30 by simp
qed

lemma testReadRowsRowLimit_runs:
  assumes "goodClock now'"
  shows "runs 2 (user1Table now) i (testReadRowsRowLimit T now') (\<lambda>_ C' j. j = i + 3 \<and> C' = usersTable now now')"
  unfolding testReadRowsRowLimit_def forEach.simps prod.case applying_andThen pass_andThen numeral_2_eq_2
proof (intro applying_runs, goal_cases)
  case 7
  show ?case unfolding usersTable_def [symmetric]
  proof (rule scanning_then [where cs = "usersCells now now'" and fe = None
        and rws = "[user1Cells now, [userCell ''user2'' ''cf1'' ''name'' (now' 0) ''user2'']]"], goal_cases)
    case (7 rs)
    then show ?case by (intro failIf_runs) (auto simp: list_all2_Cons1 user1Cells_def countRows_def)
  qed (simp_all add: users_listing scanFilter_def users_groups takeRows_def,
      simp_all add: user1Cells_def wellFramed_def namedCell_def frame_def rowChunks_def user_order)
qed (use assms in simp_all)

lemma testReadRowsReversed_runs: "runs 0 (usersTable now now') i (testReadRowsReversed T) (\<lambda>_ C' j. j = i + 1 \<and> C' = usersTable now now')"
  unfolding testReadRowsReversed_def
proof (rule scanning_then [where cs = "usersCells now now'" and fe = None and rws = "[[userCell ''user3'' ''cf1'' ''name'' (now' 1) ''user3''],
      [userCell ''user2'' ''cf1'' ''name'' (now' 0) ''user2''], rev (user1Cells now)]"], goal_cases)
  case (7 rs)
  then obtain x y z where rs: "rs = [x, y, z]" "rowIs [userCell ''user3'' ''cf1'' ''name'' (now' 1) ''user3''] x" "rowIs (rev (user1Cells now)) z"
    by (auto simp: list_all2_Cons1 user1Cells_def)
  have "Row_Key x = lit ''user3''" "Row_Key z = lit ''user1''"
    using rowIs_key [OF rs(2), of "lit ''user3''"] rowIs_key [OF rs(3), of "lit ''user1''"] by (simp_all add: user1Cells_def)
  then show ?case using user_order(2) by (intro failIf_then failIf_runs) (simp_all add: rs(1) not_le)
qed (simp_all add: users_listing scanFilter_def users_groups takeRows_def,
    simp_all add: user1Cells_def wellFramed_def namedCell_def frame_def rowChunks_def user_order)

lemma testReadRowsRowList_runs: "runs 0 (usersTable now now') i (testReadRowsRowList T) (\<lambda>_ C' j. j = i + 1 \<and> C' = usersTable now now')"
  unfolding testReadRowsRowList_def
proof (rule scanning_then [where cs = "user1Cells now" and fe = None and rws = "[user1Cells now]"], goal_cases)
  case 1
  show ?case by (rule listing_known) (auto simp: user1Cells_def usersTable_def user1Table_def name_less_def rawBytes_def)
next
  case (7 rs)
  then show ?case by (intro failIf_runs) (auto simp: list_all2_Cons1 user1Cells_def countRows_def)
qed (simp_all add: scanFilter_def user1_groups takeRows_def, simp_all add: user1Cells_def wellFramed_def namedCell_def frame_def rowChunks_def)

lemma testReadRowsPrefixRange_runs: "runs 0 (usersTable now now') i (testReadRowsPrefixRange T) (\<lambda>_ C' j. j = i + 1 \<and> C' = usersTable now now')"
  unfolding testReadRowsPrefixRange_def
proof (rule scanning_then [where cs = "usersCells now now'" and fe = None and rws = "rowGroups (usersCells now now')"], goal_cases)
  case 1
  show ?case by (rule users_listing) (simp_all add: rawBytes_def)
next
  case (7 rs)
  then show ?case by (intro failIf_runs) (auto simp: users_groups list_all2_Cons1 user1Cells_def countRows_def)
qed (simp_all add: scanFilter_def users_groups takeRows_def,
    simp_all add: user1Cells_def wellFramed_def namedCell_def frame_def rowChunks_def user_order, simp_all add: rawBytes_def)

section \<open>Limits and offsets per row\<close>

lemma two_rows_scan:
  assumes "listing D (covers rows) cs" "oneRange rows" "newRowFilterEngine (rq_compile (rqs i)) (Some f) = Inr fe"
    "rowsOut (Some fe) (rq_rng (rqs i)) (rowGroups cs) = [as, bs]" "as \<noteq> []" "bs \<noteq> []" "length as + length bs = n" "n < 100"
    "\<forall>c \<in> set as. namedCell c \<and> c_rowKey c = r" "\<forall>c \<in> set bs. namedCell c \<and> c_rowKey c = r'" "r < r'" "Q () D (Suc i)"
  shows "runs 0 D i (andThen (calling (scanning T (filtered rows f) countSeen (0, {})) w) (\<lambda>(totalCells, seenRows).
      andThen (failIf (totalCells \<noteq> n) (e totalCells)) (\<lambda>_. failIf (card seenRows \<noteq> 2) (e' (card seenRows))))) Q"
proof (rule scanning_then [where cs = cs and rws = "[as, bs]" and fe = "Some fe"], goal_cases)
  case 5
  have "c_rowKey (hd as) = r" "c_rowKey (hd bs) = r'" using assms(5,6,9,10) by simp_all
  then show ?case using assms(5,6,9-11) by (simp add: wellFramed_def list_all_iff)
next
  case (7 rs)
  then obtain x y where rs: "rs = [x, y]" "rowIs as x" "rowIs bs y" using assms(5,6) by (auto simp: list_all2_Cons1)
  have "Row_Key x = r" "Row_Key y = r'"
    using rowIs_key [OF rs(2) _ assms(5), of r] rowIs_key [OF rs(3) _ assms(6), of r'] assms(9,10) by simp_all
  then have "deliverRows countSeen (0, {}) rs = (True, n, {r', r})"
    using rowIs_total [OF rs(2)] rowIs_total [OF rs(3)] assms(7) by (simp add: rs(1) countSeen_def countCells_def)
  moreover have "card {r', r} = 2" using assms(11) by (auto simp: card_insert_if)
  ultimately show ?case using assms(12) by (simp add: failIf_pass) (auto intro: runs_pass)
qed (use assms(1-4,7,8) in \<open>simp_all add: scanFilter_def takeRows_def frame_def length_rowChunks\<close>)

lemma testReadRowsCellsPerRowLimit_runs:
  assumes "goodClock now" "\<And>r. covers (PrefixRange (lit ''cpr'')) r \<Longrightarrow> rowCells C r = {}"
  shows "runs 2 C i (testReadRowsCellsPerRowLimitMultiRow T now) (\<lambda>_ C' j. j = i + 3 \<and> sameOutside {lit ''cpr-row1'', lit ''cpr-row2''} C C')"
proof -
  let ?c = "\<lambda>r q k. userCell r ''cf1'' q (now k) (r @ ''-'' @ q)"
  let ?D = "effects (lit ''cpr-row2'') [cell ''cf1'' ''a'' (now 2) (lit (''cpr-row2'' @ ''-a'')), cell ''cf1'' ''b'' (now (2 + 1)) (lit (''cpr-row2'' @ ''-b''))]
    (effects (lit ''cpr-row1'') [cell ''cf1'' ''a'' (now 0) (lit (''cpr-row1'' @ ''-a'')), cell ''cf1'' ''b'' (now (0 + 1)) (lit (''cpr-row1'' @ ''-b''))] C)"
  let ?cs = "[?c ''cpr-row1'' ''a'' 0, ?c ''cpr-row1'' ''b'' 1, ?c ''cpr-row2'' ''a'' 2, ?c ''cpr-row2'' ''b'' 3]"
  have o: "lit ''cpr-row1'' < lit ''cpr-row2''" by (simp add: rawBytes_def)
  have L: "listing ?D (covers (PrefixRange (lit ''cpr''))) ?cs"
  proof (rule listing_known)
    show "sorted_wrt (\<lambda>a b. cell_less (cellAt a) (cellAt b)) ?cs" using o by (simp add: name_less_def rawBytes_def)
    fix r f q t assume "covers (PrefixRange (lit ''cpr'')) r"
    then have "C (r, f, q, t) = None" using assms(2) unfolding empty_row by blast
    then show "?D (r, f, q, t) = tableOf ?cs (r, f, q, t)" by auto
  qed (simp add: rawBytes_def)
  have "runs (Suc (Suc 0)) C i (testReadRowsCellsPerRowLimitMultiRow T now) (\<lambda>_ C' j. j = i + 3 \<and> sameOutside {lit ''cpr-row1'', lit ''cpr-row2''} C C')"
    unfolding testReadRowsCellsPerRowLimitMultiRow_def forEach.simps prod.case applying_andThen pass_andThen
    by (intro applying_runs two_rows_scan [OF L, where fe = "\<lparr>fe_eval = cellsPerRowLimitFilter 1 0, fe_stripValue = False, fe_labels = []\<rparr>"
          and as = "[?c ''cpr-row1'' ''a'' 0]" and bs = "[?c ''cpr-row2'' ''a'' 2]" and r = "lit ''cpr-row1''" and r' = "lit ''cpr-row2''"])
      (use assms(1) o in \<open>simp_all add: newRowFilterEngine_def stripped_def namedCell_def own_row del: effects_simps\<close>, simp_all add: rawBytes_def)
  then show ?thesis by (simp add: numeral_2_eq_2)
qed

lemma testReadRowsCellsPerRowOffset_runs:
  assumes "goodClock now" "\<And>r. covers (PrefixRange (lit ''cpo'')) r \<Longrightarrow> rowCells C r = {}"
  shows "runs 2 C i (testReadRowsCellsPerRowOffsetMultiRow T now) (\<lambda>_ C' j. j = i + 3 \<and> sameOutside {lit ''cpo-row1'', lit ''cpo-row2''} C C')"
proof -
  let ?c = "\<lambda>r q k. userCell r ''cf1'' q (now k) (r @ ''-'' @ q)"
  let ?D = "effects (lit ''cpo-row2'') [cell ''cf1'' ''a'' (now 3) (lit (''cpo-row2'' @ ''-a'')), cell ''cf1'' ''b'' (now (3 + 1)) (lit (''cpo-row2'' @ ''-b'')),
      cell ''cf1'' ''c'' (now (3 + 2)) (lit (''cpo-row2'' @ ''-c''))]
    (effects (lit ''cpo-row1'') [cell ''cf1'' ''a'' (now 0) (lit (''cpo-row1'' @ ''-a'')), cell ''cf1'' ''b'' (now (0 + 1)) (lit (''cpo-row1'' @ ''-b'')),
      cell ''cf1'' ''c'' (now (0 + 2)) (lit (''cpo-row1'' @ ''-c''))] C)"
  let ?cs = "[?c ''cpo-row1'' ''a'' 0, ?c ''cpo-row1'' ''b'' 1, ?c ''cpo-row1'' ''c'' (0 + 2), ?c ''cpo-row2'' ''a'' 3, ?c ''cpo-row2'' ''b'' 4, ?c ''cpo-row2'' ''c'' 5]"
  have o: "lit ''cpo-row1'' < lit ''cpo-row2''" by (simp add: rawBytes_def)
  have L: "listing ?D (covers (PrefixRange (lit ''cpo''))) ?cs"
  proof (rule listing_known)
    show "sorted_wrt (\<lambda>a b. cell_less (cellAt a) (cellAt b)) ?cs" using o by (simp add: name_less_def rawBytes_def)
    fix r f q t assume "covers (PrefixRange (lit ''cpo'')) r"
    then have "C (r, f, q, t) = None" using assms(2) unfolding empty_row by blast
    then show "?D (r, f, q, t) = tableOf ?cs (r, f, q, t)" by auto
  qed (simp add: rawBytes_def)
  have "runs (Suc (Suc 0)) C i (testReadRowsCellsPerRowOffsetMultiRow T now) (\<lambda>_ C' j. j = i + 3 \<and> sameOutside {lit ''cpo-row1'', lit ''cpo-row2''} C C')"
    unfolding testReadRowsCellsPerRowOffsetMultiRow_def forEach.simps prod.case applying_andThen pass_andThen
    by (intro applying_runs two_rows_scan [OF L, where fe = "\<lparr>fe_eval = cellsPerRowOffsetFilter 1 0, fe_stripValue = False, fe_labels = []\<rparr>"
          and as = "[?c ''cpo-row1'' ''b'' 1, ?c ''cpo-row1'' ''c'' (0 + 2)]" and bs = "[?c ''cpo-row2'' ''b'' 4, ?c ''cpo-row2'' ''c'' 5]"
          and r = "lit ''cpo-row1''" and r' = "lit ''cpo-row2''"])
      (use assms(1) o in \<open>simp_all add: newRowFilterEngine_def stripped_def namedCell_def own_row del: effects_simps\<close>, simp_all add: rawBytes_def)
  then show ?thesis by (simp add: numeral_2_eq_2)
qed

end

end
