(* ===== verification/ClientSuite.thy ===== *)
theory ClientSuite
  imports ClientScans
begin

text \<open>
  The run of \<open>cmd/test-bigtable-client\<close>: on a server that has just started and works, every test passes, every
  random round trip passes, and the command exits with 0. The last section shows a client library over the
  server's model that keeps the contract.
\<close>

section \<open>The order of the tests\<close>

text \<open>Clocks after 1970 and three hours, and goroutines that all run.\<close>

definition goodEnv :: "clientEnv \<Rightarrow> bool" where
  "goodEnv E \<longleftrightarrow> (\<forall>k. goodClock (ce_now E k)) \<and> (\<forall>k. minutes 180 \<le> ce_time E k \<and> ce_time E k + minutes 120 < 2 ^ 63) \<and>
     distinct (ce_order E 0) \<and> set (ce_order E 0) = {0..<10} \<and> distinct (ce_order E 1) \<and> set (ce_order E 1) = {0..<5}"

lemma runTests_passes: "forEach tests snd s = (Inr (), s') \<Longrightarrow> runTests tests s = ((map (\<lambda>t. PASS (fst t)) tests, 0), s')"
proof (induction tests s arbitrary: s' rule: runTests.induct)
  case (2 n test tests s)
  then show ?case by (auto simp: andThen_def split: prod.splits sum.splits)
qed (simp add: pass_def)

text \<open>The rows that a table has.\<close>

definition onlyRows :: "bytes set \<Rightarrow> (cellId \<Rightarrow> bytes option) \<Rightarrow> bool" where
  "onlyRows S C \<longleftrightarrow> (\<forall>r. r \<notin> S \<longrightarrow> rowCells C r = {})"

lemma onlyRowsD: "onlyRows S C \<Longrightarrow> r \<notin> S \<Longrightarrow> rowCells C r = {}"
  by (simp add: onlyRows_def)

lemma onlyRows_outside: "onlyRows S C \<Longrightarrow> sameOutside R C D \<Longrightarrow> onlyRows (R \<union> S) D"
  by (simp add: onlyRows_def sameOutside_def empty_row)

lemma onlyRows_mono: "onlyRows S C \<Longrightarrow> S \<subseteq> S' \<Longrightarrow> onlyRows S' C"
  by (auto simp: onlyRows_def)

lemma onlyRows_users: "onlyRows {lit ''user1'', lit ''user2'', lit ''user3''} (usersTable now now')"
  by (auto simp: onlyRows_def usersTable_def user1Table_def empty_row)

lemma prefix_lit: "covers (PrefixRange (lit p)) (lit s) \<longleftrightarrow> take (length p) s = p"
  using rawBytes_eq [of "take (length p) s" p] by (simp add: rawBytes_def take_map del: rawBytes_eq)

lemma prefix_both: "covers (PrefixRange (lit p)) r \<Longrightarrow> covers (PrefixRange (lit q)) r \<Longrightarrow> take (length q) p = take (length p) q"
proof -
  assume "covers (PrefixRange (lit p)) r" "covers (PrefixRange (lit q)) r"
  then have "take (length p) r = lit p" "take (length q) r = lit q" by simp_all
  moreover have "take (length q) (take (length p) r) = take (length p) (take (length q) r)" by (simp add: min.commute)
  ultimately have "take (length q) (lit p) = take (length p) (lit q)" by simp
  then have "lit (take (length q) p) = lit (take (length p) q)" by (simp add: rawBytes_def take_map)
  then show ?thesis by (simp only: rawBytes_eq)
qed

context bigtable_client
begin

lemma suite_step:
  assumes "runs k C i t (\<lambda>_ C' j. j = i + m \<and> Q C')" "\<And>C' j. j = i + m \<Longrightarrow> Q C' \<Longrightarrow> runs l C' j (forEach ts snd) R"
  shows "runs (k + l) C i (forEach ((n, t) # ts) snd) R"
  using runs_then [OF assms(1), of l "\<lambda>_. forEach ts snd" R] assms(2) by simp

lemma user1_size: "rowSize (user1Table now) (lit ''user1'') 3"
  unfolding user1Table_def by (rule rowSize_le [OF rowSize_effects [OF rowSize_empty]]) (simp_all add: rowCells_def)

text \<open>Up to the scan of a prefix, the table is known.\<close>

lemma first_tests:
  assumes "goodEnv E" "runs l (usersTable (ce_now E 0) (ce_now E 1)) (i + 30) (forEach ts snd) R"
  shows "runs (15 + l) Map.empty i (forEach (take 16 (clientTests T E) @ ts) snd) R"
proof -
  have now: "goodClock (ce_now E k)" "minutes 180 \<le> ce_time E k" "ce_time E k + minutes 120 < 2 ^ 63" for k
    using assms(1) by (simp_all add: goodEnv_def)
  let ?C = "user1Table (ce_now E 0)"
  have e: "rowCells ?C (lit ''latest-n-test'') = {}" "rowCells ?C (lit ''ts-range-test'') = {}"
    by (simp_all add: user1Table_def empty_row)
  have c: "card (familyCells ?C (lit ''user1'') (lit ''cf1'')) = 2" "card (familyCells ?C (lit ''user1'') (lit ''cf2'')) = 1"
    by (simp_all add: user1Table_def rowCells_def)
  have set: "runs 1 Map.empty i (testSetCell T (ce_now E 0)) (\<lambda>_ C' j. j = i + 1 \<and> C' = ?C)"
    using testSetCell_runs [OF now(1)] unfolding user1Table_def .
  have l: "15 + l = 1 + (0 + (0 + (0 + (0 + (0 + (0 + (0 + (0 + (0 + (6 + (6 + (2 + (0 + (0 + (0 + l)))))))))))))))" by simp
  have list: "take 16 (clientTests T E) =
    [(''SetCell'', testSetCell T (ce_now E 0)), (''ReadRow'', testReadRow T), (''ReadRows/FullScan'', testReadRowsFullScan T),
     (''ReadRows/RowKeyFilter'', testReadRowsRowKeyFilter T), (''ReadRows/FamilyFilter'', testReadRowsFamilyFilter T),
     (''ReadRows/ColumnFilter'', testReadRowsColumnFilter T), (''ReadRows/ValueFilter'', testReadRowsValueFilter T),
     (''ReadRows/ChainFilters'', testReadRowsChainFilters T), (''ReadRows/InterleaveFilters'', testReadRowsInterleaveFilters T),
     (''ReadRows/StripValue'', testReadRowsStripValue T), (''ReadRows/LatestNFilter'', testReadRowsLatestNFilter T),
     (''ReadRows/TimestampRangeFilter'', testReadRowsTimestampRange T (ce_time E 0)), (''ReadRows/RowLimit'', testReadRowsRowLimit T (ce_now E 1)),
     (''ReadRows/Reversed'', testReadRowsReversed T), (''ReadRows/RowList'', testReadRowsRowList T), (''ReadRows/PrefixRange'', testReadRowsPrefixRange T)]"
    by (simp add: clientTests_def)
  note steps = set testReadRow_runs [OF user1_size c] testReadRowsFullScan_runs testReadRowsRowKeyFilter_runs testReadRowsFamilyFilter_runs
    testReadRowsColumnFilter_runs testReadRowsValueFilter_runs testReadRowsChainFilters_runs testReadRowsInterleaveFilters_runs
    testReadRowsStripValue_runs testReadRowsLatestNFilter_runs [OF e(1)] testReadRowsTimestampRange_runs [OF e(2) now(2,3)]
    testReadRowsRowLimit_runs [OF now(1)] testReadRowsReversed_runs testReadRowsRowList_runs testReadRowsPrefixRange_runs
  show ?thesis unfolding l list append_Cons append_Nil
    apply (rule suite_step, rule steps, hypsubst)+
    using assms(2) by (simp add: add.commute)
qed

text \<open>After that, each test works on rows of its own: a test that is given empty rows leaves the others as they are.\<close>

definition ownRows :: "nat \<Rightarrow> nat \<Rightarrow> bytes set \<Rightarrow> (('s, 'db) server \<times> nat, unit) check \<Rightarrow> bool" where
  "ownRows k m R t \<longleftrightarrow> (\<forall>C i. (\<forall>r \<in> R. rowCells C r = {}) \<longrightarrow> runs k C i t (\<lambda>_ C' j. j = i + m \<and> sameOutside R C C'))"

lemma own_step:
  assumes "onlyRows S C" "ownRows k m R t" "S \<inter> R = {}" "\<And>C'. onlyRows (R \<union> S) C' \<Longrightarrow> runs l C' (i + m) (forEach ts snd) Q"
  shows "runs (k + l) C i (forEach ((n, t) # ts) snd) Q"
proof (rule suite_step)
  have "\<forall>r \<in> R. rowCells C r = {}" using assms(1,3) onlyRowsD by blast
  then show "runs k C i t (\<lambda>_ C' j. j = i + m \<and> sameOutside R C C')" using assms(2) unfolding ownRows_def by blast
qed (use assms(1,4) onlyRows_outside in blast)

lemma own_same: "(\<And>C i. (\<And>r. r \<in> R \<Longrightarrow> rowCells C r = {}) \<Longrightarrow> runs k C i t (\<lambda>_ C' j. j = i + m \<and> C' = C)) \<Longrightarrow> ownRows k m R t"
  unfolding ownRows_def by (blast intro: runs_weaken sameOutside_refl)

lemma ownI: "(\<And>C i. (\<And>r. r \<in> R \<Longrightarrow> rowCells C r = {}) \<Longrightarrow> runs k C i t (\<lambda>_ C' j. j = i + m \<and> sameOutside R C C')) \<Longrightarrow> ownRows k m R t"
  unfolding ownRows_def by blast

lemma own_tests:
  assumes "goodClock now"
  shows "ownRows 1 2 {lit ''no-such-row''} (testCheckAndMutateFalse T now)" "ownRows 3 4 {lit ''counter-row''} (testIncrement T)"
    "ownRows 2 3 {lit ''neg-inc-test''} (testNegativeIncrement T)" "ownRows 2 3 {lit ''append-row''} (testAppend T)"
    "ownRows 1 4 {lit ''bulk1'', lit ''bulk2'', lit ''bulk3''} (testApplyBulk T now)" "ownRows 0 0 {} (testApplyBulkEmpty T)"
    "ownRows 2 3 {lit ''delete-col-test''} (testDeleteFromColumn T now)" "ownRows 2 3 {lit ''delete-fam-test''} (testDeleteFromFamily T now)"
    "ownRows 2 3 {lit ''delete-row-test''} (testDeleteFromRow T now)" "ownRows 0 1 {} (testSampleRowKeys T)"
    "ownRows 3 4 {lit ''check-value-pred''} (testCheckAndMutateValuePredicate T now)"
    "ownRows 2 3 {r. covers (PrefixRange (lit ''cpr'')) r} (testReadRowsCellsPerRowLimitMultiRow T now)"
    "ownRows 2 3 {r. covers (PrefixRange (lit ''cpo'')) r} (testReadRowsCellsPerRowOffsetMultiRow T now)"
proof -
  have size: "rowCells C r = {} \<Longrightarrow> rowSize C r n" for C r n by (rule rowSize_le [OF rowSize_empty]) simp_all
  have wider: "sameOutside R C D \<Longrightarrow> R \<subseteq> R' \<Longrightarrow> sameOutside R' C D" for R R' C D unfolding sameOutside_def by blast
  show "ownRows 1 2 {lit ''no-such-row''} (testCheckAndMutateFalse T now)"
    by (rule ownI, rule runs_weaken [OF testCheckAndMutateFalse_runs [OF assms]]) (auto intro: size sameOutside_effects sameOutside_refl simp del: effects_simps)
  show "ownRows 3 4 {lit ''counter-row''} (testIncrement T)"
    by (rule ownI, rule runs_weaken [OF testIncrement_runs]) auto
  show "ownRows 2 3 {lit ''neg-inc-test''} (testNegativeIncrement T)"
    by (rule ownI, rule runs_weaken [OF testNegativeIncrement_runs]) auto
  show "ownRows 2 3 {lit ''append-row''} (testAppend T)"
    by (rule ownI, rule runs_weaken [OF testAppend_runs]) auto
  show "ownRows 1 4 {lit ''bulk1'', lit ''bulk2'', lit ''bulk3''} (testApplyBulk T now)"
    by (rule ownI, rule testApplyBulk_runs [OF assms]) (blast intro: size)
  show "ownRows 0 0 {} (testApplyBulkEmpty T)" "ownRows 0 1 {} (testSampleRowKeys T)"
    using testApplyBulkEmpty_runs testSampleRowKeys_runs by (auto intro!: own_same)
  show "ownRows 2 3 {lit ''delete-col-test''} (testDeleteFromColumn T now)"
    by (rule ownI, rule testDeleteFromColumn_runs [OF assms]) blast
  show "ownRows 2 3 {lit ''delete-fam-test''} (testDeleteFromFamily T now)"
    by (rule ownI, rule testDeleteFromFamily_runs [OF assms]) blast
  show "ownRows 2 3 {lit ''delete-row-test''} (testDeleteFromRow T now)"
    by (rule own_same, rule testDeleteFromRow_runs [OF assms]) blast
  show "ownRows 3 4 {lit ''check-value-pred''} (testCheckAndMutateValuePredicate T now)"
    by (rule own_same, rule testCheckAndMutateValuePredicate_runs [OF assms]) blast
  show "ownRows 2 3 {r. covers (PrefixRange (lit ''cpr'')) r} (testReadRowsCellsPerRowLimitMultiRow T now)"
    by (rule ownI, rule runs_weaken [OF testReadRowsCellsPerRowLimit_runs [OF assms]]) (auto simp: prefix_lit elim!: wider simp del: covers.simps)
  show "ownRows 2 3 {r. covers (PrefixRange (lit ''cpo'')) r} (testReadRowsCellsPerRowOffsetMultiRow T now)"
    by (rule ownI, rule runs_weaken [OF testReadRowsCellsPerRowOffset_runs [OF assms]]) (auto simp: prefix_lit elim!: wider simp del: covers.simps)
qed

lemma own_timed:
  assumes "minutes 180 \<le> t" "t + minutes 120 < 2 ^ 63"
  shows "ownRows 7 8 {lit ''delete-ts-test''} (testDeleteTimestampRange T t)"
  by (rule own_same, rule testDeleteTimestampRange_runs) (use assms in \<open>auto simp: minutes_def\<close>)

lemma own_concurrent:
  assumes "goodEnv E"
  shows "ownRows 20 30 {r. covers (PrefixRange (lit ''concurrent-'')) r \<and> r \<noteq> lit ''concurrent-check-row''} (testConcurrentWrites T (ce_now E k) (ce_order E 0))"
    "ownRows 7 8 {lit ''concurrent-check-row''} (testCheckAndMutateConcurrentSameRow T (ce_now E k) (ce_order E 1))"
proof -
  have e: "goodClock (ce_now E k)" "distinct (ce_order E 0)" "set (ce_order E 0) = {0..<10}" "distinct (ce_order E 1)" "set (ce_order E 1) = {0..<5}"
    using assms by (simp_all add: goodEnv_def)
  have d: "lit (''concurrent-'' @ decimal n) \<in> {r. covers (PrefixRange (lit ''concurrent-'')) r \<and> r \<noteq> lit ''concurrent-check-row''}" if "n < 10" for n
    using that by (auto simp: prefix_lit decimal.simps simp del: covers.simps)
  show "ownRows 20 30 {r. covers (PrefixRange (lit ''concurrent-'')) r \<and> r \<noteq> lit ''concurrent-check-row''} (testConcurrentWrites T (ce_now E k) (ce_order E 0))"
    by (rule own_same, rule testConcurrentWrites_runs [OF e(1-3)]) (use d in blast)
  show "ownRows 7 8 {lit ''concurrent-check-row''} (testCheckAndMutateConcurrentSameRow T (ce_now E k) (ce_order E 1))"
    by (rule own_same, rule testCheckAndMutateConcurrentSameRow_runs [OF e(1) _ e(4,5)]) blast
qed

lemma checked_user:
  assumes "goodClock now"
  shows "runs 1 (usersTable n n') i (testCheckAndMutateTrue T now)
    (\<lambda>_ C' j. j = i + 2 \<and> onlyRows {lit ''user1'', lit ''user2'', lit ''user3''} C')"
proof -
  have size: "rowSize (usersTable n n') (lit ''user1'') 98"
    using rowSize_le [OF user1_size, of 98 n] by (simp add: usersTable_def rowSize_def rowCells_other del: effects_simps)
  have score: "usersTable n n' (lit ''user1'', lit ''cf2'', lit ''score'', millis (n 2)) = Some (lit ''42'')"
    by (simp add: usersTable_def user1Table_def)
  have "sameOutside {lit ''user1''} (usersTable n n') (effects (lit ''user1'') ops (usersTable n n'))" for ops
    by (rule sameOutside_effects [OF sameOutside_refl]) simp
  from onlyRows_outside [OF onlyRows_users this]
  have "onlyRows {lit ''user1'', lit ''user2'', lit ''user3''} (effects (lit ''user1'') ops (usersTable n n'))" for ops
    by (simp add: insert_commute)
  then show ?thesis by (intro runs_weaken [OF testCheckAndMutateTrue_runs [OF assms size score]]) (auto simp del: effects_simps)
qed

lemma last_tests:
  assumes "goodEnv E"
  shows "runs 63 (usersTable (ce_now E 0) (ce_now E 1)) i (forEach (drop 16 (clientTests T E)) snd)
    (\<lambda>_ C' j. onlyRows {r. \<not> covers (PrefixRange (lit ''fuzz-row-'')) r} C')"
proof -
  have now: "goodClock (ce_now E k)" "minutes 180 \<le> ce_time E k" "ce_time E k + minutes 120 < 2 ^ 63" for k using assms by (simp_all add: goodEnv_def)
  let ?C = "usersTable (ce_now E 0) (ce_now E 1)"
  have list: "drop 16 (clientTests T E) =
    [(''ReadRows/BinaryKey'', testReadRowsBinaryKey T (ce_now E 2)), (''ReadRows/LargeValue'', testReadRowsLargeValue T (ce_now E 3)),
     (''ReadRows/ManyCellsSingleRow'', testReadRowsManyCellsSingleRow T (ce_now E 4)), (''CheckAndMutateRow/TrueBranch'', testCheckAndMutateTrue T (ce_now E 5)),
     (''CheckAndMutateRow/FalseBranch'', testCheckAndMutateFalse T (ce_now E 6)), (''ReadModifyWrite/Increment'', testIncrement T),
     (''ReadModifyWrite/NegativeIncrement'', testNegativeIncrement T), (''ReadModifyWrite/Append'', testAppend T), (''ApplyBulk'', testApplyBulk T (ce_now E 7)),
     (''ApplyBulk/Empty'', testApplyBulkEmpty T), (''DeleteFromColumn'', testDeleteFromColumn T (ce_now E 8)), (''DeleteFromFamily'', testDeleteFromFamily T (ce_now E 9)),
     (''DeleteFromRow'', testDeleteFromRow T (ce_now E 10)), (''DeleteTimestampRange'', testDeleteTimestampRange T (ce_time E 1)),
     (''SampleRowKeys'', testSampleRowKeys T), (''ConcurrentWrites'', testConcurrentWrites T (ce_now E 11) (ce_order E 0)),
     (''CheckAndMutateRow/ValuePredicate'', testCheckAndMutateValuePredicate T (ce_now E 12)),
     (''CheckAndMutateRow/ConcurrentSameRow'', testCheckAndMutateConcurrentSameRow T (ce_now E 13) (ce_order E 1)),
     (''ReadRows/CellsPerRowLimitMultiRow'', testReadRowsCellsPerRowLimitMultiRow T (ce_now E 14)),
     (''ReadRows/CellsPerRowOffsetMultiRow'', testReadRowsCellsPerRowOffsetMultiRow T (ce_now E 15))]"
    by (simp add: clientTests_def)
  have l: "63 = 2 + (2 + (2 + (1 + (1 + (3 + (2 + (2 + (1 + (0 + (2 + (2 + (2 + (7 + (0 + (20 + (3 + (7 + (2 + (2 + (0::nat))))))))))))))))))))" by simp
  have e: "rowCells ?C binaryKey = {}" "rowCells ?C (lit ''large-val-test'') = {}" "rowCells ?C (lit ''many-cells-row'') = {}"
    using onlyRowsD [OF onlyRows_users] by (simp_all add: binaryKey_def rawBytes_def)
  note known = testReadRowsBinaryKey_runs [OF now(1) e(1)] testReadRowsLargeValue_runs [OF now(1) e(2)] testReadRowsManyCells_runs [OF now(1) e(3)]
  note own = own_tests [OF now(1)] own_timed [OF now(2,3)] own_concurrent [OF assms]
  show ?thesis unfolding l list
    apply (rule suite_step, rule known, hypsubst)+
    apply (rule suite_step, rule checked_user [OF now(1)])
    apply (rule own_step, assumption, rule own, (auto simp: prefix_lit dest: prefix_both simp del: covers.simps)[1])+
    by (simp only: forEach.simps, rule runs_pass, erule onlyRows_mono, auto simp: prefix_lit dest: prefix_both simp del: covers.simps)
qed

lemma suite_runs:
  assumes "goodEnv E"
  shows "runs 78 Map.empty 0 (forEach (clientTests T E) snd) (\<lambda>_ C' j. onlyRows {r. \<not> covers (PrefixRange (lit ''fuzz-row-'')) r} C')"
  using first_tests [OF assms last_tests [OF assms], of 0] by simp

text \<open>The random round trips: each works on a row with the prefix \<open>fuzz-row-\<close>, and leaves it empty.\<close>

lemma fuzz_row: "covers (PrefixRange (lit ''fuzz-row-'')) (fst (fuzzCell T' now seed))"
proof -
  have "\<exists>s. fst (fuzzCell T' now seed) = lit (''fuzz-row-'' @ s)" unfolding fuzzCell_def by (auto split: prod.splits)
  then show ?thesis using prefix_lit [of "''fuzz-row-''"] by auto
qed

lemma fuzz_run:
  assumes "served name sv (n + 2) C" "cleanTable C" "0 \<le> sint now" "rowCells C (fst (fuzzCell T now seed)) = {}"
  shows "\<exists>sv'. fuzzRoundTrip T now seed (sv, i) = (Inr (), (sv', i + 3)) \<and> served name sv' n C"
  using fuzzRoundTrip_runs [OF assms(3,4), of i] assms(1,2) unfolding runs_def by fastforce

lemma fuzzLoop_passes:
  assumes "\<And>k. 0 \<le> sint (now k)" "onlyRows {r. \<not> covers (PrefixRange (lit ''fuzz-row-'')) r} C" "cleanTable C" "served name sv (2 * length is) C"
  shows "\<exists>s'. fuzzLoop T now is (sv, i) = (([], 0), s')"
  using assms(4)
proof (induction "is" arbitrary: sv i)
  case (Cons a "is")
  have e: "rowCells C (fst (fuzzCell T (now a) (of_nat a))) = {}" using onlyRowsD [OF assms(2)] fuzz_row by blast
  have "served name sv (2 * length is + 2) C" using Cons.prems by (simp add: add.commute)
  then obtain sv' where 1: "fuzzRoundTrip T (now a) (of_nat a) (sv, i) = (Inr (), (sv', i + 3))" "served name sv' (2 * length is) C"
    using fuzz_run [OF _ assms(3,1) e] by blast
  then show ?case using Cons.IH [OF 1(2)] by fastforce
qed simp

lemma client_run:
  assumes "goodEnv E" "served name sv (78 + 2 * fuzz) Map.empty"
  shows "clientMain T E fuzz (sv, 0) =
    (map (PASS \<circ> fst) (clientTests T E) @ (if fuzz > 0 then [FuzzTest fuzz, FuzzPASS] else []) @ [AllPassed], 0)"
proof -
  have "served name sv (2 * fuzz + 78) Map.empty" using assms(2) by (simp add: add.commute)
  then obtain sv' C j where 1: "forEach (clientTests T E) snd (sv, 0) = (Inr (), (sv', j))" "served name sv' (2 * fuzz) C" "cleanTable C"
    "onlyRows {r. \<not> covers (PrefixRange (lit ''fuzz-row-'')) r} C"
    using suite_runs [OF assms(1)] clean_empty unfolding runs_def by fastforce
  have "0 \<le> sint (ce_now E 16 k)" for k using assms(1) by (simp add: goodEnv_def goodClock_def)
  then obtain s' where "fuzzLoop T (ce_now E 16) [0..<fuzz] (sv', j) = (([], 0), s')"
    using fuzzLoop_passes [of "ce_now E 16" C sv' "[0..<fuzz]" j] 1(2-4) by auto
  then show ?thesis unfolding clientMain_def runTests_passes [OF 1(1)] by (simp add: comp_def)
qed

end

end
