(* ===== verification/ReferenceClient.thy ===== *)
theory ReferenceClient
  imports ClientSuite "HOL-Library.Sublist"
begin

text \<open>
  A client library over the server: it sends what the contract \<open>bigtable_client\<close> says, puts the chunks of a
  stream together to cells and the cells to rows. It shows that the contract can be kept, on every server.
\<close>

section \<open>From chunks to rows\<close>

text \<open>The cells of a stream; a chunk that announces a size is continued by the next one.\<close>

definition bytesOf :: "bytes option \<Rightarrow> bytes" where
  "bytesOf x = (case x of None \<Rightarrow> [] | Some v \<Rightarrow> v)"

definition chunkCell :: "bytes cellChunk \<Rightarrow> cellInfo" where
  "chunkCell k = \<lparr>c_rowKey = ck_rowKey k, c_family = bytesOf (ck_family k), c_qualifier = bytesOf (ck_qualifier k), c_ts = ck_ts k, c_value = ck_value k\<rparr>"

fun chunkCells :: "cellInfo option \<Rightarrow> bytes cellChunk list \<Rightarrow> cellInfo list" where
  "chunkCells w [] = []"
| "chunkCells w (k # ks) =
     (let c = case w of None \<Rightarrow> chunkCell k | Some c \<Rightarrow> c\<lparr>c_value := c_value c @ ck_value k\<rparr>
      in if ck_valueSize k = 0 then c # chunkCells None ks else chunkCells (Some c) ks)"

definition toRow :: "cellInfo list \<Rightarrow> clientRow" where
  "toRow cs = map (\<lambda>f. (f, map itemOf (filter (\<lambda>c. c_family c = f) cs))) (remdups (map c_family cs))"

lemma toRow_is: "rowIs cs (toRow cs)"
proof -
  have "map_of (toRow cs) f = (if f \<in> c_family ` set cs then Some (map itemOf (filter (\<lambda>c. c_family c = f) cs)) else None)" for f
    by (simp add: toRow_def map_of_map_restrict restrict_map_def)
  moreover have "f \<notin> c_family ` set cs \<Longrightarrow> filter (\<lambda>c. c_family c = f) cs = []" for f by (auto simp: filter_empty_conv)
  ultimately show ?thesis
    by (auto simp: rowIs_def famItems_def toRow_def comp_def filter_empty_conv)
qed

lemma chunkOf_cell [simp]:
  assumes "namedCell c"
  shows "chunkCell (chunkOf c) = c" "chunkCell (committed (chunkOf c)) = c" "ck_valueSize (chunkOf c) = 0" "ck_valueSize (committed (chunkOf c)) = 0"
  using assms by (cases c; auto simp: namedCell_def chunkCell_def chunkOf_def committed_def readChunk_def readSlice_def cellChunk_def bytesOf_def)+

lemma chunkCells_row: "list_all namedCell r \<Longrightarrow> chunkCells None (rowChunks r @ ks) = r @ chunkCells None ks"
proof -
  have *: "list_all namedCell r \<Longrightarrow> chunkCells None (map chunkOf r @ ks) = r @ chunkCells None ks" for r ks
    by (induction r) simp_all
  show "list_all namedCell r \<Longrightarrow> ?thesis"
    by (cases r rule: rev_cases) (simp_all add: rowChunks_def *)
qed

lemma chunkCells_frame: "list_all (list_all namedCell) rws \<Longrightarrow> chunkCells None (frame rws) = concat rws"
  by (induction rws) (simp_all add: frame_def chunkCells_row)

lemma chunkCells_more:
  assumes "us \<noteq> []" "list_all (\<lambda>k. ck_valueSize k \<noteq> 0) (butlast us)" "ck_valueSize (last us) = 0"
  shows "chunkCells (Some c) us = [c\<lparr>c_value := c_value c @ concat (map ck_value us)\<rparr>]"
  using assms by (induction us arbitrary: c rule: induct_list012) (auto simp: Let_def)

lemma chunkCells_split:
  assumes "splitRow c cks" "c_value c \<noteq> []" "length (c_value c) < 2 ^ 31"
  shows "chunkCells None cks = [c]"
proof -
  have "unat (of_nat (length (c_value c)) :: 32 word) = length (c_value c)" using assms(3) by (simp add: unat_of_nat take_bit_eq_mod)
  then have n: "(of_nat (length (c_value c)) :: 32 word) \<noteq> 0" using assms(2) by (metis length_0_conv unat_0)
  obtain u us where u: "cks = u # us" "concat (map ck_value cks) = c_value c" "chunkCell u = c\<lparr>c_value := ck_value u\<rparr>"
    "list_all (\<lambda>k. ck_valueSize k = of_nat (length (c_value c))) (butlast cks)" "ck_valueSize (last cks) = 0"
    using assms(1) unfolding splitRow_def by (cases c) (auto simp: chunkCell_def bytesOf_def list_all_iff)
  have s: "list_all (\<lambda>k. ck_valueSize k \<noteq> 0) (butlast cks)" using u(4) n by (simp add: list_all_iff)
  show ?thesis
  proof (cases "us = []")
    case False
    then have "ck_valueSize u \<noteq> 0" "list_all (\<lambda>k. ck_valueSize k \<noteq> 0) (butlast us)" "ck_valueSize (last us) = 0" using s u(1,5) by simp_all
    then show ?thesis using chunkCells_more [OF False] u(1-3) by simp
  qed (use u in simp)
qed

text \<open>The rows of the cells of a stream.\<close>

lemma groups_concat:
  assumes "list_all (\<lambda>r. \<forall>c \<in> set r. c_rowKey c = c_rowKey (hd r)) rws" "distinct (map (\<lambda>r. c_rowKey (hd r)) (filter (\<lambda>r. r \<noteq> []) rws))"
  shows "rowGroups (concat rws) = filter (\<lambda>r. r \<noteq> []) rws"
  using assms
proof (induction rws)
  case (Cons r rws)
  show ?case
  proof (cases r)
    case (Cons c cs)
    have key: "\<forall>d \<in> set cs. c_rowKey d = c_rowKey c" using Cons.prems(1) Cons by simp
    have other: "c_rowKey d \<noteq> c_rowKey c" if d: "d \<in> set (concat rws)" for d
    proof -
      obtain r' where r': "r' \<in> set rws" "d \<in> set r'" using d by auto
      then have "c_rowKey d = c_rowKey (hd r')" using Cons.prems(1) unfolding list_all_iff by simp
      moreover have "c_rowKey (hd r') \<noteq> c_rowKey (hd r)" using Cons.prems(2) Cons r' by (force simp: image_iff)
      ultimately show ?thesis using Cons by simp
    qed
    have k: "\<And>d. d \<in> set cs \<Longrightarrow> c_rowKey d = c_rowKey c" using key by blast
    have "concat rws = [] \<or> c_rowKey (hd (concat rws)) \<noteq> c_rowKey c" using other [OF hd_in_set] by blast
    then have o: "takeWhile (\<lambda>d. c_rowKey d = c_rowKey c) (concat rws) = []" "dropWhile (\<lambda>d. c_rowKey d = c_rowKey c) (concat rws) = concat rws"
      by (simp_all only: takeWhile_eq_Nil_iff dropWhile_eq_self_iff)
    have "takeWhile (\<lambda>d. c_rowKey d = c_rowKey c) (cs @ concat rws) = cs" "dropWhile (\<lambda>d. c_rowKey d = c_rowKey c) (cs @ concat rws) = concat rws"
      using takeWhile_append2 [of cs, OF k] dropWhile_append2 [of cs, OF k] o by (simp_all only: append_Nil2)
    then show ?thesis using Cons.IH Cons.prems Cons by simp
  qed (use Cons in simp)
qed simp

lemma framed_groups:
  assumes "wellFramed rev' rws"
  shows "rowGroups (chunkCells None (frame rws)) = filter (\<lambda>r. r \<noteq> []) rws"
proof -
  have apart: "sorted_wrt (\<noteq>) xs \<Longrightarrow> distinct xs" for xs :: "bytes list" by (induction xs) auto
  have "sorted_wrt (\<noteq>) (map (\<lambda>r. c_rowKey (hd r)) (filter (\<lambda>r. r \<noteq> []) rws))"
    by (rule sorted_wrt_mono_rel [OF _ assms [unfolded wellFramed_def, THEN conjunct2, THEN conjunct2]]) (auto split: if_splits)
  then have "distinct (map (\<lambda>r. c_rowKey (hd r)) (filter (\<lambda>r. r \<noteq> []) rws))" by (rule apart)
  then have "rowGroups (concat rws) = filter (\<lambda>r. r \<noteq> []) rws"
    by (rule groups_concat [OF assms [unfolded wellFramed_def, THEN conjunct2, THEN conjunct1]])
  then show ?thesis by (simp only: chunkCells_frame [OF assms [unfolded wellFramed_def, THEN conjunct1]])
qed

section \<open>The calls\<close>

definition callError :: "rpcError \<Rightarrow> goerror" where
  "callError e = (case e of StatusError c s _ \<Rightarrow> Err s | PlainError g \<Rightarrow> g)"

text \<open>The end of the rows with a prefix: the prefix with its last byte that is not \<open>0xFF\<close> increased, and what follows dropped.\<close>

definition prefixEnd :: "bytes \<Rightarrow> bound" where
  "prefixEnd p = (case dropWhile (\<lambda>b. b = 0xFF) (rev p) of [] \<Rightarrow> Unset | b # bs \<Rightarrow> Open (rev ((b + 1) # bs)))"

fun wireRows :: "clientRowSet \<Rightarrow> rowSet" where
  "wireRows AllRows = \<lparr>rs_rowKeys = [], rs_rowRanges = [\<lparr>rr_start = Unset, rr_end = Unset\<rparr>]\<rparr>"
| "wireRows (InfiniteRange s) = \<lparr>rs_rowKeys = [], rs_rowRanges = [\<lparr>rr_start = Closed s, rr_end = Unset\<rparr>]\<rparr>"
| "wireRows (SingleRow k) = \<lparr>rs_rowKeys = [k], rs_rowRanges = []\<rparr>"
| "wireRows (RowList ks) = \<lparr>rs_rowKeys = ks, rs_rowRanges = []\<rparr>"
| "wireRows (PrefixRange p) = \<lparr>rs_rowKeys = [], rs_rowRanges = [\<lparr>rr_start = Closed p, rr_end = prefixEnd p\<rparr>]\<rparr>"

lemma uint_255: "uint (0xFF :: byte) = 255"
  by simp

lemma prefix_range:
  "b \<noteq> (0xFF :: byte) \<Longrightarrow> take (length (p @ [b])) r = p @ [b] \<longleftrightarrow> p @ [b] \<le> r \<and> r < p @ [b + 1]"
proof (induction p arbitrary: r)
  case Nil
  have "uint b \<noteq> 255" using Nil by (metis word_uint_eqI uint_255)
  moreover have "0 \<le> uint b" "uint b < 256" using uint_bounded [of b] by simp_all
  ultimately have "uint (b + 1) = uint b + 1" by (simp add: uint_word_ariths)
  then have "x < b + 1 \<longleftrightarrow> x < b \<or> x = b" for x by (auto simp: word_less_def word_uint_eq_iff)
  then show ?case
    by (cases r) (simp_all, fastforce)
next
  case (Cons a p)
  note ih = Cons.IH [OF Cons.prems]
  show ?case
  proof (cases r)
    case (Cons x xs)
    show ?thesis
    proof (cases "x = a")
      case True
      then show ?thesis using ih [of xs] Cons by simp
    next
      case False
      then show ?thesis using Cons by auto
    qed
  qed simp
qed

lemma wireRows_selects: "oneRange rows \<Longrightarrow> selects (wireRows rows) (covers rows)"
proof (cases rows)
  case (PrefixRange p)
  assume "oneRange rows"
  then obtain q b where p: "p = q @ [b]" "b \<noteq> 0xFF" using PrefixRange by (cases p rule: rev_cases) auto
  then have "prefixEnd p = Open (q @ [b + 1])" by (simp add: prefixEnd_def)
  then show ?thesis using prefix_range [OF p(2), of q] unfolding PrefixRange p(1) selects_def
    by (intro disjI2 exI [of _ "\<lparr>rr_start = Closed (q @ [b]), rr_end = Open (q @ [b + 1])\<rparr>"]) (simp add: fun_eq_iff del: take_append length_append)
next
  case (RowList ks)
  assume "oneRange rows"
  then show ?thesis using RowList by (cases ks) (auto simp: selects_def fun_eq_iff)
qed (auto simp: selects_def fun_eq_iff)

text \<open>The mutations of an entry of \<open>ApplyBulk\<close>; those with a condition are refused.\<close>

definition bulkOps :: "clientMutation \<Rightarrow> clientOp list" where
  "bulkOps m = (case m of Mutation ops \<Rightarrow> ops | CondMutation _ _ _ \<Rightarrow> [])"

definition conditional :: "clientMutation \<Rightarrow> bool" where
  "conditional m = (case m of Mutation _ \<Rightarrow> False | CondMutation _ _ _ \<Rightarrow> True)"

definition refApply :: "'s store \<Rightarrow> 'db pebble \<Rightarrow> codec \<Rightarrow> string \<Rightarrow> (nat \<Rightarrow> request) \<Rightarrow> bytes \<Rightarrow> clientMutation \<Rightarrow> ('s, 'db) server \<times> nat \<Rightarrow>
    (goerror + bool) \<times> ('s, 'db) server \<times> nat" where
  "refApply st P J name rqs key m = (\<lambda>(sv, i).
     (case m of
        Mutation ops \<Rightarrow>
          (case MutateRow st P J (rqs i) \<lparr>mr_tableName = name, mr_rowKey = key, mr_mutations = map wireOp ops\<rparr> sv of
             (Inl e, sv') \<Rightarrow> (Inl (callError e), sv', Suc i)
           | (Inr _, sv') \<Rightarrow> (Inr False, sv', Suc i))
      | CondMutation f tops fops \<Rightarrow>
          (case CheckAndMutateRow st P J (rqs i) \<lparr>cm_tableName = name, cm_rowKey = key, cm_predicate = Some f,
               cm_true = wireOps tops, cm_false = wireOps fops\<rparr> sv of
             (Inl e, sv') \<Rightarrow> (Inl (callError e), sv', Suc i)
           | (Inr b, sv') \<Rightarrow> (Inr b, sv', Suc i))))"

definition refApplyBulk :: "'s store \<Rightarrow> 'db pebble \<Rightarrow> codec \<Rightarrow> string \<Rightarrow> (nat \<Rightarrow> request) \<Rightarrow> bytes list \<Rightarrow> clientMutation list \<Rightarrow> ('s, 'db) server \<times> nat \<Rightarrow>
    (goerror + goerror option list) \<times> ('s, 'db) server \<times> nat" where
  "refApplyBulk st P J name rqs keys ms = (\<lambda>(sv, i).
     (if keys = [] then (Inr [], sv, i)
      else if length keys \<noteq> length ms \<or> list_ex conditional ms then (Inl (Err ''bigtable: mutations''), sv, i)
      else (case MutateRows st P J (rqs i) \<lparr>ms_tableName = name,
               ms_entries = map2 (\<lambda>k ops. \<lparr>en_rowKey = k, en_mutations = map wireOp ops\<rparr>) keys (map bulkOps ms)\<rparr> \<lparr>sk_sent = [], sk_faults = []\<rparr> sv of
             (Some e, _, sv') \<Rightarrow> (Inl (callError e), sv', Suc i)
           | (None, sk', sv') \<Rightarrow>
               (let codes = map (\<lambda>e. rs_code (re_status e)) (concat (map mp_entries (sk_sent sk')))
                in (Inr (if list_all (\<lambda>c. c = 0) codes then [] else map (\<lambda>c. if c = 0 then None else Some (ApiErr (unat c))) codes), sv', Suc i)))))"

definition refReadModifyWrite :: "'s store \<Rightarrow> 'db pebble \<Rightarrow> codec \<Rightarrow> string \<Rightarrow> (nat \<Rightarrow> request) \<Rightarrow> bytes \<Rightarrow> rmwRule list \<Rightarrow> ('s, 'db) server \<times> nat \<Rightarrow>
    (goerror + clientRow) \<times> ('s, 'db) server \<times> nat" where
  "refReadModifyWrite st P J name rqs key rules = (\<lambda>(sv, i).
     (case ReadModifyWriteRow st P J (rqs i) \<lparr>rm_tableName = name, rm_rowKey = key, rm_rules = rules\<rparr> sv of
        (Inl e, sv') \<Rightarrow> (Inl (callError e), sv', Suc i)
      | (Inr resp, sv') \<Rightarrow>
          (Inr (toRow (concat (map (\<lambda>(f, q). case rw_families resp f of
              None \<Rightarrow> []
            | Some m \<Rightarrow> (case m q of None \<Rightarrow> [] | Some v \<Rightarrow> [\<lparr>c_rowKey = rw_key resp, c_family = f, c_qualifier = q, c_ts = rw_ts resp, c_value = v\<rparr>]))
              (remdups (map (\<lambda>u. (ru_family u, ru_qualifier u)) rules))))), sv', Suc i)))"

definition refReadRow :: "'s store \<Rightarrow> 'db pebble \<Rightarrow> codec \<Rightarrow> string \<Rightarrow> (nat \<Rightarrow> request) \<Rightarrow> bytes \<Rightarrow> ('s, 'db) server \<times> nat \<Rightarrow>
    (goerror + clientRow option) \<times> ('s, 'db) server \<times> nat" where
  "refReadRow st P J name rqs key = (\<lambda>(sv, i).
     (case ReadRows st P J (rqs i) (rowRequest name key 1 None) newStream sv of
        (Some e, _, sv') \<Rightarrow> (Inl (callError e), sv', Suc i)
      | (None, sk', sv') \<Rightarrow> (let cs = chunkCells None (sentOn sk') in (Inr (if cs = [] then None else Some (toRow cs)), sv', Suc i))))"

definition refReadRows :: "'s store \<Rightarrow> 'db pebble \<Rightarrow> codec \<Rightarrow> string \<Rightarrow> (nat \<Rightarrow> request) \<Rightarrow> readArgs \<Rightarrow> ('s, 'db) server \<times> nat \<Rightarrow>
    (goerror option \<times> clientRow list) \<times> ('s, 'db) server \<times> nat" where
  "refReadRows st P J name rqs a = (\<lambda>(sv, i).
     (case ReadRows st P J (rqs i) \<lparr>rd_tableName = name, rd_rowsLimit = ra_limit a, rd_filter = ra_filter a,
          rd_rows = Some (wireRows (ra_rows a)), rd_reversed = ra_reversed a\<rparr> newStream sv of
        (e, sk', sv') \<Rightarrow> ((map_option callError e, map toRow (rowGroups (chunkCells None (sentOn sk')))), sv', Suc i)))"

definition refSampleRowKeys :: "'s store \<Rightarrow> 'db pebble \<Rightarrow> codec \<Rightarrow> string \<Rightarrow> ('s, 'db) server \<times> nat \<Rightarrow> (goerror + bytes list) \<times> ('s, 'db) server \<times> nat" where
  "refSampleRowKeys st P J name = (\<lambda>(sv, i).
     (case SampleRowKeys st P J name \<lparr>sk_sent = [], sk_faults = []\<rparr> sv of
        (Some e, _, sv') \<Rightarrow> (Inl (callError e), sv', Suc i)
      | (None, sk', sv') \<Rightarrow> (Inr (map sr_rowKey (sk_sent sk')), sv', Suc i)))"

definition refClient :: "'s store \<Rightarrow> 'db pebble \<Rightarrow> codec \<Rightarrow> string \<Rightarrow> (nat \<Rightarrow> request) \<Rightarrow> (('s, 'db) server \<times> nat) btTable" where
  "refClient st P J name rqs =
     \<lparr>t_Apply = refApply st P J name rqs, t_ApplyBulk = refApplyBulk st P J name rqs, t_ApplyReadModifyWrite = refReadModifyWrite st P J name rqs,
      t_ReadRow = refReadRow st P J name rqs, t_ReadRows = refReadRows st P J name rqs, t_SampleRowKeys = refSampleRowKeys st P J name,
      t_Time = (\<lambda>ns. word_of_int (ns div 1000))\<rparr>"

lemma refClient_keeps:
  assumes "working_server st contents ok P view flushed J up isDir clock" "\<And>i. proper (rqs i)"
    "\<And>i p. list_all alphanumeric p \<Longrightarrow> \<exists>re. rq_compile (rqs i) p = Inr re \<and> (\<forall>s. re s \<longleftrightarrow> (\<exists>a b. s = a @ p @ b))"
    "\<And>i j. i \<le> j \<Longrightarrow> sint (rq_clock (rqs i) 0) \<le> sint (rq_clock (rqs j) 0)" "\<And>db. \<exists>levels. pSSTables P db = Inr levels"
  shows "bigtable_client st contents ok P view flushed J up isDir clock (refClient st P J name rqs) name rqs"
proof (rule bigtable_client.intro [OF assms(1)], unfold_locales, goal_cases)
  case (3 i j) then show ?case by (rule assms(4))
next
  case (6 keys opss i sv sk' sv')
  have "\<not> list_ex conditional (map Mutation opss)" "map bulkOps (map Mutation opss) = opss" by (simp_all add: conditional_def bulkOps_def list_ex_iff comp_def)
  then show ?case using 6 by (simp add: refClient_def refApplyBulk_def list_all_iff Ball_def) 
next
  case (8 i key fm q op sv ts v sv')
  then show ?case by (simp add: refClient_def refReadModifyWrite_def toRow_def famItems_def itemOf_def itemAt_def)
next
  case (9 i key sv)
  show ?case
  proof (intro exI [of _ 1] conjI allI impI)
    show "(1 :: int64) = 0 \<or> (1 :: int64) = 1" by simp
    fix sk' sv' cs
    assume a: "ReadRows st P J (rqs i) (rowRequest name key 1 None) newStream sv = (None, sk', sv')"
      "sentOn sk' = rowChunks cs \<or> (\<exists>c. cs = [c] \<and> c_value c \<noteq> [] \<and> length (c_value c) < 2 ^ 31 \<and> splitRow c (sentOn sk'))" "wellFramed False [cs]"
    have "chunkCells None (sentOn sk') = cs"
      using a(2,3) chunkCells_split chunkCells_row [of cs "[]"] by (auto simp: wellFramed_def)
    then show "\<exists>row. t_ReadRow (refClient st P J name rqs) key (sv, i) = (Inr row, sv', Suc i) \<and>
        (case row of None \<Rightarrow> cs = [] | Some x \<Rightarrow> cs \<noteq> [] \<and> rowIs cs x)"
      using a(1) toRow_is by (simp add: refClient_def refReadRow_def)
  qed
next
  case (10 a i sv)
  show ?case
  proof (intro exI [of _ "wireRows (ra_rows a)"] conjI allI impI wireRows_selects [OF 10])
    fix sk' sv' rws
    assume a: "ReadRows st P J (rqs i) \<lparr>rd_tableName = name, rd_rowsLimit = ra_limit a, rd_filter = ra_filter a,
        rd_rows = Some (wireRows (ra_rows a)), rd_reversed = ra_reversed a\<rparr> newStream sv = (None, sk', sv')"
      "sentOn sk' = frame rws" "wellFramed (ra_reversed a) rws"
    show "\<exists>rs. t_ReadRows (refClient st P J name rqs) a (sv, i) = ((None, rs), sv', Suc i) \<and> list_all2 rowIs (filter (\<lambda>r. r \<noteq> []) rws) rs"
      using a(1,2) framed_groups [OF a(3)] by (simp add: refClient_def refReadRows_def list_all2_conv_all_nth toRow_is)
  qed
next
  case (11 sv sm sv' i)
  then show ?case by (simp add: refClient_def refSampleRowKeys_def)
next
  case (13 ns)
  then show ?case by (simp add: refClient_def sint_sbintrunc' signed_take_bit_int_eq_self)
qed (simp_all add: assms(2,3,5) refClient_def refApply_def refApplyBulk_def)

section \<open>An example\<close>

definition exClientRequest :: request where
  "exClientRequest = exRequest\<lparr>rq_compile := (\<lambda>p. Inr (sublist p))\<rparr>"

definition "exClient = refClient exStore refPebble refCodec ''t'' (\<lambda>_. exClientRequest)"

interpretation exClient: bigtable_client exStore exContents "\<lambda>_. True" refPebble exView "map_of \<circ> r_flushed" refCodec "\<lambda>_. True" "\<lambda>_ _. False" "\<lambda>_. 0"
  exClient "''t''" "\<lambda>_. exClientRequest"
proof -
  show "bigtable_client exStore exContents (\<lambda>_. True) refPebble exView (map_of \<circ> r_flushed) refCodec (\<lambda>_. True) (\<lambda>_ _. False) (\<lambda>_. 0)
      exClient ''t'' (\<lambda>_. exClientRequest)"
    unfolding exClient_def
    by (rule refClient_keeps [OF exServing.working_server_axioms])
      (simp_all add: exClientRequest_def exRequest_def proper_def exEnv_def goodClock_def sublist_def refPebble_def)
qed

definition exClientEnv :: clientEnv where
  "exClientEnv = \<lparr>ce_now = (\<lambda>_ n. word_of_int (10 ^ 15 + int n mod 1000 * 1000)), ce_time = (\<lambda>_. 10 ^ 18), ce_order = (\<lambda>k. if k = 0 then rev [0..<10] else [2, 0, 1, 4, 3])\<rparr>"

lemma exClientEnv_good: "goodEnv exClientEnv"
proof -
  have "signed_take_bit 63 (10 ^ 15 + int n mod 1000 * 1000) = 10 ^ 15 + int n mod 1000 * 1000" for n
    using pos_mod_bound [of 1000 "int n"] pos_mod_sign [of 1000 "int n"] by (intro signed_take_bit_int_eq_self) simp_all
  then have "0 \<le> sint (word_of_int (10 ^ 15 + int n mod 1000 * 1000) :: int64)" for n
    using pos_mod_sign [of 1000 "int n"] by (simp add: sint_sbintrunc' del: of_int_add of_int_mult of_int_power)
  then show ?thesis by (auto simp del: of_int_add of_int_mult simp: goodEnv_def exClientEnv_def goodClock_def minutes_def)
qed

section \<open>Properties\<close>

text \<open>C7: with a client library that keeps its contract, on a working server whose table is empty, every test of the suite passes
  when the clocks are after 1970 and every goroutine of the concurrent tests runs, in any order; every random round trip
  passes too, and the command ends with exit code 0.\<close>

theorem client_passes:
  fixes P :: "'db pebble"
  assumes "bigtable_client st contents ok P view flushed J up isDir clock T name rqs"
    "working_server.served st contents ok P view J up isDir name sv (78 + 2 * fuzz) Map.empty" "goodEnv E"
  shows "clientMain T E fuzz (sv, 0) =
    (map (PASS \<circ> fst) (clientTests T E) @ (if fuzz > 0 then [FuzzTest fuzz, FuzzPASS] else []) @ [AllPassed], 0)"
  by (rule bigtable_client.client_run [OF assms(1,3,2)])

theorem client_passes_witness:
  "clientMain exClient exClientEnv 3 (exNew, 0) = (map (PASS \<circ> fst) (clientTests exClient exClientEnv) @ [FuzzTest 3, FuzzPASS, AllPassed], 0)"
  using client_passes [OF exClient.bigtable_client_axioms exNew_served exClientEnv_good, of 3] by simp

text \<open>C18: whatever the seed, the random cell of a round trip can be written, is read back with its value and is deleted: the
  round trip returns no error and leaves the table as it was, when its row was empty.\<close>

theorem fuzz_round_trip:
  fixes P :: "'db pebble"
  assumes "bigtable_client st contents ok P view flushed J up isDir clock T name rqs"
    "working_server.served st contents ok P view J up isDir name sv (n + 2) C" "cleanTable C" "0 \<le> sint now"
    "rowCells C (fst (fuzzCell T now seed)) = {}"
  shows "\<exists>sv'. fuzzRoundTrip T now seed (sv, i) = (Inr (), (sv', i + 3)) \<and>
    working_server.served st contents ok P view J up isDir name sv' n C"
  using bigtable_client.fuzz_run [OF assms] .

theorem fuzz_round_trip_witness:
  "\<exists>sv'. fuzzRoundTrip exClient 5000 (- 7) (exNew, 0) = (Inr (), (sv', 3)) \<and> exServing.served ''t'' sv' 4 Map.empty"
  using fuzz_round_trip [OF exClient.bigtable_client_axioms exNew_served [of "4 + 2"] clean_empty, of 5000 "- 7" 0] by (simp add: rowCells_def)

end
