(* ===== verification/Spec2Isabelle.thy ===== *)
theory Spec2Isabelle
  imports CloudPrelude Encoding RowFilters Paths ObjStore WalCloud PebbleDB CloudEngine CloudRecovery CloudDurability EngineProperties
    BigtableServer Mutations ReadRows ReadModifyWrite Session BigtableProperties StoreContract RecoveryLiveness EngineLiveness EventualMode
    ServerHistory Commands FilteredReads ServerLiveness BigtableClient ClientTests ClientRuns ClientScans ClientSuite ReferenceClient
begin

text \<open>
  \<^bold>\<open>CloudPebble.\<close> A Bigtable-compatible server on Pebble, a local key-value store, with object
  storage behind it for durability. This library models the Go code under \<open>pkg/\<close>
  and the commands of \<open>cmd/\<close> that run it on local directories.

  \<^bold>\<open>The parts and how they meet.\<close> A gRPC handler of \<open>pkg/bigtable\<close> finds the engine of its table,
  translates the request into a Pebble batch over encoded cell keys, and calls the engine. The engine
  (\<open>pkg/engine\<close>) writes the batch as a log object through the log manager (\<open>pkg/walcloud\<close>), applies it to
  Pebble, and now and then uploads a checkpoint with a manifest and collects the log. The
  object store (\<open>pkg/objstore\<close>) is a directory or a GCS bucket. Opening an engine downloads the
  checkpoint and replays the log.

  \<^bold>\<open>Theories and sources.\<close>
  \<^item> \<open>CloudPrelude\<close>: byte strings with Go's slices and big-endian numbers, their order, Go errors,
    decimal numbers; the collections \<open>order_simps\<close> and \<open>byte_simps\<close>.
  \<^item> \<open>Encoding\<close> (\<open>bigtable/encoding.go\<close>): cell keys and scan bounds, with the buffer writes and index
    loops of the code. Decoding inverts encoding, byte order is the promised order of cells, and
    the bounds of a row, family, column and timestamp range cover exactly the cells they should.
  \<^item> \<open>RowFilters\<close> (\<open>bigtable/filter.go\<close>, \<open>types.go\<close>): building a filter tree, evaluating it with its counters,
    resetting it. Trees without counters agree with a boolean meaning.
  \<^item> \<open>Paths\<close> and \<open>ObjStore\<close> (\<open>objstore/store.go\<close>, \<open>local/local.go\<close>, \<open>gcs/gcs.go\<close>): Go's path functions, a file system with
    scheduled faults, and both stores. The locale \<open>object_store\<close> is the contract of the interface and
    is interpreted on both.
  \<^item> \<open>WalCloud\<close> (\<open>walcloud/manager.go\<close>): the log manager. Goroutines and channels are fields of the record
    \<open>manager\<close>; \<open>walStep\<close> is the relation of everything that can happen next, and invariants of
    all interleavings are proved by rule induction.
  \<^item> \<open>PebbleDB\<close>: the operations of Pebble as a record, its documented behaviour as the locale
    \<open>pebble_db\<close>, and a reference database that keeps it.
  \<^item> \<open>CloudEngine\<close> (\<open>engine/engine.go\<close>, \<open>metrics.go\<close>): the engine with the world it runs in. \<open>CloudRecovery\<close> says what object
    storage stands for (\<open>durable\<close>) and that opening yields it; \<open>CloudDurability\<close> has the invariant
    \<open>engineInv\<close>, kept by writes and syncs; \<open>EngineProperties\<close> states the results and gives an example
    deployment. The locale \<open>cloud_engine\<close> joins the contracts of store, database and codec.
  \<^item> \<open>BigtableServer\<close> (\<open>bigtable/server.go\<close>): the table map and small RPCs. The store and file system
    that the engines share are fields of the server.
  \<^item> \<open>Mutations\<close> (\<open>bigtable/mutate.go\<close>): mutations to batch operations, and the three writing RPCs. The
    abstract table \<open>cellsOf\<close> maps cells to values; \<open>specMutation\<close> is what a mutation means on it.
  \<^item> \<open>ReadRows\<close> (\<open>bigtable/readrows.go\<close>): the scan. Chunks may be views of the reused value buffer, so
    the arrays are part of the state and a view is read when it is sent.
  \<^item> \<open>ReadModifyWrite\<close> (\<open>bigtable/readmodifywrite.go\<close>, \<open>samplekeys.go\<close>): rules over an indexed batch, and sampled offsets.
  \<^item> \<open>Session\<close> (\<open>bigtable/session.go\<close>): the session loop over an infinite stream of received messages, a
    partial function because it need not end, and its dispatch.
  \<^item> \<open>BigtableProperties\<close>: the RPCs composed with the engine, and an example server.
  \<^item> \<open>StoreContract\<close> (\<open>objstore/testutil/testutil.go\<close>): the contract tests, and the locale \<open>available_store\<close> of a store
    that answers, which both stores satisfy.
  \<^item> \<open>RecoveryLiveness\<close>, \<open>EngineLiveness\<close>, \<open>EventualMode\<close>: on a store, a file system and a database that work,
    opening, writing, reading and syncing succeed. The locales \<open>live_engine\<close> and \<open>working_engine\<close> extend
    \<open>cloud_engine\<close>. \<open>EventualMode\<close> treats engines that open before their log is replayed.
  \<^item> \<open>FilteredReads\<close>: what a read sends, for every filter and with the commit of every row; the scan is
    related in two steps to a list of filtered rows.
  \<^item> \<open>ServerLiveness\<close>: on a working environment every writing request is answered and means on the cells
    what its message says, and a read sends the cells of the table (locale \<open>working_server\<close>).
  \<^item> \<open>ServerHistory\<close>: histories of answered requests as an inductive relation, and two halves of a
    read-modify-write that can interleave.
  \<^item> \<open>Commands\<close> (\<open>cmd/test-recovery\<close>, \<open>cmd/test-eventual\<close>, \<open>cmd/cloudpebble\<close>): the commands as programs on two
    file systems that end normally and print what they promise.
  \<^item> \<open>BigtableClient\<close>: the client library of Bigtable as a record of calls, with the locale \<open>bigtable_client\<close> of what
    its documentation promises (a call sends one request and returns what the answer says), programs
    of such calls, and the laws that follow on a working server.
  \<^item> \<open>ClientTests\<close> (\<open>cmd/test-bigtable-client\<close>): the 36 integration tests, the random generator, the random round
    trip and \<open>main\<close> after the client is connected. \<open>ClientRuns\<close> and \<open>ClientScans\<close> show what each test does to
    the cells, \<open>ClientSuite\<close> that they pass in their order. \<open>ReferenceClient\<close> is a client library that keeps the
    contract on every working server.

  \<^bold>\<open>What is shown.\<close> An acknowledged write is in object storage in every interleaving of the log
  manager; whatever sequence of successful writes and syncs an engine performs, opening its namespace
  elsewhere shows exactly the acknowledged batches; a mutation, a conditional mutation and a
  read-modify-write that answer without error have on the cells of the table, and on what a recovery
  would show, the effect that their messages describe; a read streams exactly the cells of the
  requested rows. A whole history of answered requests is what a server opened elsewhere shows. When the
  environment works, recovery succeeds, the eventual mode converges, sessions end, and the contract
  tests, the test commands and the integration tests of the client pass. Several theorems show the limits: writes lost after a restart on a
  collected log, writes lost to a concurrent sync or to the eventual mode, increments lost between
  concurrent requests, entries reported as applied that were not, long values overwritten while
  buffered.

  \<^bold>\<open>Parameters.\<close> Code that is not in the repository is an argument: the object-store client, the Bigtable client, Pebble,
  JSON and SHA-256, the regular-expression compiler, random numbers, protocol-buffer encoding, the
  OpenTelemetry meter, the capacity that the runtime gives a grown slice. What a request observes of
  clocks is an argument too. Faults of the file system and of streams are schedules in the state.

  \<^bold>\<open>Bounds.\<close> Timestamps, sequence numbers and offsets are 64-bit words and length fields are words of
  their width. Results on durability ask that the sequence counter is not at its last value. Results on
  cells ask for families under 255 bytes, qualifiers under 65280 bytes and timestamps above the
  lowest 256th of their range, the cells that the scan bounds of the code reach. There is no fuel:
  loops are structural or have a measure; the reference database alone reads its
  files with fuel, the number of bytes.

  \<^bold>\<open>Not modelled.\<close> The commands that start processes, dial servers or measure (\<open>pebble-bigtable\<close>,
  \<open>test-gcs-writes\<close>, \<open>test-incremental\<close>, \<open>test-coldmiss\<close>) and the part of \<open>test-bigtable-client\<close> that
  starts the server and dials it, the generated
  protocol-buffer code (its messages appear as records), logging. Requests to the server run one at a
  time, in an order that is an argument where goroutines make them; the interleavings treated are those of the log manager, of a sync with writes and of two
  read-modify-writes.
\<close>

end
